(* ===== verification/Prelude.thy ===== *)
theory Prelude
  imports Main "HOL-Library.Word"
begin

unbundle bit_operations_syntax

text \<open>
  Shared vocabulary of the Piko/RT development: the machine types of the ARMv7-M target
  (\<^verbatim>\<open>include/kernel/types.h\<close>, \<^verbatim>\<open>include/linux/types.h\<close>), the collections of
  simplification facts the component theories extend, and generic lemmas about words,
  lists and maps that several components use.
\<close>

section \<open>Machine types\<close>

text \<open>
  \<^verbatim>\<open>unsigned long\<close>, \<^verbatim>\<open>size_t\<close> and pointers are 32 bits wide on the target. An array
  reached through an \<^verbatim>\<open>unsigned long *\<close> is a function from word indices to words.
\<close>

type_synonym u8 = "8 word"
type_synonym u16 = "16 word"
type_synonym u32 = "32 word"
type_synonym s32 = "32 word"
type_synonym u64 = "64 word"
type_synonym addr = u32
type_synonym words = "nat \<Rightarrow> u32"

section \<open>Error numbers\<close>

definition ENOENT :: int where "ENOENT = 2"
definition ESRCH :: int where "ESRCH = 3"
definition EBADF :: int where "EBADF = 9"
definition EAGAIN :: int where "EAGAIN = 11"
definition ENOMEM :: int where "ENOMEM = 12"
definition EFAULT :: int where "EFAULT = 14"
definition ENOTDIR :: int where "ENOTDIR = 20"
definition EINVAL :: int where "EINVAL = 22"
definition EROFS :: int where "EROFS = 30"

text \<open>Fact collections, extended by the component theories.\<close>

named_theorems bitmap_simps \<open>how bitmap reads see bitmap writes\<close>
named_theorems list_head_simps \<open>how link reads see link writes\<close>
named_theorems kernel_defs \<open>definitions of straight-line kernel operations\<close>

section \<open>Words\<close>

lemma bit_one_shift: "bit (push_bit n (1 :: 'a::len word)) m \<longleftrightarrow> m = n \<and> n < LENGTH('a)"
  by (auto simp: bit_simps)

lemma word_eq_0_iff_bits: "(w :: 'a::len word) = 0 \<longleftrightarrow> (\<forall>i<LENGTH('a). \<not> bit w i)"
  by (auto intro: bit_word_eqI)

lemma word_eq_max_iff_bits: "(w :: 'a::len word) = NOT 0 \<longleftrightarrow> (\<forall>i<LENGTH('a). bit w i)"
proof -
  have "w = NOT 0 \<longleftrightarrow> NOT w = 0"
    by (metis bit.double_compl)
  then show ?thesis
    by (simp add: word_eq_0_iff_bits bit_simps)
qed

lemma unat_add_no_wrap:
  fixes a b :: "'a::len word"
  assumes "unat a + unat b < 2 ^ LENGTH('a)"
  shows "unat (a + b) = unat a + unat b"
  using assms by (simp add: unat_word_ariths)

lemma unat_of_nat_small: "n < 2 ^ LENGTH('a) \<Longrightarrow> unat (of_nat n :: 'a::len word) = n"
  by (simp add: unat_of_nat)

lemma unat_2_power:
  assumes "k < LENGTH('a::len)"
  shows "unat ((2 :: 'a word) ^ k) = 2 ^ k"
proof -
  have "(2 :: 'a word) ^ k = of_nat (2 ^ k)" by simp
  moreover have "unat (of_nat (2 ^ k) :: 'a word) = 2 ^ k"
    using assms by (intro unat_of_nat_small) simp
  ultimately show ?thesis by (simp only:)
qed

section \<open>Searching\<close>

lemma takeWhile_stop: "(\<And>x. x \<in> set xs \<Longrightarrow> P x) \<Longrightarrow> \<not> P y \<Longrightarrow> takeWhile P (xs @ y # ys) = xs"
  by (simp add: takeWhile_append2)

lemma find_upt_None: "find P [m..<n] = None \<longleftrightarrow> (\<forall>i. m \<le> i \<longrightarrow> i < n \<longrightarrow> \<not> P i)"
  by (auto simp: find_None_iff)

lemma find_upt_SomeD:
  assumes "find P [m..<n] = Some i"
  shows "P i" "m \<le> i" "i < n" "\<And>j. m \<le> j \<Longrightarrow> j < i \<Longrightarrow> \<not> P j"
proof -
  from assms obtain k where k: "k < length [m..<n]" "P ([m..<n] ! k)" "i = [m..<n] ! k"
      "\<forall>j<k. \<not> P ([m..<n] ! j)"
    by (auto simp: find_Some_iff)
  then show "P i" "m \<le> i" "i < n" by auto
  fix j assume "m \<le> j" "j < i"
  with k show "\<not> P j"
    by (auto dest!: spec [of _ "j - m"])
qed

section \<open>Lists\<close>

lemma remove1_Cons_neq [simp]: "x \<noteq> y \<Longrightarrow> remove1 x (y # xs) = y # remove1 x xs"
  by simp

lemma remove1_middle [simp]: "x \<notin> set xs \<Longrightarrow> remove1 x (xs @ x # ys) = xs @ ys"
  by (simp add: remove1_append)

lemma distinct_in_split:
  assumes "x \<in> set xs" "distinct xs"
  obtains ys zs where "xs = ys @ x # zs" "x \<notin> set ys" "x \<notin> set zs"
  using assms by (metis distinct.simps(2) distinct_append not_distinct_conv_prefix split_list
      Un_iff disjoint_iff list.set_intros(1))

section \<open>Machines with guarded operations\<close>

text \<open>
  A machine is a partial step function and the guard under which its user may perform each
  operation. \<open>reaches\<close> is the reachability relation of the machine.
\<close>

inductive reaches :: "('op \<Rightarrow> 's \<Rightarrow> 's option) \<Rightarrow> ('op \<Rightarrow> 's \<Rightarrow> bool) \<Rightarrow> 's \<Rightarrow> 's \<Rightarrow> bool"
  for exec :: "'op \<Rightarrow> 's \<Rightarrow> 's option" and enabled :: "'op \<Rightarrow> 's \<Rightarrow> bool" where
  reaches_refl: "reaches exec enabled s s"
| reaches_step: "reaches exec enabled s t \<Longrightarrow> enabled op t \<Longrightarrow> exec op t = Some u \<Longrightarrow> reaches exec enabled s u"

locale guarded_machine =
  fixes exec :: "'op \<Rightarrow> 's \<Rightarrow> 's option" and enabled :: "'op \<Rightarrow> 's \<Rightarrow> bool" and inv :: "'s \<Rightarrow> bool"
  assumes step: "inv s \<Longrightarrow> enabled op s \<Longrightarrow> \<exists>t. exec op s = Some t \<and> inv t"
begin

lemma reachable_inv:
  assumes "reaches exec enabled s t" "inv s"
  shows "inv t"
  using assms
proof (induction rule: reaches.induct)
  case (reaches_step s t op u)
  then show ?case using step by fastforce
qed

lemma never_stuck:
  assumes "reaches exec enabled s t" "inv s" "enabled op t"
  shows "\<exists>u. exec op t = Some u"
  using reachable_inv [OF assms(1,2)] step assms(3) by blast

end

end
