(* ===== verification/Linux_List.thy ===== *)
theory Linux_List
  imports Prelude "HOL-Library.Monad_Syntax"
begin

text \<open>
  The intrusive circular doubly linked lists of \<^verbatim>\<open>include/linux/list.h\<close>, at the level of
  their pointers. A \<^verbatim>\<open>struct list_head\<close> object is named by a value of the type parameter
  \<open>'n\<close>; a pointer to one is \<open>Node n\<close>, or one of the two poison values of
  \<^verbatim>\<open>include/linux/poison.h\<close> that a deleted entry holds. An access through a poison pointer
  is a memory fault, the value \<open>None\<close>.

  The abstraction relation \<open>lists h Q\<close> says that the link fields \<open>h\<close> hold the disjoint
  rings \<open>Q\<close> (a map from head objects to the sequence of entries). The lemmas show that
  each routine of the header succeeds on such a heap and does to \<open>Q\<close> what its comment
  promises: insertion at the front or at the back, deletion, moves, splices, cuts. The
  locale \<open>list_store\<close> is the contract the components above use.
\<close>

section \<open>Link fields and their accesses\<close>

datatype 'n link = LIST_POISON1 | LIST_POISON2 | Node 'n

record 'n links =
  lnext :: "'n \<Rightarrow> 'n link"
  lprev :: "'n \<Rightarrow> 'n link"

definition rd_next :: "'n links \<Rightarrow> 'n link \<Rightarrow> 'n link option" where
  "rd_next h p = (case p of Node n \<Rightarrow> Some (lnext h n) | _ \<Rightarrow> None)"

definition rd_prev :: "'n links \<Rightarrow> 'n link \<Rightarrow> 'n link option" where
  "rd_prev h p = (case p of Node n \<Rightarrow> Some (lprev h n) | _ \<Rightarrow> None)"

definition wr_next :: "'n links \<Rightarrow> 'n link \<Rightarrow> 'n link \<Rightarrow> 'n links option" where
  "wr_next h p v = (case p of Node n \<Rightarrow> Some (h\<lparr>lnext := (lnext h)(n := v)\<rparr>) | _ \<Rightarrow> None)"

definition wr_prev :: "'n links \<Rightarrow> 'n link \<Rightarrow> 'n link \<Rightarrow> 'n links option" where
  "wr_prev h p v = (case p of Node n \<Rightarrow> Some (h\<lparr>lprev := (lprev h)(n := v)\<rparr>) | _ \<Rightarrow> None)"

section \<open>The routines of list.h\<close>

definition INIT_LIST_HEAD :: "'n links \<Rightarrow> 'n link \<Rightarrow> 'n links option" where
  "INIT_LIST_HEAD h l = do { h \<leftarrow> wr_next h l l; wr_prev h l l }"

definition list_add_between ::
    "'n links \<Rightarrow> 'n link \<Rightarrow> 'n link \<Rightarrow> 'n link \<Rightarrow> 'n links option" where
  "list_add_between h new prv nxt = do {
     h \<leftarrow> wr_prev h nxt new;
     h \<leftarrow> wr_next h new nxt;
     h \<leftarrow> wr_prev h new prv;
     wr_next h prv new }"

definition list_add :: "'n links \<Rightarrow> 'n link \<Rightarrow> 'n link \<Rightarrow> 'n links option" where
  "list_add h new head = do { nxt \<leftarrow> rd_next h head; list_add_between h new head nxt }"

definition list_add_tail :: "'n links \<Rightarrow> 'n link \<Rightarrow> 'n link \<Rightarrow> 'n links option" where
  "list_add_tail h new head = do { prv \<leftarrow> rd_prev h head; list_add_between h new prv head }"

definition list_del_between :: "'n links \<Rightarrow> 'n link \<Rightarrow> 'n link \<Rightarrow> 'n links option" where
  "list_del_between h prv nxt = do { h \<leftarrow> wr_prev h nxt prv; wr_next h prv nxt }"

definition list_del_entry :: "'n links \<Rightarrow> 'n link \<Rightarrow> 'n links option" where
  "list_del_entry h entry = do {
     prv \<leftarrow> rd_prev h entry;
     nxt \<leftarrow> rd_next h entry;
     list_del_between h prv nxt }"

definition list_del :: "'n links \<Rightarrow> 'n link \<Rightarrow> 'n links option" where
  "list_del h entry = do {
     prv \<leftarrow> rd_prev h entry;
     nxt \<leftarrow> rd_next h entry;
     h \<leftarrow> list_del_between h prv nxt;
     h \<leftarrow> wr_next h entry LIST_POISON1;
     wr_prev h entry LIST_POISON2 }"

definition list_replace :: "'n links \<Rightarrow> 'n link \<Rightarrow> 'n link \<Rightarrow> 'n links option" where
  "list_replace h old new = do {
     nxt \<leftarrow> rd_next h old;
     h \<leftarrow> wr_next h new nxt;
     nxt \<leftarrow> rd_next h new;
     h \<leftarrow> wr_prev h nxt new;
     prv \<leftarrow> rd_prev h old;
     h \<leftarrow> wr_prev h new prv;
     prv \<leftarrow> rd_prev h new;
     wr_next h prv new }"

definition list_replace_init :: "'n links \<Rightarrow> 'n link \<Rightarrow> 'n link \<Rightarrow> 'n links option" where
  "list_replace_init h old new = do { h \<leftarrow> list_replace h old new; INIT_LIST_HEAD h old }"

definition list_del_init :: "'n links \<Rightarrow> 'n link \<Rightarrow> 'n links option" where
  "list_del_init h entry = do { h \<leftarrow> list_del_entry h entry; INIT_LIST_HEAD h entry }"

definition list_move :: "'n links \<Rightarrow> 'n link \<Rightarrow> 'n link \<Rightarrow> 'n links option" where
  "list_move h l head = do { h \<leftarrow> list_del_entry h l; list_add h l head }"

definition list_move_tail :: "'n links \<Rightarrow> 'n link \<Rightarrow> 'n link \<Rightarrow> 'n links option" where
  "list_move_tail h l head = do { h \<leftarrow> list_del_entry h l; list_add_tail h l head }"

definition list_is_last :: "'n links \<Rightarrow> 'n link \<Rightarrow> 'n link \<Rightarrow> bool option" where
  "list_is_last h l head = do { nxt \<leftarrow> rd_next h l; Some (nxt = head) }"

definition list_empty :: "'n links \<Rightarrow> 'n link \<Rightarrow> bool option" where
  "list_empty h head = do { nxt \<leftarrow> rd_next h head; Some (nxt = head) }"

definition list_empty_careful :: "'n links \<Rightarrow> 'n link \<Rightarrow> bool option" where
  "list_empty_careful h head = do {
     nxt \<leftarrow> rd_next h head;
     prv \<leftarrow> rd_prev h head;
     Some (nxt = head \<and> nxt = prv) }"

definition list_rotate_left :: "'n links \<Rightarrow> 'n link \<Rightarrow> 'n links option" where
  "list_rotate_left h head = do {
     e \<leftarrow> list_empty h head;
     if \<not> e then do { first \<leftarrow> rd_next h head; list_move_tail h first head } else Some h }"

definition list_is_singular :: "'n links \<Rightarrow> 'n link \<Rightarrow> bool option" where
  "list_is_singular h head = do {
     e \<leftarrow> list_empty h head;
     nxt \<leftarrow> rd_next h head;
     prv \<leftarrow> rd_prev h head;
     Some (\<not> e \<and> nxt = prv) }"

definition list_cut_at :: "'n links \<Rightarrow> 'n link \<Rightarrow> 'n link \<Rightarrow> 'n link \<Rightarrow> 'n links option" where
  "list_cut_at h l head entry = do {
     new_first \<leftarrow> rd_next h entry;
     first \<leftarrow> rd_next h head;
     h \<leftarrow> wr_next h l first;
     first \<leftarrow> rd_next h l;
     h \<leftarrow> wr_prev h first l;
     h \<leftarrow> wr_prev h l entry;
     h \<leftarrow> wr_next h entry l;
     h \<leftarrow> wr_next h head new_first;
     wr_prev h new_first head }"

definition list_cut_position ::
    "'n links \<Rightarrow> 'n link \<Rightarrow> 'n link \<Rightarrow> 'n link \<Rightarrow> 'n links option" where
  "list_cut_position h l head entry = do {
     e \<leftarrow> list_empty h head;
     if e then Some h else do {
       s \<leftarrow> list_is_singular h head;
       first \<leftarrow> rd_next h head;
       if s \<and> first \<noteq> entry \<and> head \<noteq> entry then Some h
       else if entry = head then INIT_LIST_HEAD h l
       else list_cut_at h l head entry } }"

definition list_splice_between ::
    "'n links \<Rightarrow> 'n link \<Rightarrow> 'n link \<Rightarrow> 'n link \<Rightarrow> 'n links option" where
  "list_splice_between h l prv nxt = do {
     first \<leftarrow> rd_next h l;
     lst \<leftarrow> rd_prev h l;
     h \<leftarrow> wr_prev h first prv;
     h \<leftarrow> wr_next h prv first;
     h \<leftarrow> wr_next h lst nxt;
     wr_prev h nxt lst }"

definition list_splice :: "'n links \<Rightarrow> 'n link \<Rightarrow> 'n link \<Rightarrow> 'n links option" where
  "list_splice h l head = do {
     e \<leftarrow> list_empty h l;
     if \<not> e then do { nxt \<leftarrow> rd_next h head; list_splice_between h l head nxt } else Some h }"

definition list_splice_tail :: "'n links \<Rightarrow> 'n link \<Rightarrow> 'n link \<Rightarrow> 'n links option" where
  "list_splice_tail h l head = do {
     e \<leftarrow> list_empty h l;
     if \<not> e then do { prv \<leftarrow> rd_prev h head; list_splice_between h l prv head } else Some h }"

definition list_splice_init :: "'n links \<Rightarrow> 'n link \<Rightarrow> 'n link \<Rightarrow> 'n links option" where
  "list_splice_init h l head = do {
     e \<leftarrow> list_empty h l;
     if \<not> e then do {
       nxt \<leftarrow> rd_next h head;
       h \<leftarrow> list_splice_between h l head nxt;
       INIT_LIST_HEAD h l } else Some h }"

definition list_splice_tail_init :: "'n links \<Rightarrow> 'n link \<Rightarrow> 'n link \<Rightarrow> 'n links option" where
  "list_splice_tail_init h l head = do {
     e \<leftarrow> list_empty h l;
     if \<not> e then do {
       prv \<leftarrow> rd_prev h head;
       h \<leftarrow> list_splice_between h l prv head;
       INIT_LIST_HEAD h l } else Some h }"

text \<open>
  \<^verbatim>\<open>list_first_entry\<close>, \<^verbatim>\<open>list_last_entry\<close>, \<^verbatim>\<open>list_next_entry\<close> and \<^verbatim>\<open>list_prev_entry\<close> are
  one link read followed by \<^verbatim>\<open>container_of\<close>. The loop \<^verbatim>\<open>list_for_each_entry\<close> with a test
  and a \<^verbatim>\<open>return\<close> in its body is a search: it stops at the first entry that passes the test,
  or at the head. On a corrupted ring it may run forever, so it is a partial function.
\<close>

definition list_first_entry :: "'n links \<Rightarrow> 'n link \<Rightarrow> 'n link option" where
  "list_first_entry h head = rd_next h head"

definition list_last_entry :: "'n links \<Rightarrow> 'n link \<Rightarrow> 'n link option" where
  "list_last_entry h head = rd_prev h head"

definition list_next_entry :: "'n links \<Rightarrow> 'n link \<Rightarrow> 'n link option" where
  "list_next_entry h pos = rd_next h pos"

definition list_prev_entry :: "'n links \<Rightarrow> 'n link \<Rightarrow> 'n link option" where
  "list_prev_entry h pos = rd_prev h pos"

definition list_first_entry_or_null :: "'n links \<Rightarrow> 'n link \<Rightarrow> 'n link option option" where
  "list_first_entry_or_null h head = do {
     e \<leftarrow> list_empty h head;
     if \<not> e then do { p \<leftarrow> list_first_entry h head; Some (Some p) } else Some None }"

partial_function (option) list_search ::
    "'n links \<Rightarrow> ('n \<Rightarrow> bool) \<Rightarrow> 'n link \<Rightarrow> 'n link \<Rightarrow> 'n option option" where
  "list_search h test head pos =
     (if pos = head then Some None
      else case pos of
             Node n \<Rightarrow> if test n then Some (Some n)
                       else do { nxt \<leftarrow> rd_next h pos; list_search h test head nxt }
           | _ \<Rightarrow> None)"

definition list_for_each_entry_find ::
    "'n links \<Rightarrow> ('n \<Rightarrow> bool) \<Rightarrow> 'n link \<Rightarrow> 'n option option" where
  "list_for_each_entry_find h test head = do {
     pos \<leftarrow> list_first_entry h head;
     list_search h test head pos }"

section \<open>Chains and rings\<close>

text \<open>\<open>linked h ns\<close>: each node of \<open>ns\<close> points forward to the next one, which points back.\<close>

fun linked :: "'n links \<Rightarrow> 'n list \<Rightarrow> bool" where
  "linked h [] = True"
| "linked h [a] = True"
| "linked h (a # b # ns) = (lnext h a = Node b \<and> lprev h b = Node a \<and> linked h (b # ns))"

definition ring :: "'n links \<Rightarrow> 'n \<Rightarrow> 'n list \<Rightarrow> bool" where
  "ring h hn xs \<longleftrightarrow> distinct (hn # xs) \<and> linked h (hn # xs @ [hn])"

definition ring_nodes :: "('n \<rightharpoonup> 'n list) \<Rightarrow> 'n set" where
  "ring_nodes Q = (\<Union>hn\<in>dom Q. insert hn (set (the (Q hn))))"

definition lists :: "'n links \<Rightarrow> ('n \<rightharpoonup> 'n list) \<Rightarrow> bool" where
  "lists h Q \<longleftrightarrow>
     (\<forall>hn xs. Q hn = Some xs \<longrightarrow> ring h hn xs) \<and>
     (\<forall>a xs b ys. Q a = Some xs \<longrightarrow> Q b = Some ys \<longrightarrow> a \<noteq> b \<longrightarrow>
        set (a # xs) \<inter> set (b # ys) = {})"

text \<open>\<open>h'\<close> differs from \<open>h\<close> at most in the fields of the nodes of \<open>S\<close>.\<close>

definition same_off :: "'n set \<Rightarrow> 'n links \<Rightarrow> 'n links \<Rightarrow> bool" where
  "same_off S h h' \<longleftrightarrow> (\<forall>n. n \<notin> S \<longrightarrow> lnext h' n = lnext h n \<and> lprev h' n = lprev h n)"

lemma access_Node [simp]:
  "rd_next h (Node n) = Some (lnext h n)"
  "rd_prev h (Node n) = Some (lprev h n)"
  "wr_next h (Node n) v = Some (h\<lparr>lnext := (lnext h)(n := v)\<rparr>)"
  "wr_prev h (Node n) v = Some (h\<lparr>lprev := (lprev h)(n := v)\<rparr>)"
  by (simp_all add: rd_next_def rd_prev_def wr_next_def wr_prev_def)

lemma access_poison [simp]:
  "rd_next h LIST_POISON1 = None" "rd_next h LIST_POISON2 = None"
  "rd_prev h LIST_POISON1 = None" "rd_prev h LIST_POISON2 = None"
  "wr_next h LIST_POISON1 v = None" "wr_next h LIST_POISON2 v = None"
  "wr_prev h LIST_POISON1 v = None" "wr_prev h LIST_POISON2 v = None"
  by (simp_all add: rd_next_def rd_prev_def wr_next_def wr_prev_def)

lemma linked_append: "linked h (xs @ y # ys) \<longleftrightarrow> linked h (xs @ [y]) \<and> linked h (y # ys)"
proof (induction xs)
  case (Cons x xs)
  then show ?case by (cases xs) auto
qed simp

lemma linked_cong:
  assumes "\<And>n. n \<in> set (butlast ns) \<Longrightarrow> lnext h' n = lnext h n"
    and "\<And>n. n \<in> set (tl ns) \<Longrightarrow> lprev h' n = lprev h n"
  shows "linked h' ns \<longleftrightarrow> linked h ns"
  using assms by (induction h ns rule: linked.induct) auto

lemma same_off_refl [simp]: "same_off S h h"
  by (simp add: same_off_def)

lemma same_off_trans: "same_off S h h' \<Longrightarrow> same_off S h' h'' \<Longrightarrow> same_off S h h''"
  by (auto simp: same_off_def)

lemma same_off_mono: "same_off S h h' \<Longrightarrow> S \<subseteq> T \<Longrightarrow> same_off T h h'"
  by (auto simp: same_off_def)

lemma ring_frame:
  assumes "ring h hn xs" "same_off S h h'" "S \<inter> set (hn # xs) = {}"
  shows "ring h' hn xs"
proof -
  have "linked h' (hn # xs @ [hn]) \<longleftrightarrow> linked h (hn # xs @ [hn])"
    by (rule linked_cong) (use assms in \<open>auto simp: same_off_def butlast_append\<close>)
  with assms show ?thesis by (simp add: ring_def)
qed

lemma ring_next: "ring h hn xs \<Longrightarrow> lnext h hn = Node (case xs of [] \<Rightarrow> hn | x # _ \<Rightarrow> x)"
  by (cases xs) (auto simp: ring_def)

lemma linked_snoc: "linked h (xs @ [y, z]) \<Longrightarrow> lprev h z = Node y"
  by (subst (asm) linked_append) simp

lemma ring_prev: "ring h hn xs \<Longrightarrow> lprev h hn = Node (if xs = [] then hn else last xs)"
proof (cases xs rule: rev_cases)
  case (snoc ys y)
  assume "ring h hn xs"
  with snoc show ?thesis
    using linked_snoc [of h "hn # ys" y hn] by (simp add: ring_def)
qed (auto simp: ring_def)

lemma ring_entry:
  assumes "ring h hn (ys @ n # zs)"
  shows "lnext h n = Node (case zs of [] \<Rightarrow> hn | z # _ \<Rightarrow> z)"
    and "lprev h n = Node (if ys = [] then hn else last ys)"
proof -
  from assms have l: "linked h ((hn # ys) @ n # (zs @ [hn]))" by (simp add: ring_def)
  then have pre: "linked h ((hn # ys) @ [n])" and post: "linked h (n # zs @ [hn])"
    using linked_append [of h "hn # ys" n "zs @ [hn]"] by blast+
  show "lnext h n = Node (case zs of [] \<Rightarrow> hn | z # _ \<Rightarrow> z)"
    using post by (cases zs) auto
  show "lprev h n = Node (if ys = [] then hn else last ys)"
  proof (cases ys rule: rev_cases)
    case Nil
    with pre show ?thesis by simp
  next
    case (snoc ws w)
    with pre linked_snoc [of h "hn # ws" w n] show ?thesis by simp
  qed
qed

section \<open>Insertion into and deletion from a ring\<close>

text \<open>The nodes around the gap between \<open>ys\<close> and \<open>zs\<close> in the ring with head \<open>hn\<close>.\<close>

definition gap_prev :: "'n \<Rightarrow> 'n list \<Rightarrow> 'n" where
  "gap_prev hn ys = (if ys = [] then hn else last ys)"

definition gap_next :: "'n \<Rightarrow> 'n list \<Rightarrow> 'n" where
  "gap_next hn zs = (case zs of [] \<Rightarrow> hn | z # _ \<Rightarrow> z)"

lemma gap_in: "gap_prev hn ys \<in> set (hn # ys)" "gap_next hn zs \<in> set (hn # zs)"
  by (auto simp: gap_prev_def gap_next_def split: list.splits)

lemma ring_split:
  "hn # (ys @ zs) @ [hn] = butlast (hn # ys) @ gap_prev hn ys # gap_next hn zs # tl (zs @ [hn])"
  by (cases ys rule: rev_cases; cases zs) (auto simp: gap_prev_def gap_next_def)

lemma linked_insert:
  assumes "linked h (as @ p # q # bs)" "n \<notin> set (as @ p # q # bs)"
    and "distinct (butlast (as @ p # q # bs))" "distinct (tl (as @ p # q # bs))"
  shows "linked (h\<lparr>lprev := (lprev h)(q := Node n, n := Node p),
                   lnext := (lnext h)(n := Node q, p := Node n)\<rparr>) (as @ p # n # q # bs)"
    (is "linked ?h _")
proof -
  have l: "linked h (as @ [p])" "linked h (q # bs)"
    using assms(1) linked_append [of h as p "q # bs"] by auto
  have "linked ?h (as @ [p]) \<longleftrightarrow> linked h (as @ [p])"
    by (rule linked_cong) (use assms in \<open>auto simp: butlast_append\<close>, (cases as; auto)+)
  moreover have "linked ?h (q # bs) \<longleftrightarrow> linked h (q # bs)"
  proof (rule linked_cong)
    fix m assume "m \<in> set (butlast (q # bs))"
    with assms show "lnext ?h m = lnext h m"
      by (auto simp: butlast_append dest: in_set_butlastD split: if_splits)
  next
    fix m assume "m \<in> set (tl (q # bs))"
    with assms show "lprev ?h m = lprev h m"
      by (cases as) (auto split: if_splits)
  qed
  ultimately show ?thesis
    using l assms(2) linked_append [of ?h as p "n # q # bs"] by (cases "p = q") auto
qed

lemma linked_remove:
  assumes "linked h (as @ p # n # q # bs)"
    and "distinct (butlast (as @ p # n # q # bs))" "distinct (tl (as @ p # n # q # bs))"
  shows "linked (h\<lparr>lprev := (lprev h)(q := Node p), lnext := (lnext h)(p := Node q)\<rparr>)
           (as @ p # q # bs)"
    (is "linked ?h _")
proof -
  have l: "linked h (as @ [p])" "linked h (q # bs)"
    using assms(1) linked_append [of h as p "n # q # bs"] by auto
  have "linked ?h (as @ [p]) \<longleftrightarrow> linked h (as @ [p])"
    by (rule linked_cong) (use assms in \<open>auto simp: butlast_append\<close>, (cases as; auto)+)
  moreover have "linked ?h (q # bs) \<longleftrightarrow> linked h (q # bs)"
  proof (rule linked_cong)
    fix m assume "m \<in> set (butlast (q # bs))"
    with assms show "lnext ?h m = lnext h m"
      by (auto simp: butlast_append dest: in_set_butlastD split: if_splits)
  next
    fix m assume "m \<in> set (tl (q # bs))"
    with assms show "lprev ?h m = lprev h m"
      by (cases as) (auto split: if_splits)
  qed
  ultimately show ?thesis
    using l linked_append [of ?h as p "q # bs"] by auto
qed

lemma ring_distinct_ends:
  assumes "distinct (hn # xs)"
  shows "distinct (butlast (hn # xs @ [hn]))" "distinct (tl (hn # xs @ [hn]))"
  using assms by (auto simp: butlast_append)

lemma ring_insert:
  assumes "ring h hn (ys @ zs)" "n \<notin> set (hn # ys @ zs)"
  shows "\<exists>h'. list_add_between h (Node n) (Node (gap_prev hn ys)) (Node (gap_next hn zs)) = Some h' \<and>
    ring h' hn (ys @ n # zs) \<and> same_off (insert n (set (hn # ys @ zs))) h h'"
proof -
  let ?p = "gap_prev hn ys" and ?q = "gap_next hn zs"
  let ?h = "h\<lparr>lprev := (lprev h)(?q := Node n, n := Node ?p),
              lnext := (lnext h)(n := Node ?q, ?p := Node n)\<rparr>"
  have d: "distinct (hn # ys @ zs)" using assms by (simp add: ring_def)
  have "n \<notin> set (hn # (ys @ zs) @ [hn])" using assms(2) by auto
  then have "linked ?h (butlast (hn # ys) @ ?p # n # ?q # tl (zs @ [hn]))"
    using assms(1) ring_distinct_ends [OF d]
    by (intro linked_insert) (simp_all only: ring_def not_False_eq_True flip: ring_split)
  also have "butlast (hn # ys) @ ?p # n # ?q # tl (zs @ [hn]) = hn # (ys @ n # zs) @ [hn]"
    using ring_split [of hn ys zs]
    by (cases ys rule: rev_cases; cases zs) (auto simp: gap_prev_def gap_next_def)
  finally have "linked ?h (hn # (ys @ n # zs) @ [hn])" .
  moreover have "distinct (hn # ys @ n # zs)" using d assms(2) by auto
  ultimately have "ring ?h hn (ys @ n # zs)"
    unfolding ring_def by blast
  moreover have "list_add_between h (Node n) (Node ?p) (Node ?q) = Some ?h"
    by (simp add: list_add_between_def)
  moreover have "same_off (insert n (set (hn # ys @ zs))) h ?h"
    using gap_in [of hn ys] gap_in [of hn zs] by (auto simp: same_off_def)
  ultimately show ?thesis by blast
qed

lemma ring_remove:
  assumes "ring h hn (ys @ n # zs)"
  shows "\<exists>h'. list_del_between h (Node (gap_prev hn ys)) (Node (gap_next hn zs)) = Some h' \<and>
    ring h' hn (ys @ zs) \<and> same_off (set (hn # ys @ zs)) h h'"
proof -
  let ?p = "gap_prev hn ys" and ?q = "gap_next hn zs"
  let ?h = "h\<lparr>lprev := (lprev h)(?q := Node ?p), lnext := (lnext h)(?p := Node ?q)\<rparr>"
  have *: "hn # (ys @ n # zs) @ [hn] = butlast (hn # ys) @ ?p # n # ?q # tl (zs @ [hn])"
    by (cases ys rule: rev_cases; cases zs) (auto simp: gap_prev_def gap_next_def)
  have d: "distinct (hn # ys @ n # zs)" using assms by (simp add: ring_def)
  have "linked ?h (butlast (hn # ys) @ ?p # ?q # tl (zs @ [hn]))"
    by (rule linked_remove [of _ _ _ n])
      (use assms ring_distinct_ends [OF d] in \<open>simp_all only: ring_def flip: *\<close>)
  then have "ring ?h hn (ys @ zs)"
    using d by (simp only: ring_def flip: ring_split) simp
  moreover have "list_del_between h (Node ?p) (Node ?q) = Some ?h"
    by (simp add: list_del_between_def)
  moreover have "same_off (set (hn # ys @ zs)) h ?h"
    using gap_in [of hn ys] gap_in [of hn zs] by (auto simp: same_off_def)
  ultimately show ?thesis by blast
qed

section \<open>Families of rings\<close>

lemma ring_nodes_iff: "n \<in> ring_nodes Q \<longleftrightarrow> (\<exists>hn xs. Q hn = Some xs \<and> n \<in> set (hn # xs))"
  by (auto simp: ring_nodes_def dom_def) force

lemma listsD: "lists h Q \<Longrightarrow> Q hn = Some xs \<Longrightarrow> ring h hn xs"
  by (simp add: lists_def)

lemma ring_nodes_upd_Nil: "ring_nodes (Q(a \<mapsto> [])) \<subseteq> insert a (ring_nodes Q)"
  by (auto simp: ring_nodes_iff subset_iff split: if_splits)

lemma lists_disjoint:
  "lists h Q \<Longrightarrow> Q a = Some xs \<Longrightarrow> Q b = Some ys \<Longrightarrow> a \<noteq> b \<Longrightarrow> set (a # xs) \<inter> set (b # ys) = {}"
  unfolding lists_def by blast

lemma lists_unique_head:
  assumes "lists h Q" "Q a = Some xs" "Q b = Some ys" "n \<in> set xs" "n \<in> set ys"
  shows "a = b"
  using lists_disjoint [OF assms(1-3)] assms(4,5) by auto

lemma lists_head_notin: "lists h Q \<Longrightarrow> Q a = Some xs \<Longrightarrow> Q b = Some ys \<Longrightarrow> a \<notin> set ys"
  using lists_disjoint [of h Q a xs b ys] listsD [of h Q a xs] by (cases "a = b") (auto simp: ring_def)

text \<open>Replacing one ring of a family by another one over the same nodes and fresh ones.\<close>

lemma lists_update:
  assumes "lists h Q" "Q hn = Some xs" "ring h' hn xs'" "same_off S h h'"
    and "S \<subseteq> set (hn # xs) \<union> F" "set xs' \<subseteq> set (hn # xs) \<union> F" "F \<inter> ring_nodes Q = {}"
  shows "lists h' (Q(hn \<mapsto> xs'))"
proof -
  have off: "(set (hn # xs) \<union> F) \<inter> set (b # ys) = {}" if "Q b = Some ys" "b \<noteq> hn" for b ys
  proof -
    have "set (b # ys) \<subseteq> ring_nodes Q" using that unfolding subset_iff ring_nodes_iff by blast
    then show ?thesis
      using lists_disjoint [OF assms(1,2) that(1)] that assms(7) by auto
  qed
  have "ring h' b ys" if "Q b = Some ys" "b \<noteq> hn" for b ys
    using listsD [OF assms(1) that(1)] assms(4)
    by (rule ring_frame) (use off [OF that] assms(5) in auto)
  moreover have "set (hn # xs') \<inter> set (b # ys) = {}" if "Q b = Some ys" "b \<noteq> hn" for b ys
    using off [OF that] assms(6) by auto
  moreover have "set (a # xs) \<inter> set (b # ys) = {}"
    if "Q a = Some xs" "Q b = Some ys" "a \<noteq> b" for a xs b ys
    using lists_disjoint [OF assms(1) that] .
  ultimately show ?thesis
    unfolding lists_def using assms(3) by (auto simp: fun_upd_apply split: if_splits; blast)
qed

lemma lists_new:
  assumes "lists h Q" "hn \<notin> ring_nodes Q" "ring h' hn []" "same_off {hn} h h'"
  shows "lists h' (Q(hn \<mapsto> []))"
proof -
  have off: "hn \<notin> set (b # ys)" if "Q b = Some ys" for b ys
    using that assms(2) unfolding ring_nodes_iff by blast
  have "ring h' b ys" if "Q b = Some ys" for b ys
    using listsD [OF assms(1) that] assms(4)
    by (rule ring_frame) (use off [OF that] in auto)
  with off assms(3) lists_disjoint [OF assms(1)] show ?thesis
    unfolding lists_def by (auto simp: fun_upd_apply split: if_splits; blast)
qed

lemma ring_init:
  obtains h' where "INIT_LIST_HEAD h (Node hn) = Some h'" "ring h' hn []" "same_off {hn} h h'"
  by (rule that [of "h\<lparr>lnext := (lnext h)(hn := Node hn), lprev := (lprev h)(hn := Node hn)\<rparr>"])
    (auto simp: INIT_LIST_HEAD_def ring_def same_off_def)

lemma lists_INIT_LIST_HEAD:
  assumes "lists h Q" "hn \<notin> ring_nodes Q \<or> hn \<in> dom Q"
  shows "\<exists>h'. INIT_LIST_HEAD h (Node hn) = Some h' \<and> lists h' (Q(hn \<mapsto> []))"
proof -
  obtain h' where h': "INIT_LIST_HEAD h (Node hn) = Some h'" "ring h' hn []" "same_off {hn} h h'"
    by (rule ring_init)
  show ?thesis
  proof (cases "Q hn")
    case None
    with assms h' lists_new show ?thesis by (auto simp: dom_def)
  next
    case (Some xs)
    with assms h' lists_update [of h Q hn xs h' "[]" "{hn}" "{}"] show ?thesis by auto
  qed
qed

lemma lists_add_between:
  assumes "lists h Q" "Q hn = Some (ys @ zs)" "n \<notin> ring_nodes Q"
  shows "\<exists>h'. list_add_between h (Node n) (Node (gap_prev hn ys)) (Node (gap_next hn zs)) = Some h' \<and>
    lists h' (Q(hn \<mapsto> ys @ n # zs))"
proof -
  have n: "n \<notin> set (hn # ys @ zs)"
    using assms(2,3) unfolding ring_nodes_iff by blast
  obtain h' where h':
      "list_add_between h (Node n) (Node (gap_prev hn ys)) (Node (gap_next hn zs)) = Some h'"
      "ring h' hn (ys @ n # zs)" "same_off (insert n (set (hn # ys @ zs))) h h'"
    using ring_insert [OF listsD [OF assms(1,2)] n] by blast
  have "lists h' (Q(hn \<mapsto> ys @ n # zs))"
    by (rule lists_update [OF assms(1,2) h'(2,3), of "{n}"]) (use assms(3) in auto)
  with h'(1) show ?thesis by blast
qed

lemma lists_list_add:
  assumes "lists h Q" "Q hn = Some xs" "n \<notin> ring_nodes Q"
  shows "\<exists>h'. list_add h (Node n) (Node hn) = Some h' \<and> lists h' (Q(hn \<mapsto> n # xs))"
  using lists_add_between [of h Q hn "[]" xs n] assms ring_next [OF listsD [OF assms(1,2)]]
  by (simp add: list_add_def gap_prev_def gap_next_def)

lemma lists_list_add_after:
  assumes "lists h Q" "Q hn = Some (ys @ x # zs)" "n \<notin> ring_nodes Q"
  shows "\<exists>h'. list_add h (Node n) (Node x) = Some h' \<and> lists h' (Q(hn \<mapsto> ys @ x # n # zs))"
  using lists_add_between [of h Q hn "ys @ [x]" zs n] assms ring_entry(1) [OF listsD [OF assms(1,2)]]
  by (simp add: list_add_def gap_prev_def gap_next_def)

lemma lists_list_add_tail:
  assumes "lists h Q" "Q hn = Some xs" "n \<notin> ring_nodes Q"
  shows "\<exists>h'. list_add_tail h (Node n) (Node hn) = Some h' \<and> lists h' (Q(hn \<mapsto> xs @ [n]))"
  using lists_add_between [of h Q hn xs "[]" n] assms ring_prev [OF listsD [OF assms(1,2)]]
  by (simp add: list_add_tail_def gap_prev_def gap_next_def)

lemma lists_list_add_before:
  assumes "lists h Q" "Q hn = Some (ys @ x # zs)" "n \<notin> ring_nodes Q"
  shows "\<exists>h'. list_add_tail h (Node n) (Node x) = Some h' \<and> lists h' (Q(hn \<mapsto> ys @ n # x # zs))"
  using lists_add_between [of h Q hn ys "x # zs" n] assms ring_entry(2) [OF listsD [OF assms(1,2)]]
  by (simp add: list_add_tail_def gap_prev_def gap_next_def)

lemma ring_in_split:
  assumes "ring h hn xs" "n \<in> set xs"
  obtains ys zs where "xs = ys @ n # zs" "remove1 n xs = ys @ zs" "n \<notin> set (hn # ys @ zs)"
proof -
  from assms have d: "distinct xs" "n \<noteq> hn" by (auto simp: ring_def)
  then obtain ys zs where "xs = ys @ n # zs" "n \<notin> set ys" "n \<notin> set zs"
    using assms(2) by (metis distinct_in_split)
  with d that show thesis by (metis remove1_middle set_ConsD set_append Un_iff)
qed

lemma lists_list_del_entry:
  assumes "lists h Q" "Q hn = Some xs" "n \<in> set xs"
  shows "\<exists>h'. list_del_entry h (Node n) = Some h' \<and> lists h' (Q(hn \<mapsto> remove1 n xs)) \<and>
    n \<notin> ring_nodes (Q(hn \<mapsto> remove1 n xs))"
proof -
  have r: "ring h hn xs" using assms by (simp add: listsD)
  obtain ys zs where s: "xs = ys @ n # zs" "remove1 n xs = ys @ zs" "n \<notin> set (hn # ys @ zs)"
    using r assms(3) by (rule ring_in_split)
  obtain h' where h': "list_del_between h (Node (gap_prev hn ys)) (Node (gap_next hn zs)) = Some h'"
      "ring h' hn (ys @ zs)" "same_off (set (hn # ys @ zs)) h h'"
    using ring_remove r s(1) by metis
  have "lists h' (Q(hn \<mapsto> ys @ zs))"
    by (rule lists_update [OF assms(1,2) h'(2,3), of "{}"]) (auto simp: s(1))
  moreover have "list_del_entry h (Node n) = Some h'"
    using h'(1) ring_entry [of h hn ys n zs] r
    by (simp add: list_del_entry_def s(1) gap_prev_def gap_next_def)
  moreover have "n \<notin> ring_nodes (Q(hn \<mapsto> ys @ zs))"
    using s(3) lists_disjoint [OF assms(1,2)] assms(3)
    by (auto simp: ring_nodes_iff split: if_splits)
  ultimately show ?thesis by (simp add: s(2))
qed

lemma list_del_eq:
  assumes "list_del_entry h (Node n) = Some h'"
  shows "list_del h (Node n) =
    Some (h'\<lparr>lnext := (lnext h')(n := LIST_POISON1), lprev := (lprev h')(n := LIST_POISON2)\<rparr>)"
  using assms by (auto simp: list_del_def list_del_entry_def)

lemma lists_frame:
  assumes "lists h Q" "same_off S h h'" "S \<inter> ring_nodes Q = {}"
  shows "lists h' Q"
proof -
  have "ring h' b ys" if "Q b = Some ys" for b ys
  proof (rule ring_frame [OF listsD [OF assms(1) that] assms(2)])
    have "set (b # ys) \<subseteq> ring_nodes Q" using that unfolding subset_iff ring_nodes_iff by blast
    with assms(3) show "S \<inter> set (b # ys) = {}" by blast
  qed
  with assms(1) show ?thesis unfolding lists_def by blast
qed

lemma lists_list_del:
  assumes "lists h Q" "Q hn = Some xs" "n \<in> set xs"
  shows "\<exists>h'. list_del h (Node n) = Some h' \<and> lists h' (Q(hn \<mapsto> remove1 n xs)) \<and>
    n \<notin> ring_nodes (Q(hn \<mapsto> remove1 n xs)) \<and> lnext h' n = LIST_POISON1 \<and> lprev h' n = LIST_POISON2"
proof -
  obtain h' where h': "list_del_entry h (Node n) = Some h'" "lists h' (Q(hn \<mapsto> remove1 n xs))"
      "n \<notin> ring_nodes (Q(hn \<mapsto> remove1 n xs))"
    using lists_list_del_entry [OF assms] by blast
  let ?h = "h'\<lparr>lnext := (lnext h')(n := LIST_POISON1), lprev := (lprev h')(n := LIST_POISON2)\<rparr>"
  have "lists ?h (Q(hn \<mapsto> remove1 n xs))"
    by (rule lists_frame [OF h'(2), of "{n}"]) (use h'(3) in \<open>auto simp: same_off_def\<close>)
  with h' show ?thesis by (auto simp: list_del_eq)
qed

section \<open>Queries and searches\<close>

lemma lists_list_empty: "lists h Q \<Longrightarrow> Q hn = Some xs \<Longrightarrow> list_empty h (Node hn) = Some (xs = [])"
  using ring_next [OF listsD [of h Q hn xs]] listsD [of h Q hn xs]
  by (auto simp: list_empty_def ring_def split: list.splits)

lemma lists_list_empty_careful:
  "lists h Q \<Longrightarrow> Q hn = Some xs \<Longrightarrow> list_empty_careful h (Node hn) = Some (xs = [])"
  using ring_next [OF listsD [of h Q hn xs]] ring_prev [OF listsD [of h Q hn xs]]
    listsD [of h Q hn xs]
  by (auto simp: list_empty_careful_def ring_def split: list.splits)

lemma lists_list_is_singular:
  assumes "lists h Q" "Q hn = Some xs"
  shows "list_is_singular h (Node hn) = Some (length xs = 1)"
proof -
  have r: "ring h hn xs" using assms by (rule listsD)
  have "x = last (x # ys) \<longleftrightarrow> ys = []" if "xs = x # ys" for x ys
    using r that by (cases ys rule: rev_cases) (auto simp: ring_def)
  with r ring_next [OF r] ring_prev [OF r] show ?thesis
    by (cases xs) (auto simp: list_is_singular_def lists_list_empty [OF assms])
qed

lemma lists_list_is_last:
  assumes "lists h Q" "Q hn = Some (ys @ n # zs)"
  shows "list_is_last h (Node n) (Node hn) = Some (zs = [])"
  using ring_entry(1) [OF listsD [OF assms]] listsD [OF assms]
  by (auto simp: list_is_last_def ring_def split: list.splits)

lemma lists_first: "lists h Q \<Longrightarrow> Q hn = Some (x # xs) \<Longrightarrow> list_first_entry h (Node hn) = Some (Node x)"
  using ring_next [OF listsD [of h Q hn "x # xs"]] by (simp add: list_first_entry_def)

lemma lists_last:
  "lists h Q \<Longrightarrow> Q hn = Some xs \<Longrightarrow> xs \<noteq> [] \<Longrightarrow> list_last_entry h (Node hn) = Some (Node (last xs))"
  using ring_prev [OF listsD [of h Q hn xs]] by (simp add: list_last_entry_def)

lemma lists_first_empty: "lists h Q \<Longrightarrow> Q hn = Some [] \<Longrightarrow> list_first_entry h (Node hn) = Some (Node hn)"
  using ring_next [OF listsD [of h Q hn "[]"]] by (simp add: list_first_entry_def)

lemma list_search_chain:
  assumes "linked h (xs @ [hn])" "hn \<notin> set xs"
  shows "list_search h P (Node hn) (Node (gap_next hn xs)) = Some (find P xs)"
  using assms
proof (induction xs)
  case Nil
  then show ?case by (subst list_search.simps) (simp add: gap_next_def)
next
  case (Cons x xs)
  then have "lnext h x = Node (gap_next hn xs)" "linked h (xs @ [hn])"
    by (cases xs; auto simp: gap_next_def)+
  with Cons show ?case
    by (subst list_search.simps) (auto simp: gap_next_def)
qed

text \<open>The search loop returns, with the first entry that passes the test.\<close>

lemma lists_search:
  assumes "lists h Q" "Q hn = Some xs"
  shows "list_for_each_entry_find h P (Node hn) = Some (find P xs)"
proof -
  have r: "ring h hn xs" using assms by (rule listsD)
  have "linked h (xs @ [hn])" using r by (cases xs) (auto simp: ring_def)
  moreover have "hn \<notin> set xs" using r by (simp add: ring_def)
  moreover have "list_first_entry h (Node hn) = Some (Node (gap_next hn xs))"
    using ring_next [OF r] by (simp add: list_first_entry_def gap_next_def)
  ultimately show ?thesis
    by (simp add: list_for_each_entry_find_def list_search_chain)
qed

section \<open>Moves\<close>

text \<open>The rings after taking \<open>n\<close> out of the ring \<open>a\<close> that holds it.\<close>

definition without :: "('n \<rightharpoonup> 'n list) \<Rightarrow> 'n \<Rightarrow> 'n \<Rightarrow> ('n \<rightharpoonup> 'n list)" where
  "without Q a n = Q(a \<mapsto> remove1 n (the (Q a)))"

lemma lists_list_move:
  assumes "lists h Q" "Q a = Some xs" "n \<in> set xs" "without Q a n b = Some ys"
  shows "\<exists>h'. list_move h (Node n) (Node b) = Some h' \<and> lists h' ((without Q a n)(b \<mapsto> n # ys))"
  using lists_list_del_entry [OF assms(1-3)] lists_list_add [of _ "without Q a n" b ys n] assms
  by (fastforce simp: list_move_def without_def)

lemma lists_list_move_tail:
  assumes "lists h Q" "Q a = Some xs" "n \<in> set xs" "without Q a n b = Some ys"
  shows "\<exists>h'. list_move_tail h (Node n) (Node b) = Some h' \<and>
    lists h' ((without Q a n)(b \<mapsto> ys @ [n]))"
  using lists_list_del_entry [OF assms(1-3)] lists_list_add_tail [of _ "without Q a n" b ys n] assms
  by (fastforce simp: list_move_tail_def without_def)

lemma lists_rotate_left:
  assumes "lists h Q" "Q hn = Some xs"
  shows "\<exists>h'. list_rotate_left h (Node hn) = Some h' \<and> lists h' (Q(hn \<mapsto> rotate1 xs))"
proof (cases xs)
  case Nil
  with assms show ?thesis
    by (auto simp: list_rotate_left_def lists_list_empty fun_upd_idem)
next
  case (Cons x ys)
  with assms have "lnext h hn = Node x" using ring_next [OF listsD [OF assms]] by simp
  moreover have "without Q hn x hn = Some ys" using assms Cons by (simp add: without_def)
  ultimately show ?thesis
    using lists_list_move_tail [OF assms, of x hn ys] assms Cons
    by (auto simp: list_rotate_left_def lists_list_empty without_def)
qed

section \<open>The contract of a list store\<close>

text \<open>
  What the users of \<^verbatim>\<open>list.h\<close> rely on: insertion and deletion succeed on a well-formed store
  and change exactly one ring. The derived lemmas are the sequences of operations the
  kernel's queues perform.
\<close>

locale list_store =
  fixes rep :: "'h \<Rightarrow> ('n \<rightharpoonup> 'n list) \<Rightarrow> bool"
    and add_tail :: "'h \<Rightarrow> 'n \<Rightarrow> 'n \<Rightarrow> 'h option"
    and del :: "'h \<Rightarrow> 'n \<Rightarrow> 'h option"
    and first :: "'h \<Rightarrow> 'n \<Rightarrow> 'n option"
  assumes rep_add_tail: "rep h Q \<Longrightarrow> Q a = Some xs \<Longrightarrow> n \<notin> ring_nodes Q \<Longrightarrow>
      \<exists>h'. add_tail h n a = Some h' \<and> rep h' (Q(a \<mapsto> xs @ [n]))"
    and rep_del: "rep h Q \<Longrightarrow> Q a = Some xs \<Longrightarrow> n \<in> set xs \<Longrightarrow>
      \<exists>h'. del h n = Some h' \<and> rep h' (Q(a \<mapsto> remove1 n xs)) \<and>
        n \<notin> ring_nodes (Q(a \<mapsto> remove1 n xs))"
    and rep_first: "rep h Q \<Longrightarrow> Q a = Some xs \<Longrightarrow> first h a = Some (case xs of [] \<Rightarrow> a | x # _ \<Rightarrow> x)"
begin

lemma dequeue_first:
  assumes "rep h Q" "Q a = Some (x # xs)"
  shows "\<exists>h'. first h a = Some x \<and> del h x = Some h' \<and> rep h' (Q(a \<mapsto> xs))"
  using rep_first [OF assms] rep_del [OF assms, of x] by auto

lemma requeue:
  assumes "rep h Q" "Q a = Some (x # xs)"
  shows "\<exists>h' h''. del h x = Some h' \<and> add_tail h' x a = Some h'' \<and> rep h'' (Q(a \<mapsto> xs @ [x]))"
  using rep_del [OF assms, of x] rep_add_tail [of _ "Q(a \<mapsto> xs)" a xs x] by fastforce

lemma add_tail_del:
  assumes "rep h Q" "Q a = Some xs" "n \<notin> ring_nodes Q"
  shows "\<exists>h' h''. add_tail h n a = Some h' \<and> del h' n = Some h'' \<and> rep h'' Q"
proof -
  obtain h' where h': "add_tail h n a = Some h'" "rep h' (Q(a \<mapsto> xs @ [n]))"
    using rep_add_tail [OF assms] by blast
  have n: "n \<notin> set xs" using assms(2,3) unfolding ring_nodes_iff by auto
  have "Q(a \<mapsto> xs @ [n], a \<mapsto> remove1 n (xs @ [n])) = Q"
    using assms(2) n by (auto simp: remove1_append fun_upd_idem)
  with rep_del [OF h'(2), of a "xs @ [n]" n] h' show ?thesis by auto
qed

end

definition unNode :: "'n link option \<Rightarrow> 'n option" where
  "unNode p = (case p of Some (Node n) \<Rightarrow> Some n | _ \<Rightarrow> None)"

lemma lists_first_node:
  "lists h Q \<Longrightarrow> Q a = Some xs \<Longrightarrow>
    unNode (list_first_entry h (Node a)) = Some (case xs of [] \<Rightarrow> a | x # _ \<Rightarrow> x)"
  by (cases xs) (simp_all add: lists_first lists_first_empty unNode_def)

lemma lists_list_del':
  "lists h Q \<Longrightarrow> Q hn = Some xs \<Longrightarrow> n \<in> set xs \<Longrightarrow>
    \<exists>h'. list_del h (Node n) = Some h' \<and> lists h' (Q(hn \<mapsto> remove1 n xs)) \<and>
      n \<notin> ring_nodes (Q(hn \<mapsto> remove1 n xs))"
  using lists_list_del by metis

interpretation kernel_lists: list_store lists "\<lambda>h n a. list_add_tail h (Node n) (Node a)"
  "\<lambda>h n. list_del h (Node n)" "\<lambda>h a. unNode (list_first_entry h (Node a))"
  by (rule list_store.intro)
    (erule lists_list_add_tail lists_list_del' lists_first_node, assumption+)+

section \<open>Misuse\<close>

text \<open>
  Appending an entry that is already the last one of the ring leaves it pointing at
  itself, so a traversal that does not stop at it never reaches the head again.
\<close>

lemma list_add_tail_twice:
  assumes "ring h hn (xs @ [n])"
  shows "\<exists>h'. list_add_tail h (Node n) (Node hn) = Some h' \<and> lnext h' n = Node n"
  using ring_prev [OF assms] assms
  by (auto simp: list_add_tail_def list_add_between_def ring_def)

lemma list_search_self_loop:
  assumes "lnext h n = Node n" "n \<noteq> hn" "\<not> P n"
  shows "list_search h P (Node hn) (Node n) = None"
proof -
  let ?I = "\<lambda>h' P' a pos (r :: 'a option). h' = h \<longrightarrow> P' = P \<longrightarrow> a = Node hn \<longrightarrow> pos \<noteq> Node n"
  have "?I h P (Node hn) (Node n) r" if "list_search h P (Node hn) (Node n) = Some r" for r
    by (rule list_search.raw_induct [where P = ?I, OF _ that])
      (use assms in \<open>auto split: if_splits; blast\<close>)
  then show ?thesis by (cases "list_search h P (Node hn) (Node n)") auto
qed

end
