(* ===== verification/Bitops.thy ===== *)
theory Bitops
  imports Prelude
begin

text \<open>
  \<^verbatim>\<open>include/kernel/bitops.h\<close>, \<^verbatim>\<open>include/kernel/log2.h\<close>, \<^verbatim>\<open>include/kernel/hash.h\<close> and the
  alignment macros of \<^verbatim>\<open>include/kernel/kernel.h\<close>. A bitmap is a function from word
  indices to 32-bit words; bit \<open>b\<close> of it is bit \<open>b mod 32\<close> of word \<open>b div 32\<close>.
  The main facts are the read-over-write laws of the bitmap accessors and the
  characterisation of \<open>find_first_bit\<close> and \<open>find_first_zero_bit\<close> as searches for the
  least index. The locale \<open>slot_pool\<close> states the contract that the page allocator, the
  run queues, the slab allocator, the file-descriptor table and the timer ids rely on.
\<close>

section \<open>Definitions\<close>

definition BITS_PER_LONG :: nat where
  "BITS_PER_LONG = 32"

text \<open>The compiler builtins: leading zeros, and one plus the index of the least set bit.\<close>

definition builtin_clz :: "u32 \<Rightarrow> nat" where
  "builtin_clz w = length (takeWhile (\<lambda>i. \<not> bit w i) (rev [0..<32]))"

definition builtin_ffsl :: "u32 \<Rightarrow> nat" where
  "builtin_ffsl w = (case find (bit w) [0..<32] of None \<Rightarrow> 0 | Some i \<Rightarrow> Suc i)"

definition flsl :: "u32 \<Rightarrow> nat" where
  "flsl w = (if w \<noteq> 0 then 32 - builtin_clz w else 0)"

definition clear_bit :: "nat \<Rightarrow> u32 \<Rightarrow> u32" where
  "clear_bit b w = w AND NOT (push_bit b 1)"

definition set_bit_ul :: "nat \<Rightarrow> u32 \<Rightarrow> u32" where
  "set_bit_ul b w = w OR push_bit b 1"

definition bitmap_set_bit :: "words \<Rightarrow> nat \<Rightarrow> words" where
  "bitmap_set_bit m b =
     m(b div BITS_PER_LONG := set_bit_ul (b mod BITS_PER_LONG) (m (b div BITS_PER_LONG)))"

definition bitmap_clear_bit :: "words \<Rightarrow> nat \<Rightarrow> words" where
  "bitmap_clear_bit m b =
     m(b div BITS_PER_LONG := clear_bit (b mod BITS_PER_LONG) (m (b div BITS_PER_LONG)))"

definition bitmap_get_bit :: "words \<Rightarrow> nat \<Rightarrow> u32" where
  "bitmap_get_bit m b = drop_bit (b mod BITS_PER_LONG) (m (b div BITS_PER_LONG)) AND 1"

text \<open>The loops over the words of a bitmap, from word \<open>i\<close> on.\<close>

function find_first_bit_from :: "words \<Rightarrow> nat \<Rightarrow> nat \<Rightarrow> nat" where
  "find_first_bit_from m sz i =
     (if i * BITS_PER_LONG < sz
      then if m i \<noteq> 0
           then min (i * BITS_PER_LONG + builtin_ffsl (m i) - 1) sz
           else find_first_bit_from m sz (i + 1)
      else sz)"
  by pat_completeness auto
termination
  by (relation "measure (\<lambda>(m, sz, i). sz - i * BITS_PER_LONG)")
    (auto simp: BITS_PER_LONG_def)

definition find_first_bit :: "words \<Rightarrow> nat \<Rightarrow> nat" where
  "find_first_bit m sz = find_first_bit_from m sz 0"

function find_first_zero_bit_from :: "words \<Rightarrow> nat \<Rightarrow> nat \<Rightarrow> nat" where
  "find_first_zero_bit_from m sz i =
     (if i * BITS_PER_LONG < sz
      then if m i \<noteq> NOT 0
           then min (i * BITS_PER_LONG + builtin_ffsl (NOT (m i)) - 1) sz
           else find_first_zero_bit_from m sz (i + 1)
      else sz)"
  by pat_completeness auto
termination
  by (relation "measure (\<lambda>(m, sz, i). sz - i * BITS_PER_LONG)")
    (auto simp: BITS_PER_LONG_def)

definition find_first_zero_bit :: "words \<Rightarrow> nat \<Rightarrow> nat" where
  "find_first_zero_bit m sz = find_first_zero_bit_from m sz 0"

text \<open>
  \<^verbatim>\<open>ilog2\<close> of a compile-time constant is the chain of tests from bit 31 down to bit 0;
  \<open>None\<close> is \<^verbatim>\<open>__ilog2_NaN\<close>, which loops forever. \<^verbatim>\<open>__ilog2\<close> is the run-time version.
\<close>

definition ilog2_const :: "u32 \<Rightarrow> nat option" where
  "ilog2_const x = (if x < 1 then None else find (bit x) (rev [0..<32]))"

definition ilog2_ul :: "u32 \<Rightarrow> u32" where
  "ilog2_ul x = of_nat (flsl x) - 1"

definition align_mask :: "u32 \<Rightarrow> u32 \<Rightarrow> u32" where
  "align_mask x m = x AND NOT m"

definition align :: "u32 \<Rightarrow> u32 \<Rightarrow> u32" where
  "align x a = align_mask x (a - 1)"

definition align_next_mask :: "u32 \<Rightarrow> u32 \<Rightarrow> u32" where
  "align_next_mask x m = (x + m) AND NOT m"

definition align_next :: "u32 \<Rightarrow> u32 \<Rightarrow> u32" where
  "align_next x a = align_next_mask x (a - 1)"

fun hash_djb2_from :: "u32 \<Rightarrow> u8 list \<Rightarrow> u32" where
  "hash_djb2_from hash [] = hash"
| "hash_djb2_from hash (c # cs) = hash_djb2_from ((push_bit 5 hash + hash) + ucast c) cs"

definition hash_djb2 :: "u8 list \<Rightarrow> u32" where
  "hash_djb2 str = hash_djb2_from 5381 str"

text \<open>Reading a bitmap as a predicate on indices.\<close>

definition bm_bit :: "words \<Rightarrow> nat \<Rightarrow> bool" where
  "bm_bit m b \<longleftrightarrow> bit (m (b div 32)) (b mod 32)"

text \<open>A bitmap of a single word.\<close>

definition one_word :: "u32 \<Rightarrow> words" where
  "one_word w = (\<lambda>_. 0)(0 := w)"

declare find_first_bit_from.simps [simp del] find_first_zero_bit_from.simps [simp del]

section \<open>Single words\<close>

lemma bit_clear_bit: "bit (clear_bit b w) i \<longleftrightarrow> bit w i \<and> i \<noteq> b"
  by (cases "i < 32") (auto simp: clear_bit_def bit_simps dest: bit_imp_le_length)

lemma bit_set_bit_ul: "bit (set_bit_ul b w) i \<longleftrightarrow> bit w i \<or> (i = b \<and> b < 32)"
  by (auto simp: set_bit_ul_def bit_simps)

lemma ffsl_None: "builtin_ffsl w = 0 \<longleftrightarrow> w = 0"
  by (auto simp: builtin_ffsl_def find_upt_None word_eq_0_iff_bits split: option.splits
      dest: find_upt_SomeD)

lemma ffsl_Suc:
  assumes "w \<noteq> 0"
  obtains i where "builtin_ffsl w = Suc i" "bit w i" "i < 32" "\<And>j. j < i \<Longrightarrow> \<not> bit w j"
proof -
  from assms obtain i where i: "find (bit w) [0..<32] = Some i"
    using find_upt_None [of "bit w" 0 32] by (auto simp: word_eq_0_iff_bits)
  from find_upt_SomeD [OF i] show thesis
    by (intro that [of i]) (auto simp: builtin_ffsl_def i)
qed

section \<open>Bitmaps: reads over writes\<close>

lemma bm_bit_one_word: "bm_bit (one_word w) b \<longleftrightarrow> b < 32 \<and> bit w b"
  by (auto simp: bm_bit_def one_word_def dest: bit_imp_le_length)

lemma bitmap_get_bit_eq: "bitmap_get_bit m b = (if bm_bit m b then 1 else 0)"
  by (simp add: bitmap_get_bit_def bm_bit_def BITS_PER_LONG_def and_one_eq mod2_eq_if
      bit_iff_odd_drop_bit)

lemma bm_bit_iff_get: "bm_bit m b \<longleftrightarrow> bitmap_get_bit m b \<noteq> 0"
  by (simp add: bitmap_get_bit_eq)

lemma div_mod_32_eq: "(a :: nat) div 32 = b div 32 \<Longrightarrow> a mod 32 = b mod 32 \<Longrightarrow> a = b"
  by (metis div_mult_mod_eq)

lemma bm_bit_set [bitmap_simps]: "bm_bit (bitmap_set_bit m b) c \<longleftrightarrow> c = b \<or> bm_bit m c"
  by (auto simp: bm_bit_def bitmap_set_bit_def BITS_PER_LONG_def bit_set_bit_ul
      dest: div_mod_32_eq)

lemma bm_bit_clear [bitmap_simps]: "bm_bit (bitmap_clear_bit m b) c \<longleftrightarrow> c \<noteq> b \<and> bm_bit m c"
  by (auto simp: bm_bit_def bitmap_clear_bit_def BITS_PER_LONG_def bit_clear_bit
      dest: div_mod_32_eq)

lemma words_eqI:
  assumes "\<And>b. bm_bit m b \<longleftrightarrow> bm_bit m' b"
  shows "m = m'"
proof
  fix i
  show "m i = m' i"
  proof (rule bit_word_eqI)
    fix n :: nat assume "n < LENGTH(32)"
    then show "bit (m i) n = bit (m' i) n"
      using assms [of "i * 32 + n"] by (simp add: bm_bit_def)
  qed
qed

section \<open>Bitmaps: searching\<close>

text \<open>\<open>least_from p n i\<close>: \<open>i\<close> is the least index below \<open>n\<close> with \<open>p\<close>, or \<open>n\<close> if there is none.\<close>

definition least_below :: "(nat \<Rightarrow> bool) \<Rightarrow> nat \<Rightarrow> nat \<Rightarrow> bool" where
  "least_below p n i \<longleftrightarrow> i \<le> n \<and> (i < n \<longrightarrow> p i) \<and> (\<forall>j<i. \<not> p j)"

lemma least_below_unique: "least_below p n i \<Longrightarrow> least_below p n j \<Longrightarrow> i = j"
  unfolding least_below_def by (metis linorder_neqE_nat order_less_le_trans)

lemma least_below_none: "least_below p n n \<longleftrightarrow> (\<forall>j<n. \<not> p j)"
  by (auto simp: least_below_def)

lemma word_search:
  assumes "i * 32 < sz" "w \<noteq> 0" "\<And>j. j < i * 32 \<Longrightarrow> \<not> p j"
    and p: "\<And>k. k < 32 \<Longrightarrow> p (i * 32 + k) \<longleftrightarrow> bit w k"
  shows "least_below p sz (min (i * 32 + builtin_ffsl w - 1) sz)"
proof -
  obtain k where k: "builtin_ffsl w = Suc k" "bit w k" "k < 32" "\<And>j. j < k \<Longrightarrow> \<not> bit w j"
    using assms(2) ffsl_Suc by metis
  have "\<not> p j" if "j < i * 32 + k" for j
  proof (cases "j < i * 32")
    case False
    with that p [of "j - i * 32"] k(3,4) show ?thesis by auto
  qed (use assms(3) in auto)
  moreover have "p (i * 32 + k)" using p k by simp
  ultimately show ?thesis
    using k(1) by (auto simp: least_below_def min_def)
qed

lemma bm_bit_word: "k < 32 \<Longrightarrow> bm_bit m (i * 32 + k) \<longleftrightarrow> bit (m i) k"
  by (simp add: bm_bit_def)

lemma word_index_eq: "i * 32 \<le> j \<Longrightarrow> j < (i + 1) * 32 \<Longrightarrow> j div 32 = (i :: nat)"
  by (simp add: div_nat_eqI)

lemma find_first_bit_from_least:
  assumes "\<And>j. j < i * 32 \<Longrightarrow> \<not> bm_bit m j"
  shows "least_below (bm_bit m) sz (find_first_bit_from m sz i)"
  using assms
proof (induction m sz i rule: find_first_bit_from.induct)
  case (1 m sz i)
  have zero: "\<not> bm_bit m j" if "m i = 0" "j < (i + 1) * 32" for j
    using that "1.prems" word_index_eq [of i j] by (cases "j < i * 32") (auto simp: bm_bit_def)
  show ?case
  proof (cases "i * 32 < sz \<and> m i = 0")
    case True
    with "1.IH" zero show ?thesis
      by (simp add: find_first_bit_from.simps [of m sz i] BITS_PER_LONG_def)
  next
    case False
    then show ?thesis
      using "1.prems" word_search [of i sz "m i" "bm_bit m"]
      by (auto simp: find_first_bit_from.simps [of m sz i] BITS_PER_LONG_def bm_bit_word
          least_below_none)
  qed
qed

lemma find_first_zero_bit_from_least:
  assumes "\<And>j. j < i * 32 \<Longrightarrow> bm_bit m j"
  shows "least_below (\<lambda>j. \<not> bm_bit m j) sz (find_first_zero_bit_from m sz i)"
  using assms
proof (induction m sz i rule: find_first_zero_bit_from.induct)
  case (1 m sz i)
  have full: "bm_bit m j" if "m i = NOT 0" "j < (i + 1) * 32" for j
    using that "1.prems" word_index_eq [of i j]
    by (cases "j < i * 32") (auto simp: bm_bit_def bit_simps)
  show ?case
  proof (cases "i * 32 < sz \<and> m i = NOT 0")
    case True
    with "1.IH" full show ?thesis
      by (simp add: find_first_zero_bit_from.simps [of m sz i] BITS_PER_LONG_def)
  next
    case False
    have "NOT (m i) \<noteq> 0" if "m i \<noteq> NOT 0" using that by (metis bit.double_compl)
    then show ?thesis
      using False "1.prems" word_search [of i sz "NOT (m i)" "\<lambda>j. \<not> bm_bit m j"]
      by (auto simp: find_first_zero_bit_from.simps [of m sz i] BITS_PER_LONG_def bm_bit_word
          least_below_none bit_simps)
  qed
qed

lemma find_first_bit_least: "least_below (bm_bit m) sz (find_first_bit m sz)"
  unfolding find_first_bit_def by (rule find_first_bit_from_least) simp

lemma find_first_zero_bit_least:
  "least_below (\<lambda>b. \<not> bm_bit m b) sz (find_first_zero_bit m sz)"
  unfolding find_first_zero_bit_def by (rule find_first_zero_bit_from_least) simp

section \<open>Pools of slots\<close>

text \<open>
  The contract behind every bitmap allocator of the kernel: a slot is available or not,
  taking one makes exactly that slot unavailable, giving it back makes exactly that slot
  available again, and the search returns the lowest available slot below a bound (or the
  bound itself). Run queues and free pages keep available slots as set bits; descriptor
  tables, timer ids and slabs keep them as clear bits.
\<close>

locale slot_pool =
  fixes avail :: "'m \<Rightarrow> nat \<Rightarrow> bool"
    and take_slot :: "'m \<Rightarrow> nat \<Rightarrow> 'm"
    and put_slot :: "'m \<Rightarrow> nat \<Rightarrow> 'm"
    and first_slot :: "'m \<Rightarrow> nat \<Rightarrow> nat"
  assumes avail_take: "avail (take_slot m b) c \<longleftrightarrow> c \<noteq> b \<and> avail m c"
    and avail_put: "avail (put_slot m b) c \<longleftrightarrow> c = b \<or> avail m c"
    and first_least: "least_below (avail m) n (first_slot m n)"
begin

lemma first_le: "first_slot m n \<le> n"
  using first_least [of m n] by (simp add: least_below_def)

lemma first_avail: "first_slot m n < n \<Longrightarrow> avail m (first_slot m n)"
  using first_least [of m n] by (simp add: least_below_def)

lemma first_lowest: "j < first_slot m n \<Longrightarrow> \<not> avail m j"
  using first_least [of m n] by (simp add: least_below_def)

lemma first_full: "first_slot m n = n \<longleftrightarrow> (\<forall>j<n. \<not> avail m j)"
  using first_least [of m n] least_below_none least_below_unique by metis

lemma first_ge_iff: "n \<le> first_slot m n \<longleftrightarrow> (\<forall>j<n. \<not> avail m j)"
  using first_le [of m n] first_full [of m n] by auto

lemma card_take:
  assumes "avail m b" "b < n"
  shows "Suc (card {c. c < n \<and> avail (take_slot m b) c}) = card {c. c < n \<and> avail m c}"
proof -
  have "{c. c < n \<and> avail m c} = insert b {c. c < n \<and> avail (take_slot m b) c}"
    using assms by (auto simp: avail_take)
  then show ?thesis by (simp add: avail_take)
qed

lemma card_put:
  assumes "\<not> avail m b" "b < n"
  shows "card {c. c < n \<and> avail (put_slot m b) c} = Suc (card {c. c < n \<and> avail m c})"
proof -
  have "{c. c < n \<and> avail (put_slot m b) c} = insert b {c. c < n \<and> avail m c}"
    using assms by (auto simp: avail_put)
  then show ?thesis using assms by simp
qed

lemma put_take: "avail m b \<Longrightarrow> avail (put_slot (take_slot m b) b) = avail m"
  by (auto simp: avail_put avail_take)

end

interpretation zero_slots: slot_pool "\<lambda>m b. \<not> bm_bit m b" bitmap_set_bit bitmap_clear_bit
  find_first_zero_bit
  by unfold_locales (auto simp: bitmap_simps find_first_zero_bit_least)

interpretation one_slots: slot_pool bm_bit bitmap_clear_bit bitmap_set_bit find_first_bit
  by unfold_locales (auto simp: bitmap_simps find_first_bit_least)

section \<open>Logarithms and alignment\<close>

lemma upt_split_at: "k < n \<Longrightarrow> [0..<n] = [0..<k] @ k # [Suc k..<n]"
  using upt_add_eq_append [of 0 k "n - k"] by (simp add: upt_conv_Cons)

lemma clz_eq:
  assumes "k < 32" "bit w k" "\<And>j. k < j \<Longrightarrow> \<not> bit w j"
  shows "builtin_clz w = 31 - k"
proof -
  have "rev [0..<32] = rev [Suc k..<32] @ k # rev [0..<k]"
    using upt_split_at [OF assms(1)] by simp
  moreover have "takeWhile (\<lambda>i. \<not> bit w i) (rev [Suc k..<32] @ k # rev [0..<k]) = rev [Suc k..<32]"
    by (rule takeWhile_stop) (use assms(2,3) in auto)
  ultimately show ?thesis
    by (simp only: builtin_clz_def) simp
qed

lemma clz_top_bit:
  assumes "w \<noteq> 0"
  obtains k where "builtin_clz w = 31 - k" "k < 32" "bit w k" "\<And>j. k < j \<Longrightarrow> \<not> bit w j"
proof -
  have fin: "finite {i. bit w i}"
    by (rule finite_subset [of _ "{..<32}"]) (auto dest: bit_imp_le_length)
  have ne: "{i. bit w i} \<noteq> {}" using assms by (auto simp: word_eq_0_iff_bits)
  obtain k where k: "bit w k" "\<And>j. k < j \<Longrightarrow> \<not> bit w j"
    using Max_in [OF fin ne] Max_ge [OF fin] by (metis mem_Collect_eq not_less)
  then have "k < 32" by (auto dest: bit_imp_le_length)
  with k clz_eq show thesis using that by blast
qed

lemma find_rev_top_bit:
  assumes "k < n" "P k" "\<And>j. k < j \<Longrightarrow> \<not> P j"
  shows "find P (rev [0..<n]) = Some k"
  using assms(1)
proof (induction n)
  case (Suc n)
  then show ?case using assms by (cases "k = n") auto
qed simp

text \<open>The constant-folded chain and the run-time routine of \<^verbatim>\<open>log2.h\<close> agree.\<close>

lemma ilog2_agree:
  assumes "x \<noteq> 0"
  shows "\<exists>k<32. ilog2_const x = Some k \<and> ilog2_ul x = of_nat k \<and> bit x k \<and> (\<forall>j>k. \<not> bit x j)"
proof -
  obtain k where k: "builtin_clz x = 31 - k" "k < 32" "bit x k" "\<And>j. k < j \<Longrightarrow> \<not> bit x j"
    using assms clz_top_bit by metis
  then have "flsl x = Suc k" using assms by (simp add: flsl_def)
  moreover have "\<not> x < 1" using assms by (simp add: word_less_1)
  moreover have "find (bit x) (rev [0..<32]) = Some k"
    by (rule find_rev_top_bit) (use k in auto)
  ultimately show ?thesis
    using k by (auto simp: ilog2_const_def ilog2_ul_def simp del: upt_rec_numeral)
qed

lemma align_bits: "bit (align x (2 ^ k)) i \<longleftrightarrow> bit x i \<and> k \<le> i"
  by (cases "i < 32")
    (auto simp: align_def align_mask_def bit_simps simp flip: mask_eq_exp_minus_1
      dest: bit_imp_le_length)

lemma align_shift: "align x (2 ^ k) = push_bit k (drop_bit k x)"
  by (rule bit_word_eqI) (auto simp: align_bits bit_simps)

lemma unat_align: "unat (align x (2 ^ k)) = unat x div 2 ^ k * 2 ^ k"
proof -
  have "unat (push_bit k (drop_bit k x)) = take_bit 32 (push_bit k (drop_bit k (unat x)))"
    by (simp add: unsigned_push_bit_eq unat_drop_bit_eq)
  also have "\<dots> = push_bit k (drop_bit k (unat x))"
  proof -
    have "push_bit k (drop_bit k (unat x)) \<le> unat x"
      by (simp add: push_bit_eq_mult drop_bit_eq_div)
    then have "push_bit k (drop_bit k (unat x)) < 2 ^ 32"
      using unsigned_less [of x, where ?'a = nat] by simp
    then show ?thesis by (simp add: take_bit_nat_eq_self)
  qed
  finally show ?thesis
    by (simp add: align_shift push_bit_eq_mult drop_bit_eq_div)
qed

lemma align_next_align: "align_next x a = align (x + (a - 1)) a"
  by (simp add: align_next_def align_next_mask_def align_def align_mask_def)

lemma unat_align_next:
  assumes "k < 32" "unat x + 2 ^ k \<le> 2 ^ 32"
  shows "unat (align_next x (2 ^ k)) = (unat x + 2 ^ k - 1) div 2 ^ k * 2 ^ k"
proof -
  have m: "unat ((2 :: u32) ^ k - 1) = 2 ^ k - 1"
    using assms(1) by (subst unat_minus_one) (auto simp: unat_2_power simp flip: unat_0_iff)
  have "unat x + unat ((2 :: u32) ^ k - 1) < 2 ^ 32"
    using assms(2) zero_less_power [of "2 :: nat" k] by (simp add: m del: zero_less_power)
  then have "unat (x + (2 ^ k - 1)) = unat x + (2 ^ k - 1)"
    using m by (simp add: unat_add_no_wrap)
  then show ?thesis by (simp add: align_next_align unat_align)
qed

end
