(* ===== verification/Page.thy ===== *)
theory Page
  imports Bitops "HOL-Library.Monad_Syntax" "HOL-Library.Multiset"
begin

text \<open>
  The page allocator, \<^verbatim>\<open>kernel/mm/page.c\<close>: a buddy system over the \<^verbatim>\<open>.pgmem\<close> section with
  pages of 256 bytes (order 0) to 2 KB (order 3) and one free bitmap per order.

  The state is the array \<^verbatim>\<open>page_bitmap\<close>, a function from orders to bitmaps. An access to a
  bitmap that the array does not have, or to a word past the end of one, is undefined in C
  and is the value \<open>None\<close> here. The address of the section, \<^verbatim>\<open>__pgmem_start__\<close>, is chosen by the
  linker script and is the parameter \<open>pgmem\<close>.

  The abstraction \<open>page_rep B F\<close> reads the bitmaps as a set \<open>F\<close> of free 256-byte units: the
  bit of a block is set exactly when the block is free and maximal, i.e. its parent is not
  free. Against it, \<^verbatim>\<open>alloc_pages\<close> removes an aligned block from \<open>F\<close> and fails only if \<open>F\<close>
  has none, and \<^verbatim>\<open>free_pages\<close> adds a block to \<open>F\<close>. The locale \<open>block_allocator\<close> is the
  contract the slab allocator, the thread and the memory-mapping code rely on.
\<close>

section \<open>Definitions\<close>

type_synonym page_maps = "nat \<Rightarrow> words"

definition MAX_PAGE_ORDER :: nat where "MAX_PAGE_ORDER = 3"

definition MIN_PAGE_SIZE :: u32 where "MIN_PAGE_SIZE = 256"

text \<open>The number of words of each bitmap, the initial bitmaps and the bitmap sizes in bits.\<close>

definition page_bitmap_words :: "nat \<Rightarrow> nat" where
  "page_bitmap_words order =
     (if order = 0 then 4 else if order = 1 then 2 else if order = 2 then 1
      else if order = 3 then 1 else 0)"

definition page_bitmap :: page_maps where
  "page_bitmap = (\<lambda>order. if order = 3 then (\<lambda>w. if w = 0 then 0x7fff else 0) else (\<lambda>w. 0))"

definition page_bitmap_sz :: "nat \<Rightarrow> nat" where
  "page_bitmap_sz order =
     (if order = 0 then 128 else if order = 1 then 64 else if order = 2 then 32
      else if order = 3 then 16 else 0)"

definition in_bitmap :: "nat \<Rightarrow> nat \<Rightarrow> bool" where
  "in_bitmap order b \<longleftrightarrow> b div BITS_PER_LONG < page_bitmap_words order"

definition page_set_bit :: "page_maps \<Rightarrow> nat \<Rightarrow> nat \<Rightarrow> page_maps option" where
  "page_set_bit B order b =
     (if in_bitmap order b then Some (B(order := bitmap_set_bit (B order) b)) else None)"

definition page_clear_bit :: "page_maps \<Rightarrow> nat \<Rightarrow> nat \<Rightarrow> page_maps option" where
  "page_clear_bit B order b =
     (if in_bitmap order b then Some (B(order := bitmap_clear_bit (B order) b)) else None)"

definition page_get_bit :: "page_maps \<Rightarrow> nat \<Rightarrow> nat \<Rightarrow> u32 option" where
  "page_get_bit B order b =
     (if in_bitmap order b then Some (bitmap_get_bit (B order) b) else None)"

definition size_to_page_order :: "u32 \<Rightarrow> int" where
  "size_to_page_order sz =
     (if sz \<le> 256 then 0 else if sz \<le> 512 then 1 else if sz \<le> 1024 then 2
      else if sz \<le> 2048 then 3 else - 1)"

definition find_first_free_page :: "page_maps \<Rightarrow> nat \<Rightarrow> int" where
  "find_first_free_page B order =
     (let page_idx = find_first_bit (B order) (page_bitmap_sz order)
      in if page_bitmap_sz order \<le> page_idx then - 1 else int page_idx)"

definition split_first_free_page :: "page_maps \<Rightarrow> nat \<Rightarrow> page_maps option" where
  "split_first_free_page B order =
     (let page_idx = find_first_bit (B order) (page_bitmap_sz order)
      in do {
        B \<leftarrow> page_clear_bit B order page_idx;
        B \<leftarrow> page_set_bit B (order - 1) (page_idx * 2);
        page_set_bit B (order - 1) (page_idx * 2 + 1) })"

definition page_shift :: "nat \<Rightarrow> nat" where
  "page_shift order = order + the (ilog2_const MIN_PAGE_SIZE)"

definition page_idx_to_addr :: "addr \<Rightarrow> nat \<Rightarrow> nat \<Rightarrow> addr" where
  "page_idx_to_addr pgmem idx order = pgmem + of_nat idx * push_bit (page_shift order) 1"

text \<open>The two loops of \<^verbatim>\<open>alloc_pages\<close>: up to the first order with a free page, down by splits.\<close>

function first_order_with_page :: "page_maps \<Rightarrow> nat \<Rightarrow> nat" where
  "first_order_with_page B ord =
     (if ord \<le> MAX_PAGE_ORDER \<and> find_first_free_page B ord < 0
      then first_order_with_page B (ord + 1) else ord)"
  by pat_completeness auto
termination
  by (relation "measure (\<lambda>(B, ord). Suc MAX_PAGE_ORDER - ord)") (auto simp: MAX_PAGE_ORDER_def)

fun split_down :: "page_maps \<Rightarrow> nat \<Rightarrow> nat \<Rightarrow> page_maps option" where
  "split_down B ord order =
     (if order < ord
      then do { B \<leftarrow> split_first_free_page B ord; split_down B (ord - 1) order }
      else Some B)"

definition alloc_pages :: "addr \<Rightarrow> page_maps \<Rightarrow> nat \<Rightarrow> (addr option \<times> page_maps) option" where
  "alloc_pages pgmem B order =
     (let ord = first_order_with_page B order
      in if MAX_PAGE_ORDER < ord then Some (None, B)
         else do {
           B \<leftarrow> split_down B ord order;
           let page_idx = find_first_bit (B order) (page_bitmap_sz order);
           B \<leftarrow> page_clear_bit B order page_idx;
           Some (Some (page_idx_to_addr pgmem page_idx order), B) })"

definition addr_to_page_idx :: "addr \<Rightarrow> addr \<Rightarrow> nat \<Rightarrow> nat" where
  "addr_to_page_idx pgmem a order = unat (drop_bit (page_shift order) (a - pgmem))"

definition get_buddy_index :: "nat \<Rightarrow> nat" where
  "get_buddy_index idx = (if idx mod 2 \<noteq> 0 then idx - 1 else idx + 1)"

function free_pages :: "addr \<Rightarrow> page_maps \<Rightarrow> addr \<Rightarrow> nat \<Rightarrow> page_maps option" where
  "free_pages pgmem B a order =
     (if order < MAX_PAGE_ORDER then
        let page_idx = addr_to_page_idx pgmem a order;
            buddy_idx = get_buddy_index page_idx
        in do {
          b \<leftarrow> page_get_bit B order buddy_idx;
          if b \<noteq> 0 then do {
            B \<leftarrow> page_clear_bit B order buddy_idx;
            free_pages pgmem B (a AND NOT (push_bit (page_shift (order + 1)) 1 - 1)) (order + 1) }
          else page_set_bit B order page_idx }
      else page_set_bit B order (addr_to_page_idx pgmem a order))"
  by pat_completeness auto
termination
  by (relation "measure (\<lambda>(p, B, a, ord). MAX_PAGE_ORDER - ord)") (auto simp: MAX_PAGE_ORDER_def)

text \<open>The little-endian bytes of a bitmap, and the hash of the four bitmaps.\<close>

definition word_bytes :: "u32 \<Rightarrow> u8 list" where
  "word_bytes w = [ucast w, ucast (drop_bit 8 w), ucast (drop_bit 16 w), ucast (drop_bit 24 w)]"

definition bitmap_bytes :: "words \<Rightarrow> nat \<Rightarrow> u8 list" where
  "bitmap_bytes m n = concat (map (\<lambda>i. word_bytes (m i)) [0..<n])"

definition page_alloc_signature :: "page_maps \<Rightarrow> u32" where
  "page_alloc_signature B =
     hash_djb2 (bitmap_bytes (B 0) 4) + hash_djb2 (bitmap_bytes (B 1) 2) +
     hash_djb2 (bitmap_bytes (B 2) 1) + hash_djb2 (bitmap_bytes (B 3) 1)"

declare first_order_with_page.simps [simp del] split_down.simps [simp del]
  free_pages.simps [simp del]

section \<open>Blocks of units\<close>

text \<open>Block \<open>i\<close> of order \<open>ord\<close>, as the set of the 256-byte units it covers.\<close>

definition units :: "nat \<Rightarrow> nat \<Rightarrow> nat set" where
  "units ord i = {i * 2 ^ ord ..< (i + 1) * 2 ^ ord}"

text \<open>A block that is free, and whose parent is not; the bitmaps hold exactly these.\<close>

definition max_free :: "nat set \<Rightarrow> nat \<Rightarrow> nat \<Rightarrow> bool" where
  "max_free F ord i \<longleftrightarrow>
     ord \<le> 3 \<and> units ord i \<subseteq> F \<and> (ord = 3 \<or> \<not> units (ord + 1) (i div 2) \<subseteq> F)"

definition page_rep :: "page_maps \<Rightarrow> nat set \<Rightarrow> bool" where
  "page_rep B F \<longleftrightarrow> F \<subseteq> {..<128} \<and> (\<forall>ord i. bm_bit (B ord) i \<longleftrightarrow> max_free F ord i)"

lemma units_iff: "u \<in> units ord i \<longleftrightarrow> u div 2 ^ ord = i"
proof -
  have "u div 2 ^ ord = i" if "i * 2 ^ ord \<le> u" "u < (i + 1) * 2 ^ ord"
    using that by (intro div_nat_eqI) (simp_all add: algebra_simps)
  moreover have "u div 2 ^ ord * 2 ^ ord \<le> u" "u < (u div 2 ^ ord + 1) * 2 ^ ord"
    using dividend_less_times_div [of "2 ^ ord" u] by (simp_all add: algebra_simps)
  ultimately show ?thesis
    by (auto simp: units_def)
qed

lemma units_nonempty: "\<exists>u. u \<in> units ord i"
  by (rule exI [of _ "i * 2 ^ ord"]) (simp add: units_iff)

lemma units_not_empty [simp]: "units ord i \<noteq> {}"
  using units_nonempty by auto

lemma div_exp_sub: "a \<le> b \<Longrightarrow> (u :: nat) div 2 ^ b = u div 2 ^ a div 2 ^ (b - a)"
  by (metis div_mult2_eq le_add_diff_inverse power_add)

lemma units_nested:
  assumes "a \<le> b" "u \<in> units a i" "u \<in> units b j"
  shows "units a i \<subseteq> units b j"
  using assms by (auto simp: units_iff div_exp_sub [of a b])

lemma units_parent: "units ord i \<subseteq> units (Suc ord) (i div 2)"
  by (auto simp: units_iff div_mult2_eq power_Suc2 simp del: power_Suc)

lemma units_children: "units (Suc ord) i = units ord (i * 2) \<union> units ord (i * 2 + 1)"
proof -
  have "u div 2 ^ Suc ord = i \<longleftrightarrow> u div 2 ^ ord = i * 2 \<or> u div 2 ^ ord = i * 2 + 1" for u
    unfolding power_Suc2 div_mult2_eq by linarith
  then show ?thesis
    by (auto simp: units_iff)
qed

lemma units_disjoint: "i \<noteq> j \<Longrightarrow> units ord i \<inter> units ord j = {}"
  by (auto simp: units_iff)

lemma units_inj: "units ord i \<subseteq> units ord j \<longleftrightarrow> i = j"
  using units_nonempty [of ord i] by (auto simp: units_iff)

section \<open>Free blocks\<close>

lemma page_repD: "page_rep B F \<Longrightarrow> F \<subseteq> {..<128}"
  by (simp add: page_rep_def)

lemma page_rep_bit:
  "page_rep B F \<Longrightarrow> bm_bit (B ord) i \<longleftrightarrow> max_free F ord i"
  by (simp add: page_rep_def)

lemma page_rep_unique: "page_rep B F \<Longrightarrow> page_rep B' F \<Longrightarrow> B = B'"
  by (intro ext words_eqI [THEN fun_cong]) (simp add: page_rep_bit)

lemma maximal_block:
  assumes "u \<in> units c k" "c \<le> ord" "ord \<le> 3" "units c k \<subseteq> F"
  shows "\<exists>b i. c \<le> b \<and> b \<le> 3 \<and> units b i \<subseteq> F \<and> u \<in> units b i \<and>
    (b = 3 \<or> \<not> units (b + 1) (i div 2) \<subseteq> F)"
  using assms(1,4) le_trans [OF assms(2,3)]
proof (induction "3 - c" arbitrary: c k)
  case 0
  then show ?case by (intro exI [of _ c] exI [of _ k]) auto
next
  case (Suc n)
  show ?case
  proof (cases "units (Suc c) (k div 2) \<subseteq> F")
    case True
    then have "\<exists>b i. Suc c \<le> b \<and> b \<le> 3 \<and> units b i \<subseteq> F \<and> u \<in> units b i \<and>
        (b = 3 \<or> \<not> units (b + 1) (i div 2) \<subseteq> F)"
      using Suc.hyps Suc.prems units_parent [of c k] by (intro Suc.hyps(1)) auto
    then obtain b i where "Suc c \<le> b" "b \<le> 3" "units b i \<subseteq> F" "u \<in> units b i"
        "b = 3 \<or> \<not> units (b + 1) (i div 2) \<subseteq> F" by blast
    then show ?thesis by (intro exI [of _ b] exI [of _ i]) auto
  next
    case False
    then show ?thesis using Suc by (intro exI [of _ c] exI [of _ k]) auto
  qed
qed

text \<open>A maximal free block is inside no other free block.\<close>

lemma maximal_in:
  assumes "ord = 3 \<or> \<not> units (ord + 1) (i div 2) \<subseteq> F" "b \<le> 3" "units b j \<subseteq> F"
    and "units ord i \<subseteq> units b j" "ord \<le> b"
  shows "b = ord \<and> j = i"
proof (cases "ord = b")
  case True
  then show ?thesis using assms by (simp add: units_inj)
next
  case False
  obtain u where u: "u \<in> units ord i" using units_nonempty by blast
  have "units (ord + 1) (i div 2) \<subseteq> units b j"
    using assms False u units_parent [of ord i] by (intro units_nested [of _ _ u]) auto
  then show ?thesis using assms False by auto
qed

lemma bm_bit_upd_clear:
  "bm_bit ((B(ord := bitmap_clear_bit (B ord) i)) b) j \<longleftrightarrow> bm_bit (B b) j \<and> \<not> (b = ord \<and> j = i)"
  by (auto simp: bitmap_simps)

lemma bm_bit_upd_set:
  "bm_bit ((B(ord := bitmap_set_bit (B ord) i)) b) j \<longleftrightarrow> bm_bit (B b) j \<or> (b = ord \<and> j = i)"
  by (auto simp: bitmap_simps)

text \<open>Taking a free block out of the bitmaps.\<close>

lemma free_block_minus:
  assumes max: "ord \<le> 3" "units ord i \<subseteq> F" "ord = 3 \<or> \<not> units (ord + 1) (i div 2) \<subseteq> F"
    and b: "b \<le> 3"
  shows "units b j \<subseteq> F - units ord i \<longleftrightarrow>
    units b j \<subseteq> F \<and> \<not> (b \<le> ord \<and> units b j \<subseteq> units ord i)"
proof -
  have "b \<le> ord \<and> units b j \<subseteq> units ord i"
    if "units b j \<subseteq> F" "u \<in> units b j" "u \<in> units ord i" for u
  proof (cases "b \<le> ord")
    case True
    then show ?thesis using that units_nested [of b ord u j i] by auto
  next
    case False
    then have "units ord i \<subseteq> units b j" using that by (intro units_nested [of _ _ u]) auto
    then show ?thesis using maximal_in [OF max(3) b that(1)] False by auto
  qed
  moreover obtain v where "v \<in> units b j" using units_nonempty by blast
  ultimately show ?thesis by blast
qed

lemma max_free_minus:
  assumes max: "max_free F ord i"
  shows "max_free (F - units ord i) b j \<longleftrightarrow> max_free F b j \<and> \<not> (b = ord \<and> j = i)"
proof
  note M = free_block_minus [of ord i F]
  assume *: "max_free (F - units ord i) b j"
  have "\<not> units (b + 1) (j div 2) \<subseteq> F" if "b \<noteq> 3"
  proof
    assume p: "units (b + 1) (j div 2) \<subseteq> F"
    moreover have "\<not> units (b + 1) (j div 2) \<subseteq> F - units ord i"
      using * that by (auto simp: max_free_def)
    ultimately have "units (b + 1) (j div 2) \<subseteq> units ord i"
      using M [of "b + 1" "j div 2"] max * that by (auto simp: max_free_def)
    then have "units b j \<subseteq> units ord i" using units_parent [of b j] by auto
    moreover have "units b j \<subseteq> F - units ord i" using * by (simp add: max_free_def)
    ultimately show False using units_nonempty [of b j] by blast
  qed
  moreover have "units b j \<subseteq> F - units ord i" using * by (simp add: max_free_def)
  moreover from this have "\<not> (b = ord \<and> j = i)" using units_nonempty [of b j] by blast
  ultimately show "max_free F b j \<and> \<not> (b = ord \<and> j = i)"
    using * unfolding max_free_def by blast
next
  note M = free_block_minus [of ord i F]
  assume *: "max_free F b j \<and> \<not> (b = ord \<and> j = i)"
  have "\<not> (b \<le> ord \<and> units b j \<subseteq> units ord i)"
  proof
    assume in_ord: "b \<le> ord \<and> units b j \<subseteq> units ord i"
    then have "b < ord" using * units_inj [of ord j i] le_neq_implies_less [of b ord] by blast
    moreover obtain u where u: "u \<in> units b j" using units_nonempty by blast
    ultimately have "units (b + 1) (j div 2) \<subseteq> units ord i"
      using in_ord units_parent [of b j] by (intro units_nested [of _ _ u]) auto
    then show False using * max \<open>b < ord\<close> by (auto simp: max_free_def)
  qed
  then have "units b j \<subseteq> F - units ord i"
    using M [of b j] max * by (auto simp: max_free_def)
  moreover have "b = 3 \<or> \<not> units (b + 1) (j div 2) \<subseteq> F - units ord i"
    using * by (auto simp: max_free_def)
  ultimately show "max_free (F - units ord i) b j"
    using * by (simp add: max_free_def)
qed

lemma page_rep_clear:
  assumes "page_rep B F" "bm_bit (B ord) i"
  shows "page_rep (B(ord := bitmap_clear_bit (B ord) i)) (F - units ord i)"
  using assms unfolding page_rep_def bm_bit_upd_clear by (auto simp: max_free_minus)

text \<open>Putting a block back whose buddy is not free.\<close>

lemma page_rep_set:
  assumes rep: "page_rep B F" and "ord \<le> 3" "units ord i \<subseteq> {..<128}" "units ord i \<inter> F = {}"
    and "ord = 3 \<or> \<not> units (ord + 1) (i div 2) \<subseteq> F \<union> units ord i"
  shows "page_rep (B(ord := bitmap_set_bit (B ord) i)) (F \<union> units ord i)"
proof -
  let ?F = "F \<union> units ord i"
  have max: "max_free ?F ord i" using assms by (auto simp: max_free_def)
  have "?F - units ord i = F" using assms(4) by auto
  then have "max_free ?F b j \<longleftrightarrow> max_free F b j \<or> (b = ord \<and> j = i)" for b j
    using max_free_minus [OF max, of b j] max by auto
  then show ?thesis
    using rep assms(3) unfolding page_rep_def bm_bit_upd_set by auto
qed

section \<open>Index arithmetic\<close>

lemma units_bound: "ord \<le> 3 \<Longrightarrow> units ord i \<subseteq> {..<128} \<longleftrightarrow> i < page_bitmap_sz ord"
proof -
  assume "ord \<le> 3"
  then consider "ord = 0" | "ord = 1" | "ord = 2" | "ord = 3" by linarith
  moreover have "units ord i \<subseteq> {..<128} \<longleftrightarrow> (i + 1) * 2 ^ ord \<le> 128"
    unfolding units_def lessThan_atLeast0 by (simp add: ivl_subset)
  ultimately show ?thesis
    unfolding page_bitmap_sz_def by cases auto
qed

lemma in_bitmapI: "ord \<le> 3 \<Longrightarrow> i < page_bitmap_sz ord \<Longrightarrow> in_bitmap ord i"
  by (auto simp: in_bitmap_def page_bitmap_sz_def page_bitmap_words_def BITS_PER_LONG_def
      less_mult_imp_div_less split: if_splits)

lemma page_bitmap_sz_half: "Suc ord \<le> 3 \<Longrightarrow> i div 2 < page_bitmap_sz (Suc ord) \<longleftrightarrow> i < page_bitmap_sz ord"
  by (auto simp: page_bitmap_sz_def split: if_splits)

lemma buddy_facts:
  "get_buddy_index i \<noteq> i" "get_buddy_index i div 2 = i div 2"
  "units (Suc ord) (i div 2) = units ord i \<union> units ord (get_buddy_index i)"
proof -
  show "get_buddy_index i \<noteq> i" "get_buddy_index i div 2 = i div 2"
    by (auto simp: get_buddy_index_def mod2_eq_if elim!: oddE split: if_splits)
  show "units (Suc ord) (i div 2) = units ord i \<union> units ord (get_buddy_index i)"
    unfolding units_children get_buddy_index_def
    by (cases "i mod 2 = 0")
      (auto simp: mult.commute elim!: evenE oddE simp flip: even_iff_mod_2_eq_zero)
qed

lemma page_shift_eq: "page_shift ord = ord + 8"
proof -
  have "ilog2_const (256 :: u32) = Some 8"
    by code_simp
  then show ?thesis by (simp add: page_shift_def MIN_PAGE_SIZE_def)
qed

definition pgmem_ok :: "addr \<Rightarrow> bool" where
  "pgmem_ok pgmem \<longleftrightarrow> unat pgmem mod 2048 = 0 \<and> unat pgmem + 32768 \<le> 2 ^ 32"

lemma block_end: "ord \<le> 3 \<Longrightarrow> i < page_bitmap_sz ord \<Longrightarrow> i * 2 ^ (ord + 8) + 2 ^ (ord + 8) \<le> 32768"
proof -
  assume ord: "ord \<le> 3" and i: "i < page_bitmap_sz ord"
  then have "units ord i \<subseteq> {..<128}" by (simp add: units_bound)
  then have "(i + 1) * 2 ^ ord \<le> 128"
    unfolding units_def lessThan_atLeast0 by (simp add: ivl_subset)
  then show ?thesis by (simp add: power_add)
qed

lemma unat_page_addr:
  assumes "pgmem_ok pgmem" "ord \<le> 3" "i < page_bitmap_sz ord"
  shows "unat (page_idx_to_addr pgmem i ord) = unat pgmem + i * 2 ^ (ord + 8)"
    and "unat (page_idx_to_addr pgmem i ord - pgmem) = i * 2 ^ (ord + 8)"
proof -
  have *: "of_nat i * push_bit (page_shift ord) 1 = (of_nat (i * 2 ^ (ord + 8)) :: u32)"
    by (simp add: page_shift_eq push_bit_eq_mult)
  have off: "unat (of_nat (i * 2 ^ (ord + 8)) :: u32) = i * 2 ^ (ord + 8)"
    using block_end [OF assms(2,3)] by (intro unat_of_nat_small) simp
  have "0 < (2 :: nat) ^ (ord + 8)" "unat pgmem + 32768 \<le> 2 ^ 32"
    using assms(1) by (simp_all add: pgmem_ok_def)
  then have "unat pgmem + i * 2 ^ (ord + 8) < 2 ^ 32"
    using block_end [OF assms(2,3)] by linarith
  then have "unat pgmem + i * 2 ^ (ord + 8) < 2 ^ LENGTH(32)" by simp
  then show "unat (page_idx_to_addr pgmem i ord) = unat pgmem + i * 2 ^ (ord + 8)"
    unfolding page_idx_to_addr_def * by (subst unat_add_no_wrap) (simp_all only: off)
  show "unat (page_idx_to_addr pgmem i ord - pgmem) = i * 2 ^ (ord + 8)"
    unfolding page_idx_to_addr_def * by (simp only: add_diff_cancel_left' off)
qed

lemma addr_to_page_idx_inv:
  assumes "pgmem_ok pgmem" "ord \<le> 3" "i < page_bitmap_sz ord"
  shows "addr_to_page_idx pgmem (page_idx_to_addr pgmem i ord) ord = i"
  unfolding addr_to_page_idx_def page_shift_eq unat_drop_bit_eq unat_page_addr(2) [OF assms]
  by (simp add: drop_bit_eq_div)

lemma page_addr_mask:
  assumes ok: "pgmem_ok pgmem" and ord: "ord < 3" and i: "i < page_bitmap_sz ord"
  shows "page_idx_to_addr pgmem i ord AND NOT (push_bit (page_shift (ord + 1)) 1 - 1)
    = page_idx_to_addr pgmem (i div 2) (ord + 1)" (is "?l = ?r")
proof -
  let ?k = "ord + 9"
  obtain q where q: "unat pgmem = q * 2048"
    using ok by (auto simp: pgmem_ok_def)
  have "2 ^ ?k * 2 ^ (2 - ord) = (2048 :: nat)"
    using ord by (simp flip: power_add)
  then obtain p where p: "unat pgmem = 2 ^ ?k * p"
    using q by (metis mult.commute mult.assoc)
  have i2: "i div 2 < page_bitmap_sz (ord + 1)" using page_bitmap_sz_half [of ord i] ord i by simp
  have l: "?l = align (page_idx_to_addr pgmem i ord) (2 ^ ?k)"
    by (simp add: align_def align_mask_def page_shift_eq push_bit_eq_mult add.commute)
  have "unat ?l = (2 ^ ?k * p + i * 2 ^ (ord + 8)) div 2 ^ ?k * 2 ^ ?k"
    unfolding l unat_align unat_page_addr(1) [OF ok less_imp_le [OF ord] i] p ..
  also have "(2 ^ ?k * p + i * 2 ^ (ord + 8)) div 2 ^ ?k = p + i div 2"
  proof -
    have "i * 2 ^ (ord + 8) div 2 ^ ?k = i * 2 ^ (ord + 8) div (2 * 2 ^ (ord + 8))"
      by (simp add: numeral_eq_Suc)
    also have "\<dots> = i div 2" by (rule div_mult_mult2) simp
    finally show ?thesis by simp
  qed
  also have "(p + i div 2) * 2 ^ ?k = unat ?r"
    using ord i2 by (subst unat_page_addr(1) [OF ok]) (simp_all add: p algebra_simps)
  finally show ?thesis by (simp add: word_unat_eq_iff)
qed

section \<open>Releasing pages\<close>

lemma free_pages_rep:
  assumes "pgmem_ok pgmem" "page_rep B F" "ord \<le> 3" "i < page_bitmap_sz ord"
    and "units ord i \<inter> F = {}"
  shows "\<exists>B'. free_pages pgmem B (page_idx_to_addr pgmem i ord) ord = Some B' \<and>
    page_rep B' (F \<union> units ord i)"
  using assms(2-)
proof (induction "3 - ord" arbitrary: B F ord i)
  case 0
  then have "ord = 3" by simp
  then show ?case
    using 0 page_rep_set [of B F 3 i] units_bound [of 3 i] in_bitmapI [of 3 i]
    by (subst free_pages.simps)
      (simp add: MAX_PAGE_ORDER_def page_set_bit_def addr_to_page_idx_inv [OF assms(1)])
next
  case (Suc n)
  then have ord: "ord < 3" by simp
  let ?b = "get_buddy_index i"
  have half: "?b div 2 < page_bitmap_sz (ord + 1)"
    using Suc.prems ord page_bitmap_sz_half [of ord i] by (simp add: buddy_facts)
  then have b: "?b < page_bitmap_sz ord" using page_bitmap_sz_half [of ord ?b] ord by simp
  have bit: "bm_bit (B ord) ?b \<longleftrightarrow> units ord ?b \<subseteq> F"
    using page_rep_bit [OF Suc.prems(1), of ord ?b] ord Suc.prems(4) units_nonempty [of ord i]
    by (auto simp: max_free_def buddy_facts)
  show ?case
  proof (cases "bm_bit (B ord) ?b")
    case True
    let ?B = "B(ord := bitmap_clear_bit (B ord) ?b)"
    have "\<exists>B'. free_pages pgmem ?B (page_idx_to_addr pgmem (i div 2) (ord + 1)) (ord + 1) = Some B' \<and>
        page_rep B' (F - units ord ?b \<union> units (ord + 1) (i div 2))"
      using Suc.prems Suc.hyps(2) ord half True units_disjoint [of i ?b ord]
      by (intro Suc.hyps(1) page_rep_clear) (auto simp: buddy_facts)
    moreover have "F - units ord ?b \<union> units (ord + 1) (i div 2) = F \<union> units ord i"
      using True bit by (auto simp: buddy_facts)
    ultimately show ?thesis
      using True Suc.prems b ord in_bitmapI [of ord ?b]
      by (subst free_pages.simps)
        (simp add: MAX_PAGE_ORDER_def page_get_bit_def page_clear_bit_def Let_def
          bitmap_get_bit_eq addr_to_page_idx_inv [OF assms(1)]
          page_addr_mask [OF assms(1) ord, simplified])
  next
    case False
    have "\<not> units (ord + 1) (i div 2) \<subseteq> F \<union> units ord i"
      using False bit units_disjoint [of i ?b ord] buddy_facts(1) [of i]
      by (auto simp: buddy_facts(3))
    then have "page_rep (B(ord := bitmap_set_bit (B ord) i)) (F \<union> units ord i)"
      using Suc.prems by (intro page_rep_set) (auto simp: units_bound)
    then show ?thesis
      using False Suc.prems b ord in_bitmapI [of ord ?b] in_bitmapI [of ord i]
      by (subst free_pages.simps)
        (simp add: MAX_PAGE_ORDER_def page_get_bit_def page_set_bit_def Let_def
          bitmap_get_bit_eq addr_to_page_idx_inv [OF assms(1)])
  qed
qed

section \<open>Allocating pages\<close>

lemma find_first_free_page_neg:
  assumes rep: "page_rep B F" and ord: "ord \<le> 3"
  shows "find_first_free_page B ord < 0 \<longleftrightarrow> (\<forall>i. \<not> max_free F ord i)"
proof -
  have "\<not> bm_bit (B ord) i" if "\<not> i < page_bitmap_sz ord" for i
    using that units_bound [OF ord, of i] page_repD [OF rep] page_rep_bit [OF rep, of ord i]
    by (auto simp: max_free_def)
  then show ?thesis
    using one_slots.first_ge_iff [of "page_bitmap_sz ord" "B ord"] page_rep_bit [OF rep, of ord]
    by (auto simp: find_first_free_page_def Let_def)
qed

lemma first_order_with_page_spec:
  assumes "page_rep B F" "ord \<le> 4"
  shows "ord \<le> first_order_with_page B ord \<and> first_order_with_page B ord \<le> 4 \<and>
    (\<forall>b i. ord \<le> b \<longrightarrow> b < first_order_with_page B ord \<longrightarrow> \<not> max_free F b i) \<and>
    (first_order_with_page B ord \<le> 3 \<longrightarrow> (\<exists>i. max_free F (first_order_with_page B ord) i))"
  using assms(2)
proof (induction "4 - ord" arbitrary: ord)
  case 0
  then show ?case by (subst (1 2 3 4 5) first_order_with_page.simps) (simp add: MAX_PAGE_ORDER_def)
next
  case (Suc n)
  then have ord: "ord \<le> 3" by simp
  show ?case
  proof (cases "find_first_free_page B ord < 0")
    case True
    then have "first_order_with_page B ord = first_order_with_page B (ord + 1)"
      using ord by (subst first_order_with_page.simps) (simp add: MAX_PAGE_ORDER_def)
    moreover have "\<And>i. \<not> max_free F ord i"
      using True find_first_free_page_neg [OF assms(1) ord] by simp
    moreover have "n = 4 - (ord + 1)" using Suc.hyps(2) by simp
    ultimately show ?thesis
      using Suc.hyps(1) [of "ord + 1"] ord
      by (simp add: Suc_le_eq) (metis le_neq_implies_less)
  next
    case False
    then have "first_order_with_page B ord = ord"
      by (subst first_order_with_page.simps) simp
    then show ?thesis
      using False ord find_first_free_page_neg [OF assms(1) ord] by auto
  qed
qed

text \<open>
  The state between two splits: block \<open>j\<close> of order \<open>ord\<close> is the first one in its bitmap, it
  is free, and without it the bitmaps are again those of a set of free units.
\<close>

definition holding :: "page_maps \<Rightarrow> nat set \<Rightarrow> nat \<Rightarrow> nat \<Rightarrow> nat \<Rightarrow> bool" where
  "holding B F order ord j \<longleftrightarrow>
     page_rep (B(ord := bitmap_clear_bit (B ord) j)) (F - units ord j) \<and>
     units ord j \<subseteq> F \<and> F \<subseteq> {..<128} \<and>
     least_below (bm_bit (B ord)) (page_bitmap_sz ord) j \<and>
     (\<forall>b i. order \<le> b \<longrightarrow> b < ord \<longrightarrow> \<not> bm_bit (B b) i)"

lemma split_first_free_page_holding:
  assumes hold: "holding B F order (Suc ord) j" and "order \<le> ord" "Suc ord \<le> 3"
  shows "\<exists>B'. split_first_free_page B (Suc ord) = Some B' \<and> holding B' F order ord (j * 2)"
proof -
  let ?B0 = "B(Suc ord := bitmap_clear_bit (B (Suc ord)) j)"
  let ?B' = "?B0(ord := bitmap_set_bit (bitmap_set_bit (B ord) (j * 2)) (j * 2 + 1))"
  let ?F0 = "F - units (Suc ord) j"
  have j: "j < page_bitmap_sz (Suc ord)"
    using hold assms(3) units_bound [of "Suc ord" j] by (auto simp: holding_def)
  then have j2: "j * 2 < page_bitmap_sz ord" "j * 2 + 1 < page_bitmap_sz ord"
    using page_bitmap_sz_half [of ord "j * 2"] page_bitmap_sz_half [of ord "j * 2 + 1"] assms(3)
    by auto
  have first: "find_first_bit (B (Suc ord)) (page_bitmap_sz (Suc ord)) = j"
    using hold by (intro least_below_unique [OF find_first_bit_least]) (simp add: holding_def)
  have run: "split_first_free_page B (Suc ord) = Some ?B'"
    using assms(3) j j2 in_bitmapI [of "Suc ord" j] in_bitmapI [of ord "j * 2"]
      in_bitmapI [of ord "j * 2 + 1"]
    by (simp add: split_first_free_page_def first page_clear_bit_def page_set_bit_def)
  have none: "\<not> bm_bit (B ord) i" for i using hold assms(2) by (auto simp: holding_def)
  have B0: "?B'(ord := bitmap_clear_bit (?B' ord) (j * 2)) =
      ?B0(ord := bitmap_set_bit (?B0 ord) (j * 2 + 1))"
    using none by (intro ext words_eqI [THEN fun_cong]) (auto simp: bitmap_simps)
  have F0: "?F0 \<union> units ord (j * 2 + 1) = F - units ord (j * 2)"
    using hold units_disjoint [of "j * 2" "j * 2 + 1" ord]
    by (auto simp: holding_def units_children)
  have "page_rep (?B0(ord := bitmap_set_bit (?B0 ord) (j * 2 + 1))) (?F0 \<union> units ord (j * 2 + 1))"
    using hold assms(3) units_bound [of ord "j * 2 + 1"] j2 units_not_empty [of ord "j * 2"]
      units_disjoint [of "j * 2" "j * 2 + 1" ord]
    by (intro page_rep_set) (auto simp: holding_def units_children simp del: units_not_empty)
  moreover have "least_below (bm_bit (?B' ord)) (page_bitmap_sz ord) (j * 2)"
    using none j2 by (auto simp: least_below_def bitmap_simps)
  ultimately have "holding ?B' F order ord (j * 2)"
    using hold unfolding holding_def B0 F0 by (auto simp: units_children)
  with run show ?thesis by blast
qed

lemma split_down_holding:
  assumes "holding B F order ord j" "order \<le> ord" "ord \<le> 3"
  shows "\<exists>B'. split_down B ord order = Some B' \<and> holding B' F order order (j * 2 ^ (ord - order))"
  using assms
proof (induction "ord - order" arbitrary: B ord j)
  case 0
  then show ?case by (simp add: split_down.simps)
next
  case (Suc n)
  then obtain b where ord: "ord = Suc b" "order \<le> b" by (cases ord) auto
  from split_first_free_page_holding [of B F order b j] Suc.prems ord
  obtain B' where B': "split_first_free_page B ord = Some B'" "holding B' F order b (j * 2)"
    by auto
  from Suc.hyps(1) [of b B' "j * 2"] Suc.hyps(2) Suc.prems ord B' show ?case
    by (subst split_down.simps) (simp add: Suc_diff_le mult.assoc)
qed

lemma alloc_pages_none:
  assumes rep: "page_rep B F" and "\<And>i. order \<le> 3 \<Longrightarrow> \<not> units order i \<subseteq> F"
  shows "alloc_pages pgmem B order = Some (None, B)"
proof (cases "order \<le> 3")
  case True
  have "\<not> max_free F b i" if "order \<le> b" "b \<le> 3" for b i
  proof
    assume "max_free F b i"
    moreover obtain u where "u \<in> units b i" using units_nonempty by blast
    ultimately have "units order (u div 2 ^ order) \<subseteq> F"
      using that units_nested [of order b u "u div 2 ^ order" i]
      by (auto simp: max_free_def units_iff)
    then show False using assms(2) True by simp
  qed
  then have "\<not> first_order_with_page B order \<le> 3"
    using first_order_with_page_spec [OF rep, of order] True by auto
  then show ?thesis by (simp add: alloc_pages_def MAX_PAGE_ORDER_def Let_def)
next
  case False
  then have "first_order_with_page B order = order"
    by (subst first_order_with_page.simps) (simp add: MAX_PAGE_ORDER_def)
  then show ?thesis using False by (simp add: alloc_pages_def MAX_PAGE_ORDER_def Let_def)
qed

lemma alloc_pages_some:
  assumes rep: "page_rep B F" and order: "order \<le> 3" and blk: "units order k \<subseteq> F"
  shows "\<exists>i B'. alloc_pages pgmem B order = Some (Some (page_idx_to_addr pgmem i order), B') \<and>
    units order i \<subseteq> F \<and> page_rep B' (F - units order i)"
proof -
  let ?ord = "first_order_with_page B order"
  note spec = first_order_with_page_spec [OF rep, of order]
  obtain u where "u \<in> units order k" using units_nonempty by blast
  then have "?ord \<le> 3"
    using maximal_block [of u order k order F] spec order blk
    unfolding max_free_def by fastforce
  then obtain i0 where i0: "max_free F ?ord i0" using spec order by auto
  define j where "j = find_first_bit (B ?ord) (page_bitmap_sz ?ord)"
  have bits: "bm_bit (B b) i \<longleftrightarrow> max_free F b i" for b i by (rule page_rep_bit [OF rep])
  have "i0 < page_bitmap_sz ?ord"
    using i0 page_repD [OF rep] units_bound [of ?ord i0] by (auto simp: max_free_def)
  then have j: "bm_bit (B ?ord) j"
    using i0 one_slots.first_ge_iff [of "page_bitmap_sz ?ord" "B ?ord"]
      one_slots.first_avail [of "B ?ord" "page_bitmap_sz ?ord"]
    by (auto simp: j_def bits not_le)
  have "holding B F order ?ord j"
    unfolding holding_def
    using page_rep_clear [OF rep j] j page_repD [OF rep] spec order
      find_first_bit_least [of "B ?ord" "page_bitmap_sz ?ord"]
    by (auto simp: bits max_free_def j_def [symmetric])
  then obtain B' i where B': "split_down B ?ord order = Some B'" "holding B' F order order i"
    using split_down_holding [of B F order ?ord j] spec order \<open>?ord \<le> 3\<close> by auto
  then have "find_first_bit (B' order) (page_bitmap_sz order) = i"
    by (intro least_below_unique [OF find_first_bit_least]) (simp add: holding_def)
  moreover have "in_bitmap order i"
    using B' order units_bound [of order i] by (auto simp: holding_def intro: in_bitmapI)
  ultimately show ?thesis
    using B' \<open>?ord \<le> 3\<close>
    by (auto simp: alloc_pages_def MAX_PAGE_ORDER_def Let_def page_clear_bit_def holding_def)
qed

section \<open>The contract of the allocator\<close>

text \<open>
  What the clients rely on: a representation \<open>rep m F\<close> of the free units, a set \<open>blk a ord\<close>
  of units for each block, and the effect of the two operations on \<open>F\<close>.
\<close>

locale block_allocator =
  fixes rep :: "'m \<Rightarrow> nat set \<Rightarrow> bool"
    and alloc :: "'m \<Rightarrow> nat \<Rightarrow> ('a option \<times> 'm) option"
    and release :: "'m \<Rightarrow> 'a \<Rightarrow> nat \<Rightarrow> 'm option"
    and is_block :: "'a \<Rightarrow> nat \<Rightarrow> bool"
    and blk :: "'a \<Rightarrow> nat \<Rightarrow> nat set"
  assumes alloc_runs: "rep m F \<Longrightarrow> \<exists>r m'. alloc m ord = Some (r, m')"
    and alloc_block: "rep m F \<Longrightarrow> alloc m ord = Some (Some a, m') \<Longrightarrow>
      is_block a ord \<and> blk a ord \<subseteq> F \<and> rep m' (F - blk a ord)"
    and alloc_fails: "rep m F \<Longrightarrow> alloc m ord = Some (None, m') \<Longrightarrow>
      m' = m \<and> (\<forall>a. is_block a ord \<longrightarrow> \<not> blk a ord \<subseteq> F)"
    and release_block: "rep m F \<Longrightarrow> is_block a ord \<Longrightarrow> blk a ord \<inter> F = {} \<Longrightarrow>
      \<exists>m'. release m a ord = Some m' \<and> rep m' (F \<union> blk a ord)"
    and rep_determines: "rep m F \<Longrightarrow> rep m' F \<Longrightarrow> m = m'"
begin

lemma alloc_release:
  assumes "rep m F" "alloc m ord = Some (Some a, m')"
  shows "release m' a ord = Some m"
proof -
  from alloc_block [OF assms] have a: "is_block a ord" "blk a ord \<subseteq> F" "rep m' (F - blk a ord)"
    by auto
  from release_block [OF a(3,1)] obtain m'' where "release m' a ord = Some m''"
    "rep m'' (F - blk a ord \<union> blk a ord)" by auto
  moreover have "F - blk a ord \<union> blk a ord = F" using a(2) by auto
  ultimately show ?thesis using rep_determines [OF assms(1)] by auto
qed

text \<open>Allocating a list of orders; a failed request is skipped. Releasing a list of blocks.\<close>

fun alloc_list :: "'m \<Rightarrow> nat list \<Rightarrow> (('a \<times> nat) list \<times> 'm) option" where
  "alloc_list m [] = Some ([], m)"
| "alloc_list m (ord # ords) =
     (case alloc m ord of
        None \<Rightarrow> None
      | Some (None, m') \<Rightarrow> alloc_list m' ords
      | Some (Some a, m') \<Rightarrow>
          map_option (\<lambda>(bs, m''). ((a, ord) # bs, m'')) (alloc_list m' ords))"

fun release_list :: "'m \<Rightarrow> ('a \<times> nat) list \<Rightarrow> 'm option" where
  "release_list m [] = Some m"
| "release_list m ((a, ord) # bs) =
     (case release m a ord of None \<Rightarrow> None | Some m' \<Rightarrow> release_list m' bs)"

definition cover :: "('a \<times> nat) list \<Rightarrow> nat set" where
  "cover bs = (\<Union>(a, ord)\<in>set bs. blk a ord)"

fun apart :: "('a \<times> nat) list \<Rightarrow> nat set \<Rightarrow> bool" where
  "apart [] F = True"
| "apart ((a, ord) # bs) F =
     (is_block a ord \<and> blk a ord \<inter> (F \<union> cover bs) = {} \<and> apart bs F)"

lemma cover_simps [simp]:
  "cover [] = {}" "cover ((a, ord) # bs) = blk a ord \<union> cover bs" "cover (xs @ ys) = cover xs \<union> cover ys"
  by (auto simp: cover_def)

lemma apart_middle: "apart (xs @ x # ys) F \<longleftrightarrow> apart (x # xs @ ys) F"
  by (cases x, induction xs) (auto split: prod.splits)

lemma apart_perm: "mset bs = mset bs' \<Longrightarrow> apart bs F \<Longrightarrow> apart bs' F"
proof (induction bs' arbitrary: bs)
  case (Cons b bs')
  then have "b \<in> set bs" by (metis list.set_intros(1) mset_eq_setD)
  then obtain xs ys where bs: "bs = xs @ b # ys" by (meson split_list)
  then have "mset (xs @ ys) = mset bs'" using Cons.prems(1) by simp
  moreover from this have "set (xs @ ys) = set bs'" by (rule mset_eq_setD)
  moreover have "apart (b # xs @ ys) F" using Cons.prems bs apart_middle by simp
  ultimately show ?case
    using Cons.IH [of "xs @ ys"] by (cases b) (simp add: cover_def)
qed simp

lemma alloc_list_apart:
  assumes "rep m F"
  shows "\<exists>bs m'. alloc_list m ords = Some (bs, m') \<and> cover bs \<subseteq> F \<and>
    apart bs (F - cover bs) \<and> rep m' (F - cover bs)"
  using assms
proof (induction ords arbitrary: m F)
  case (Cons ord ords)
  from alloc_runs [OF Cons.prems, of ord] obtain r m' where m': "alloc m ord = Some (r, m')" by auto
  show ?case
  proof (cases r)
    case None
    then show ?thesis using m' alloc_fails [OF Cons.prems] Cons.IH [OF Cons.prems] by auto
  next
    case (Some a)
    then have a: "is_block a ord" "blk a ord \<subseteq> F" "rep m' (F - blk a ord)"
      using m' alloc_block [OF Cons.prems] by auto
    from Cons.IH [OF a(3)] obtain bs m'' where bs: "alloc_list m' ords = Some (bs, m'')"
      "cover bs \<subseteq> F - blk a ord" "apart bs (F - blk a ord - cover bs)"
      "rep m'' (F - blk a ord - cover bs)" by auto
    have "F - (blk a ord \<union> cover bs) = F - blk a ord - cover bs" by auto
    then show ?thesis using m' Some a bs by (intro exI [of _ "(a, ord) # bs"] exI [of _ m'']) auto
  qed
qed simp

lemma release_list_apart:
  assumes "rep m F" "apart bs F"
  shows "\<exists>m'. release_list m bs = Some m' \<and> rep m' (F \<union> cover bs)"
  using assms
proof (induction bs arbitrary: m F)
  case (Cons b bs)
  obtain a ord where b: "b = (a, ord)" by force
  then have blk: "is_block a ord" "blk a ord \<inter> F = {}" "blk a ord \<inter> cover bs = {}" "apart bs F"
    using Cons.prems by auto
  have "apart bs (F \<union> blk a ord)" using blk(3,4)
    by (induction bs) (auto simp: disjoint_iff split: prod.splits)
  moreover from release_block [OF Cons.prems(1) blk(1,2)] obtain m' where
    "release m a ord = Some m'" "rep m' (F \<union> blk a ord)" by auto
  ultimately show ?case using Cons.IH [of m' "F \<union> blk a ord"] b by (simp add: Un_assoc)
qed simp

lemma alloc_release_any_order:
  assumes "rep m F" "alloc_list m ords = Some (bs, m')" "mset bs' = mset bs"
  shows "release_list m' bs' = Some m"
proof -
  from alloc_list_apart [OF assms(1), of ords] assms(2) have
    bs: "cover bs \<subseteq> F" "apart bs (F - cover bs)" "rep m' (F - cover bs)" by auto
  have "cover bs' = cover bs" using assms(3) by (metis cover_def mset_eq_setD)
  moreover have "F - cover bs \<union> cover bs = F" using bs(1) by auto
  ultimately show ?thesis
    using release_list_apart [OF bs(3) apart_perm [OF assms(3) [symmetric] bs(2)]]
      rep_determines [OF assms(1)] by auto
qed

end

definition page_block :: "addr \<Rightarrow> addr \<Rightarrow> nat \<Rightarrow> bool" where
  "page_block pgmem a ord \<longleftrightarrow>
     pgmem_ok pgmem \<and> ord \<le> 3 \<and> (\<exists>i<page_bitmap_sz ord. a = page_idx_to_addr pgmem i ord)"

definition page_units :: "addr \<Rightarrow> addr \<Rightarrow> nat \<Rightarrow> nat set" where
  "page_units pgmem a ord = units ord (addr_to_page_idx pgmem a ord)"

definition pages_rep :: "addr \<Rightarrow> page_maps \<Rightarrow> nat set \<Rightarrow> bool" where
  "pages_rep pgmem B F \<longleftrightarrow> pgmem_ok pgmem \<and> page_rep B F"

lemma page_units_block:
  "pgmem_ok pgmem \<Longrightarrow> ord \<le> 3 \<Longrightarrow> i < page_bitmap_sz ord \<Longrightarrow>
    page_units pgmem (page_idx_to_addr pgmem i ord) ord = units ord i"
  by (simp add: page_units_def addr_to_page_idx_inv)

lemma alloc_pages_cases:
  assumes "pages_rep pgmem B F"
  obtains (block) i B' where "ord \<le> 3" "i < page_bitmap_sz ord" "units ord i \<subseteq> F"
      "alloc_pages pgmem B ord = Some (Some (page_idx_to_addr pgmem i ord), B')"
      "page_rep B' (F - units ord i)"
  | (full) "alloc_pages pgmem B ord = Some (None, B)" "\<And>i. ord \<le> 3 \<Longrightarrow> \<not> units ord i \<subseteq> F"
proof (cases "\<exists>k. ord \<le> 3 \<and> units ord k \<subseteq> F")
  case True
  then obtain k where k: "ord \<le> 3" "units ord k \<subseteq> F" by auto
  from alloc_pages_some [of B F, OF _ k, of pgmem] assms obtain i B' where
    "alloc_pages pgmem B ord = Some (Some (page_idx_to_addr pgmem i ord), B')"
    "units ord i \<subseteq> F" "page_rep B' (F - units ord i)" by (auto simp: pages_rep_def)
  moreover have "i < page_bitmap_sz ord"
    using calculation(2) assms units_bound [OF k(1), of i] by (auto simp: pages_rep_def page_rep_def)
  ultimately show thesis using block k by blast
next
  case False
  then show thesis using full alloc_pages_none [of B F ord pgmem] assms
    by (auto simp: pages_rep_def)
qed

interpretation pages: block_allocator "pages_rep pgmem" "alloc_pages pgmem" "free_pages pgmem"
  "page_block pgmem" "page_units pgmem"
proof
  fix m F ord
  assume rep: "pages_rep pgmem m F"
  then have ok: "pgmem_ok pgmem" by (simp add: pages_rep_def)
  show "\<exists>r m'. alloc_pages pgmem m ord = Some (r, m')"
    by (rule alloc_pages_cases [OF rep, of ord]) auto
  show "page_block pgmem a ord \<and> page_units pgmem a ord \<subseteq> F \<and>
      pages_rep pgmem m' (F - page_units pgmem a ord)"
    if "alloc_pages pgmem m ord = Some (Some a, m')" for a m'
    by (rule alloc_pages_cases [OF rep, of ord])
      (use that ok in \<open>auto simp: page_block_def page_units_block pages_rep_def\<close>)
  show "m' = m \<and> (\<forall>a. page_block pgmem a ord \<longrightarrow> \<not> page_units pgmem a ord \<subseteq> F)"
    if "alloc_pages pgmem m ord = Some (None, m')" for m'
    by (rule alloc_pages_cases [OF rep, of ord])
      (use that ok in \<open>auto simp: page_block_def page_units_def\<close>)
  show "\<exists>m'. free_pages pgmem m a ord = Some m' \<and> pages_rep pgmem m' (F \<union> page_units pgmem a ord)"
    if "page_block pgmem a ord" "page_units pgmem a ord \<inter> F = {}" for a
    using that rep free_pages_rep [of pgmem m F ord]
    by (auto simp: page_block_def page_units_block pages_rep_def)
  show "m = m'" if "pages_rep pgmem m' F" for m'
    using that rep page_rep_unique by (auto simp: pages_rep_def)
qed

section \<open>Runs from the boot state\<close>

lemma units_iff_less_120:
  assumes "ord < 3"
  shows "units ord i \<subseteq> {..<120} \<longleftrightarrow> units (ord + 1) (i div 2) \<subseteq> {..<120}"
proof -
  have "units ord i \<subseteq> {..<120} \<longleftrightarrow> (i + 1) * 2 ^ ord \<le> 120" for ord i
    unfolding units_def lessThan_atLeast0 by (simp add: ivl_subset)
  moreover from assms have "ord = 0 \<or> ord = 1 \<or> ord = 2" by linarith
  ultimately show ?thesis by auto
qed

lemma page_rep_boot: "page_rep page_bitmap {..<120}"
proof -
  have "max_free {..<120} ord i \<longleftrightarrow> ord = 3 \<and> i < 15" for ord i
  proof (cases "ord < 3")
    case True
    then show ?thesis using units_iff_less_120 [of ord i] by (simp add: max_free_def)
  next
    case False
    have "units 3 i \<subseteq> {..<120} \<longleftrightarrow> (i + 1) * 8 \<le> 120"
      unfolding units_def lessThan_atLeast0 by (simp add: ivl_subset)
    then show ?thesis using False by (auto simp: max_free_def)
  qed
  moreover have "bit (0x7fff :: u32) n \<longleftrightarrow> n < 15" for n
  proof -
    have "(0x7fff :: u32) = mask 15" by (simp add: mask_eq_exp_minus_1)
    then show ?thesis by (simp only: bit_mask_iff) auto
  qed
  ultimately show ?thesis
    by (auto simp: page_rep_def page_bitmap_def bm_bit_def split: if_splits)
qed

text \<open>
  Allocations and releases in any order from the boot state; \<open>L\<close> holds the live blocks, and a
  release names one of them, with the order it was allocated with.
\<close>

inductive page_run :: "addr \<Rightarrow> page_maps \<Rightarrow> (addr \<times> nat) list \<Rightarrow> bool" for pgmem where
  run_boot: "page_run pgmem page_bitmap []"
| run_alloc: "page_run pgmem B L \<Longrightarrow> alloc_pages pgmem B ord = Some (Some a, B') \<Longrightarrow>
    page_run pgmem B' ((a, ord) # L)"
| run_full: "page_run pgmem B L \<Longrightarrow> alloc_pages pgmem B ord = Some (None, B') \<Longrightarrow>
    page_run pgmem B' L"
| run_free: "page_run pgmem B L \<Longrightarrow> (a, ord) \<in> set L \<Longrightarrow> free_pages pgmem B a ord = Some B' \<Longrightarrow>
    page_run pgmem B' (remove1 (a, ord) L)"

lemma page_run_inv:
  assumes "page_run pgmem B L" "pgmem_ok pgmem"
  shows "pages_rep pgmem B ({..<120} - pages.cover pgmem L) \<and> pages.cover pgmem L \<subseteq> {..<120} \<and>
    pages.apart pgmem L {}"
  using assms
proof (induction rule: page_run.induct)
  case run_boot
  then show ?case by (simp add: pages_rep_def page_rep_boot)
next
  case (run_alloc B L ord a B')
  from run_alloc have rep: "pages_rep pgmem B ({..<120} - pages.cover pgmem L)" by simp
  have "{..<120} - pages.cover pgmem L - page_units pgmem a ord =
      {..<120} - (page_units pgmem a ord \<union> pages.cover pgmem L)" by auto
  then show ?case
    using pages.alloc_block [OF rep run_alloc.hyps(2)] run_alloc by auto
next
  case (run_full B L ord B')
  from run_full have rep: "pages_rep pgmem B ({..<120} - pages.cover pgmem L)" by simp
  show ?case using pages.alloc_fails [OF rep run_full.hyps(2)] run_full by auto
next
  case (run_free B L a ord B')
  then have rep: "pages_rep pgmem B ({..<120} - pages.cover pgmem L)"
    and ap: "pages.apart pgmem L {}" and sub: "pages.cover pgmem L \<subseteq> {..<120}" by auto
  let ?L = "remove1 (a, ord) L"
  have perm: "mset L = mset ((a, ord) # ?L)" using run_free by (simp add: insert_DiffM)
  then have ap': "pages.apart pgmem ((a, ord) # ?L) {}" using pages.apart_perm ap by blast
  have cov: "pages.cover pgmem L = page_units pgmem a ord \<union> pages.cover pgmem ?L"
    using mset_eq_setD [OF perm] unfolding pages.cover_def by simp
  have "\<exists>B''. free_pages pgmem B a ord = Some B'' \<and>
      pages_rep pgmem B'' ({..<120} - pages.cover pgmem L \<union> page_units pgmem a ord)"
    using ap' cov by (intro pages.release_block [OF rep]) auto
  moreover have "{..<120} - pages.cover pgmem L \<union> page_units pgmem a ord =
      {..<120} - pages.cover pgmem ?L" using ap' cov sub by auto
  ultimately show ?case using run_free ap' sub cov by auto
qed

lemma apart_nth:
  "pages.apart pgmem L {} \<Longrightarrow> i < j \<Longrightarrow> j < length L \<Longrightarrow>
    page_units pgmem (fst (L ! i)) (snd (L ! i)) \<inter> page_units pgmem (fst (L ! j)) (snd (L ! j)) = {}"
proof (induction L arbitrary: i j)
  case (Cons b L)
  obtain a ord where b: "b = (a, ord)" by force
  show ?case
  proof (cases i)
    case 0
    then have "L ! (j - 1) \<in> set L" using Cons.prems by (auto intro: nth_mem)
    then have "page_units pgmem (fst (L ! (j - 1))) (snd (L ! (j - 1))) \<subseteq> pages.cover pgmem L"
      unfolding pages.cover_def by force
    then show ?thesis using 0 b Cons.prems by (auto simp: nth_Cons')
  next
    case (Suc k)
    then show ?thesis using Cons.IH [of k "j - 1"] Cons.prems b by (auto simp: nth_Cons')
  qed
qed simp

section \<open>Properties\<close>

text \<open>
  C1. \<^verbatim>\<open>alloc_pages\<close> on any coalesced state returns a page of the requested order that was
  free, and removes exactly its units; it returns NULL, changing nothing, exactly when the
  order is above the maximum or no aligned free page of that order exists.
\<close>

theorem alloc_pages_correct:
  assumes "pgmem_ok pgmem" "page_rep B F"
  shows "if \<exists>k. order \<le> MAX_PAGE_ORDER \<and> units order k \<subseteq> F
    then \<exists>i B'. alloc_pages pgmem B order = Some (Some (page_idx_to_addr pgmem i order), B') \<and>
      i < page_bitmap_sz order \<and> units order i \<subseteq> F \<and> page_rep B' (F - units order i)
    else alloc_pages pgmem B order = Some (None, B)"
  by (rule alloc_pages_cases [of pgmem B F order])
    (use assms in \<open>auto simp: pages_rep_def MAX_PAGE_ORDER_def\<close>)

theorem alloc_pages_correct_witness:
  "\<exists>i B'. alloc_pages 0x20001000 page_bitmap 1 = Some (Some (page_idx_to_addr 0x20001000 i 1), B') \<and>
      i < page_bitmap_sz 1 \<and> units 1 i \<subseteq> {..<120} \<and> page_rep B' ({..<120} - units 1 i)"
proof -
  have "units 1 0 \<subseteq> {..<120}" by (auto simp: units_def)
  moreover have "pgmem_ok 0x20001000" by (simp add: pgmem_ok_def)
  ultimately show ?thesis
    using alloc_pages_correct [OF _ page_rep_boot, of "0x20001000" 1]
    by (auto simp: MAX_PAGE_ORDER_def split: if_splits)
qed

text \<open>
  C2. \<^verbatim>\<open>free_pages\<close> of an allocated page succeeds and gives the bitmaps of the larger free
  set: buddies are merged as far as the maximal order, so the state stays coalesced.
\<close>

theorem free_pages_correct:
  assumes "pgmem_ok pgmem" "page_rep B F" "order \<le> MAX_PAGE_ORDER" "i < page_bitmap_sz order"
    and "units order i \<inter> F = {}"
  shows "\<exists>B'. free_pages pgmem B (page_idx_to_addr pgmem i order) order = Some B' \<and>
    page_rep B' (F \<union> units order i)"
  using assms free_pages_rep by (simp add: MAX_PAGE_ORDER_def)

theorem free_pages_correct_witness:
  "\<exists>B'. free_pages 0x20001000 page_bitmap (page_idx_to_addr 0x20001000 15 3) 3 = Some B' \<and>
    page_rep B' ({..<120} \<union> units 3 15)"
  by (rule free_pages_correct [OF _ page_rep_boot])
    (auto simp: pgmem_ok_def MAX_PAGE_ORDER_def page_bitmap_sz_def units_def)

text \<open>
  C4. Whatever pages are allocated from a coalesced state, releasing them in any order
  restores the bitmaps, and with them the signature that
  \<^verbatim>\<open>page_alloc_signature\<close> computes to detect fragmentation.
\<close>

theorem pages_release_any_order:
  assumes "pgmem_ok pgmem" "page_rep B F"
    and "pages.alloc_list pgmem B orders = Some (blocks, B')" "mset released = mset blocks"
  shows "\<exists>B''. pages.release_list pgmem B' released = Some B'' \<and> B'' = B \<and>
    page_alloc_signature B'' = page_alloc_signature B"
  using pages.alloc_release_any_order [OF _ assms(3,4)] assms(1,2) by (auto simp: pages_rep_def)

theorem pages_release_any_order_witness:
  "\<exists>blocks B'. pages.alloc_list 0x20001000 page_bitmap [0, 2, 0] = Some (blocks, B') \<and>
    pages.release_list 0x20001000 B' (rev blocks) = Some page_bitmap"
proof -
  have ok: "pgmem_ok 0x20001000" by (simp add: pgmem_ok_def)
  then obtain blocks B' where
    run: "pages.alloc_list 0x20001000 page_bitmap [0, 2, 0] = Some (blocks, B')"
    using pages.alloc_list_apart [of "0x20001000" page_bitmap "{..<120}" "[0, 2, 0]"] page_rep_boot
    by (auto simp: pages_rep_def)
  from pages_release_any_order [OF ok page_rep_boot run, of "rev blocks"] run show ?thesis by auto
qed

text \<open>
  C3. In every state reached from boot by allocations and releases of live blocks, two live
  blocks never share a unit, none overlaps the free pages, and releasing any of them does not
  fail.
\<close>

theorem page_run_safe:
  assumes "pgmem_ok pgmem" "page_run pgmem B L"
  shows "\<exists>F. page_rep B F \<and>
      (\<forall>i<length L. page_units pgmem (fst (L ! i)) (snd (L ! i)) \<inter> F = {} \<and>
        (\<exists>B'. free_pages pgmem B (fst (L ! i)) (snd (L ! i)) = Some B')) \<and>
      (\<forall>i j. i < j \<longrightarrow> j < length L \<longrightarrow>
        page_units pgmem (fst (L ! i)) (snd (L ! i)) \<inter> page_units pgmem (fst (L ! j)) (snd (L ! j)) = {})"
proof (rule exI [of _ "{..<120} - pages.cover pgmem L"], intro conjI allI impI)
  let ?F = "{..<120} - pages.cover pgmem L"
  have inv: "pages_rep pgmem B ?F" "pages.apart pgmem L {}"
    using page_run_inv [OF assms(2,1)] by auto
  then show "page_rep B ?F" by (simp add: pages_rep_def)
  fix i assume i: "i < length L"
  show off: "page_units pgmem (fst (L ! i)) (snd (L ! i)) \<inter> ?F = {}"
    using nth_mem [OF i] unfolding pages.cover_def by (auto simp: case_prod_beta)
  have "page_block pgmem (fst (L ! i)) (snd (L ! i))"
    using inv(2) i
  proof (induction L arbitrary: i)
    case (Cons b L)
    then show ?case by (cases b; cases i) auto
  qed simp
  then show "\<exists>B'. free_pages pgmem B (fst (L ! i)) (snd (L ! i)) = Some B'"
    using pages.release_block [OF inv(1) _ off] by auto
next
  fix i j assume "i < j" "j < length L"
  then show "page_units pgmem (fst (L ! i)) (snd (L ! i)) \<inter> page_units pgmem (fst (L ! j)) (snd (L ! j)) = {}"
    using apart_nth page_run_inv [OF assms(2,1)] by blast
qed

theorem page_run_safe_witness:
  "\<exists>a b B F. page_run 0x20001000 B [(a, 0), (b, 3)] \<and> page_rep B F \<and>
     page_units 0x20001000 a 0 \<inter> page_units 0x20001000 b 3 = {}"
proof -
  have ok: "pgmem_ok 0x20001000" by (simp add: pgmem_ok_def)
  have "pages_rep 0x20001000 page_bitmap {..<120}" using ok page_rep_boot by (simp add: pages_rep_def)
  moreover have "units 3 0 \<subseteq> {..<120}" by (auto simp: units_def)
  ultimately obtain i B where B: "alloc_pages 0x20001000 page_bitmap 3 =
      Some (Some (page_idx_to_addr 0x20001000 i 3), B)" "page_rep B ({..<120} - units 3 i)"
    using alloc_pages_cases [of "0x20001000" page_bitmap "{..<120}" 3 thesis] by auto
  have "units 0 0 \<subseteq> {..<120} - units 3 i \<or> units 0 8 \<subseteq> {..<120} - units 3 i"
    by (auto simp: units_def)
  then obtain k B' where B': "alloc_pages 0x20001000 B 0 =
      Some (Some (page_idx_to_addr 0x20001000 k 0), B')"
    using alloc_pages_cases [of "0x20001000" B _ 0 thesis] B(2) ok by (auto simp: pages_rep_def)
  have "page_run 0x20001000 B' [(page_idx_to_addr 0x20001000 k 0, 0), (page_idx_to_addr 0x20001000 i 3, 3)]"
    by (intro run_alloc [OF run_alloc [OF run_boot B(1)] B'])
  moreover from page_run_safe [OF ok this] obtain F where "page_rep B' F"
    "\<And>L. L = [(page_idx_to_addr 0x20001000 k 0, 0), (page_idx_to_addr 0x20001000 i 3, 3)] \<Longrightarrow>
      page_units 0x20001000 (fst (L ! 0)) (snd (L ! 0)) \<inter>
      page_units 0x20001000 (fst (L ! 1)) (snd (L ! 1)) = {}"
    by (metis One_nat_def length_Cons lessI list.size(3) zero_less_one)
  ultimately show ?thesis by force
qed

text \<open>
  \<^verbatim>\<open>size_to_page_order\<close> returns the least order whose pages hold the size, and -1, which
  \<^verbatim>\<open>alloc_pages\<close> refuses after its conversion to unsigned, exactly above 2 KB.
\<close>

lemma size_to_page_order_fits:
  "(size_to_page_order sz = - 1 \<longleftrightarrow> 2048 < sz) \<and>
   (\<forall>k. size_to_page_order sz = int k \<longleftrightarrow>
      k \<le> MAX_PAGE_ORDER \<and> unat sz \<le> 2 ^ (k + 8) \<and> (k = 0 \<or> 2 ^ (k + 7) < unat sz)) \<and>
   alloc_pages pgmem B (unat (word_of_int (- 1) :: u32)) = Some (None, B)"
proof (intro conjI allI)
  show "size_to_page_order sz = - 1 \<longleftrightarrow> 2048 < sz"
    by (auto simp: size_to_page_order_def word_le_nat_alt word_less_nat_alt)
  show "size_to_page_order sz = int k \<longleftrightarrow>
      k \<le> MAX_PAGE_ORDER \<and> unat sz \<le> 2 ^ (k + 8) \<and> (k = 0 \<or> 2 ^ (k + 7) < unat sz)" for k
  proof -
    have "k \<le> 3 \<longleftrightarrow> k = 0 \<or> k = 1 \<or> k = 2 \<or> k = 3" by linarith
    then show ?thesis
      by (auto simp: size_to_page_order_def MAX_PAGE_ORDER_def word_le_nat_alt)
  qed
  have "unat (word_of_int (- 1) :: u32) = 4294967295"
    by (simp add: unsigned_minus_1_eq_mask mask_eq_exp_minus_1)
  then show "alloc_pages pgmem B (unat (word_of_int (- 1) :: u32)) = Some (None, B)"
    by (subst alloc_pages_def, subst first_order_with_page.simps) (simp add: MAX_PAGE_ORDER_def)
qed

end
