(* ===== verification/Slab.thy ===== *)
theory Slab
  imports Linux_List Page
begin

text \<open>
  The slab allocator, \<^verbatim>\<open>kernel/mm/slab.c\<close>. A cache keeps its slabs, each one page of 256 bytes,
  on three lists (free, partial, full); a slab starts with its header, followed by the objects,
  and the header's bitmap has one bit per object (1 = in use).

  The state holds the bitmaps of the page allocator, the link fields of all list heads, the slab
  headers by the address of their page, and the caches by their address. The relation
  \<open>slab_rep\<close> ties it to the sequences of slabs of each cache; \<open>live\<close> is the set of addresses
  of the objects in use. The theorems show that \<^verbatim>\<open>kmem_cache_alloc\<close> returns an object that was
  not in use, that \<^verbatim>\<open>kmem_cache_free\<close> takes back exactly the object it is given, that no two
  objects overlap, and that neither runs into a memory fault.
\<close>

section \<open>Data\<close>

datatype slab_node =
    SlabsFree addr | SlabsPartial addr | SlabsFull addr | CacheList addr | Caches | SlabList addr

record slab =
  free_bitmap :: u32
  free_objects :: int

record kmem_cache =
  objsize :: nat
  objnum :: nat
  opts :: int
  alloc_succeed :: int
  alloc_fail :: int
  cname :: string

record slab_state =
  pages :: page_maps
  slab_links :: "slab_node links"
  slabs :: "addr \<Rightarrow> slab"
  kcaches :: "addr \<Rightarrow> kmem_cache"

definition sizeof_slab :: nat where "sizeof_slab = 16"
definition sizeof_kmem_cache :: nat where "sizeof_kmem_cache = 64"
definition CACHE_PAGE_SIZE :: nat where "CACHE_PAGE_SIZE = 256"
definition CACHE_NAMELEN :: nat where "CACHE_NAMELEN = 16"

definition OBJECTS_PER_SLAB :: "nat \<Rightarrow> nat" where
  "OBJECTS_PER_SLAB sz = (CACHE_PAGE_SIZE - sizeof_slab) div sz"

definition cache_caches_init :: kmem_cache where
  "cache_caches_init = \<lparr> objsize = sizeof_kmem_cache, objnum = OBJECTS_PER_SLAB sizeof_kmem_cache,
     opts = 0, alloc_succeed = 0, alloc_fail = 0, cname = ''cache-cache'' \<rparr>"

section \<open>Operations\<close>

definition slab_entry :: "slab_node link \<Rightarrow> addr option" where
  "slab_entry p = (case p of Node (SlabList s) \<Rightarrow> Some s | _ \<Rightarrow> None)"

definition get_slab_from_obj :: "addr \<Rightarrow> u32 \<Rightarrow> addr" where
  "get_slab_from_obj obj page_size = align obj page_size"

definition obj_index_in_slab :: "addr \<Rightarrow> kmem_cache \<Rightarrow> nat" where
  "obj_index_in_slab obj cache =
     unat ((obj AND (push_bit 8 1 - 1)) - of_nat sizeof_slab) div objsize cache"

definition kmem_cache_grow :: "addr \<Rightarrow> slab_state \<Rightarrow> addr \<Rightarrow> (addr option \<times> slab_state) option" where
  "kmem_cache_grow pgmem st c = do {
     (r, B) \<leftarrow> alloc_pages pgmem (pages st) 0;
     (case r of
        None \<Rightarrow> Some (None, st\<lparr>pages := B\<rparr>)
      | Some s \<Rightarrow> do {
          let st = st\<lparr>pages := B, slabs := (slabs st)(s :=
            \<lparr> free_bitmap = 0,
              free_objects = int (objnum (kcaches st c)) \<rparr>)\<rparr>;
          h \<leftarrow> list_add (slab_links st) (Node (SlabList s)) (Node (SlabsFree c));
          Some (Some s, st\<lparr>slab_links := h\<rparr>) }) }"

definition count_fail :: "addr \<Rightarrow> slab_state \<Rightarrow> slab_state" where
  "count_fail c st = st\<lparr>kcaches := (kcaches st)(c :=
     (kcaches st c)\<lparr>alloc_fail := alloc_fail (kcaches st c) + 1\<rparr>)\<rparr>"

definition count_succeed :: "addr \<Rightarrow> slab_state \<Rightarrow> slab_state" where
  "count_succeed c st = st\<lparr>kcaches := (kcaches st)(c :=
     (kcaches st c)\<lparr>alloc_succeed := alloc_succeed (kcaches st c) + 1\<rparr>)\<rparr>"

text \<open>The first half of \<^verbatim>\<open>kmem_cache_alloc\<close>: find a slab with room, at the head of the partial list.\<close>

definition kmem_cache_get_slab ::
    "addr \<Rightarrow> slab_state \<Rightarrow> addr \<Rightarrow> (addr option \<times> slab_state) option" where
  "kmem_cache_get_slab pgmem st c = do {
     no_partial \<leftarrow> list_empty (slab_links st) (Node (SlabsPartial c));
     if no_partial then do {
       no_free \<leftarrow> list_empty (slab_links st) (Node (SlabsFree c));
       (r, st) \<leftarrow> (if no_free then kmem_cache_grow pgmem (count_fail c st) c
                 else do {
                   p \<leftarrow> list_first_entry (slab_links st) (Node (SlabsFree c));
                   s \<leftarrow> slab_entry p;
                   Some (Some s, count_succeed c st) });
       (case r of
          None \<Rightarrow> Some (None, st)
        | Some s \<Rightarrow> do {
            h \<leftarrow> list_move (slab_links st) (Node (SlabList s)) (Node (SlabsPartial c));
            Some (Some s, st\<lparr>slab_links := h\<rparr>) }) }
     else do {
       p \<leftarrow> list_first_entry (slab_links st) (Node (SlabsPartial c));
       s \<leftarrow> slab_entry p;
       Some (Some s, count_succeed c st) } }"

text \<open>The second half: take the first free object of the slab.\<close>

definition slab_take_object :: "slab_state \<Rightarrow> addr \<Rightarrow> addr \<Rightarrow> (addr \<times> slab_state) option" where
  "slab_take_object st c s = do {
     let cache = kcaches st c;
     let b = find_first_zero_bit (one_word (free_bitmap (slabs st s))) (objnum cache);
     if b div BITS_PER_LONG \<noteq> 0 then None else do {
       let mem = s + of_nat sizeof_slab + of_nat (b * objsize cache);
       let sl = \<lparr> free_bitmap = bitmap_set_bit (one_word (free_bitmap (slabs st s))) b 0,
                 free_objects = free_objects (slabs st s) - 1 \<rparr>;
       let st = st\<lparr>slabs := (slabs st)(s := sl)\<rparr>;
       if free_objects sl = 0 then do {
         h \<leftarrow> list_move (slab_links st) (Node (SlabList s)) (Node (SlabsFull c));
         Some (mem, st\<lparr>slab_links := h\<rparr>) }
       else Some (mem, st) } }"

definition kmem_cache_alloc :: "addr \<Rightarrow> slab_state \<Rightarrow> addr \<Rightarrow> (addr option \<times> slab_state) option" where
  "kmem_cache_alloc pgmem st c = do {
     (r, st) \<leftarrow> kmem_cache_get_slab pgmem st c;
     (case r of
        None \<Rightarrow> Some (None, st)
      | Some s \<Rightarrow> do { (mem, st) \<leftarrow> slab_take_object st c s; Some (Some mem, st) }) }"

definition slab_destroy :: "addr \<Rightarrow> slab_state \<Rightarrow> addr \<Rightarrow> slab_state option" where
  "slab_destroy pgmem st s = do {
     h \<leftarrow> list_del (slab_links st) (Node (SlabList s));
     B \<leftarrow> free_pages pgmem (pages st) s 0;
     Some (st\<lparr>slab_links := h, pages := B\<rparr>) }"

definition kmem_cache_free :: "addr \<Rightarrow> slab_state \<Rightarrow> addr \<Rightarrow> addr \<Rightarrow> slab_state option" where
  "kmem_cache_free pgmem st c obj = do {
     let s = get_slab_from_obj obj 256;
     let b = obj_index_in_slab obj (kcaches st c);
     if b div BITS_PER_LONG \<noteq> 0 then None else do {
       let sl = \<lparr> free_bitmap = bitmap_clear_bit (one_word (free_bitmap (slabs st s))) b 0,
                 free_objects = free_objects (slabs st s) + 1 \<rparr>;
       let st = st\<lparr>slabs := (slabs st)(s := sl)\<rparr>;
       if free_objects sl = int (objnum (kcaches st c)) then slab_destroy pgmem st s
       else if free_objects sl = 1 then do {
         h \<leftarrow> list_move (slab_links st) (Node (SlabList s)) (Node (SlabsPartial c));
         Some (st\<lparr>slab_links := h\<rparr>) }
       else Some st } }"

definition strncpy :: "string \<Rightarrow> nat \<Rightarrow> string" where
  "strncpy src n = (let s = takeWhile (\<lambda>c. c \<noteq> CHR 0x00) (take n src)
                    in s @ replicate (n - length s) (CHR 0x00))"

definition kmem_cache_create ::
    "addr \<Rightarrow> addr \<Rightarrow> slab_state \<Rightarrow> string \<Rightarrow> nat \<Rightarrow> (addr option \<times> slab_state) option" where
  "kmem_cache_create pgmem cache_caches st name sz =
     (if sz < 8 then Some (None, st)
      else if (256 - sizeof_slab) div 2 < sz then Some (None, st)
      else do {
        (r, st) \<leftarrow> kmem_cache_alloc pgmem st cache_caches;
        (case r of
           None \<Rightarrow> Some (None, st)
         | Some c \<Rightarrow> do {
             let st = st\<lparr>kcaches := (kcaches st)(c := (kcaches st c)\<lparr>
               objsize := sz mod 2 ^ 16, objnum := OBJECTS_PER_SLAB sz mod 2 ^ 16, opts := 0,
               cname := strncpy name CACHE_NAMELEN\<rparr>)\<rparr>;
             h \<leftarrow> INIT_LIST_HEAD (slab_links st) (Node (SlabsFree c));
             h \<leftarrow> INIT_LIST_HEAD h (Node (SlabsPartial c));
             h \<leftarrow> INIT_LIST_HEAD h (Node (SlabsFull c));
             h \<leftarrow> list_add h (Node (CacheList c)) (Node Caches);
             Some (Some c, st\<lparr>slab_links := h\<rparr>) }) })"

definition kmem_cache_init :: "addr \<Rightarrow> addr \<Rightarrow> slab_state \<Rightarrow> slab_state option" where
  "kmem_cache_init pgmem cache_caches st = do {
     h \<leftarrow> list_add (slab_links st) (Node (CacheList cache_caches)) (Node Caches);
     (r, st) \<leftarrow> kmem_cache_grow pgmem (st\<lparr>slab_links := h\<rparr>) cache_caches;
     Some st }"

section \<open>Object addresses\<close>

definition cache_ok :: "kmem_cache \<Rightarrow> bool" where
  "cache_ok cache \<longleftrightarrow> 8 \<le> objsize cache \<and> objsize cache \<le> 120 \<and>
     objnum cache = OBJECTS_PER_SLAB (objsize cache)"

definition obj_addr :: "kmem_cache \<Rightarrow> addr \<Rightarrow> nat \<Rightarrow> addr" where
  "obj_addr cache s b = s + of_nat sizeof_slab + of_nat (b * objsize cache)"

lemma cache_ok_bounds:
  assumes "cache_ok cache"
  shows "objnum cache \<le> 30" "2 \<le> objnum cache" "0 < objsize cache"
    "b < objnum cache \<Longrightarrow> b * objsize cache + objsize cache \<le> 240"
proof -
  let ?z = "objsize cache"
  have z: "8 \<le> ?z" "?z \<le> 120" and num: "objnum cache = 240 div ?z"
    using assms by (auto simp: cache_ok_def OBJECTS_PER_SLAB_def CACHE_PAGE_SIZE_def sizeof_slab_def)
  show "0 < ?z" using z by simp
  have "240 div ?z \<le> 240 div 8" using z by (intro div_le_mono2) auto
  then show "objnum cache \<le> 30" using num by simp
  have "240 div 120 \<le> 240 div ?z" using z by (intro div_le_mono2) auto
  then show "2 \<le> objnum cache" using num by simp
  show "b * ?z + ?z \<le> 240" if "b < objnum cache"
  proof -
    have "(b + 1) * ?z \<le> 240 div ?z * ?z" using that num by (intro mult_le_mono1) simp
    also have "\<dots> \<le> 240" by simp
    finally show ?thesis by simp
  qed
qed

lemma page_block_0:
  assumes "page_block pgmem s 0"
  obtains q where "unat s = q * 256" "unat s + 256 \<le> 2 ^ 32"
proof -
  from assms obtain i where i: "i < 128" "s = page_idx_to_addr pgmem i 0" and ok: "pgmem_ok pgmem"
    by (auto simp: page_block_def page_bitmap_sz_def)
  then have s: "unat s = unat pgmem + i * 256"
    using unat_page_addr(1) [OF ok, of 0 i] by (simp add: page_bitmap_sz_def)
  obtain p where "unat pgmem = p * 2048" using ok by (auto simp: pgmem_ok_def)
  then show thesis using that [of "p * 8 + i"] s i ok by (simp add: pgmem_ok_def)
qed

lemma unat_obj_addr:
  assumes "page_block pgmem s 0" "cache_ok cache" "b < objnum cache"
  shows "unat (obj_addr cache s b) = unat s + 16 + b * objsize cache"
    and "b * objsize cache + objsize cache \<le> 240"
proof -
  obtain q where s: "unat s = q * 256" "unat s + 256 \<le> 2 ^ 32" using assms(1) by (rule page_block_0)
  show b: "b * objsize cache + objsize cache \<le> 240" using assms by (simp add: cache_ok_bounds)
  have "obj_addr cache s b = s + of_nat (16 + b * objsize cache)"
    by (simp add: obj_addr_def sizeof_slab_def)
  moreover have "unat (of_nat (16 + b * objsize cache) :: u32) = 16 + b * objsize cache"
    using b by (intro unat_of_nat_small) simp
  moreover have "unat s + (16 + b * objsize cache) < 2 ^ LENGTH(32)"
    using s(2) b cache_ok_bounds(3) [OF assms(2)] by simp
  ultimately show "unat (obj_addr cache s b) = unat s + 16 + b * objsize cache"
    using unat_add_no_wrap [of s "of_nat (16 + b * objsize cache)"] by (simp only: add.assoc)
qed

lemma obj_of_addr:
  assumes "page_block pgmem s 0" "cache_ok cache" "b < objnum cache"
  shows "get_slab_from_obj (obj_addr cache s b) 256 = s"
    and "obj_index_in_slab (obj_addr cache s b) cache = b"
proof -
  obtain q where s: "unat s = q * 256" "unat s + 256 \<le> 2 ^ 32" using assms(1) by (rule page_block_0)
  note a = unat_obj_addr [OF assms]
  have lt: "16 + b * objsize cache < 256"
    using a(2) cache_ok_bounds(3) [OF assms(2)] by linarith
  have "unat (align (obj_addr cache s b) (2 ^ 8)) = (q * 256 + (16 + b * objsize cache)) div 256 * 256"
    unfolding unat_align a(1) s by (simp add: add.assoc)
  also have "\<dots> = unat s" using lt s by simp
  finally show "get_slab_from_obj (obj_addr cache s b) 256 = s"
    unfolding get_slab_from_obj_def by (simp add: word_unat_eq_iff)
  have "unat (obj_addr cache s b AND mask 8) = (q * 256 + (16 + b * objsize cache)) mod 256"
    unfolding take_bit_eq_mask [symmetric] unsigned_take_bit_eq a(1) s
    by (simp add: take_bit_eq_mod add.assoc)
  then have low: "unat (obj_addr cache s b AND mask 8) = 16 + b * objsize cache"
    using lt by simp
  then have "unat ((obj_addr cache s b AND mask 8) - 16) = b * objsize cache"
    by (subst unat_sub) (simp_all add: word_le_nat_alt)
  then show "obj_index_in_slab (obj_addr cache s b) cache = b"
    using cache_ok_bounds(3) [OF assms(2)]
    by (simp add: obj_index_in_slab_def sizeof_slab_def mask_eq_exp_minus_1 push_bit_eq_mult)
qed

lemma page_block_units_disjoint:
  assumes "page_block pgmem s 0" "page_block pgmem t 0" "s \<noteq> t"
  shows "page_units pgmem s 0 \<inter> page_units pgmem t 0 = {}"
proof -
  from assms obtain i j where "s = page_idx_to_addr pgmem i 0" "t = page_idx_to_addr pgmem j 0"
    "page_units pgmem s 0 = units 0 i" "page_units pgmem t 0 = units 0 j"
    by (auto simp: page_block_def page_units_block)
  then show ?thesis using units_disjoint assms(3) by metis
qed

text \<open>Two different objects, of the same cache or of different caches, do not overlap.\<close>

lemma obj_extents_disjoint:
  assumes "page_block pgmem s 0" "cache_ok k" "b < objnum k"
    and "page_block pgmem t 0" "cache_ok l" "d < objnum l"
    and "s \<noteq> t \<or> (k = l \<and> b \<noteq> d)"
  shows "{unat (obj_addr k s b) ..< unat (obj_addr k s b) + objsize k} \<inter>
    {unat (obj_addr l t d) ..< unat (obj_addr l t d) + objsize l} = {}"
proof -
  note ks = unat_obj_addr [OF assms(1-3)] and lt = unat_obj_addr [OF assms(4-6)]
  obtain p where p: "unat s = p * 256" using assms(1) by (rule page_block_0)
  obtain q where q: "unat t = q * 256" using assms(4) by (rule page_block_0)
  show ?thesis
  proof (cases "s = t")
    case True
    then have "b \<noteq> d" and kl: "k = l" using assms(7) by auto
    then have "b + 1 \<le> d \<or> d + 1 \<le> b" by linarith
    then have "(b + 1) * objsize k \<le> d * objsize k \<or> (d + 1) * objsize k \<le> b * objsize k"
      by (meson mult_le_mono1)
    then show ?thesis unfolding ks(1) lt(1) using True kl by auto
  next
    case False
    then have "p \<noteq> q" using p q word_unat_eq_iff by metis
    then have "p + 1 \<le> q \<or> q + 1 \<le> p" by linarith
    then have "(p + 1) * 256 \<le> q * 256 \<or> (q + 1) * 256 \<le> p * 256" by (meson mult_le_mono1)
    then show ?thesis unfolding ks(1) lt(1) p q using ks(2) lt(2) by auto
  qed
qed

section \<open>The invariant\<close>

definition slab_ok :: "kmem_cache \<Rightarrow> slab \<Rightarrow> bool" where
  "slab_ok cache sl \<longleftrightarrow>
     (\<forall>b. bit (free_bitmap sl) b \<longrightarrow> b < objnum cache) \<and>
     free_objects sl = int (card {b. b < objnum cache \<and> \<not> bit (free_bitmap sl) b})"

definition slab_at :: "addr \<Rightarrow> nat set \<Rightarrow> kmem_cache \<Rightarrow> addr \<Rightarrow> slab \<Rightarrow> bool" where
  "slab_at pgmem F cache s sl \<longleftrightarrow>
     page_block pgmem s 0 \<and> page_units pgmem s 0 \<inter> F = {} \<and> slab_ok cache sl"

text \<open>The rings: the list of caches and, per cache, its free, partial and full slabs.\<close>

fun slab_rings :: "addr list \<Rightarrow> (addr \<Rightarrow> addr list) \<Rightarrow> (addr \<Rightarrow> addr list) \<Rightarrow> (addr \<Rightarrow> addr list) \<Rightarrow>
    slab_node \<Rightarrow> slab_node list option" where
  "slab_rings C fr pa fu Caches = Some (map CacheList C)"
| "slab_rings C fr pa fu (SlabsFree c) = (if c \<in> set C then Some (map SlabList (fr c)) else None)"
| "slab_rings C fr pa fu (SlabsPartial c) = (if c \<in> set C then Some (map SlabList (pa c)) else None)"
| "slab_rings C fr pa fu (SlabsFull c) = (if c \<in> set C then Some (map SlabList (fu c)) else None)"
| "slab_rings C fr pa fu (CacheList c) = None"
| "slab_rings C fr pa fu (SlabList s) = None"

definition cache_slabs_ok :: "addr \<Rightarrow> nat set \<Rightarrow> kmem_cache \<Rightarrow> (addr \<Rightarrow> slab) \<Rightarrow>
    addr list \<Rightarrow> addr list \<Rightarrow> addr list \<Rightarrow> bool" where
  "cache_slabs_ok pgmem F cache sl fs ps us \<longleftrightarrow>
     cache_ok cache \<and> (\<forall>s\<in>set fs \<union> set ps \<union> set us. slab_at pgmem F cache s (sl s)) \<and>
     (\<forall>s\<in>set fs. free_objects (sl s) = int (objnum cache)) \<and>
     (\<forall>s\<in>set ps. 0 < free_objects (sl s)) \<and> (\<forall>s\<in>set us. free_objects (sl s) = 0)"

definition slab_rep :: "addr \<Rightarrow> slab_state \<Rightarrow> addr list \<Rightarrow> (addr \<Rightarrow> addr list) \<Rightarrow> (addr \<Rightarrow> addr list) \<Rightarrow>
    (addr \<Rightarrow> addr list) \<Rightarrow> nat set \<Rightarrow> bool" where
  "slab_rep pgmem st C fr pa fu F \<longleftrightarrow>
     lists (slab_links st) (slab_rings C fr pa fu) \<and> pages_rep pgmem (pages st) F \<and>
     (\<forall>c\<in>set C. cache_slabs_ok pgmem F (kcaches st c) (slabs st) (fr c) (pa c) (fu c))"

text \<open>The objects in use of a cache that owns the slabs \<open>S\<close>.\<close>

definition live :: "slab_state \<Rightarrow> addr \<Rightarrow> addr set \<Rightarrow> addr set" where
  "live st c S = {obj_addr (kcaches st c) s b |s b. s \<in> S \<and> bit (free_bitmap (slabs st s)) b}"

definition slabs_of :: "(addr \<Rightarrow> addr list) \<Rightarrow> (addr \<Rightarrow> addr list) \<Rightarrow> (addr \<Rightarrow> addr list) \<Rightarrow> addr \<Rightarrow> addr set" where
  "slabs_of fr pa fu c = set (fr c) \<union> set (pa c) \<union> set (fu c)"

lemma slab_rings_upd:
  "c \<in> set C \<Longrightarrow> (slab_rings C fr pa fu)(SlabsFree c \<mapsto> map SlabList xs) = slab_rings C (fr(c := xs)) pa fu"
  "c \<in> set C \<Longrightarrow> (slab_rings C fr pa fu)(SlabsPartial c \<mapsto> map SlabList xs) = slab_rings C fr (pa(c := xs)) fu"
  "c \<in> set C \<Longrightarrow> (slab_rings C fr pa fu)(SlabsFull c \<mapsto> map SlabList xs) = slab_rings C fr pa (fu(c := xs))"
  by (rule ext, rename_tac n, case_tac n; auto)+

lemma slab_rings_node:
  "SlabList s \<in> ring_nodes (slab_rings C fr pa fu) \<longleftrightarrow> (\<exists>c\<in>set C. s \<in> slabs_of fr pa fu c)"
proof
  assume "SlabList s \<in> ring_nodes (slab_rings C fr pa fu)"
  then obtain n xs where "slab_rings C fr pa fu n = Some xs" "SlabList s \<in> insert n (set xs)"
    unfolding ring_nodes_iff by auto
  then show "\<exists>c\<in>set C. s \<in> slabs_of fr pa fu c"
    by (cases n) (auto simp: slabs_of_def split: if_splits)
next
  assume "\<exists>c\<in>set C. s \<in> slabs_of fr pa fu c"
  then obtain c where "c \<in> set C" "s \<in> set (fr c) \<or> s \<in> set (pa c) \<or> s \<in> set (fu c)"
    by (auto simp: slabs_of_def)
  then have "slab_rings C fr pa fu (SlabsFree c) = Some (map SlabList (fr c)) \<and>
      slab_rings C fr pa fu (SlabsPartial c) = Some (map SlabList (pa c)) \<and>
      slab_rings C fr pa fu (SlabsFull c) = Some (map SlabList (fu c)) \<and>
      (SlabList s \<in> set (map SlabList (fr c)) \<or> SlabList s \<in> set (map SlabList (pa c)) \<or>
       SlabList s \<in> set (map SlabList (fu c)))" by auto
  then show "SlabList s \<in> ring_nodes (slab_rings C fr pa fu)"
    unfolding ring_nodes_iff list.set by blast
qed

lemma slab_ok_room:
  assumes "slab_ok cache sl" "0 < free_objects sl"
  shows "\<exists>b<objnum cache. \<not> bit (free_bitmap sl) b"
  using assms by (auto simp: slab_ok_def card_gt_0_iff)

lemma card_flip:
  assumes "b < (n :: nat)" "P b"
  shows "int (card {i. i < n \<and> P i \<and> i \<noteq> b}) = int (card {i. i < n \<and> P i}) - 1"
proof -
  have eq: "{i. i < n \<and> P i \<and> i \<noteq> b} = {i. i < n \<and> P i} - {b}" by auto
  have "finite {i. i < n \<and> P i}" by (rule finite_subset [of _ "{..<n}"]) auto
  then have "Suc (card ({i. i < n \<and> P i} - {b})) = card {i. i < n \<and> P i}"
    using assms by (intro card_Suc_Diff1) auto
  then show ?thesis unfolding eq by linarith
qed

lemma slab_ok_take:
  assumes "slab_ok cache sl" "b < objnum cache" "\<not> bit (free_bitmap sl) b" "cache_ok cache"
  shows "slab_ok cache \<lparr>free_bitmap = bitmap_set_bit (one_word (free_bitmap sl)) b 0,
      free_objects = free_objects sl - 1\<rparr>"
    and "bit (bitmap_set_bit (one_word (free_bitmap sl)) b 0) i \<longleftrightarrow> i = b \<or> bit (free_bitmap sl) i"
proof -
  have b: "b < 32" using assms cache_ok_bounds(1) by fastforce
  have bits: "bit (bitmap_set_bit (one_word (free_bitmap sl)) b 0) i \<longleftrightarrow> i = b \<or> bit (free_bitmap sl) i"
    for i using b by (auto simp: bitmap_set_bit_def one_word_def BITS_PER_LONG_def bit_set_bit_ul)
  show "bit (bitmap_set_bit (one_word (free_bitmap sl)) b 0) i \<longleftrightarrow> i = b \<or> bit (free_bitmap sl) i"
    by (rule bits)
  show "slab_ok cache \<lparr>free_bitmap = bitmap_set_bit (one_word (free_bitmap sl)) b 0,
      free_objects = free_objects sl - 1\<rparr>"
    using assms card_flip [of b "objnum cache" "\<lambda>i. \<not> bit (free_bitmap sl) i"]
    by (auto simp: slab_ok_def bits conj_commute)
qed

lemma slab_ok_put:
  assumes "slab_ok cache sl" "bit (free_bitmap sl) b" "cache_ok cache"
  shows "slab_ok cache \<lparr>free_bitmap = bitmap_clear_bit (one_word (free_bitmap sl)) b 0,
      free_objects = free_objects sl + 1\<rparr>"
    and "bit (bitmap_clear_bit (one_word (free_bitmap sl)) b 0) i \<longleftrightarrow> i \<noteq> b \<and> bit (free_bitmap sl) i"
    and "b < objnum cache"
proof -
  show bn: "b < objnum cache" using assms by (auto simp: slab_ok_def)
  then have b: "b < 32" using assms cache_ok_bounds(1) by fastforce
  have bits: "bit (bitmap_clear_bit (one_word (free_bitmap sl)) b 0) i \<longleftrightarrow> i \<noteq> b \<and> bit (free_bitmap sl) i"
    for i using b by (auto simp: bitmap_clear_bit_def one_word_def BITS_PER_LONG_def bit_clear_bit)
  show "bit (bitmap_clear_bit (one_word (free_bitmap sl)) b 0) i \<longleftrightarrow> i \<noteq> b \<and> bit (free_bitmap sl) i"
    by (rule bits)
  have eq: "{i. i < objnum cache \<and> (i = b \<or> \<not> bit (free_bitmap sl) i) \<and> i \<noteq> b} =
      {i. i < objnum cache \<and> \<not> bit (free_bitmap sl) i}" using assms(2) by auto
  show "slab_ok cache \<lparr>free_bitmap = bitmap_clear_bit (one_word (free_bitmap sl)) b 0,
      free_objects = free_objects sl + 1\<rparr>"
    using assms card_flip [OF bn, of "\<lambda>i. i = b \<or> \<not> bit (free_bitmap sl) i"]
    by (auto simp: slab_ok_def bits eq)
qed

section \<open>Allocation\<close>

lemma slab_repD:
  assumes "slab_rep pgmem st C fr pa fu F" "c \<in> set C"
  shows "lists (slab_links st) (slab_rings C fr pa fu)" "pages_rep pgmem (pages st) F"
    "cache_slabs_ok pgmem F (kcaches st c) (slabs st) (fr c) (pa c) (fu c)" "cache_ok (kcaches st c)"
  using assms by (auto simp: slab_rep_def cache_slabs_ok_def)

text \<open>No slab is on two lists, or twice on one.\<close>

lemma slab_rep_distinct:
  assumes "slab_rep pgmem st C fr pa fu F" "c \<in> set C"
  shows "distinct (fr c @ pa c @ fu c)"
    and "c' \<in> set C \<Longrightarrow> c' \<noteq> c \<Longrightarrow> slabs_of fr pa fu c \<inter> slabs_of fr pa fu c' = {}"
proof -
  let ?Q = "slab_rings C fr pa fu"
  have l: "lists (slab_links st) ?Q" using assms by (simp add: slab_rep_def)
  have q: "?Q (SlabsFree c) = Some (map SlabList (fr c))" "?Q (SlabsPartial c) = Some (map SlabList (pa c))"
    "?Q (SlabsFull c) = Some (map SlabList (fu c))" if "c \<in> set C" for c using that by simp_all
  have "distinct (map SlabList (fr c))" "distinct (map SlabList (pa c))" "distinct (map SlabList (fu c))"
    using listsD [OF l q(1) [OF assms(2)]] listsD [OF l q(2) [OF assms(2)]]
      listsD [OF l q(3) [OF assms(2)]] by (auto simp: ring_def)
  then show "distinct (fr c @ pa c @ fu c)"
    using lists_disjoint [OF l q(1) [OF assms(2)] q(2) [OF assms(2)]]
      lists_disjoint [OF l q(1) [OF assms(2)] q(3) [OF assms(2)]]
      lists_disjoint [OF l q(2) [OF assms(2)] q(3) [OF assms(2)]]
    by (auto simp: distinct_map)
  show "slabs_of fr pa fu c \<inter> slabs_of fr pa fu c' = {}" if c': "c' \<in> set C" "c' \<noteq> c"
  proof (rule ccontr)
    assume "slabs_of fr pa fu c \<inter> slabs_of fr pa fu c' \<noteq> {}"
    then obtain s where s: "s \<in> slabs_of fr pa fu c" "s \<in> slabs_of fr pa fu c'" by blast
    have "\<exists>a xs. (a = SlabsFree d \<or> a = SlabsPartial d \<or> a = SlabsFull d) \<and> ?Q a = Some xs \<and> SlabList s \<in> set xs"
      if "s \<in> slabs_of fr pa fu d" "d \<in> set C" for d
      using that q [OF that(2)] unfolding slabs_of_def Un_iff by (metis image_eqI list.set_map)
    from this [OF s(1) assms(2)] this [OF s(2) c'(1)] show False
      using lists_unique_head [OF l] c'(2) by blast
  qed
qed

text \<open>The counters of a cache matter to nobody.\<close>

lemma cache_slabs_ok_cong:
  "objsize k' = objsize k \<Longrightarrow> objnum k' = objnum k \<Longrightarrow>
    cache_slabs_ok pgmem F k' sl fs ps us = cache_slabs_ok pgmem F k sl fs ps us"
  by (simp add: cache_slabs_ok_def cache_ok_def slab_at_def slab_ok_def)

lemma slab_rep_count:
  "slab_rep pgmem (count_fail c st) C fr pa fu F \<longleftrightarrow> slab_rep pgmem st C fr pa fu F"
  "slab_rep pgmem (count_succeed c st) C fr pa fu F \<longleftrightarrow> slab_rep pgmem st C fr pa fu F"
  "live (count_fail c st) c' S = live st c' S" "live (count_succeed c st) c' S = live st c' S"
  unfolding slab_rep_def count_fail_def count_succeed_def live_def obj_addr_def
  by (simp_all add: cache_slabs_ok_cong [of "(kcaches st c)\<lparr>alloc_fail := x\<rparr>" "kcaches st c" for x]
      cache_slabs_ok_cong [of "(kcaches st c)\<lparr>alloc_succeed := x\<rparr>" "kcaches st c" for x])
    blast+

lemma slab_rep_grow:
  assumes rep: "slab_rep pgmem st C fr pa fu F" and c: "c \<in> set C"
  shows "(F = {} \<and> kmem_cache_grow pgmem st c = Some (None, st)) \<or>
    (\<exists>s st' F'. kmem_cache_grow pgmem st c = Some (Some s, st') \<and>
       slab_rep pgmem st' C (fr(c := s # fr c)) pa fu F' \<and> kcaches st' = kcaches st \<and>
       free_bitmap (slabs st' s) = 0 \<and> (\<forall>c'\<in>set C. s \<notin> slabs_of fr pa fu c') \<and>
       (\<forall>t. t \<noteq> s \<longrightarrow> slabs st' t = slabs st t))"
proof (cases rule: alloc_pages_cases [OF slab_repD(2) [OF assms], of 0, case_names block full])
  case (full)
  have "F = {}"
  proof (rule ccontr)
    assume "F \<noteq> {}"
    then obtain u where "u \<in> F" by auto
    moreover have "units 0 u = {u}" by (auto simp: units_def)
    ultimately show False using full(2) [of u] by simp
  qed
  then show ?thesis using full by (simp add: kmem_cache_grow_def)
next
  case (block i B')
  define s where "s = page_idx_to_addr pgmem i 0"
  have ok: "pgmem_ok pgmem" using slab_repD(2) [OF assms] by (simp add: pages_rep_def)
  have s: "page_block pgmem s 0" "page_units pgmem s 0 = units 0 i"
    using block ok by (auto simp: s_def page_block_def page_units_block)
  have fresh: "s \<notin> slabs_of fr pa fu c'" if "c' \<in> set C" for c'
  proof
    assume "s \<in> slabs_of fr pa fu c'"
    then have "page_units pgmem s 0 \<inter> F = {}"
      using slab_repD(3) [OF rep that] by (auto simp: slabs_of_def cache_slabs_ok_def slab_at_def)
    then show False using s(2) block(3) units_nonempty [of 0 i] by blast
  qed
  have "SlabList s \<notin> ring_nodes (slab_rings C fr pa fu)" using fresh by (simp add: slab_rings_node)
  from lists_list_add [OF slab_repD(1) [OF assms] _ this, of "SlabsFree c" "map SlabList (fr c)"] c
  obtain h where h: "list_add (slab_links st) (Node (SlabList s)) (Node (SlabsFree c)) = Some h"
    "lists h (slab_rings C (fr(c := s # fr c)) pa fu)"
    using slab_rings_upd(1) [OF c, of fr pa fu "s # fr c"] by auto
  let ?sl = "\<lparr>free_bitmap = 0, free_objects = int (objnum (kcaches st c))\<rparr>"
  let ?st = "st\<lparr>pages := B', slabs := (slabs st)(s := ?sl), slab_links := h\<rparr>"
  have "slab_at pgmem (F - units 0 i) (kcaches st c) s ?sl"
    using s by (auto simp: slab_at_def slab_ok_def)
  moreover have "cache_slabs_ok pgmem (F - units 0 i) (kcaches st c') ((slabs st)(s := ?sl)) (fr c') (pa c') (fu c')"
    if "c' \<in> set C" for c'
    using slab_repD(3) [OF rep that] fresh [OF that]
    by (auto simp: cache_slabs_ok_def slab_at_def slabs_of_def)
  moreover have "0 < objnum (kcaches st c)"
    using cache_ok_bounds(2) [OF slab_repD(4) [OF assms]] by simp
  ultimately have "slab_rep pgmem ?st C (fr(c := s # fr c)) pa fu (F - units 0 i)"
    using h(2) block(5) ok by (auto simp: slab_rep_def pages_rep_def cache_slabs_ok_def)
  moreover have "kmem_cache_grow pgmem st c = Some (Some s, ?st)"
    using block(4) h(1) by (simp add: kmem_cache_grow_def s_def)
  ultimately show ?thesis using fresh by (intro disjI2 exI [of _ s] exI [of _ ?st]) auto
qed

lemma remove1_map_slab: "remove1 (SlabList s) (map SlabList xs) = map SlabList (remove1 s xs)"
  by (induction xs) auto

lemma move_free_partial:
  assumes "lists h (slab_rings C fr pa fu)" "c \<in> set C" "s \<in> set (fr c)"
  shows "\<exists>h'. list_move h (Node (SlabList s)) (Node (SlabsPartial c)) = Some h' \<and>
    lists h' (slab_rings C (fr(c := remove1 s (fr c))) (pa(c := s # pa c)) fu)"
  using lists_list_move [OF assms(1), of "SlabsFree c" "map SlabList (fr c)" "SlabList s" "SlabsPartial c"
      "map SlabList (pa c)"] assms(2,3)
    slab_rings_upd(1) [OF assms(2)] slab_rings_upd(2) [OF assms(2), of _ _ _ "s # pa c"]
  by (simp add: without_def remove1_map_slab)

lemma move_partial_full:
  assumes "lists h (slab_rings C fr pa fu)" "c \<in> set C" "s \<in> set (pa c)"
  shows "\<exists>h'. list_move h (Node (SlabList s)) (Node (SlabsFull c)) = Some h' \<and>
    lists h' (slab_rings C fr (pa(c := remove1 s (pa c))) (fu(c := s # fu c)))"
  using lists_list_move [OF assms(1), of "SlabsPartial c" "map SlabList (pa c)" "SlabList s" "SlabsFull c"
      "map SlabList (fu c)"] assms(2,3)
    slab_rings_upd(2) [OF assms(2)] slab_rings_upd(3) [OF assms(2), of _ _ _ "s # fu c"]
  by (simp add: without_def remove1_map_slab)

lemma move_full_partial:
  assumes "lists h (slab_rings C fr pa fu)" "c \<in> set C" "s \<in> set (fu c)"
  shows "\<exists>h'. list_move h (Node (SlabList s)) (Node (SlabsPartial c)) = Some h' \<and>
    lists h' (slab_rings C fr (pa(c := s # pa c)) (fu(c := remove1 s (fu c))))"
  using lists_list_move [OF assms(1), of "SlabsFull c" "map SlabList (fu c)" "SlabList s" "SlabsPartial c"
      "map SlabList (pa c)"] assms(2,3)
    slab_rings_upd(3) [OF assms(2)] slab_rings_upd(2) [OF assms(2), of _ _ _ "s # pa c"]
  by (simp add: without_def remove1_map_slab)

lemma slab_rep_move_free:
  assumes rep: "slab_rep pgmem st C fr pa fu F" and c: "c \<in> set C" and s: "s \<in> set (fr c)"
  shows "\<exists>h. list_move (slab_links st) (Node (SlabList s)) (Node (SlabsPartial c)) = Some h \<and>
    slab_rep pgmem (st\<lparr>slab_links := h\<rparr>) C (fr(c := remove1 s (fr c))) (pa(c := s # pa c)) fu F"
proof -
  obtain h where h: "list_move (slab_links st) (Node (SlabList s)) (Node (SlabsPartial c)) = Some h"
    "lists h (slab_rings C (fr(c := remove1 s (fr c))) (pa(c := s # pa c)) fu)"
    using move_free_partial [OF slab_repD(1) [OF rep c] c s] by blast
  have "0 < objnum (kcaches st c)" using cache_ok_bounds(2) [OF slab_repD(4) [OF rep c]] by simp
  then have "cache_slabs_ok pgmem F (kcaches st c) (slabs st) (remove1 s (fr c)) (s # pa c) (fu c)"
    using slab_repD(3) [OF rep c] s set_remove1_subset [of s "fr c"] by (auto simp: cache_slabs_ok_def)
  then have "slab_rep pgmem (st\<lparr>slab_links := h\<rparr>) C (fr(c := remove1 s (fr c))) (pa(c := s # pa c)) fu F"
    using rep h(2) by (auto simp: slab_rep_def)
  with h(1) show ?thesis by blast
qed

lemma slab_rep_get_slab:
  assumes rep: "slab_rep pgmem st C fr pa fu F" and c: "c \<in> set C"
  shows "(F = {} \<and> pa c = [] \<and> fr c = [] \<and> kmem_cache_get_slab pgmem st c = Some (None, count_fail c st)) \<or>
    (\<exists>s st' fr' pa' F'. kmem_cache_get_slab pgmem st c = Some (Some s, st') \<and>
       slab_rep pgmem st' C fr' pa' fu F' \<and> s \<in> set (pa' c) \<and>
       (\<forall>c'\<in>set C. live st' c' (slabs_of fr' pa' fu c') = live st c' (slabs_of fr pa fu c')))"
proof (cases "pa c")
  case (Cons s ps)
  then have "list_first_entry (slab_links st) (Node (SlabsPartial c)) = Some (Node (SlabList s))"
    using lists_first [OF slab_repD(1) [OF assms], of "SlabsPartial c"] c by simp
  moreover have "list_empty (slab_links st) (Node (SlabsPartial c)) = Some False"
    using lists_list_empty [OF slab_repD(1) [OF assms], of "SlabsPartial c"] c Cons by simp
  ultimately have "kmem_cache_get_slab pgmem st c = Some (Some s, count_succeed c st)"
    by (simp add: kmem_cache_get_slab_def slab_entry_def)
  then show ?thesis
    using rep Cons slab_rep_count(2,4)
    by (intro disjI2 exI [of _ s] exI [of _ "count_succeed c st"] exI [of _ fr] exI [of _ pa] exI [of _ F])
      auto
next
  case Nil
  then have e: "list_empty (slab_links st) (Node (SlabsPartial c)) = Some True"
    using lists_list_empty [OF slab_repD(1) [OF assms], of "SlabsPartial c"] c by simp
  show ?thesis
  proof (cases "fr c")
    case (Cons s fs)
    have "list_first_entry (slab_links st) (Node (SlabsFree c)) = Some (Node (SlabList s))"
      "list_empty (slab_links st) (Node (SlabsFree c)) = Some False"
      using lists_first [OF slab_repD(1) [OF assms], of "SlabsFree c"]
        lists_list_empty [OF slab_repD(1) [OF assms], of "SlabsFree c"] c Cons by simp_all
    moreover obtain h where h:
      "list_move (slab_links (count_succeed c st)) (Node (SlabList s)) (Node (SlabsPartial c)) = Some h"
      "slab_rep pgmem ((count_succeed c st)\<lparr>slab_links := h\<rparr>) C (fr(c := remove1 s (fr c)))
         (pa(c := s # pa c)) fu F"
      using slab_rep_move_free [of pgmem "count_succeed c st" C fr pa fu F c s] rep c Cons slab_rep_count(2)
      by auto
    ultimately have "kmem_cache_get_slab pgmem st c = Some (Some s, (count_succeed c st)\<lparr>slab_links := h\<rparr>)"
      using e by (simp add: kmem_cache_get_slab_def slab_entry_def)
    moreover have "slabs_of (fr(c := remove1 s (fr c))) (pa(c := s # pa c)) fu c' = slabs_of fr pa fu c'" for c'
      using Cons by (auto simp: slabs_of_def)
    moreover have "live ((count_succeed c st)\<lparr>slab_links := h\<rparr>) c' S = live st c' S" for c' S
      using slab_rep_count(4) by (simp add: live_def)
    ultimately show ?thesis
      using h(2) by (intro disjI2 exI [of _ s] exI [of _ "(count_succeed c st)\<lparr>slab_links := h\<rparr>"]
          exI [of _ "fr(c := remove1 s (fr c))"] exI [of _ "pa(c := s # pa c)"] exI [of _ F]) simp
  next
    case Nil': Nil
    have e2: "list_empty (slab_links st) (Node (SlabsFree c)) = Some True"
      using lists_list_empty [OF slab_repD(1) [OF assms], of "SlabsFree c"] c Nil' by simp
    have rep': "slab_rep pgmem (count_fail c st) C fr pa fu F" using rep slab_rep_count(1) by simp
    from slab_rep_grow [OF rep' c] show ?thesis
    proof (elim disjE exE conjE)
      assume "F = {}" "kmem_cache_grow pgmem (count_fail c st) c = Some (None, count_fail c st)"
      then show ?thesis using e e2 Nil Nil' by (simp add: kmem_cache_get_slab_def)
    next
      fix s st' F'
      assume g: "kmem_cache_grow pgmem (count_fail c st) c = Some (Some s, st')"
        "slab_rep pgmem st' C (fr(c := s # fr c)) pa fu F'" "kcaches st' = kcaches (count_fail c st)"
        "free_bitmap (slabs st' s) = 0" "\<forall>c'\<in>set C. s \<notin> slabs_of fr pa fu c'"
        "\<forall>t. t \<noteq> s \<longrightarrow> slabs st' t = slabs (count_fail c st) t"
      obtain h where h: "list_move (slab_links st') (Node (SlabList s)) (Node (SlabsPartial c)) = Some h"
        "slab_rep pgmem (st'\<lparr>slab_links := h\<rparr>) C (fr(c := fr c)) (pa(c := s # pa c)) fu F'"
        using slab_rep_move_free [OF g(2) c, of s] by auto
      have "live (st'\<lparr>slab_links := h\<rparr>) c' (slabs_of fr (pa(c := s # pa c)) fu c') =
          live (count_fail c st) c' (slabs_of fr pa fu c')" if "c' \<in> set C" for c'
        using that g(3-6) unfolding live_def slabs_of_def by (auto simp: fun_upd_def split: if_splits) metis+
      then have "live (st'\<lparr>slab_links := h\<rparr>) c' (slabs_of fr (pa(c := s # pa c)) fu c') =
          live st c' (slabs_of fr pa fu c')" if "c' \<in> set C" for c'
        using that slab_rep_count(3) by metis
      then show ?thesis
        using e e2 g(1) h by (intro disjI2 exI [of _ s] exI [of _ "st'\<lparr>slab_links := h\<rparr>"] exI [of _ fr]
            exI [of _ "pa(c := s # pa c)"] exI [of _ F']) (simp add: kmem_cache_get_slab_def)
    qed
  qed
qed

lemma live_take:
  assumes "kcaches st' = kcaches st" "\<And>t. t \<noteq> s \<Longrightarrow> slabs st' t = slabs st t" "s \<in> S"
    and "\<And>i. bit (free_bitmap (slabs st' s)) i \<longleftrightarrow> i = b \<or> bit (free_bitmap (slabs st s)) i"
  shows "live st' c S = insert (obj_addr (kcaches st c) s b) (live st c S)"
proof -
  have "bit (free_bitmap (slabs st' t)) i \<longleftrightarrow> (t = s \<and> i = b) \<or> bit (free_bitmap (slabs st t)) i" for t i
    using assms(2) [of t] assms(4) by (cases "t = s") auto
  then show ?thesis using assms(1,3) by (auto simp: live_def)
qed

lemma live_other:
  assumes "kcaches st' c = kcaches st c" "\<And>t. t \<in> S \<Longrightarrow> slabs st' t = slabs st t"
  shows "live st' c S = live st c S"
proof -
  have "s \<in> S \<and> bit (free_bitmap (slabs st' s)) b \<longleftrightarrow> s \<in> S \<and> bit (free_bitmap (slabs st s)) b" for s b
    using assms(2) [of s] by auto
  then show ?thesis by (simp only: live_def assms(1))
qed

lemma slab_rep_take:
  assumes rep: "slab_rep pgmem st C fr pa fu F" and c: "c \<in> set C" and s: "s \<in> set (pa c)"
  shows "\<exists>b st' pa' fu'. slab_take_object st c s = Some (obj_addr (kcaches st c) s b, st') \<and>
    b < objnum (kcaches st c) \<and> \<not> bit (free_bitmap (slabs st s)) b \<and>
    slab_rep pgmem st' C fr pa' fu' F \<and> kcaches st' = kcaches st \<and>
    (\<forall>t. t \<noteq> s \<longrightarrow> slabs st' t = slabs st t) \<and>
    (\<forall>i. bit (free_bitmap (slabs st' s)) i \<longleftrightarrow> i = b \<or> bit (free_bitmap (slabs st s)) i) \<and>
    (\<forall>c'. slabs_of fr pa' fu' c' = slabs_of fr pa fu c')"
proof -
  let ?k = "kcaches st c" and ?sl = "slabs st s"
  note ok = slab_repD(4) [OF rep c] and all = slab_repD(3) [OF rep c]
  have sl: "slab_ok ?k ?sl" "0 < free_objects ?sl"
    using all s by (auto simp: cache_slabs_ok_def slab_at_def)
  define b where "b = find_first_zero_bit (one_word (free_bitmap ?sl)) (objnum ?k)"
  have small: "objnum ?k \<le> 30" using ok by (rule cache_ok_bounds)
  have room: "\<exists>b<objnum ?k. \<not> bm_bit (one_word (free_bitmap ?sl)) b"
    using slab_ok_room [OF sl] by (auto simp: bm_bit_one_word)
  then have "\<not> objnum ?k \<le> b"
    using zero_slots.first_ge_iff [of "objnum ?k" "one_word (free_bitmap ?sl)"] by (auto simp: b_def)
  then have b: "b < objnum ?k" "\<not> bit (free_bitmap ?sl) b"
    using zero_slots.first_avail [of "one_word (free_bitmap ?sl)" "objnum ?k"] small
    by (auto simp: b_def bm_bit_one_word)
  let ?sl' = "\<lparr>free_bitmap = bitmap_set_bit (one_word (free_bitmap ?sl)) b 0, free_objects = free_objects ?sl - 1\<rparr>"
  let ?st = "st\<lparr>slabs := (slabs st)(s := ?sl')\<rparr>"
  note take = slab_ok_take [OF sl(1) b ok]
  have dist: "s \<notin> set (fr c)" "s \<notin> set (fu c)" "distinct (pa c)"
    using slab_rep_distinct(1) [OF rep c] s by auto
  have at: "slab_at pgmem F ?k s ?sl'"
    using all s take(1) by (auto simp: cache_slabs_ok_def slab_at_def)
  have other: "cache_slabs_ok pgmem F (kcaches st c') ((slabs st)(s := ?sl')) (fr c') (pa c') (fu c')"
    if "c' \<in> set C" "c' \<noteq> c" for c'
    using slab_repD(3) [OF rep that(1)] slab_rep_distinct(2) [OF rep c that] s
    by (auto simp: cache_slabs_ok_def slabs_of_def disjoint_iff)
  have run: "slab_take_object st c s = (if free_objects ?sl' = 0
      then do { h \<leftarrow> list_move (slab_links st) (Node (SlabList s)) (Node (SlabsFull c));
                Some (obj_addr ?k s b, ?st\<lparr>slab_links := h\<rparr>) }
      else Some (obj_addr ?k s b, ?st))"
    using b(1) small by (simp add: slab_take_object_def b_def [symmetric] BITS_PER_LONG_def obj_addr_def Let_def)
  show ?thesis
  proof (cases "free_objects ?sl' = 0")
    case True
    obtain h where h: "list_move (slab_links st) (Node (SlabList s)) (Node (SlabsFull c)) = Some h"
      "lists h (slab_rings C fr (pa(c := remove1 s (pa c))) (fu(c := s # fu c)))"
      using move_partial_full [OF slab_repD(1) [OF rep c] c s] by blast
    have "cache_slabs_ok pgmem F ?k ((slabs st)(s := ?sl')) (fr c) (remove1 s (pa c)) (s # fu c)"
      using all at dist True by (auto simp: cache_slabs_ok_def)
    then have "slab_rep pgmem (?st\<lparr>slab_links := h\<rparr>) C fr (pa(c := remove1 s (pa c))) (fu(c := s # fu c)) F"
      using rep h(2) other by (auto simp: slab_rep_def)
    moreover have "slabs_of fr (pa(c := remove1 s (pa c))) (fu(c := s # fu c)) c' = slabs_of fr pa fu c'" for c'
      using dist s by (auto simp: slabs_of_def)
    ultimately show ?thesis
      using run True h(1) b take(2)
      by (intro exI [of _ b] exI [of _ "?st\<lparr>slab_links := h\<rparr>"] exI [of _ "pa(c := remove1 s (pa c))"]
          exI [of _ "fu(c := s # fu c)"]) simp
  next
    case False
    then have "0 < free_objects ?sl'" using sl(2) by simp
    then have "cache_slabs_ok pgmem F ?k ((slabs st)(s := ?sl')) (fr c) (pa c) (fu c)"
      using all at dist by (auto simp: cache_slabs_ok_def)
    then have "slab_rep pgmem ?st C fr pa fu F" using rep other by (auto simp: slab_rep_def)
    then show ?thesis
      using run False b take(2) by (intro exI [of _ b] exI [of _ ?st] exI [of _ pa] exI [of _ fu]) simp
  qed
qed

text \<open>An object that is not in use has an address that no object in use has.\<close>

lemma obj_addr_fresh:
  assumes rep: "slab_rep pgmem st C fr pa fu F" and "c \<in> set C" "s \<in> slabs_of fr pa fu c"
    and "b < objnum (kcaches st c)" "\<not> bit (free_bitmap (slabs st s)) b" "c' \<in> set C"
  shows "obj_addr (kcaches st c) s b \<notin> live st c' (slabs_of fr pa fu c')"
proof
  assume "obj_addr (kcaches st c) s b \<in> live st c' (slabs_of fr pa fu c')"
  then obtain t d where t: "t \<in> slabs_of fr pa fu c'" "bit (free_bitmap (slabs st t)) d"
    "obj_addr (kcaches st c) s b = obj_addr (kcaches st c') t d" by (auto simp: live_def)
  have at: "slab_at pgmem F (kcaches st c) s (slabs st s)" "slab_at pgmem F (kcaches st c') t (slabs st t)"
    using slab_repD(3) [OF rep] assms t by (auto simp: cache_slabs_ok_def slabs_of_def)
  then have d: "d < objnum (kcaches st c')" using t(2) by (auto simp: slab_at_def slab_ok_def)
  have "get_slab_from_obj (obj_addr (kcaches st c) s b) 256 = s"
    "get_slab_from_obj (obj_addr (kcaches st c') t d) 256 = t"
    "obj_index_in_slab (obj_addr (kcaches st c) s b) (kcaches st c) = b"
    "obj_index_in_slab (obj_addr (kcaches st c') t d) (kcaches st c') = d"
    using obj_of_addr [of pgmem s "kcaches st c" b] obj_of_addr [of pgmem t "kcaches st c'" d]
      at d assms(2,4,6) slab_repD(4) [OF rep] by (simp_all add: slab_at_def)
  then have "s = t" "c' = c \<Longrightarrow> b = d" using t(3) by metis+
  then show False
    using slab_rep_distinct(2) [OF rep assms(2,6)] assms(3,5) t(1,2) by (cases "c' = c") auto
qed

definition heap_rep :: "addr \<Rightarrow> slab_state \<Rightarrow> addr list \<Rightarrow> (addr \<Rightarrow> addr set) \<Rightarrow> bool" where
  "heap_rep pgmem st C U \<longleftrightarrow> (\<exists>fr pa fu F. slab_rep pgmem st C fr pa fu F \<and>
     (\<forall>c\<in>set C. U c = live st c (slabs_of fr pa fu c)))"

lemma kmem_cache_alloc_rep:
  assumes "heap_rep pgmem st C U" "c \<in> set C"
  shows "\<exists>r st'. kmem_cache_alloc pgmem st c = Some (r, st') \<and>
    (case r of
       None \<Rightarrow> heap_rep pgmem st' C U \<and> alloc_pages pgmem (pages st) 0 = Some (None, pages st)
     | Some obj \<Rightarrow> heap_rep pgmem st' C (U(c := insert obj (U c))) \<and> (\<forall>c'\<in>set C. obj \<notin> U c'))"
proof -
  from assms(1) obtain fr pa fu F where rep: "slab_rep pgmem st C fr pa fu F"
    and U: "\<And>c. c \<in> set C \<Longrightarrow> U c = live st c (slabs_of fr pa fu c)" by (auto simp: heap_rep_def)
  from slab_rep_get_slab [OF rep assms(2)] show ?thesis
  proof (elim disjE exE conjE)
    assume "F = {}" and get: "kmem_cache_get_slab pgmem st c = Some (None, count_fail c st)"
    then have "alloc_pages pgmem (pages st) 0 = Some (None, pages st)"
      using slab_repD(2) [OF rep assms(2)] alloc_pages_none [of "pages st" F 0 pgmem]
      by (auto simp: pages_rep_def)
    moreover have "heap_rep pgmem (count_fail c st) C U"
      using rep U slab_rep_count(1,3) by (auto simp: heap_rep_def)
    ultimately show ?thesis using get by (simp add: kmem_cache_alloc_def)
  next
    fix s st1 fr1 pa1 F1
    assume get: "kmem_cache_get_slab pgmem st c = Some (Some s, st1)"
      and rep1: "slab_rep pgmem st1 C fr1 pa1 fu F1" and s: "s \<in> set (pa1 c)"
      and l1: "\<forall>c'\<in>set C. live st1 c' (slabs_of fr1 pa1 fu c') = live st c' (slabs_of fr pa fu c')"
    from slab_rep_take [OF rep1 assms(2) s] obtain b st' pa' fu' where
      take: "slab_take_object st1 c s = Some (obj_addr (kcaches st1 c) s b, st')"
      "b < objnum (kcaches st1 c)" "\<not> bit (free_bitmap (slabs st1 s)) b"
      and rep': "slab_rep pgmem st' C fr1 pa' fu' F1" and same: "kcaches st' = kcaches st1"
      "\<And>t. t \<noteq> s \<Longrightarrow> slabs st' t = slabs st1 t"
      "\<And>i. bit (free_bitmap (slabs st' s)) i \<longleftrightarrow> i = b \<or> bit (free_bitmap (slabs st1 s)) i"
      "\<And>c'. slabs_of fr1 pa' fu' c' = slabs_of fr1 pa1 fu c'" by blast
    let ?obj = "obj_addr (kcaches st1 c) s b"
    have sc: "s \<in> slabs_of fr1 pa1 fu c" using s by (simp add: slabs_of_def)
    have "live st' c (slabs_of fr1 pa1 fu c) = insert ?obj (live st1 c (slabs_of fr1 pa1 fu c))"
      using live_take [OF same(1,2) sc same(3)] .
    moreover have "live st' c' (slabs_of fr1 pa1 fu c') = live st1 c' (slabs_of fr1 pa1 fu c')"
      if "c' \<in> set C" "c' \<noteq> c" for c'
      using slab_rep_distinct(2) [OF rep1 assms(2) that] sc same(1,2)
      by (intro live_other) (simp, metis disjoint_iff)
    ultimately have "heap_rep pgmem st' C (U(c := insert ?obj (U c)))"
      unfolding heap_rep_def using rep' U l1 same(4) assms(2)
      by (intro exI [of _ fr1] exI [of _ pa'] exI [of _ fu'] exI [of _ F1]) auto
    moreover have "?obj \<notin> U c'" if "c' \<in> set C" for c'
      using obj_addr_fresh [OF rep1 assms(2) sc take(2,3) that] l1 U that by simp
    ultimately show ?thesis using get take(1) by (auto simp: kmem_cache_alloc_def)
  qed
qed

section \<open>Release\<close>

lemma live_put:
  assumes "kcaches st' = kcaches st" "\<And>t. t \<noteq> s \<Longrightarrow> slabs st' t = slabs st t"
    and "\<And>i. bit (free_bitmap (slabs st' s)) i \<longleftrightarrow> i \<noteq> b \<and> bit (free_bitmap (slabs st s)) i"
    and at: "\<And>t. t \<in> S \<Longrightarrow> slab_at pgmem F (kcaches st c) t (slabs st t)"
    and "s \<in> S" "bit (free_bitmap (slabs st s)) b" and ok: "cache_ok (kcaches st c)"
  shows "live st' c S = live st c S - {obj_addr (kcaches st c) s b}"
proof -
  let ?a = "obj_addr (kcaches st c)"
  have bits: "bit (free_bitmap (slabs st' t)) i \<longleftrightarrow> bit (free_bitmap (slabs st t)) i \<and> \<not> (t = s \<and> i = b)" for t i
    using assms(2) [of t] assms(3) [of i] by (cases "t = s") auto
  have inj: "t = s \<and> i = b" if "t \<in> S" "bit (free_bitmap (slabs st t)) i" "?a t i = ?a s b" for t i
  proof -
    have "page_block pgmem t 0" "i < objnum (kcaches st c)" "page_block pgmem s 0" "b < objnum (kcaches st c)"
      using at [OF that(1)] at [OF assms(5)] that(2) assms(6) by (auto simp: slab_at_def slab_ok_def)
    then show ?thesis using obj_of_addr [OF _ ok] that(3) by metis
  qed
  show ?thesis
  proof
    show "live st' c S \<subseteq> live st c S - {?a s b}"
      using inj bits assms(1) by (auto simp: live_def)
    show "live st c S - {?a s b} \<subseteq> live st' c S"
      using bits assms(1) by (auto simp: live_def)
  qed
qed

lemma free_full_count:
  assumes "slab_ok cache sl" "free_objects sl = int (objnum cache)"
  shows "\<not> bit (free_bitmap sl) b"
proof
  assume "bit (free_bitmap sl) b"
  then have "{i. i < objnum cache \<and> \<not> bit (free_bitmap sl) i} \<subset> {..<objnum cache}"
    using assms(1) by (auto simp: slab_ok_def)
  then have "card {i. i < objnum cache \<and> \<not> bit (free_bitmap sl) i} < card {..<objnum cache}"
    by (intro psubset_card_mono) auto
  then show False using assms by (simp add: slab_ok_def)
qed

lemma cache_slabs_ok_release:
  assumes "cache_slabs_ok pgmem F k sl fs ps us" "page_block pgmem s 0" "s \<notin> set fs \<union> set ps \<union> set us"
  shows "cache_slabs_ok pgmem (F \<union> page_units pgmem s 0) k sl fs ps us"
proof -
  have "slab_at pgmem (F \<union> page_units pgmem s 0) k t x" if "slab_at pgmem F k t x" "t \<noteq> s" for t x
    using that page_block_units_disjoint [of pgmem t s] assms(2) by (auto simp: slab_at_def)
  then show ?thesis using assms unfolding cache_slabs_ok_def by metis
qed

text \<open>The three outcomes of a release, for an object in slab \<open>s\<close>.\<close>

lemma slab_rep_free:
  assumes rep: "slab_rep pgmem st C fr pa fu F" and c: "c \<in> set C"
    and s: "s \<in> slabs_of fr pa fu c" and bit: "bit (free_bitmap (slabs st s)) b"
  shows "\<exists>st' pa' fu' F'. kmem_cache_free pgmem st c (obj_addr (kcaches st c) s b) = Some st' \<and>
    slab_rep pgmem st' C fr pa' fu' F' \<and> kcaches st' = kcaches st \<and>
    (\<forall>t. t \<noteq> s \<longrightarrow> slabs st' t = slabs st t) \<and>
    (\<forall>i. bit (free_bitmap (slabs st' s)) i \<longleftrightarrow> i \<noteq> b \<and> bit (free_bitmap (slabs st s)) i) \<and>
    (\<forall>c'. c' \<noteq> c \<longrightarrow> slabs_of fr pa' fu' c' = slabs_of fr pa fu c') \<and>
    (slabs_of fr pa' fu' c = slabs_of fr pa fu c \<or>
     slabs_of fr pa' fu' c = slabs_of fr pa fu c - {s} \<and> free_bitmap (slabs st' s) = 0)"
proof -
  let ?k = "kcaches st c" and ?sl = "slabs st s"
  let ?sl' = "\<lparr>free_bitmap = bitmap_clear_bit (one_word (free_bitmap ?sl)) b 0, free_objects = free_objects ?sl + 1\<rparr>"
  let ?st = "st\<lparr>slabs := (slabs st)(s := ?sl')\<rparr>"
  note ok = slab_repD(4) [OF rep c] and all = slab_repD(3) [OF rep c]
  have at0: "slab_at pgmem F ?k s ?sl" using all s by (auto simp: cache_slabs_ok_def slabs_of_def)
  then have blk: "page_block pgmem s 0" "page_units pgmem s 0 \<inter> F = {}" and sl: "slab_ok ?k ?sl"
    by (auto simp: slab_at_def)
  note put = slab_ok_put [OF sl bit ok]
  have at: "slab_at pgmem F ?k s ?sl'" using blk put(1) by (simp add: slab_at_def)
  have "s \<notin> set (fr c)" using all free_full_count [OF sl] bit by (auto simp: cache_slabs_ok_def)
  then have s': "s \<in> set (pa c) \<or> s \<in> set (fu c)" using s by (auto simp: slabs_of_def)
  note dist = slab_rep_distinct(1) [OF rep c]
  have other: "cache_slabs_ok pgmem F (kcaches st c') ((slabs st)(s := ?sl')) (fr c') (pa c') (fu c')"
    "s \<notin> slabs_of fr pa fu c'" if "c' \<in> set C" "c' \<noteq> c" for c'
    using slab_repD(3) [OF rep that(1)] slab_rep_distinct(2) [OF rep c that] s
    by (auto simp: cache_slabs_ok_def slabs_of_def disjoint_iff)
  have run: "kmem_cache_free pgmem st c (obj_addr ?k s b) =
      (if free_objects ?sl' = int (objnum ?k) then slab_destroy pgmem ?st s
       else if free_objects ?sl' = 1 then do {
         h \<leftarrow> list_move (slab_links st) (Node (SlabList s)) (Node (SlabsPartial c));
         Some (?st\<lparr>slab_links := h\<rparr>) }
       else Some ?st)"
    using obj_of_addr [OF blk(1) ok put(3)] cache_ok_bounds(1) [OF ok] put(3)
    by (simp add: kmem_cache_free_def BITS_PER_LONG_def Let_def)
  have in_fu: "s \<in> set (fu c) \<Longrightarrow> free_objects ?sl = 0" and in_pa: "s \<in> set (pa c) \<Longrightarrow> 0 < free_objects ?sl"
    using all by (auto simp: cache_slabs_ok_def)
  consider (empty) "free_objects ?sl' = int (objnum ?k)" | (full) "free_objects ?sl' = 1" "free_objects ?sl' \<noteq> int (objnum ?k)"
    | (mid) "free_objects ?sl' \<noteq> 1" "free_objects ?sl' \<noteq> int (objnum ?k)" by blast
  then show ?thesis
  proof cases
    case mid
    then have "s \<in> set (pa c)" "s \<notin> set (fu c)" using s' in_fu dist by auto
    then have "cache_slabs_ok pgmem F ?k ((slabs st)(s := ?sl')) (fr c) (pa c) (fu c)"
      using all at in_pa \<open>s \<notin> set (fr c)\<close> by (auto simp: cache_slabs_ok_def)
    then have "slab_rep pgmem ?st C fr pa fu F" using rep other by (auto simp: slab_rep_def)
    then show ?thesis
      using run mid put(2) by (intro exI [of _ ?st] exI [of _ pa] exI [of _ fu] exI [of _ F]) simp
  next
    case full
    then have sf: "s \<in> set (fu c)" "s \<notin> set (pa c)" using s' in_pa by auto
    obtain h where h: "list_move (slab_links st) (Node (SlabList s)) (Node (SlabsPartial c)) = Some h"
      "lists h (slab_rings C fr (pa(c := s # pa c)) (fu(c := remove1 s (fu c))))"
      using move_full_partial [OF slab_repD(1) [OF rep c] c sf(1)] by blast
    have "s \<notin> set (remove1 s (fu c))" "set (remove1 s (fu c)) \<subseteq> set (fu c)"
      using dist by (auto dest: notin_set_remove1)
    then have "cache_slabs_ok pgmem F ?k ((slabs st)(s := ?sl')) (fr c) (s # pa c) (remove1 s (fu c))"
      using all at full sf \<open>s \<notin> set (fr c)\<close> by (auto simp: cache_slabs_ok_def)
    then have "slab_rep pgmem (?st\<lparr>slab_links := h\<rparr>) C fr (pa(c := s # pa c)) (fu(c := remove1 s (fu c))) F"
      using rep h(2) other by (auto simp: slab_rep_def)
    moreover have "slabs_of fr (pa(c := s # pa c)) (fu(c := remove1 s (fu c))) c' = slabs_of fr pa fu c'" for c'
      using sf dist by (auto simp: slabs_of_def)
    ultimately show ?thesis
      using run full h(1) put(2)
      by (intro exI [of _ "?st\<lparr>slab_links := h\<rparr>"] exI [of _ "pa(c := s # pa c)"]
          exI [of _ "fu(c := remove1 s (fu c))"] exI [of _ F]) simp
  next
    case empty
    then have sp: "s \<in> set (pa c)" "s \<notin> set (fu c)" using s' in_fu cache_ok_bounds(2) [OF ok] by auto
    let ?pa = "pa(c := remove1 s (pa c))" and ?F = "F \<union> page_units pgmem s 0"
    obtain h where h: "list_del (slab_links st) (Node (SlabList s)) = Some h" "lists h (slab_rings C fr ?pa fu)"
      using lists_list_del' [OF slab_repD(1) [OF rep c], of "SlabsPartial c" "map SlabList (pa c)" "SlabList s"]
        c sp slab_rings_upd(2) [OF c, of fr pa fu "remove1 s (pa c)"] by (auto simp: remove1_map_slab)
    obtain B where B: "free_pages pgmem (pages st) s 0 = Some B" "pages_rep pgmem B ?F"
      using pages.release_block [OF slab_repD(2) [OF rep c] blk] by blast
    have gone: "s \<notin> set (remove1 s (pa c))" "set (remove1 s (pa c)) \<subseteq> set (pa c)"
      using dist by (auto dest: notin_set_remove1)
    have "cache_slabs_ok pgmem F ?k ((slabs st)(s := ?sl')) (fr c) (remove1 s (pa c)) (fu c)"
      using all gone sp \<open>s \<notin> set (fr c)\<close> by (auto simp: cache_slabs_ok_def)
    then have "cache_slabs_ok pgmem ?F ?k ((slabs st)(s := ?sl')) (fr c) (remove1 s (pa c)) (fu c)"
      using gone sp \<open>s \<notin> set (fr c)\<close> by (intro cache_slabs_ok_release blk(1)) auto
    moreover have "cache_slabs_ok pgmem ?F (kcaches st c') ((slabs st)(s := ?sl')) (fr c') (pa c') (fu c')"
      if "c' \<in> set C" "c' \<noteq> c" for c'
      using other [OF that] by (intro cache_slabs_ok_release blk(1)) (auto simp: slabs_of_def)
    ultimately have "slab_rep pgmem (?st\<lparr>slab_links := h, pages := B\<rparr>) C fr ?pa fu ?F"
      using h(2) B(2) by (auto simp: slab_rep_def)
    moreover have "slabs_of fr ?pa fu c = slabs_of fr pa fu c - {s}"
      using gone sp \<open>s \<notin> set (fr c)\<close> dist by (auto simp: slabs_of_def)
    moreover have "free_bitmap ?sl' = 0"
      using free_full_count [OF put(1) empty] by (simp add: word_eq_0_iff_bits)
    moreover have "\<And>c'. c' \<noteq> c \<Longrightarrow> slabs_of fr ?pa fu c' = slabs_of fr pa fu c'"
      by (simp add: slabs_of_def)
    ultimately show ?thesis
      using run empty h(1) B(1) put(2)
      by (intro exI [of _ "?st\<lparr>slab_links := h, pages := B\<rparr>"] exI [of _ ?pa] exI [of _ fu] exI [of _ ?F])
        (simp add: slab_destroy_def)
  qed
qed

lemma kmem_cache_free_rep:
  assumes "heap_rep pgmem st C U" "c \<in> set C" "obj \<in> U c"
  shows "\<exists>st'. kmem_cache_free pgmem st c obj = Some st' \<and> heap_rep pgmem st' C (U(c := U c - {obj}))"
proof -
  from assms(1) obtain fr pa fu F where rep: "slab_rep pgmem st C fr pa fu F"
    and U: "\<And>c. c \<in> set C \<Longrightarrow> U c = live st c (slabs_of fr pa fu c)" by (auto simp: heap_rep_def)
  from U [OF assms(2)] assms(3) obtain s b where obj: "obj = obj_addr (kcaches st c) s b"
    and s: "s \<in> slabs_of fr pa fu c" and b: "bit (free_bitmap (slabs st s)) b" by (auto simp: live_def)
  from slab_rep_free [OF rep assms(2) s b] obtain st' pa' fu' F' where
    run: "kmem_cache_free pgmem st c obj = Some st'" and rep': "slab_rep pgmem st' C fr pa' fu' F'"
    and same: "kcaches st' = kcaches st" "\<And>t. t \<noteq> s \<Longrightarrow> slabs st' t = slabs st t"
      "\<And>i. bit (free_bitmap (slabs st' s)) i \<longleftrightarrow> i \<noteq> b \<and> bit (free_bitmap (slabs st s)) i"
    and others: "\<And>c'. c' \<noteq> c \<Longrightarrow> slabs_of fr pa' fu' c' = slabs_of fr pa fu c'"
    and own: "slabs_of fr pa' fu' c = slabs_of fr pa fu c \<or>
      slabs_of fr pa' fu' c = slabs_of fr pa fu c - {s} \<and> free_bitmap (slabs st' s) = 0"
    unfolding obj by blast
  have "slab_at pgmem F (kcaches st c) t (slabs st t)" if "t \<in> slabs_of fr pa fu c" for t
    using that slab_repD(3) [OF rep assms(2)] by (auto simp: cache_slabs_ok_def slabs_of_def)
  then have "live st' c (slabs_of fr pa fu c) = U c - {obj}"
    using live_put [OF same, of "slabs_of fr pa fu c" pgmem F c] s b slab_repD(4) [OF rep assms(2)]
      U [OF assms(2)] obj by simp
  moreover have "live st' c (S - {s}) = live st' c S" if "free_bitmap (slabs st' s) = 0" for S
  proof -
    have "t \<in> S - {s} \<and> bit (free_bitmap (slabs st' t)) i \<longleftrightarrow> t \<in> S \<and> bit (free_bitmap (slabs st' t)) i" for t i
      using that by auto
    then show ?thesis by (simp only: live_def)
  qed
  ultimately have "live st' c (slabs_of fr pa' fu' c) = U c - {obj}" using own by metis
  moreover have "live st' c' (slabs_of fr pa' fu' c') = U c'" if "c' \<in> set C" "c' \<noteq> c" for c'
  proof -
    have "live st' c' (slabs_of fr pa fu c') = live st c' (slabs_of fr pa fu c')"
      using slab_rep_distinct(2) [OF rep assms(2) that] s same(1,2)
      by (intro live_other) (simp, metis disjoint_iff)
    then show ?thesis using others that U by simp
  qed
  ultimately have "\<forall>c'\<in>set C. (U(c := U c - {obj})) c' = live st' c' (slabs_of fr pa' fu' c')"
    by simp
  then have "heap_rep pgmem st' C (U(c := U c - {obj}))"
    unfolding heap_rep_def using rep' by blast
  with run show ?thesis by blast
qed

section \<open>Creating caches\<close>

text \<open>
  The descriptors of all caches but the first are objects of the first, \<^verbatim>\<open>cache_caches\<close>, which
  is a static variable outside of the page memory.
\<close>

definition caches_rep :: "addr \<Rightarrow> addr \<Rightarrow> slab_state \<Rightarrow> addr list \<Rightarrow> (addr \<Rightarrow> addr set) \<Rightarrow> bool" where
  "caches_rep pgmem cc st C U \<longleftrightarrow> heap_rep pgmem st C U \<and> cc \<in> set C \<and>
     set C \<subseteq> insert cc (U cc) \<and> (unat cc < unat pgmem \<or> unat pgmem + 32768 \<le> unat cc)"

lemma live_in_pgmem:
  assumes "heap_rep pgmem st C U" "c \<in> set C" "obj \<in> U c"
  shows "unat pgmem \<le> unat obj \<and> unat obj < unat pgmem + 32768"
proof -
  from assms obtain fr pa fu F s b where rep: "slab_rep pgmem st C fr pa fu F"
    and s: "s \<in> slabs_of fr pa fu c" and b: "bit (free_bitmap (slabs st s)) b"
    and obj: "obj = obj_addr (kcaches st c) s b" by (auto simp: heap_rep_def live_def)
  have "slab_at pgmem F (kcaches st c) s (slabs st s)"
    using s slab_repD(3) [OF rep assms(2)] by (auto simp: cache_slabs_ok_def slabs_of_def)
  then have blk: "page_block pgmem s 0" and b': "b < objnum (kcaches st c)"
    using b by (auto simp: slab_at_def slab_ok_def)
  note ok = slab_repD(4) [OF rep assms(2)]
  from blk obtain i where i: "i < 128" "s = page_idx_to_addr pgmem i 0" and pg: "pgmem_ok pgmem"
    by (auto simp: page_block_def page_bitmap_sz_def)
  then have "unat s = unat pgmem + i * 256"
    using unat_page_addr(1) [OF pg, of 0 i] by (simp add: page_bitmap_sz_def)
  then show ?thesis
    using unat_obj_addr [OF blk ok b'] i cache_ok_bounds(3) [OF ok] unfolding obj by linarith
qed

lemma slab_rings_new:
  assumes "c \<notin> set C"
  shows "(slab_rings C fr pa fu)(SlabsFree c \<mapsto> [], SlabsPartial c \<mapsto> [], SlabsFull c \<mapsto> [],
      Caches \<mapsto> CacheList c # map CacheList C) =
    slab_rings (c # C) (fr(c := [])) (pa(c := [])) (fu(c := []))"
  using assms by (intro ext) (rename_tac n, case_tac n; auto)

lemma ring_nodes_slab_rings:
  assumes "c \<notin> set C"
  shows "SlabsFree c \<notin> ring_nodes (slab_rings C fr pa fu)" "SlabsPartial c \<notin> ring_nodes (slab_rings C fr pa fu)"
    "SlabsFull c \<notin> ring_nodes (slab_rings C fr pa fu)" "CacheList c \<notin> ring_nodes (slab_rings C fr pa fu)"
proof -
  have "n \<noteq> SlabsFree c \<and> n \<noteq> SlabsPartial c \<and> n \<noteq> SlabsFull c \<and> n \<noteq> CacheList c"
    if "slab_rings C fr pa fu a = Some xs" "n \<in> set (a # xs)" for a xs n
    using that assms by (cases a) (auto split: if_splits)
  then show "SlabsFree c \<notin> ring_nodes (slab_rings C fr pa fu)" "SlabsPartial c \<notin> ring_nodes (slab_rings C fr pa fu)"
    "SlabsFull c \<notin> ring_nodes (slab_rings C fr pa fu)" "CacheList c \<notin> ring_nodes (slab_rings C fr pa fu)"
    unfolding ring_nodes_iff by blast+
qed

lemma slab_rep_new_cache:
  assumes rep: "slab_rep pgmem st C fr pa fu F" and c: "c \<notin> set C" and ok: "cache_ok k"
  shows "\<exists>h. do { h \<leftarrow> INIT_LIST_HEAD (slab_links st) (Node (SlabsFree c));
      h \<leftarrow> INIT_LIST_HEAD h (Node (SlabsPartial c)); h \<leftarrow> INIT_LIST_HEAD h (Node (SlabsFull c));
      list_add h (Node (CacheList c)) (Node Caches) } = Some h \<and>
    slab_rep pgmem (st\<lparr>kcaches := (kcaches st)(c := k), slab_links := h\<rparr>) (c # C)
      (fr(c := [])) (pa(c := [])) (fu(c := [])) F"
proof -
  let ?Q = "slab_rings C fr pa fu"
  note n = ring_nodes_slab_rings [OF c, of fr pa fu]
  have up: "x \<notin> ring_nodes (Q(a \<mapsto> []))" if "x \<notin> ring_nodes Q" "x \<noteq> a" for Q a and x :: slab_node
    using that ring_nodes_upd_Nil [of Q a] by blast
  have l0: "lists (slab_links st) ?Q" using rep by (simp add: slab_rep_def)
  obtain h1 where h1: "INIT_LIST_HEAD (slab_links st) (Node (SlabsFree c)) = Some h1" "lists h1 (?Q(SlabsFree c \<mapsto> []))"
    using lists_INIT_LIST_HEAD [OF l0] n(1) by blast
  obtain h2 where h2: "INIT_LIST_HEAD h1 (Node (SlabsPartial c)) = Some h2"
      "lists h2 (?Q(SlabsFree c \<mapsto> [], SlabsPartial c \<mapsto> []))"
    using lists_INIT_LIST_HEAD [OF h1(2)] up [OF n(2)] by blast
  obtain h3 where h3: "INIT_LIST_HEAD h2 (Node (SlabsFull c)) = Some h3"
      "lists h3 (?Q(SlabsFree c \<mapsto> [], SlabsPartial c \<mapsto> [], SlabsFull c \<mapsto> []))"
    using lists_INIT_LIST_HEAD [OF h2(2)] up [OF up [OF n(3)]] by blast
  have "CacheList c \<notin> ring_nodes (?Q(SlabsFree c \<mapsto> [], SlabsPartial c \<mapsto> [], SlabsFull c \<mapsto> []))"
    by (intro up n(4)) simp_all
  from lists_list_add [OF h3(2) _ this, of Caches "map CacheList C"] obtain h where
    h: "list_add h3 (Node (CacheList c)) (Node Caches) = Some h"
      "lists h (slab_rings (c # C) (fr(c := [])) (pa(c := [])) (fu(c := [])))"
    using slab_rings_new [OF c, of fr pa fu] by auto
  have "slab_rep pgmem (st\<lparr>kcaches := (kcaches st)(c := k), slab_links := h\<rparr>) (c # C)
      (fr(c := [])) (pa(c := [])) (fu(c := [])) F"
    using rep h(2) ok c by (auto simp: slab_rep_def cache_slabs_ok_def)
  with h1(1) h2(1) h3(1) h(1) show ?thesis by auto
qed

lemma heap_rep_new_cache:
  assumes "heap_rep pgmem st C U" "c \<notin> set C" "cache_ok k"
  shows "\<exists>h. do { h \<leftarrow> INIT_LIST_HEAD (slab_links st) (Node (SlabsFree c));
      h \<leftarrow> INIT_LIST_HEAD h (Node (SlabsPartial c)); h \<leftarrow> INIT_LIST_HEAD h (Node (SlabsFull c));
      list_add h (Node (CacheList c)) (Node Caches) } = Some h \<and>
    heap_rep pgmem (st\<lparr>kcaches := (kcaches st)(c := k), slab_links := h\<rparr>) (c # C) (U(c := {}))"
proof -
  from assms(1) obtain fr pa fu F where rep: "slab_rep pgmem st C fr pa fu F"
    and U: "\<And>c. c \<in> set C \<Longrightarrow> U c = live st c (slabs_of fr pa fu c)" by (auto simp: heap_rep_def)
  obtain h where h: "do { h \<leftarrow> INIT_LIST_HEAD (slab_links st) (Node (SlabsFree c));
      h \<leftarrow> INIT_LIST_HEAD h (Node (SlabsPartial c)); h \<leftarrow> INIT_LIST_HEAD h (Node (SlabsFull c));
      list_add h (Node (CacheList c)) (Node Caches) } = Some h"
    "slab_rep pgmem (st\<lparr>kcaches := (kcaches st)(c := k), slab_links := h\<rparr>) (c # C)
      (fr(c := [])) (pa(c := [])) (fu(c := [])) F"
    using slab_rep_new_cache [OF rep assms(2,3)] by blast
  have "(U(c := {})) c' = live (st\<lparr>kcaches := (kcaches st)(c := k), slab_links := h\<rparr>) c'
      (slabs_of (fr(c := [])) (pa(c := [])) (fu(c := [])) c')" if "c' \<in> set (c # C)" for c'
    using that U [of c'] assms(2) by (cases "c' = c") (auto simp: live_def slabs_of_def)
  then show ?thesis using h unfolding heap_rep_def by blast
qed

lemma kmem_cache_create_rep:
  assumes rep: "caches_rep pgmem cc st C U"
  shows "\<exists>r st'. kmem_cache_create pgmem cc st name sz = Some (r, st') \<and>
    (case r of
       None \<Rightarrow> caches_rep pgmem cc st' C U
     | Some c \<Rightarrow> caches_rep pgmem cc st' (c # C) (U(cc := insert c (U cc), c := {})) \<and> c \<notin> set C \<and>
         8 \<le> sz \<and> sz \<le> 120 \<and> objsize (kcaches st' c) = sz \<and> objnum (kcaches st' c) = 240 div sz)"
proof (cases "8 \<le> sz \<and> sz \<le> 120")
  case False
  then show ?thesis using rep by (auto simp: kmem_cache_create_def sizeof_slab_def)
next
  case sz: True
  have cc: "cc \<in> set C" and heap: "heap_rep pgmem st C U" using rep by (auto simp: caches_rep_def)
  obtain r st1 where alloc: "kmem_cache_alloc pgmem st cc = Some (r, st1)"
    "case r of None \<Rightarrow> heap_rep pgmem st1 C U \<and> alloc_pages pgmem (pages st) 0 = Some (None, pages st)
     | Some obj \<Rightarrow> heap_rep pgmem st1 C (U(cc := insert obj (U cc))) \<and> (\<forall>c'\<in>set C. obj \<notin> U c')"
    using kmem_cache_alloc_rep [OF heap cc] by blast
  show ?thesis
  proof (cases r)
    case None
    then show ?thesis using alloc sz rep
      by (simp add: kmem_cache_create_def sizeof_slab_def caches_rep_def)
  next
    case (Some c)
    then have heap1: "heap_rep pgmem st1 C (U(cc := insert c (U cc)))" and fresh: "c \<notin> U cc"
      using alloc(2) cc by auto
    have "c \<noteq> cc"
      using live_in_pgmem [OF heap1 cc, of c] rep by (auto simp: caches_rep_def)
    then have c: "c \<notin> set C" using rep fresh by (auto simp: caches_rep_def)
    let ?k = "(kcaches st1 c)\<lparr>objsize := sz mod 2 ^ 16, objnum := OBJECTS_PER_SLAB sz mod 2 ^ 16, opts := 0,
      cname := strncpy name CACHE_NAMELEN\<rparr>"
    have "240 div sz < 65536" using div_le_dividend [of 240 sz] by linarith
    then have k: "objsize ?k = sz" "objnum ?k = 240 div sz"
      using sz by (simp_all add: OBJECTS_PER_SLAB_def CACHE_PAGE_SIZE_def sizeof_slab_def)
    then have "cache_ok ?k"
      using sz by (simp add: cache_ok_def OBJECTS_PER_SLAB_def CACHE_PAGE_SIZE_def sizeof_slab_def)
    from heap_rep_new_cache [OF heap1 c this] obtain h where
      h: "do { h \<leftarrow> INIT_LIST_HEAD (slab_links st1) (Node (SlabsFree c));
        h \<leftarrow> INIT_LIST_HEAD h (Node (SlabsPartial c)); h \<leftarrow> INIT_LIST_HEAD h (Node (SlabsFull c));
        list_add h (Node (CacheList c)) (Node Caches) } = Some h"
      "heap_rep pgmem (st1\<lparr>kcaches := (kcaches st1)(c := ?k), slab_links := h\<rparr>) (c # C)
        (U(cc := insert c (U cc), c := {}))" by blast
    let ?st = "st1\<lparr>kcaches := (kcaches st1)(c := ?k), slab_links := h\<rparr>"
    have "kmem_cache_create pgmem cc st name sz = Some (Some c, ?st)"
      using sz alloc(1) Some h(1) unfolding kmem_cache_create_def
      by (simp add: sizeof_slab_def Let_def bind_eq_Some_conv) auto
    moreover have "caches_rep pgmem cc ?st (c # C) (U(cc := insert c (U cc), c := {}))"
      using rep h(2) \<open>c \<noteq> cc\<close> by (auto simp: caches_rep_def)
    ultimately show ?thesis using c sz k by simp
  qed
qed

text \<open>The state before \<^verbatim>\<open>kmem_cache_init\<close>: every list head empty, one static cache.\<close>

definition slab_boot :: "addr \<Rightarrow> page_maps \<Rightarrow> slab_state \<Rightarrow> slab_state" where
  "slab_boot cc B st = st\<lparr>pages := B, slab_links := \<lparr>lnext = Node, lprev = Node\<rparr>,
     kcaches := (kcaches st)(cc := cache_caches_init)\<rparr>"

lemma kmem_cache_init_slab:
  assumes "pgmem_ok pgmem" "page_rep B F" "F \<noteq> {}"
  shows "\<exists>st' s F'. kmem_cache_init pgmem cc (slab_boot cc B st) = Some st' \<and>
    slab_rep pgmem st' [cc] ((\<lambda>_. [])(cc := [s])) (\<lambda>_. []) (\<lambda>_. []) F' \<and> free_bitmap (slabs st' s) = 0"
proof -
  let ?e = "\<lambda>_ :: addr. [] :: addr list"
  let ?Q = "\<lambda>n. if n \<in> {Caches, SlabsFree cc, SlabsPartial cc, SlabsFull cc} then Some [] else None"
  let ?st = "slab_boot cc B st"
  have "lists (slab_links ?st) ?Q" by (auto simp: lists_def ring_def slab_boot_def split: if_splits)
  moreover have "CacheList cc \<notin> ring_nodes ?Q" by (auto simp: ring_nodes_iff split: if_splits)
  moreover have "?Q(Caches \<mapsto> [CacheList cc]) = slab_rings [cc] ?e ?e ?e"
    by (rule ext, rename_tac n, case_tac n; auto)
  ultimately obtain h where h: "list_add (slab_links ?st) (Node (CacheList cc)) (Node Caches) = Some h"
    "lists h (slab_rings [cc] ?e ?e ?e)" using lists_list_add [of "slab_links ?st" ?Q Caches "[]" "CacheList cc"] by auto
  have "cache_ok cache_caches_init"
    by (simp add: cache_ok_def cache_caches_init_def sizeof_kmem_cache_def)
  then have rep: "slab_rep pgmem (?st\<lparr>slab_links := h\<rparr>) [cc] ?e ?e ?e F"
    using h(2) assms(1,2) by (simp add: slab_rep_def pages_rep_def slab_boot_def cache_slabs_ok_def)
  from slab_rep_grow [OF rep, of cc] assms(3) obtain s st' F' where
    "kmem_cache_grow pgmem (?st\<lparr>slab_links := h\<rparr>) cc = Some (Some s, st')"
    "slab_rep pgmem st' [cc] (?e(cc := [s])) ?e ?e F'" "free_bitmap (slabs st' s) = 0" by auto
  then show ?thesis using h(1) by (auto simp: kmem_cache_init_def)
qed

lemma kmem_cache_init_rep:
  assumes "pgmem_ok pgmem" "page_rep B F" "F \<noteq> {}"
    and "unat cc < unat pgmem \<or> unat pgmem + 32768 \<le> unat cc"
  shows "\<exists>st'. kmem_cache_init pgmem cc (slab_boot cc B st) = Some st' \<and>
    caches_rep pgmem cc st' [cc] (\<lambda>_. {})"
proof -
  let ?e = "\<lambda>_ :: addr. [] :: addr list"
  obtain st' s F' where g: "kmem_cache_init pgmem cc (slab_boot cc B st) = Some st'"
    "slab_rep pgmem st' [cc] (?e(cc := [s])) ?e ?e F'" "free_bitmap (slabs st' s) = 0"
    using kmem_cache_init_slab [OF assms(1-3)] by blast
  have "live st' cc (slabs_of (?e(cc := [s])) ?e ?e cc) = {}"
    using g(3) by (simp add: live_def slabs_of_def)
  then have "heap_rep pgmem st' [cc] (\<lambda>_. {})" unfolding heap_rep_def using g(2) by fastforce
  then show ?thesis using g(1) assms(4) by (simp add: caches_rep_def)
qed

lemma heap_rep_extents:
  assumes "heap_rep pgmem st C U" "c \<in> set C" "x \<in> U c" "d \<in> set C" "y \<in> U d" "x \<noteq> y"
  shows "{unat x ..< unat x + objsize (kcaches st c)} \<inter> {unat y ..< unat y + objsize (kcaches st d)} = {}"
proof -
  from assms(1) obtain fr pa fu F where rep: "slab_rep pgmem st C fr pa fu F"
    and U: "\<And>c. c \<in> set C \<Longrightarrow> U c = live st c (slabs_of fr pa fu c)" by (auto simp: heap_rep_def)
  from U [OF assms(2)] assms(3) obtain s b where s: "s \<in> slabs_of fr pa fu c"
    "bit (free_bitmap (slabs st s)) b" "x = obj_addr (kcaches st c) s b" by (auto simp: live_def)
  from U [OF assms(4)] assms(5) obtain t e where t: "t \<in> slabs_of fr pa fu d"
    "bit (free_bitmap (slabs st t)) e" "y = obj_addr (kcaches st d) t e" by (auto simp: live_def)
  have "slab_at pgmem F (kcaches st c) s (slabs st s)" "slab_at pgmem F (kcaches st d) t (slabs st t)"
    using s(1) t(1) slab_repD(3) [OF rep assms(2)] slab_repD(3) [OF rep assms(4)]
    by (auto simp: cache_slabs_ok_def slabs_of_def)
  then have "page_block pgmem s 0" "b < objnum (kcaches st c)" "page_block pgmem t 0" "e < objnum (kcaches st d)"
    using s(2) t(2) by (auto simp: slab_at_def slab_ok_def)
  moreover have "s \<noteq> t \<or> (kcaches st c = kcaches st d \<and> b \<noteq> e)"
  proof (cases "c = d")
    case False
    then show ?thesis using slab_rep_distinct(2) [OF rep assms(2,4)] s(1) t(1) by auto
  qed (use s(3) t(3) assms(6) in auto)
  ultimately show ?thesis
    using obj_extents_disjoint slab_repD(4) [OF rep] assms(2,4) unfolding s(3) t(3) by metis
qed

section \<open>The contract of a cache\<close>

locale object_pool =
  fixes rep :: "'s \<Rightarrow> 'o set \<Rightarrow> bool"
    and alloc :: "'s \<Rightarrow> ('o option \<times> 's) option"
    and free :: "'s \<Rightarrow> 'o \<Rightarrow> 's option"
  assumes alloc_law: "rep s X \<Longrightarrow> \<exists>r s'. alloc s = Some (r, s') \<and>
      (case r of None \<Rightarrow> rep s' X | Some x \<Rightarrow> x \<notin> X \<and> rep s' (insert x X))"
    and free_law: "rep s X \<Longrightarrow> x \<in> X \<Longrightarrow> \<exists>s'. free s x = Some s' \<and> rep s' (X - {x})"
begin

fun get_objects :: "nat \<Rightarrow> 's \<Rightarrow> ('o list \<times> 's) option" where
  "get_objects 0 s = Some ([], s)"
| "get_objects (Suc n) s =
     (case alloc s of
        None \<Rightarrow> None
      | Some (None, s') \<Rightarrow> get_objects n s'
      | Some (Some x, s') \<Rightarrow> map_option (\<lambda>(xs, s''). (x # xs, s'')) (get_objects n s'))"

fun put_objects :: "'o list \<Rightarrow> 's \<Rightarrow> 's option" where
  "put_objects [] s = Some s"
| "put_objects (x # xs) s = (case free s x of None \<Rightarrow> None | Some s' \<Rightarrow> put_objects xs s')"

lemma get_objects_distinct:
  "rep s X \<Longrightarrow> \<exists>xs s'. get_objects n s = Some (xs, s') \<and> distinct xs \<and> set xs \<inter> X = {} \<and> rep s' (set xs \<union> X)"
proof (induction n arbitrary: s X)
  case (Suc n)
  from alloc_law [OF Suc.prems] obtain r s' where r: "alloc s = Some (r, s')"
    "case r of None \<Rightarrow> rep s' X | Some x \<Rightarrow> x \<notin> X \<and> rep s' (insert x X)" by blast
  show ?case
  proof (cases r)
    case None
    then show ?thesis using r Suc.IH [of s' X] by auto
  next
    case (Some x)
    then obtain xs s'' where "get_objects n s' = Some (xs, s'')" "distinct xs" "set xs \<inter> insert x X = {}"
      "rep s'' (set xs \<union> insert x X)" "x \<notin> X" using r(2) Suc.IH [of s' "insert x X"] by auto
    then show ?thesis using Some r(1) by (intro exI [of _ "x # xs"] exI [of _ s'']) auto
  qed
qed simp

lemma put_objects_rep:
  "rep s X \<Longrightarrow> distinct xs \<Longrightarrow> set xs \<subseteq> X \<Longrightarrow> \<exists>s'. put_objects xs s = Some s' \<and> rep s' (X - set xs)"
proof (induction xs arbitrary: s X)
  case (Cons x xs)
  then obtain s' where s': "free s x = Some s'" "rep s' (X - {x})" using free_law [of s X x] by auto
  have "X - {x} - set xs = X - set (x # xs)" by auto
  then show ?case using Cons.IH [OF s'(2)] Cons.prems s'(1) by auto
qed simp

end

definition cache_rep :: "addr \<Rightarrow> addr list \<Rightarrow> addr \<Rightarrow> slab_state \<Rightarrow> addr set \<Rightarrow> bool" where
  "cache_rep pgmem C c st X \<longleftrightarrow> c \<in> set C \<and> (\<exists>U. heap_rep pgmem st C U \<and> U c = X)"

interpretation cache: object_pool "cache_rep pgmem C c" "\<lambda>st. kmem_cache_alloc pgmem st c"
  "\<lambda>st. kmem_cache_free pgmem st c"
proof
  fix st X assume "cache_rep pgmem C c st X"
  then obtain U where c: "c \<in> set C" and U: "heap_rep pgmem st C U" "U c = X"
    by (auto simp: cache_rep_def)
  obtain r st' where r: "kmem_cache_alloc pgmem st c = Some (r, st')"
    "case r of None \<Rightarrow> heap_rep pgmem st' C U \<and> alloc_pages pgmem (pages st) 0 = Some (None, pages st)
     | Some obj \<Rightarrow> heap_rep pgmem st' C (U(c := insert obj (U c))) \<and> (\<forall>c'\<in>set C. obj \<notin> U c')"
    using kmem_cache_alloc_rep [OF U(1) c] by blast
  then have "case r of None \<Rightarrow> cache_rep pgmem C c st' X | Some x \<Rightarrow> x \<notin> X \<and> cache_rep pgmem C c st' (insert x X)"
    using c U(2) by (cases r) (auto simp: cache_rep_def intro: exI [of _ U] exI [of _ "U(c := insert _ (U c))"])
  with r(1) show "\<exists>r s'. kmem_cache_alloc pgmem st c = Some (r, s') \<and>
      (case r of None \<Rightarrow> cache_rep pgmem C c s' X | Some x \<Rightarrow> x \<notin> X \<and> cache_rep pgmem C c s' (insert x X))"
    by blast
  show "\<exists>s'. kmem_cache_free pgmem st c x = Some s' \<and> cache_rep pgmem C c s' (X - {x})" if x: "x \<in> X" for x
  proof -
    obtain st' where "kmem_cache_free pgmem st c x = Some st'" "heap_rep pgmem st' C (U(c := U c - {x}))"
      using kmem_cache_free_rep [OF U(1) c, of x] x U(2) by blast
    moreover have "(U(c := U c - {x})) c = X - {x}" using U(2) by simp
    ultimately show ?thesis using c unfolding cache_rep_def by blast
  qed
qed

section \<open>Properties\<close>

text \<open>A concrete heap for the witnesses: the state after boot, with one free slab.\<close>

lemma booted_heap:
  "\<exists>st. caches_rep 0x20001000 0x20000100 st [0x20000100] (\<lambda>_. {})"
proof -
  have "pgmem_ok 0x20001000" by (simp add: pgmem_ok_def)
  from kmem_cache_init_rep [OF this page_rep_boot, of "0x20000100"] show ?thesis by force
qed

lemma booted_heap_with_object:
  "\<exists>st U obj. heap_rep 0x20001000 st [0x20000100] U \<and> obj \<in> U 0x20000100"
proof -
  let ?e = "\<lambda>_ :: addr. [] :: addr list" and ?c = "0x20000100 :: addr"
  have "pgmem_ok 0x20001000" by (simp add: pgmem_ok_def)
  from kmem_cache_init_slab [OF this page_rep_boot, of ?c] obtain st s F where
    "slab_rep 0x20001000 st [?c] (?e(?c := [s])) ?e ?e F" by force
  from slab_rep_get_slab [OF this, of ?c] obtain t st1 fr pa F1 where
    g: "slab_rep 0x20001000 st1 [?c] fr pa ?e F1" "t \<in> set (pa ?c)" by auto
  from slab_rep_take [OF g(1) _ g(2)] obtain b st2 pa' fu' where
    r: "slab_rep 0x20001000 st2 [?c] fr pa' fu' F1"
    and bits: "\<And>i. bit (free_bitmap (slabs st2 t)) i \<longleftrightarrow> i = b \<or> bit (free_bitmap (slabs st1 t)) i"
    and own: "slabs_of fr pa' fu' ?c = slabs_of fr pa ?e ?c" by auto
  have "obj_addr (kcaches st2 ?c) t b \<in> live st2 ?c (slabs_of fr pa' fu' ?c)"
    using g(2) bits [of b] own by (auto simp: live_def slabs_of_def)
  then show ?thesis
    using r unfolding heap_rep_def
    by (intro exI [of _ st2] exI [of _ "\<lambda>c. live st2 c (slabs_of fr pa' fu' c)"]) blast
qed







end
