(* ===== verification/Bitmap_Queue.thy ===== *)
theory Bitmap_Queue
  imports Bitops Linux_List
begin

text \<open>
  \<^verbatim>\<open>include/kernel/bitmap.h\<close>: 32 list heads and one word whose bit \<open>i\<close> says that queue \<open>i\<close>
  holds an entry. The scheduler's active and expired run queues and the tasklet queue are
  such structures. A bit index outside \<open>0..31\<close> is outside both arrays of the structure and
  is a fault. The invariant \<open>bq_inv\<close> ties the word to the rings; every operation keeps it,
  and under it no operation faults.
\<close>

section \<open>Definitions\<close>

text \<open>The structure; \<open>bm_queue\<close> gives the (fixed) identities of its list heads.\<close>

record 'n bitmap_struct =
  bm_map :: u32
  bm_queue :: "nat \<Rightarrow> 'n"

text \<open>A single word seen as the array that \<^verbatim>\<open>&bm->map\<close> points to.\<close>

definition map_set_bit :: "nat \<Rightarrow> 'n bitmap_struct \<Rightarrow> 'n bitmap_struct" where
  "map_set_bit b bm = bm\<lparr>bm_map := bitmap_set_bit (one_word (bm_map bm)) b 0\<rparr>"

definition map_clear_bit :: "nat \<Rightarrow> 'n bitmap_struct \<Rightarrow> 'n bitmap_struct" where
  "map_clear_bit b bm = bm\<lparr>bm_map := bitmap_clear_bit (one_word (bm_map bm)) b 0\<rparr>"

definition queue_head :: "'n bitmap_struct \<Rightarrow> nat \<Rightarrow> 'n link option" where
  "queue_head bm b = (if b < 32 then Some (Node (bm_queue bm b)) else None)"

fun init_queues :: "'n links \<Rightarrow> 'n bitmap_struct \<Rightarrow> nat list \<Rightarrow> 'n links option" where
  "init_queues h bm [] = Some h"
| "init_queues h bm (i # is) = do {
     h \<leftarrow> INIT_LIST_HEAD h (Node (bm_queue bm i));
     init_queues h bm is }"

definition INIT_BITMAP ::
    "'n links \<Rightarrow> 'n bitmap_struct \<Rightarrow> ('n links \<times> 'n bitmap_struct) option" where
  "INIT_BITMAP h bm = do {
     h \<leftarrow> init_queues h bm [0..<32];
     Some (h, bm\<lparr>bm_map := 0\<rparr>) }"

definition bitmap_queue_add ::
    "'n link \<Rightarrow> nat \<Rightarrow> 'n links \<Rightarrow> 'n bitmap_struct \<Rightarrow> ('n links \<times> 'n bitmap_struct) option" where
  "bitmap_queue_add new b h bm = do {
     head \<leftarrow> queue_head bm b;
     h \<leftarrow> list_add_tail h new head;
     Some (h, map_set_bit b bm) }"

definition bitmap_queue_add_first ::
    "'n link \<Rightarrow> nat \<Rightarrow> 'n links \<Rightarrow> 'n bitmap_struct \<Rightarrow> ('n links \<times> 'n bitmap_struct) option" where
  "bitmap_queue_add_first new b h bm = do {
     head \<leftarrow> queue_head bm b;
     h \<leftarrow> list_add h new head;
     Some (h, map_set_bit b bm) }"

definition bitmap_enqueue ::
    "'n link \<Rightarrow> nat \<Rightarrow> 'n links \<Rightarrow> 'n bitmap_struct \<Rightarrow> ('n links \<times> 'n bitmap_struct) option" where
  "bitmap_enqueue new b h bm = bitmap_queue_add new b h bm"

definition bitmap_enqueue_first ::
    "'n link \<Rightarrow> nat \<Rightarrow> 'n links \<Rightarrow> 'n bitmap_struct \<Rightarrow> ('n links \<times> 'n bitmap_struct) option" where
  "bitmap_enqueue_first new b h bm = bitmap_queue_add_first new b h bm"

text \<open>\<^verbatim>\<open>!(!map)\<close>: one exactly when the word is not zero.\<close>

definition bitmap_empty :: "'n bitmap_struct \<Rightarrow> int" where
  "bitmap_empty bm = (if \<not> (\<not> (bm_map bm \<noteq> 0)) then 1 else 0)"

definition bitmap_queue_empty :: "'n bitmap_struct \<Rightarrow> nat \<Rightarrow> bool" where
  "bitmap_queue_empty bm b \<longleftrightarrow> bitmap_get_bit (one_word (bm_map bm)) b = 0"

definition bitmap_first_bit :: "'n bitmap_struct \<Rightarrow> nat" where
  "bitmap_first_bit bm = find_first_bit (one_word (bm_map bm)) 32"

definition bitmap_queue_del ::
    "'n link \<Rightarrow> nat \<Rightarrow> 'n links \<Rightarrow> 'n bitmap_struct \<Rightarrow> ('n links \<times> 'n bitmap_struct) option" where
  "bitmap_queue_del entry b h bm = do {
     h \<leftarrow> list_del h entry;
     head \<leftarrow> queue_head bm b;
     e \<leftarrow> list_empty h head;
     Some (h, if e then map_clear_bit b bm else bm) }"

definition bitmap_dequeue ::
    "'n links \<Rightarrow> 'n bitmap_struct \<Rightarrow> nat \<Rightarrow> ('n link \<times> 'n links \<times> 'n bitmap_struct) option" where
  "bitmap_dequeue h bm b = do {
     head \<leftarrow> queue_head bm b;
     first \<leftarrow> rd_next h head;
     (h, bm) \<leftarrow> bitmap_queue_del first b h bm;
     Some (first, h, bm) }"

definition bitmap_dequeue_tail ::
    "'n links \<Rightarrow> 'n bitmap_struct \<Rightarrow> nat \<Rightarrow> ('n link \<times> 'n links \<times> 'n bitmap_struct) option" where
  "bitmap_dequeue_tail h bm b = do {
     head \<leftarrow> queue_head bm b;
     lst \<leftarrow> rd_prev h head;
     (h, bm) \<leftarrow> bitmap_queue_del lst b h bm;
     Some (lst, h, bm) }"

definition bitmap_first_entry :: "'n links \<Rightarrow> 'n bitmap_struct \<Rightarrow> nat \<Rightarrow> 'n link option" where
  "bitmap_first_entry h bm b = do { head \<leftarrow> queue_head bm b; rd_next h head }"

section \<open>Invariant\<close>

definition bq_shape :: "'n bitmap_struct \<Rightarrow> ('n \<rightharpoonup> 'n list) \<Rightarrow> bool" where
  "bq_shape bm Q \<longleftrightarrow> inj_on (bm_queue bm) {..<32} \<and>
     (\<forall>i<32. \<exists>xs. Q (bm_queue bm i) = Some xs \<and> (bit (bm_map bm) i \<longleftrightarrow> xs \<noteq> []))"

definition bq_inv :: "'n links \<Rightarrow> 'n bitmap_struct \<Rightarrow> ('n \<rightharpoonup> 'n list) \<Rightarrow> bool" where
  "bq_inv h bm Q \<longleftrightarrow> lists h Q \<and> bq_shape bm Q"

text \<open>The entries of queue \<open>i\<close>.\<close>

definition bq_list :: "'n bitmap_struct \<Rightarrow> ('n \<rightharpoonup> 'n list) \<Rightarrow> nat \<Rightarrow> 'n list" where
  "bq_list bm Q i = the (Q (bm_queue bm i))"

lemma bit_word0: "b < 32 \<Longrightarrow> bit (m 0) b \<longleftrightarrow> bm_bit m b"
  by (simp add: bm_bit_def)

lemma map_set_bit_simps [simp]:
  "b < 32 \<Longrightarrow> i < 32 \<Longrightarrow> bit (bm_map (map_set_bit b bm)) i \<longleftrightarrow> i = b \<or> bit (bm_map bm) i"
  "bm_queue (map_set_bit b bm) = bm_queue bm"
  by (auto simp: map_set_bit_def bit_word0 bm_bit_set bm_bit_one_word)

lemma map_clear_bit_simps [simp]:
  "b < 32 \<Longrightarrow> i < 32 \<Longrightarrow> bit (bm_map (map_clear_bit b bm)) i \<longleftrightarrow> i \<noteq> b \<and> bit (bm_map bm) i"
  "bm_queue (map_clear_bit b bm) = bm_queue bm"
  by (auto simp: map_clear_bit_def bit_word0 bm_bit_clear bm_bit_one_word)

lemma bq_shapeD:
  assumes "bq_shape bm Q" "i < 32"
  shows "Q (bm_queue bm i) = Some (bq_list bm Q i)" "bit (bm_map bm) i \<longleftrightarrow> bq_list bm Q i \<noteq> []"
  using assms by (auto simp: bq_shape_def bq_list_def)

lemma bq_queue_eq:
  assumes "bq_shape bm Q" "i < 32" "j < 32"
  shows "bm_queue bm i = bm_queue bm j \<longleftrightarrow> i = j"
  using assms by (auto simp: bq_shape_def inj_on_def)

lemma bq_shape_update:
  assumes "bq_shape bm Q" "b < 32" "bm_queue bm' = bm_queue bm"
    and "\<And>i. i < 32 \<Longrightarrow> bit (bm_map bm') i \<longleftrightarrow> (if i = b then xs \<noteq> [] else bit (bm_map bm) i)"
  shows "bq_shape bm' (Q(bm_queue bm b \<mapsto> xs))"
  unfolding bq_shape_def
proof (intro conjI allI impI)
  show "inj_on (bm_queue bm') {..<32}" using assms(1,3) by (simp add: bq_shape_def)
  fix i :: nat assume i: "i < 32"
  then show "\<exists>ys. (Q(bm_queue bm b \<mapsto> xs)) (bm_queue bm' i) = Some ys \<and>
      (bit (bm_map bm') i \<longleftrightarrow> ys \<noteq> [])"
    using assms bq_queue_eq [OF assms(1) i assms(2)] bq_shapeD [OF assms(1) i] by auto
qed

lemma bq_list_update:
  assumes "bq_shape bm Q" "b < 32" "i < 32"
  shows "bq_list bm (Q(bm_queue bm b \<mapsto> xs)) i = (if i = b then xs else bq_list bm Q i)"
  using bq_queue_eq [OF assms(1,3,2)] by (auto simp: bq_list_def)

lemma bq_shape_frame:
  assumes "bq_shape bm Q" "a \<notin> bm_queue bm ` {..<32}"
  shows "bq_shape bm (Q(a \<mapsto> xs))"
  using assms by (auto simp: bq_shape_def)

section \<open>Operations\<close>

lemma bq_enqueue:
  assumes "bq_inv h bm Q" "b < 32" "n \<notin> ring_nodes Q"
  shows "\<exists>h'. bitmap_enqueue (Node n) b h bm = Some (h', map_set_bit b bm) \<and>
    bq_inv h' (map_set_bit b bm) (Q(bm_queue bm b \<mapsto> bq_list bm Q b @ [n]))"
proof -
  from assms have l: "lists h Q" and s: "bq_shape bm Q" by (simp_all add: bq_inv_def)
  obtain h' where "list_add_tail h (Node n) (Node (bm_queue bm b)) = Some h'"
      "lists h' (Q(bm_queue bm b \<mapsto> bq_list bm Q b @ [n]))"
    using lists_list_add_tail [OF l bq_shapeD(1) [OF s assms(2)] assms(3)] by blast
  moreover have "bq_shape (map_set_bit b bm) (Q(bm_queue bm b \<mapsto> bq_list bm Q b @ [n]))"
    by (rule bq_shape_update [OF s assms(2)]) (use assms(2) in auto)
  ultimately show ?thesis
    using assms(2) by (simp add: bitmap_enqueue_def bitmap_queue_add_def queue_head_def bq_inv_def)
qed

lemma bq_enqueue_first:
  assumes "bq_inv h bm Q" "b < 32" "n \<notin> ring_nodes Q"
  shows "\<exists>h'. bitmap_enqueue_first (Node n) b h bm = Some (h', map_set_bit b bm) \<and>
    bq_inv h' (map_set_bit b bm) (Q(bm_queue bm b \<mapsto> n # bq_list bm Q b))"
proof -
  from assms have l: "lists h Q" and s: "bq_shape bm Q" by (simp_all add: bq_inv_def)
  obtain h' where "list_add h (Node n) (Node (bm_queue bm b)) = Some h'"
      "lists h' (Q(bm_queue bm b \<mapsto> n # bq_list bm Q b))"
    using lists_list_add [OF l bq_shapeD(1) [OF s assms(2)] assms(3)] by blast
  moreover have "bq_shape (map_set_bit b bm) (Q(bm_queue bm b \<mapsto> n # bq_list bm Q b))"
    by (rule bq_shape_update [OF s assms(2)]) (use assms(2) in auto)
  ultimately show ?thesis
    using assms(2)
    by (simp add: bitmap_enqueue_first_def bitmap_queue_add_first_def queue_head_def bq_inv_def)
qed

lemma bq_queue_del:
  assumes "bq_inv h bm Q" "b < 32" "n \<in> set (bq_list bm Q b)"
  shows "\<exists>h' bm'. bitmap_queue_del (Node n) b h bm = Some (h', bm') \<and> bm_queue bm' = bm_queue bm \<and>
    bq_inv h' bm' (Q(bm_queue bm b \<mapsto> remove1 n (bq_list bm Q b))) \<and>
    n \<notin> ring_nodes (Q(bm_queue bm b \<mapsto> remove1 n (bq_list bm Q b)))"
proof -
  from assms have l: "lists h Q" and s: "bq_shape bm Q" by (simp_all add: bq_inv_def)
  let ?xs = "remove1 n (bq_list bm Q b)"
  let ?bm = "if ?xs = [] then map_clear_bit b bm else bm"
  obtain h' where h': "list_del h (Node n) = Some h'" "lists h' (Q(bm_queue bm b \<mapsto> ?xs))"
      "n \<notin> ring_nodes (Q(bm_queue bm b \<mapsto> ?xs))"
    using lists_list_del [OF l bq_shapeD(1) [OF s assms(2)] assms(3)] by blast
  have "bq_shape ?bm (Q(bm_queue bm b \<mapsto> ?xs))"
    by (rule bq_shape_update [OF s assms(2)])
      (use assms bq_shapeD(2) [OF s] in auto)
  moreover have "list_empty h' (Node (bm_queue bm b)) = Some (?xs = [])"
    using lists_list_empty [OF h'(2), of "bm_queue bm b"] by simp
  ultimately show ?thesis
    using assms(2) h' by (auto simp: bitmap_queue_del_def queue_head_def bq_inv_def)
qed

lemma bq_first_bit:
  assumes "bq_shape bm Q"
  shows "least_below (\<lambda>i. bq_list bm Q i \<noteq> []) 32 (bitmap_first_bit bm)"
  using find_first_bit_least [of "one_word (bm_map bm)" 32] bq_shapeD(2) [OF assms]
  by (auto simp: bitmap_first_bit_def least_below_def bm_bit_one_word)

lemma bq_first_entry:
  assumes "bq_inv h bm Q" "b < 32" "bq_list bm Q b = n # ns"
  shows "bitmap_first_entry h bm b = Some (Node n)"
  using assms lists_first [of h Q "bm_queue bm b" n ns] bq_shapeD(1) [of bm Q b]
  by (simp add: bitmap_first_entry_def queue_head_def bq_inv_def list_first_entry_def)

lemma bq_dequeue:
  assumes "bq_inv h bm Q" "b < 32" "bq_list bm Q b = n # ns"
  shows "\<exists>h' bm'. bitmap_dequeue h bm b = Some (Node n, h', bm') \<and> bm_queue bm' = bm_queue bm \<and>
    bq_inv h' bm' (Q(bm_queue bm b \<mapsto> ns)) \<and> n \<notin> ring_nodes (Q(bm_queue bm b \<mapsto> ns))"
  using bq_first_entry [OF assms] bq_queue_del [OF assms(1,2), of n] assms(2,3)
  by (auto simp: bitmap_dequeue_def bitmap_first_entry_def queue_head_def)

lemma bq_queue_empty:
  assumes "bq_shape bm Q" "b < 32"
  shows "bitmap_queue_empty bm b \<longleftrightarrow> bq_list bm Q b = []"
  using bq_shapeD(2) [OF assms] assms(2)
  by (simp add: bitmap_queue_empty_def bitmap_get_bit_eq bm_bit_one_word)

lemma bq_dequeue_tail:
  assumes "bq_inv h bm Q" "b < 32" "bq_list bm Q b \<noteq> []"
  shows "\<exists>h' bm'. bitmap_dequeue_tail h bm b = Some (Node (last (bq_list bm Q b)), h', bm') \<and>
    bm_queue bm' = bm_queue bm \<and> bq_inv h' bm' (Q(bm_queue bm b \<mapsto> butlast (bq_list bm Q b)))"
proof -
  from assms have l: "lists h Q" and s: "bq_shape bm Q" by (simp_all add: bq_inv_def)
  have r: "ring h (bm_queue bm b) (bq_list bm Q b)"
    using listsD [OF l bq_shapeD(1) [OF s assms(2)]] .
  have "distinct (bq_list bm Q b)" using r by (simp add: ring_def)
  then have "remove1 (last (bq_list bm Q b)) (bq_list bm Q b) = butlast (bq_list bm Q b)"
    using assms(3) by (cases "bq_list bm Q b" rule: rev_cases) (auto simp: remove1_append)
  with bq_queue_del [OF assms(1,2), of "last (bq_list bm Q b)"] ring_prev [OF r] assms(2,3)
  show ?thesis by (auto simp: bitmap_dequeue_tail_def queue_head_def)
qed

lemma bitmap_empty_inverted:
  assumes "bq_shape bm Q"
  shows "bitmap_empty bm \<noteq> 0 \<longleftrightarrow> (\<exists>i<32. bq_list bm Q i \<noteq> [])"
  using bq_shapeD(2) [OF assms] by (auto simp: bitmap_empty_def word_eq_0_iff_bits)

subsection \<open>Initialisation\<close>

definition with_empty :: "('n \<rightharpoonup> 'n list) \<Rightarrow> 'n set \<Rightarrow> ('n \<rightharpoonup> 'n list)" where
  "with_empty Q S = (\<lambda>n. if n \<in> S then Some [] else Q n)"

lemma lists_init_queues:
  assumes "lists h Q" "\<And>i. i \<in> set is \<Longrightarrow> bm_queue bm i \<notin> ring_nodes Q \<or> bm_queue bm i \<in> dom Q"
  shows "\<exists>h'. init_queues h bm is = Some h' \<and> lists h' (with_empty Q (bm_queue bm ` set is))"
  using assms
proof (induction "is" arbitrary: h Q)
  case Nil
  then show ?case by (simp add: with_empty_def)
next
  case (Cons i "is")
  let ?a = "bm_queue bm i"
  obtain h1 where h1: "INIT_LIST_HEAD h (Node ?a) = Some h1" "lists h1 (Q(?a \<mapsto> []))"
    using lists_INIT_LIST_HEAD [OF Cons.prems(1), of ?a] Cons.prems(2) by auto
  have "bm_queue bm j \<notin> ring_nodes (Q(?a \<mapsto> [])) \<or> bm_queue bm j \<in> dom (Q(?a \<mapsto> []))"
    if "j \<in> set is" for j
    using Cons.prems(2) [of j] that ring_nodes_upd_Nil [of Q ?a] by auto
  then obtain h2 where "init_queues h1 bm is = Some h2"
      "lists h2 (with_empty (Q(?a \<mapsto> [])) (bm_queue bm ` set is))"
    using Cons.IH [OF h1(2)] by blast
  moreover have "with_empty (Q(?a \<mapsto> [])) (bm_queue bm ` set is) =
      with_empty Q (bm_queue bm ` set (i # is))"
    by (auto simp: with_empty_def)
  ultimately show ?case using h1(1) by auto
qed

lemma bq_INIT_BITMAP:
  assumes "lists h Q" "inj_on (bm_queue bm) {..<32}"
    and "\<And>i. i < 32 \<Longrightarrow> bm_queue bm i \<notin> ring_nodes Q \<or> bm_queue bm i \<in> dom Q"
  shows "\<exists>h'. INIT_BITMAP h bm = Some (h', bm\<lparr>bm_map := 0\<rparr>) \<and>
    bq_inv h' (bm\<lparr>bm_map := 0\<rparr>) (with_empty Q (bm_queue bm ` {..<32}))"
proof -
  have "set [0..<32] = {..<32::nat}" by (auto simp del: upt_rec_numeral)
  with lists_init_queues [OF assms(1), of "[0..<32]" bm] assms(3) obtain h' where
      "init_queues h bm [0..<32] = Some h'" "lists h' (with_empty Q (bm_queue bm ` {..<32}))"
    by (auto simp del: upt_rec_numeral)
  with assms(2) show ?thesis
    by (auto simp: INIT_BITMAP_def bq_inv_def bq_shape_def with_empty_def
        simp del: upt_rec_numeral)
qed

section \<open>Priority order\<close>

text \<open>The entries in the order in which the lowest index first, oldest entry first, takes them.\<close>

definition flat :: "(nat \<Rightarrow> 'n list) \<Rightarrow> 'n list" where
  "flat L = concat (map L [0..<32])"

lemma concat_upt_first:
  assumes "b < n" "L b = x # xs" "\<And>i. i < b \<Longrightarrow> L i = []"
  shows "concat (map L [0..<n]) = x # concat (map (L(b := xs)) [0..<n])"
proof -
  have "[0..<n] = [0..<b] @ b # [Suc b..<n]"
    using assms(1) by (rule upt_split_at)
  moreover have "concat (map L [0..<b]) = []" "concat (map (L(b := xs)) [0..<b]) = []"
    using assms(3) by auto
  moreover have "map (L(b := xs)) [Suc b..<n] = map L [Suc b..<n]" by simp
  ultimately show ?thesis
    using assms(2) by (simp only: map_append concat_append list.map concat.simps append_Nil
        append_Cons fun_upd_same)
qed

lemma flat_take_first:
  assumes "least_below (\<lambda>i. L i \<noteq> []) 32 b" "b < 32" "L b = x # xs"
  shows "flat L = x # flat (L(b := xs))"
  unfolding flat_def by (rule concat_upt_first) (use assms in \<open>auto simp: least_below_def\<close>)

lemma flat_empty: "least_below (\<lambda>i. L i \<noteq> []) 32 b \<Longrightarrow> b \<ge> 32 \<longleftrightarrow> flat L = []"
  by (auto simp: flat_def least_below_def le_less simp del: upt_rec_numeral)

lemma flat_cong: "(\<And>i. i < 32 \<Longrightarrow> L i = L' i) \<Longrightarrow> flat L = flat L'"
  unfolding flat_def by (rule arg_cong [where f = concat]) (simp del: upt_rec_numeral)

text \<open>
  The contract of a set of priority queues, from the consumer's side: the entry taken
  from the lowest non-empty index is the head of the flattened order, and the rest stays
  in that order.
\<close>

locale prio_queue =
  fixes rep :: "'s \<Rightarrow> (nat \<Rightarrow> 'n list) \<Rightarrow> bool"
    and top :: "'s \<Rightarrow> nat"
    and deq :: "'s \<Rightarrow> nat \<Rightarrow> ('n \<times> 's) option"
  assumes rep_top: "rep s L \<Longrightarrow> least_below (\<lambda>i. L i \<noteq> []) 32 (top s)"
    and rep_deq: "rep s L \<Longrightarrow> b < 32 \<Longrightarrow> L b = n # ns \<Longrightarrow>
      \<exists>s'. deq s b = Some (n, s') \<and> rep s' (L(b := ns))"
begin

lemma top_empty: "rep s L \<Longrightarrow> top s \<ge> 32 \<longleftrightarrow> flat L = []"
  using flat_empty [OF rep_top] .

lemma pop_order:
  assumes "rep s L" "top s < 32"
  shows "\<exists>n s' L'. deq s (top s) = Some (n, s') \<and> rep s' L' \<and> flat L = n # flat L'"
proof -
  have t: "least_below (\<lambda>i. L i \<noteq> []) 32 (top s)" using assms(1) by (rule rep_top)
  then obtain n ns where n: "L (top s) = n # ns"
    using assms(2) by (cases "L (top s)") (auto simp: least_below_def)
  with rep_deq [OF assms(1,2)] flat_take_first [OF t assms(2)] show ?thesis by blast
qed

fun drain :: "nat \<Rightarrow> 's \<Rightarrow> ('n list \<times> 's) option" where
  "drain 0 s = None"
| "drain (Suc k) s =
     (if top s \<ge> 32 then Some ([], s)
      else case deq s (top s) of None \<Rightarrow> None
           | Some (n, s') \<Rightarrow> map_option (apfst ((#) n)) (drain k s'))"

lemma drain_flat:
  assumes "rep s L" "length (flat L) < k"
  shows "\<exists>s' L'. drain k s = Some (flat L, s') \<and> rep s' L' \<and> flat L' = []"
  using assms
proof (induction k arbitrary: s L)
  case (Suc k)
  show ?case
  proof (cases "top s \<ge> 32")
    case True
    with Suc.prems top_empty show ?thesis by auto
  next
    case False
    then obtain n s1 L1 where "deq s (top s) = Some (n, s1)" "rep s1 L1" "flat L = n # flat L1"
      using pop_order [OF Suc.prems(1)] by auto
    with Suc.IH [of s1 L1] Suc.prems(2) False show ?thesis by auto
  qed
qed simp

end

definition bq_rep :: "'n links \<times> 'n bitmap_struct \<Rightarrow> (nat \<Rightarrow> 'n list) \<Rightarrow> bool" where
  "bq_rep s L \<longleftrightarrow> (\<exists>Q. bq_inv (fst s) (snd s) Q \<and> (\<forall>i<32. L i = bq_list (snd s) Q i))"

definition bq_take :: "'n links \<times> 'n bitmap_struct \<Rightarrow> nat \<Rightarrow> ('n \<times> 'n links \<times> 'n bitmap_struct) option" where
  "bq_take s b = (case bitmap_dequeue (fst s) (snd s) b of
     Some (Node n, h, bm) \<Rightarrow> Some (n, h, bm) | _ \<Rightarrow> None)"

lemma bq_rep_top: "bq_rep s L \<Longrightarrow> least_below (\<lambda>i. L i \<noteq> []) 32 (bitmap_first_bit (snd s))"
  by (auto simp: bq_rep_def bq_inv_def least_below_def dest!: bq_first_bit)

lemma bq_rep_take:
  assumes "bq_rep s L" "b < 32" "L b = n # ns"
  shows "\<exists>s'. bq_take s b = Some (n, s') \<and> bq_rep s' (L(b := ns))"
proof -
  obtain Q where Q: "bq_inv (fst s) (snd s) Q" "\<And>i. i < 32 \<Longrightarrow> L i = bq_list (snd s) Q i"
    using assms(1) by (auto simp: bq_rep_def)
  obtain h bm where d: "bitmap_dequeue (fst s) (snd s) b = Some (Node n, h, bm)"
      "bm_queue bm = bm_queue (snd s)" "bq_inv h bm (Q(bm_queue (snd s) b \<mapsto> ns))"
    using bq_dequeue [OF Q(1) assms(2)] Q(2) [OF assms(2)] assms(3) by metis
  have "bq_list bm (Q(bm_queue (snd s) b \<mapsto> ns)) i = (if i = b then ns else bq_list (snd s) Q i)"
    if "i < 32" for i
    using bq_list_update [OF _ assms(2) that, of "snd s" Q ns] Q(1) d(2)
    by (simp add: bq_inv_def bq_list_def)
  with d Q(2) show ?thesis
    by (auto simp: bq_take_def bq_rep_def intro!: exI [of _ "Q(bm_queue (snd s) b \<mapsto> ns)"])
qed

interpretation bitmap_pq: prio_queue bq_rep "\<lambda>s. bitmap_first_bit (snd s)" bq_take
  by unfold_locales (rule bq_rep_top bq_rep_take; assumption)+

end
