(* ===== verification/Thread.thy ===== *)
theory Thread
  imports Bitmap_Queue
begin

text \<open>
  The data the scheduler, the mutexes, the condition variables and the thread calls share:
  \<^verbatim>\<open>struct thread_info\<close> and the states of \<^verbatim>\<open>include/kernel/thread.h\<close>, the two run-queue bitmaps of
  \<^verbatim>\<open>kernel/sched/bitmap.c\<close>, and the processor's current thread.

  A thread is named by the address of its \<^verbatim>\<open>thread_info\<close>. The list heads embedded in it and the
  static heads of the queues are the nodes of one link heap; \<^verbatim>\<open>container_of\<close> is the inverse
  of the constructor. \<^verbatim>\<open>THREAD_SCHED_STATE\<close> is declared \<^verbatim>\<open>static\<close> in the header, so \<^verbatim>\<open>sched.c\<close> and
  \<^verbatim>\<open>sched/bitmap.c\<close> have a copy each; the state holds both.

  A context switch suspends the running thread in the middle of a kernel function. What it has
  left to do when it is resumed is a list of frames, \<open>kstack\<close>: each frame is the rest of one
  kernel function that still changes the state. A thread that never ran has no frame.
\<close>

section \<open>Data\<close>

datatype thread_state =
    THREAD_STATE_NEW | THREAD_STATE_READY1 | THREAD_STATE_READY2 | THREAD_STATE_RUNNING
  | THREAD_STATE_TERMINATED | THREAD_STATE_BLOCKED

record thread_info =
  mi_msp :: u32
  mi_psp :: u32
  mi_priv :: u32
  ti_priority :: int
  ti_id :: int
  ti_state :: thread_state
  ti_stacksize :: u32
  ti_task :: addr
  ti_retval :: u32
  ti_detached :: bool
  ti_joinable :: bool
  ti_joining :: "addr option"
  ti_private :: addr
  ti_canary0 :: u32
  ti_canary1 :: u32

definition THREAD_CANARY0 :: u32 where "THREAD_CANARY0 = 0xee48a608"
definition THREAD_CANARY1 :: u32 where "THREAD_CANARY1 = 0x840dc3bc"

definition INTR_STACK_SIZE :: u32 where "INTR_STACK_SIZE = push_bit 9 1"

definition THREAD_INFO :: "addr \<Rightarrow> addr" where
  "THREAD_INFO a = align a INTR_STACK_SIZE"

text \<open>The list heads: run queues of the two bitmaps, the queues of mutexes, conditions and of the
  round-robin class, and the heads embedded in threads and tasks.\<close>

datatype knode =
    RunQ bool nat | RRunQ | MutexHead | CondHead | TiQ addr | TiList addr | ThreadHead addr

datatype kframe = K_elect | K_cond_lock addr | K_join addr addr

datatype sched_class = SCHED_CLASS_RR | SCHED_CLASS_BITMAP

record state_map =
  map_actived :: thread_state
  map_expired :: thread_state

record kstate =
  klinks :: "knode links"
  threads :: "addr \<Rightarrow> thread_info"
  cur :: addr
  thread_idle :: addr
  banks :: "bool \<Rightarrow> knode bitmap_struct"
  sched_active :: bool
  sched_expire :: bool
  sched_map :: state_map
  bitmap_map :: state_map
  sched :: "sched_class option"
  kstack :: "addr \<Rightarrow> kframe list"
  mutex_val :: "addr \<Rightarrow> int"
  user_mem :: "addr \<Rightarrow> u32"

definition THREAD_SCHED_STATE :: state_map where
  "THREAD_SCHED_STATE = \<lparr> map_actived = THREAD_STATE_READY1, map_expired = THREAD_STATE_READY2 \<rparr>"

definition swap_sched_state_map :: "state_map \<Rightarrow> state_map" where
  "swap_sched_state_map m = \<lparr> map_actived = map_expired m, map_expired = map_actived m \<rparr>"

text \<open>\<^verbatim>\<open>SCHED_OPT_*\<close>, the argument of the elect functions.\<close>

definition SCHED_OPT_NONE :: nat where "SCHED_OPT_NONE = 0"
definition SCHED_OPT_RESTORE_ONLY :: nat where "SCHED_OPT_RESTORE_ONLY = 1"
definition SCHED_OPT_RESET :: nat where "SCHED_OPT_RESET = 2"
definition SCHED_OPT_TICK :: nat where "SCHED_OPT_TICK = 3"

definition PRI_MAX :: int where "PRI_MAX = 0"
definition PRI_MIN :: int where "PRI_MIN = 31"

text \<open>A kernel call either returns to its caller, or the processor now runs another thread.\<close>

datatype outcome = Returned int | Switched

definition ti_entry :: "knode link \<Rightarrow> addr option" where
  "ti_entry p = (case p of Node (TiQ t) \<Rightarrow> Some t | _ \<Rightarrow> None)"

definition set_ti_state :: "addr \<Rightarrow> thread_state \<Rightarrow> kstate \<Rightarrow> kstate" where
  "set_ti_state t s st = st\<lparr>threads := (threads st)(t := (threads st t)\<lparr>ti_state := s\<rparr>)\<rparr>"

definition push_frame :: "addr \<Rightarrow> kframe \<Rightarrow> kstate \<Rightarrow> kstate" where
  "push_frame t f st = st\<lparr>kstack := (kstack st)(t := f # kstack st t)\<rparr>"

text \<open>
  \<^verbatim>\<open>switch_to\<close> and \<^verbatim>\<open>thread_restore\<close>: the processor continues with thread \<open>t\<close>. The first saves the
  context of the running thread, which is in the middle of \<^verbatim>\<open>sched_elect\<close>; the second does not.
\<close>

definition switch_to :: "addr \<Rightarrow> kstate \<Rightarrow> kstate" where
  "switch_to t st = (push_frame (cur st) K_elect st)\<lparr>cur := t\<rparr>"

definition thread_restore :: "addr \<Rightarrow> kstate \<Rightarrow> kstate" where
  "thread_restore t st = st\<lparr>cur := t, kstack := (kstack st)(cur st := [])\<rparr>"

text \<open>A thread with the lowest priority, and a state with empty queues.\<close>

definition thread_info_zero :: thread_info where
  "thread_info_zero = \<lparr> mi_msp = 0, mi_psp = 0, mi_priv = 0, ti_priority = 31, ti_id = 0,
     ti_state = THREAD_STATE_READY1, ti_stacksize = 1024, ti_task = 0, ti_retval = 0,
     ti_detached = False, ti_joinable = False, ti_joining = None, ti_private = 0,
     ti_canary0 = THREAD_CANARY0, ti_canary1 = THREAD_CANARY1 \<rparr>"

definition kstate_zero :: kstate where
  "kstate_zero = \<lparr> klinks = \<lparr>lnext = Node, lprev = Node\<rparr>, threads = (\<lambda>_. thread_info_zero), cur = 0,
     thread_idle = 0, banks = (\<lambda>b. \<lparr> bm_map = 0, bm_queue = RunQ b \<rparr>),
     sched_active = False, sched_expire = True, sched_map = THREAD_SCHED_STATE,
     bitmap_map = THREAD_SCHED_STATE, sched = Some SCHED_CLASS_BITMAP, kstack = (\<lambda>_. []),
     mutex_val = (\<lambda>_. - 1), user_mem = (\<lambda>_. 0) \<rparr>"

lemma set_ti_state_simps [simp]:
  "klinks (set_ti_state t s st) = klinks st" "cur (set_ti_state t s st) = cur st"
  "thread_idle (set_ti_state t s st) = thread_idle st" "banks (set_ti_state t s st) = banks st"
  "sched_active (set_ti_state t s st) = sched_active st" "sched_expire (set_ti_state t s st) = sched_expire st"
  "sched_map (set_ti_state t s st) = sched_map st" "bitmap_map (set_ti_state t s st) = bitmap_map st"
  "sched (set_ti_state t s st) = sched st" "kstack (set_ti_state t s st) = kstack st"
  "mutex_val (set_ti_state t s st) = mutex_val st" "user_mem (set_ti_state t s st) = user_mem st"
  "threads (set_ti_state t s st) = (threads st)(t := (threads st t)\<lparr>ti_state := s\<rparr>)"
  by (simp_all add: set_ti_state_def)

lemma ti_entry_simps [simp]: "ti_entry (Node (TiQ t)) = Some t"
  by (simp add: ti_entry_def)

lemma swap_swap [simp]: "swap_sched_state_map (swap_sched_state_map m) = m"
  by (simp add: swap_sched_state_map_def)

end
