(* ===== verification/Sched_Bitmap.thy ===== *)
theory Sched_Bitmap
  imports Thread
begin

text \<open>
  The priority scheduler, \<^verbatim>\<open>kernel/sched/bitmap.c\<close>: two bitmaps of FIFO queues, one for the
  threads that still have their time slice (active), one for those that used it (expire).
  The relation \<open>sched_rep st A E M\<close> says that the run queues hold the threads \<open>A p\<close> (active) and
  \<open>E p\<close> (expired) at each priority \<open>p\<close>, and that the other queues of threads are \<open>M\<close>.
\<close>

section \<open>Definitions\<close>

definition sched_bitmap_init :: "kstate \<Rightarrow> (int \<times> kstate) option" where
  "sched_bitmap_init st = do {
     (h, bm) \<leftarrow> INIT_BITMAP (klinks st) (banks st (sched_active st));
     let st = st\<lparr>klinks := h, banks := (banks st)(sched_active st := bm)\<rparr>;
     (h, bm) \<leftarrow> INIT_BITMAP (klinks st) (banks st (sched_expire st));
     Some (0, st\<lparr>klinks := h, banks := (banks st)(sched_expire st := bm)\<rparr>) }"

definition find_next_thread :: "kstate \<Rightarrow> bool \<Rightarrow> addr option" where
  "find_next_thread st b =
     (let max_prio = find_first_bit (one_word (bm_map (banks st b))) 32
      in if max_prio = 32 then Some (thread_idle st)
         else do {
           p \<leftarrow> bitmap_first_entry (klinks st) (banks st b) max_prio;
           ti_entry p })"

text \<open>\<^verbatim>\<open>ti_priority\<close> is an int that indexes the array of queues as an unsigned number.\<close>

definition prio_index :: "kstate \<Rightarrow> addr \<Rightarrow> nat" where
  "prio_index st t = nat (ti_priority (threads st t) mod 2 ^ 32)"

definition thread_enqueue :: "kstate \<Rightarrow> addr \<Rightarrow> bool \<Rightarrow> (int \<times> kstate) option" where
  "thread_enqueue st t b = do {
     (h, bm) \<leftarrow> bitmap_enqueue (Node (TiQ t)) (prio_index st t) (klinks st) (banks st b);
     Some (0, st\<lparr>klinks := h, banks := (banks st)(b := bm)\<rparr>) }"

definition sched_bitmap_enqueue :: "kstate \<Rightarrow> addr \<Rightarrow> (int \<times> kstate) option" where
  "sched_bitmap_enqueue st t = thread_enqueue st t (sched_active st)"

definition thread_dequeue :: "kstate \<Rightarrow> addr \<Rightarrow> bool \<Rightarrow> (int \<times> kstate) option" where
  "thread_dequeue st t b =
     (if t = cur st then Some (- 1, st)
      else do {
        (h, bm) \<leftarrow> bitmap_queue_del (Node (TiQ t)) (prio_index st t) (klinks st) (banks st b);
        Some (0, st\<lparr>klinks := h, banks := (banks st)(b := bm)\<rparr>) })"

definition sched_bitmap_dequeue :: "kstate \<Rightarrow> addr \<Rightarrow> (int \<times> kstate) option" where
  "sched_bitmap_dequeue st t =
     (let state = ti_state (threads st t)
      in if state = map_actived (bitmap_map st) then thread_dequeue st t (sched_active st)
         else if state = map_expired (bitmap_map st) then thread_dequeue st t (sched_expire st)
         else Some (- 1, st))"

text \<open>The three parts of \<^verbatim>\<open>sched_bitmap_elect\<close>: the choice, the removal, the switch.\<close>

definition elect_next :: "kstate \<Rightarrow> (addr \<times> kstate) option" where
  "elect_next st = do {
     nxt \<leftarrow> find_next_thread st (sched_active st);
     if nxt = thread_idle st then do {
       other \<leftarrow> find_next_thread st (sched_expire st);
       if other \<noteq> thread_idle st then do {
         let st = st\<lparr>sched_active := sched_expire st, sched_expire := sched_active st,
                     bitmap_map := swap_sched_state_map (bitmap_map st)\<rparr>;
         nxt \<leftarrow> find_next_thread st (sched_active st);
         Some (nxt, st) }
       else Some (nxt, st) }
     else Some (nxt, st) }"

definition elect_remove :: "addr \<Rightarrow> kstate \<Rightarrow> kstate option" where
  "elect_remove nxt st =
     (if nxt \<noteq> thread_idle st then do {
        h \<leftarrow> list_del (klinks st) (Node (TiQ nxt));
        let st = st\<lparr>klinks := h\<rparr>;
        head \<leftarrow> queue_head (banks st (sched_active st)) (prio_index st nxt);
        e \<leftarrow> list_empty (klinks st) head;
        Some (if e then st\<lparr>banks := (banks st)(sched_active st :=
                map_clear_bit (prio_index st nxt) (banks st (sched_active st)))\<rparr> else st) }
      else Some st)"

definition elect_switch :: "nat \<Rightarrow> addr \<Rightarrow> kstate \<Rightarrow> (outcome \<times> kstate) option" where
  "elect_switch flags nxt st =
     (let current = cur st
      in if flags = SCHED_OPT_RESTORE_ONLY then Some (Switched, thread_restore nxt st)
         else do {
           st \<leftarrow> (if flags = SCHED_OPT_TICK \<and> current \<noteq> thread_idle st then do {
                   (r, st) \<leftarrow> thread_enqueue st current (sched_expire st);
                   Some (set_ti_state current (map_expired (bitmap_map st)) st) }
                 else Some st);
           if nxt = current then Some (Returned 0, st)
           else Some (Switched, switch_to nxt st) })"

definition sched_bitmap_elect :: "nat \<Rightarrow> kstate \<Rightarrow> (outcome \<times> kstate) option" where
  "sched_bitmap_elect flags st = do {
     (nxt, st) \<leftarrow> elect_next st;
     st \<leftarrow> elect_remove nxt st;
     elect_switch flags nxt st }"

section \<open>Abstract run queues\<close>

text \<open>
  \<open>R b p\<close> is the sequence of threads in queue \<open>p\<close> of bank \<open>b\<close>; the bank \<open>sched_active\<close> is the active
  one. The abstract scheduler takes the first thread of the lowest non-empty queue.
\<close>

type_synonym runqs = "bool \<Rightarrow> nat \<Rightarrow> addr list"

definition first_prio :: "(nat \<Rightarrow> addr list) \<Rightarrow> nat" where
  "first_prio L = length (takeWhile (\<lambda>p. L p = []) [0..<32])"

definition pop_first :: "(nat \<Rightarrow> addr list) \<Rightarrow> nat \<Rightarrow> addr list" where
  "pop_first L = L(first_prio L := tl (L (first_prio L)))"

definition pick :: "bool \<Rightarrow> runqs \<Rightarrow> addr \<Rightarrow> addr \<times> bool \<times> runqs" where
  "pick a R idle =
     (if flat (R a) \<noteq> [] then (hd (flat (R a)), a, R(a := pop_first (R a)))
      else if flat (R (\<not> a)) \<noteq> [] then (hd (flat (R (\<not> a))), \<not> a, R((\<not> a) := pop_first (R (\<not> a))))
      else (idle, a, R))"

definition append_at :: "runqs \<Rightarrow> bool \<Rightarrow> nat \<Rightarrow> addr \<Rightarrow> runqs" where
  "append_at R b p t = R(b := (R b)(p := R b p @ [t]))"

lemma first_prio_least: "least_below (\<lambda>p. L p \<noteq> []) 32 (first_prio L)"
proof -
  have len: "first_prio L \<le> 32"
    using length_takeWhile_le [of "\<lambda>p. L p = []" "[0..<32]"] by (simp add: first_prio_def del: upt_rec_numeral)
  moreover have "L (first_prio L) \<noteq> []" if "first_prio L < 32"
    using nth_length_takeWhile [of "\<lambda>p. L p = []" "[0..<32]"] that
    by (simp add: first_prio_def del: upt_rec_numeral)
  moreover have "L j = []" if "j < first_prio L" for j
  proof -
    have "takeWhile (\<lambda>p. L p = []) [0..<32] ! j = j"
      using that takeWhile_nth [of j "\<lambda>p. L p = []" "[0..<32]"] len
      by (simp add: first_prio_def del: upt_rec_numeral)
    then show ?thesis
      using that nth_mem [of j "takeWhile (\<lambda>p. L p = []) [0..<32]"]
      by (metis (mono_tags, lifting) first_prio_def set_takeWhileD)
  qed
  ultimately show ?thesis by (simp add: least_below_def)
qed

lemma flat_first:
  assumes "flat L \<noteq> []"
  shows "first_prio L < 32" "L (first_prio L) = hd (flat L) # tl (L (first_prio L))"
    "flat (pop_first L) = tl (flat L)"
proof -
  show p: "first_prio L < 32"
    using flat_empty [OF first_prio_least [of L]] assms by linarith
  then obtain x xs where x: "L (first_prio L) = x # xs"
    using first_prio_least [of L] by (auto simp: least_below_def neq_Nil_conv)
  then have "flat L = x # flat (L(first_prio L := xs))"
    using flat_take_first [OF first_prio_least p] by blast
  then show "L (first_prio L) = hd (flat L) # tl (L (first_prio L))" "flat (pop_first L) = tl (flat L)"
    using x by (simp_all add: pop_first_def)
qed

lemma in_flat: "t \<in> set (flat L) \<longleftrightarrow> (\<exists>p<32. t \<in> set (L p))"
  by (auto simp: flat_def simp del: upt_rec_numeral)

section \<open>The invariant\<close>

fun run_rings :: "runqs \<Rightarrow> (knode \<Rightarrow> knode list option) \<Rightarrow> knode \<Rightarrow> knode list option" where
  "run_rings R M (RunQ b p) = (if p < 32 then Some (map TiQ (R b p)) else None)"
| "run_rings R M n = M n"

definition queued :: "runqs \<Rightarrow> (knode \<Rightarrow> knode list option) \<Rightarrow> addr \<Rightarrow> bool" where
  "queued R M t \<longleftrightarrow> TiQ t \<in> ring_nodes (run_rings R M)"

definition sched_rep :: "kstate \<Rightarrow> runqs \<Rightarrow> (knode \<Rightarrow> knode list option) \<Rightarrow> bool" where
  "sched_rep st R M \<longleftrightarrow>
     sched_expire st = (\<not> sched_active st) \<and>
     lists (klinks st) (run_rings R M) \<and>
     (\<forall>b. bm_queue (banks st b) = RunQ b) \<and>
     (\<forall>b p. p < 32 \<longrightarrow> (bit (bm_map (banks st b)) p \<longleftrightarrow> R b p \<noteq> [])) \<and>
     (\<forall>b p t. p < 32 \<longrightarrow> t \<in> set (R b p) \<longrightarrow>
        ti_priority (threads st t) = int p \<and> t \<noteq> thread_idle st)"

lemma sched_repD:
  assumes "sched_rep st R M"
  shows "sched_expire st = (\<not> sched_active st)" "lists (klinks st) (run_rings R M)"
    "bm_queue (banks st b) = RunQ b" "p < 32 \<Longrightarrow> bit (bm_map (banks st b)) p \<longleftrightarrow> R b p \<noteq> []"
    "p < 32 \<Longrightarrow> t \<in> set (R b p) \<Longrightarrow> ti_priority (threads st t) = int p"
    "p < 32 \<Longrightarrow> t \<in> set (R b p) \<Longrightarrow> t \<noteq> thread_idle st"
  using assms by (auto simp: sched_rep_def)

lemma run_rings_upd:
  "p < 32 \<Longrightarrow> (run_rings R M)(RunQ b p \<mapsto> map TiQ xs) = run_rings (R(b := (R b)(p := xs))) M"
  by (rule ext, rename_tac n, case_tac n; auto)

lemma pop_first_sub: "set (pop_first L p) \<subseteq> set (L p)"
  by (cases "L (first_prio L)") (auto simp: pop_first_def)

text \<open>Where a thread can be queued: in a run queue, or in one of the other rings.\<close>

lemma queued_iff:
  "queued R M t \<longleftrightarrow> (\<exists>b p. p < 32 \<and> t \<in> set (R b p)) \<or>
    (\<exists>n xs. (\<forall>b p. n \<noteq> RunQ b p) \<and> M n = Some xs \<and> TiQ t \<in> set (n # xs))" (is "_ \<longleftrightarrow> ?run \<or> ?other")
proof
  assume "queued R M t"
  then obtain n xs where n: "run_rings R M n = Some xs" "TiQ t \<in> set (n # xs)"
    unfolding queued_def ring_nodes_iff by blast
  show "?run \<or> ?other"
  proof (cases "\<exists>b p. n = RunQ b p")
    case True
    then obtain b p where "n = RunQ b p" by blast
    then have "p < 32 \<and> t \<in> set (R b p)" using n by (auto split: if_splits)
    then show ?thesis by blast
  next
    case False
    then have "run_rings R M n = M n" by (cases n) auto
    then have "M n = Some xs" using n(1) by simp
    then show ?thesis using False n(2) by blast
  qed
next
  assume "?run \<or> ?other"
  then show "queued R M t"
  proof
    assume ?run
    then obtain b p where "p < 32" "t \<in> set (R b p)" by blast
    then have "run_rings R M (RunQ b p) = Some (map TiQ (R b p))" "TiQ t \<in> set (RunQ b p # map TiQ (R b p))"
      by auto
    then show ?thesis unfolding queued_def ring_nodes_iff by blast
  next
    assume ?other
    then obtain n xs where n: "\<forall>b p. n \<noteq> RunQ b p" "M n = Some xs" "TiQ t \<in> set (n # xs)" by blast
    then have "run_rings R M n = Some xs" by (cases n) auto
    then show ?thesis using n(3) unfolding queued_def ring_nodes_iff by blast
  qed
qed

lemma sched_rep_bq:
  assumes "sched_rep st R M"
  shows "bq_inv (klinks st) (banks st b) (run_rings R M)"
    "p < 32 \<Longrightarrow> bq_list (banks st b) (run_rings R M) p = map TiQ (R b p)"
  using assms by (auto simp: sched_rep_def bq_inv_def bq_shape_def bq_list_def inj_on_def)

text \<open>The fields of the state outside the queues that an update of the queues leaves alone.\<close>

lemma sched_rep_cong:
  assumes "sched_rep st R M" "klinks st' = klinks st" "banks st' = banks st"
    "sched_active st' = sched_active st" "sched_expire st' = sched_expire st" "thread_idle st' = thread_idle st"
    "\<And>t. ti_priority (threads st' t) = ti_priority (threads st t)"
  shows "sched_rep st' R M"
  using assms by (simp add: sched_rep_def)

lemma sched_rep_fields [simp]:
  "sched_rep (st\<lparr>kstack := k\<rparr>) R M \<longleftrightarrow> sched_rep st R M" "sched_rep (st\<lparr>cur := c\<rparr>) R M \<longleftrightarrow> sched_rep st R M"
  "sched_rep (st\<lparr>mutex_val := v\<rparr>) R M \<longleftrightarrow> sched_rep st R M" "sched_rep (st\<lparr>user_mem := u\<rparr>) R M \<longleftrightarrow> sched_rep st R M"
  by (simp_all add: sched_rep_def)

lemma sched_rep_swap:
  "sched_rep (st\<lparr>sched_active := sched_expire st, sched_expire := sched_active st, bitmap_map := m\<rparr>) R M \<longleftrightarrow>
    sched_rep st R M"
  by (auto simp: sched_rep_def)

section \<open>Operations\<close>

lemma find_next_thread_rep:
  assumes rep: "sched_rep st R M"
  shows "find_next_thread st b = Some (if flat (R b) = [] then thread_idle st else hd (flat (R b)))"
proof -
  let ?p = "find_first_bit (one_word (bm_map (banks st b))) 32"
  have "least_below (\<lambda>p. R b p \<noteq> []) 32 ?p"
    using find_first_bit_least [of "one_word (bm_map (banks st b))" 32] sched_repD(4) [OF rep, of _ b]
    by (auto simp: least_below_def bm_bit_one_word)
  then have p: "?p = first_prio (R b)" by (rule least_below_unique [OF _ first_prio_least])
  show ?thesis
  proof (cases "flat (R b) = []")
    case True
    then have "?p = 32" using flat_empty [OF first_prio_least [of "R b"]] first_prio_least [of "R b"]
      by (simp add: p least_below_def)
    then show ?thesis using True by (simp add: find_next_thread_def)
  next
    case False
    note f = flat_first [OF False]
    from bq_first_entry [OF sched_rep_bq(1) [OF rep], of "first_prio (R b)" b "TiQ (hd (flat (R b)))"
        "map TiQ (tl (R b (first_prio (R b))))"]
    have "bitmap_first_entry (klinks st) (banks st b) (first_prio (R b)) = Some (Node (TiQ (hd (flat (R b)))))"
      using f(1,2) sched_rep_bq(2) [OF rep f(1), of b] by (metis list.simps(9))
    then show ?thesis using False f(1) by (simp add: find_next_thread_def p)
  qed
qed

lemma hd_flat_not_idle:
  assumes "sched_rep st R M" "flat (R b) \<noteq> []"
  shows "hd (flat (R b)) \<noteq> thread_idle st" "hd (flat (R b)) \<in> set (R b (first_prio (R b)))"
  using flat_first [OF assms(2)] sched_repD(6) [OF assms(1), of "first_prio (R b)"]
  by (metis list.set_intros(1))+

text \<open>The scheduler's states are never the state of a blocked thread.\<close>

definition maps_ok :: "kstate \<Rightarrow> bool" where
  "maps_ok st \<longleftrightarrow> map_actived (bitmap_map st) \<noteq> THREAD_STATE_BLOCKED \<and>
     map_expired (bitmap_map st) \<noteq> THREAD_STATE_BLOCKED \<and> map_actived (sched_map st) \<noteq> THREAD_STATE_BLOCKED"

lemma elect_next_rep:
  assumes rep: "sched_rep st R M"
  shows "\<exists>m. elect_next st = Some (fst (pick (sched_active st) R (thread_idle st)),
    st\<lparr>sched_active := fst (snd (pick (sched_active st) R (thread_idle st))),
      sched_expire := \<not> fst (snd (pick (sched_active st) R (thread_idle st))), bitmap_map := m\<rparr>) \<and>
    (m = bitmap_map st \<or> m = swap_sched_state_map (bitmap_map st))"
proof -
  let ?a = "sched_active st"
  let ?st = "st\<lparr>sched_active := sched_expire st, sched_expire := ?a,
    bitmap_map := swap_sched_state_map (bitmap_map st)\<rparr>"
  note e = sched_repD(1) [OF rep]
  have rep': "sched_rep ?st R M" using rep sched_rep_swap by blast
  consider "flat (R ?a) \<noteq> []" | "flat (R ?a) = []" "flat (R (\<not> ?a)) \<noteq> []"
    | "flat (R ?a) = []" "flat (R (\<not> ?a)) = []" by blast
  then show ?thesis
  proof cases
    case 1
    then show ?thesis
      using find_next_thread_rep [OF rep, of ?a] hd_flat_not_idle(1) [OF rep, of ?a] e
      by (intro exI [of _ "bitmap_map st"]) (simp add: elect_next_def pick_def)
  next
    case 2
    then show ?thesis
      using find_next_thread_rep [OF rep, of ?a] find_next_thread_rep [OF rep, of "\<not> ?a"]
        hd_flat_not_idle(1) [OF rep, of "\<not> ?a"] e find_next_thread_rep [OF rep', of "\<not> ?a"]
      by (intro exI [of _ "swap_sched_state_map (bitmap_map st)"])
        (simp add: elect_next_def pick_def Let_def)
  next
    case 3
    then show ?thesis
      using find_next_thread_rep [OF rep, of ?a] find_next_thread_rep [OF rep, of "\<not> ?a"] e
      by (intro exI [of _ "bitmap_map st"]) (simp add: elect_next_def pick_def)
  qed
qed

definition prio_ok :: "kstate \<Rightarrow> addr \<Rightarrow> bool" where
  "prio_ok st t \<longleftrightarrow> 0 \<le> ti_priority (threads st t) \<and> ti_priority (threads st t) < 32"

lemma prio_index_eq: "prio_ok st t \<Longrightarrow> int (prio_index st t) = ti_priority (threads st t)" "prio_ok st t \<Longrightarrow> prio_index st t < 32"
  by (auto simp: prio_ok_def prio_index_def)

lemma thread_enqueue_rep:
  assumes rep: "sched_rep st R M" and t: "\<not> queued R M t" "t \<noteq> thread_idle st" "prio_ok st t"
  shows "\<exists>h bs. thread_enqueue st t b = Some (0, st\<lparr>klinks := h, banks := bs\<rparr>) \<and>
    sched_rep (st\<lparr>klinks := h, banks := bs\<rparr>) (append_at R b (prio_index st t) t) M"
proof -
  let ?p = "prio_index st t" and ?Q = "run_rings R M"
  note p = prio_index_eq [OF t(3)]
  from bq_enqueue [OF sched_rep_bq(1) [OF rep, of b] p(2), of "TiQ t"] t(1)
  obtain h where h: "bitmap_enqueue (Node (TiQ t)) ?p (klinks st) (banks st b) = Some (h, map_set_bit ?p (banks st b))"
    "bq_inv h (map_set_bit ?p (banks st b)) (?Q(bm_queue (banks st b) ?p \<mapsto> bq_list (banks st b) ?Q ?p @ [TiQ t]))"
    by (auto simp: queued_def)
  have Q: "?Q(bm_queue (banks st b) ?p \<mapsto> bq_list (banks st b) ?Q ?p @ [TiQ t]) = run_rings (append_at R b ?p t) M"
    using sched_rep_bq(2) [OF rep p(2), of b] sched_repD(3) [OF rep, of b]
      run_rings_upd [OF p(2), of R M b "R b ?p @ [t]"] by (simp add: append_at_def)
  have "sched_rep (st\<lparr>klinks := h, banks := (banks st)(b := map_set_bit ?p (banks st b))\<rparr>) (append_at R b ?p t) M"
    using rep h(2) p t(2) unfolding Q by (auto simp: sched_rep_def bq_inv_def append_at_def)
  then show ?thesis
    using h(1) by (intro exI [of _ h] exI [of _ "(banks st)(b := map_set_bit ?p (banks st b))"])
      (simp add: thread_enqueue_def)
qed

lemma elect_remove_rep:
  assumes rep: "sched_rep st R M" and ne: "flat (R (sched_active st)) \<noteq> []"
  shows "\<exists>h bs. elect_remove (hd (flat (R (sched_active st)))) st = Some (st\<lparr>klinks := h, banks := bs\<rparr>) \<and>
    sched_rep (st\<lparr>klinks := h, banks := bs\<rparr>) (R(sched_active st := pop_first (R (sched_active st)))) M \<and>
    \<not> queued (R(sched_active st := pop_first (R (sched_active st)))) M (hd (flat (R (sched_active st))))"
proof -
  let ?a = "sched_active st" and ?Q = "run_rings R M"
  let ?t = "hd (flat (R ?a))" and ?p = "first_prio (R ?a)"
  let ?R = "R(?a := pop_first (R ?a))"
  note f = flat_first [OF ne] and in_q = hd_flat_not_idle [OF rep ne]
  have prio: "prio_index st ?t = ?p"
    using sched_repD(5) [OF rep f(1) in_q(2)] f(1) by (simp add: prio_index_def)
  let ?rest = "tl (R ?a ?p)"
  have rem: "remove1 (TiQ ?t) (map TiQ (R ?a ?p)) = map TiQ ?rest" using f(2) by (metis list.simps(9) remove1.simps(2))
  have Q: "?Q(RunQ ?a ?p \<mapsto> map TiQ ?rest) = run_rings ?R M"
    unfolding run_rings_upd [OF f(1)] pop_first_def ..
  obtain h where h: "list_del (klinks st) (Node (TiQ ?t)) = Some h" "lists h (run_rings ?R M)"
    "TiQ ?t \<notin> ring_nodes (run_rings ?R M)"
    using lists_list_del' [OF sched_repD(2) [OF rep], of "RunQ ?a ?p" "map TiQ (R ?a ?p)" "TiQ ?t"]
      f(1) in_q(2) unfolding rem Q by auto
  have e: "list_empty h (Node (RunQ ?a ?p)) = Some (?rest = [])"
    using lists_list_empty [OF h(2), of "RunQ ?a ?p"] f(1) by (simp add: pop_first_def)
  let ?bs = "if ?rest = [] then (banks st)(?a := map_clear_bit ?p (banks st ?a)) else banks st"
  have "elect_remove ?t st = Some (st\<lparr>klinks := h, banks := ?bs\<rparr>)"
    using in_q(1) h(1) e f(1) sched_repD(3) [OF rep, of ?a] prio
    by (auto simp: elect_remove_def queue_head_def prio_index_def)
  moreover have "sched_rep (st\<lparr>klinks := h, banks := ?bs\<rparr>) ?R M"
    unfolding sched_rep_def
  proof (intro conjI allI impI)
    show "bit (bm_map (banks (st\<lparr>klinks := h, banks := ?bs\<rparr>) b)) p \<longleftrightarrow> ?R b p \<noteq> []" if "p < 32" for b p
      using that sched_repD(4) [OF rep that, of b] f(1,2) by (auto simp: pop_first_def)
    show "ti_priority (threads (st\<lparr>klinks := h, banks := ?bs\<rparr>) t) = int p"
      "t \<noteq> thread_idle (st\<lparr>klinks := h, banks := ?bs\<rparr>)" if "p < 32" "t \<in> set (?R b p)" for b p t
    proof -
      have "t \<in> set (R b p)"
        using that(2) pop_first_sub [of "R ?a" p] by (auto split: if_splits)
      then show "ti_priority (threads (st\<lparr>klinks := h, banks := ?bs\<rparr>) t) = int p"
        "t \<noteq> thread_idle (st\<lparr>klinks := h, banks := ?bs\<rparr>)"
        using sched_repD(5,6) [OF rep that(1)] by simp_all
    qed
  qed (use rep h(2) in \<open>auto simp: sched_rep_def\<close>)
  ultimately show ?thesis using h(3) unfolding queued_def by blast
qed

text \<open>
  The whole of \<^verbatim>\<open>sched_bitmap_elect\<close> against the abstract scheduler: \<open>pick\<close> chooses the thread and
  the active bank; on a tick the running thread, if it is not the idle thread, goes to the
  other bank.
\<close>

definition after_elect :: "nat \<Rightarrow> kstate \<Rightarrow> runqs \<Rightarrow> bool \<Rightarrow> runqs" where
  "after_elect flags st R b =
     (if flags = SCHED_OPT_TICK \<and> cur st \<noteq> thread_idle st
      then append_at R (\<not> b) (prio_index st (cur st)) (cur st) else R)"

lemma pick_sub:
  assumes "pick a R idle = (nxt, b, R')"
  shows "set (R' c p) \<subseteq> set (R c p)"
  using assms pop_first_sub [of "R b" p] by (auto simp: pick_def split: if_splits)

lemma queued_pick:
  assumes "pick a R idle = (nxt, b, R')" "queued R' M t"
  shows "queued R M t"
  using assms(2) pick_sub [OF assms(1)] unfolding queued_iff by blast

text \<open>The picked thread was in a run queue, unless it is the idle thread.\<close>

lemma pick_from:
  assumes "pick a R idle = (nxt, b, R')" "nxt \<noteq> idle"
  shows "\<exists>p<32. nxt \<in> set (R b p)"
proof -
  have "flat (R b) \<noteq> []" "nxt = hd (flat (R b))" using assms by (auto simp: pick_def split: if_splits)
  then show ?thesis using hd_in_set in_flat by metis
qed

lemma queued_picked:
  assumes "pick a R idle = (nxt, b, R')" "nxt \<noteq> idle"
  shows "queued R M nxt"
proof -
  have "flat (R b) \<noteq> []" "nxt = hd (flat (R b))" using assms by (auto simp: pick_def split: if_splits)
  then show ?thesis using flat_first [of "R b"] unfolding queued_iff by (metis list.set_intros(1))
qed

lemma queued_append:
  "queued (append_at R b p t) M u \<longleftrightarrow> queued R M u \<or> (u = t \<and> p < 32)"
proof -
  have "u \<in> set (append_at R b p t c q) \<longleftrightarrow> u \<in> set (R c q) \<or> (c = b \<and> q = p \<and> u = t)" for c q
    by (auto simp: append_at_def)
  then have "(\<exists>c q. q < 32 \<and> u \<in> set (append_at R b p t c q)) \<longleftrightarrow>
      (\<exists>c q. q < 32 \<and> u \<in> set (R c q)) \<or> (u = t \<and> p < 32)" by metis
  then show ?thesis unfolding queued_iff by argo
qed

lemma sched_bitmap_elect_rep:
  assumes rep: "sched_rep st R M"
    and me: "flags = SCHED_OPT_TICK \<and> cur st \<noteq> thread_idle st \<longrightarrow> \<not> queued R M (cur st) \<and> prio_ok st (cur st)"
    and p: "pick (sched_active st) R (thread_idle st) = (nxt, b, R')"
  shows "\<exists>out st'. sched_bitmap_elect flags st = Some (out, st') \<and>
    sched_rep st' (after_elect flags st R' b) M \<and> cur st' = nxt \<and> sched_active st' = b \<and>
    (nxt \<noteq> thread_idle st \<longrightarrow> \<not> queued (after_elect flags st R' b) M nxt) \<and>
    (out = Switched \<longleftrightarrow> flags = SCHED_OPT_RESTORE_ONLY \<or> nxt \<noteq> cur st) \<and> (out \<noteq> Switched \<longrightarrow> out = Returned 0) \<and>
    thread_idle st' = thread_idle st \<and> mutex_val st' = mutex_val st \<and> sched_map st' = sched_map st \<and>
    sched st' = sched st \<and> user_mem st' = user_mem st \<and>
    kstack st' = (if flags = SCHED_OPT_RESTORE_ONLY then (kstack st)(cur st := [])
      else if nxt \<noteq> cur st then (kstack st)(cur st := K_elect # kstack st (cur st)) else kstack st) \<and>
    (maps_ok st \<longrightarrow> maps_ok st') \<and>
    (\<exists>s. (maps_ok st \<longrightarrow> s \<noteq> THREAD_STATE_BLOCKED) \<and> threads st' = (if flags = SCHED_OPT_TICK \<and> cur st \<noteq> thread_idle st
       then (threads st)(cur st := (threads st (cur st))\<lparr>ti_state := s\<rparr>) else threads st))"
proof -
  obtain m where "elect_next st = Some (nxt, st\<lparr>sched_active := b, sched_expire := \<not> b, bitmap_map := m\<rparr>)"
    and m: "m = bitmap_map st \<or> m = swap_sched_state_map (bitmap_map st)"
    using elect_next_rep [OF rep] p by auto
  moreover define st1 where "st1 = st\<lparr>sched_active := b, sched_expire := \<not> b, bitmap_map := m\<rparr>"
  ultimately have next1: "elect_next st = Some (nxt, st1)" by simp
  have rep1: "sched_rep st1 R M" using rep by (simp add: sched_rep_def st1_def)
  have "\<exists>h bs. elect_remove nxt st1 = Some (st1\<lparr>klinks := h, banks := bs\<rparr>) \<and>
      sched_rep (st1\<lparr>klinks := h, banks := bs\<rparr>) R' M \<and> (nxt \<noteq> thread_idle st \<longrightarrow> \<not> queued R' M nxt)"
  proof (cases "nxt = thread_idle st")
    case True
    then have "R' = R" using p hd_flat_not_idle(1) [OF rep] by (auto simp: pick_def split: if_splits)
    then show ?thesis using rep1 True
      by (intro exI [of _ "klinks st1"] exI [of _ "banks st1"]) (simp add: elect_remove_def st1_def)
  next
    case False
    then have "flat (R b) \<noteq> []" "nxt = hd (flat (R b))" "R' = R(b := pop_first (R b))"
      using p by (auto simp: pick_def split: if_splits)
    then show ?thesis using elect_remove_rep [OF rep1] by (auto simp: st1_def)
  qed
  then obtain h bs where rem: "elect_remove nxt st1 = Some (st1\<lparr>klinks := h, banks := bs\<rparr>)"
    and rep2': "sched_rep (st1\<lparr>klinks := h, banks := bs\<rparr>) R' M"
    and out: "nxt \<noteq> thread_idle st \<Longrightarrow> \<not> queued R' M nxt" by blast
  define st2 where "st2 = st1\<lparr>klinks := h, banks := bs\<rparr>"
  have rep2: "sched_rep st2 R' M" using rep2' by (simp add: st2_def)
  have run: "sched_bitmap_elect flags st = elect_switch flags nxt st2"
    using next1 rem by (simp add: sched_bitmap_elect_def st2_def)
  have maps: "maps_ok st \<Longrightarrow> maps_ok st2" "maps_ok st \<Longrightarrow> map_expired (bitmap_map st2) \<noteq> THREAD_STATE_BLOCKED"
    using m by (auto simp: maps_ok_def st2_def st1_def swap_sched_state_map_def)
  have same: "cur st2 = cur st" "thread_idle st2 = thread_idle st" "threads st2 = threads st"
    "sched_active st2 = b" "sched_expire st2 = (\<not> b)" "kstack st2 = kstack st" "mutex_val st2 = mutex_val st"
    "sched_map st2 = sched_map st" "sched st2 = sched st" "user_mem st2 = user_mem st"
    by (simp_all add: st2_def st1_def)
  show ?thesis
  proof (cases "flags = SCHED_OPT_TICK \<and> cur st \<noteq> thread_idle st")
    case True
    have notq: "\<not> queued R' M (cur st)" using me [rule_format, OF True] queued_pick [OF p] by blast
    have "nxt \<noteq> thread_idle st \<Longrightarrow> nxt \<noteq> cur st"
      using me [rule_format, OF True] queued_picked [OF p] by metis
    then have out': "nxt \<noteq> thread_idle st \<Longrightarrow> \<not> queued (after_elect flags st R' b) M nxt"
      using out by (auto simp: after_elect_def queued_append)
    have ok: "prio_ok st2 (cur st)" using me [rule_format, OF True] same by (simp add: prio_ok_def)
    from thread_enqueue_rep [OF rep2 notq _ ok, of "\<not> b"] True same obtain h' bs' where
      enq: "thread_enqueue st2 (cur st) (\<not> b) = Some (0, st2\<lparr>klinks := h', banks := bs'\<rparr>)"
      "sched_rep (st2\<lparr>klinks := h', banks := bs'\<rparr>) (append_at R' (\<not> b) (prio_index st2 (cur st)) (cur st)) M" by auto
    let ?st = "set_ti_state (cur st) (map_expired (bitmap_map st2)) (st2\<lparr>klinks := h', banks := bs'\<rparr>)"
    have "sched_rep ?st (after_elect flags st R' b) M"
      using enq(2) True same by (intro sched_rep_cong [OF enq(2) [THEN back_subst [of "\<lambda>X. sched_rep _ X M"]]])
        (auto simp: after_elect_def prio_index_def)
    moreover have "sched_bitmap_elect flags st =
        Some (if nxt = cur st then (Returned 0, ?st) else (Switched, switch_to nxt ?st))"
      using run True enq(1) same
      by (simp add: elect_switch_def Let_def SCHED_OPT_TICK_def SCHED_OPT_RESTORE_ONLY_def)
    ultimately show ?thesis
      using True same out' maps
      by (cases "nxt = cur st") (auto simp: switch_to_def push_frame_def maps_ok_def SCHED_OPT_TICK_def SCHED_OPT_RESTORE_ONLY_def)
  next
    case False
    have "sched_rep (thread_restore nxt st2) R' M"
      using rep2 by (simp add: sched_rep_def thread_restore_def)
    moreover have "sched_bitmap_elect flags st =
        Some (if flags = SCHED_OPT_RESTORE_ONLY then (Switched, thread_restore nxt st2)
              else if nxt = cur st then (Returned 0, st2) else (Switched, switch_to nxt st2))"
      using run False same by (auto simp: elect_switch_def Let_def)
    ultimately show ?thesis
      using False same rep2 out maps
      by (cases "flags = SCHED_OPT_RESTORE_ONLY"; cases "nxt = cur st")
        (auto simp: after_elect_def switch_to_def push_frame_def thread_restore_def maps_ok_def
          intro: exI [of _ THREAD_STATE_NEW])
  qed
qed

section \<open>Ticks\<close>

text \<open>The running thread is not in a queue and has a valid priority, unless it is the idle thread.\<close>

definition sched_inv :: "kstate \<Rightarrow> runqs \<Rightarrow> (knode \<Rightarrow> knode list option) \<Rightarrow> bool" where
  "sched_inv st R M \<longleftrightarrow> sched_rep st R M \<and>
     (cur st \<noteq> thread_idle st \<longrightarrow> \<not> queued R M (cur st) \<and> prio_ok st (cur st))"

fun ticks :: "nat \<Rightarrow> kstate \<Rightarrow> kstate option" where
  "ticks 0 st = Some st"
| "ticks (Suc n) st = do { (r, st) \<leftarrow> sched_bitmap_elect SCHED_OPT_TICK st; ticks n st }"

lemma tick_step:
  assumes "sched_inv st R M" "pick (sched_active st) R (thread_idle st) = (nxt, b, R')"
  shows "\<exists>out st'. sched_bitmap_elect SCHED_OPT_TICK st = Some (out, st') \<and> cur st' = nxt \<and>
    sched_inv st' (after_elect SCHED_OPT_TICK st R' b) M \<and> sched_active st' = b \<and> thread_idle st' = thread_idle st"
proof -
  have rep: "sched_rep st R M" using assms(1) by (simp add: sched_inv_def)
  from sched_bitmap_elect_rep [OF rep _ assms(2), of SCHED_OPT_TICK] assms(1) obtain out st' where
    run: "sched_bitmap_elect SCHED_OPT_TICK st = Some (out, st')"
    and st': "sched_rep st' (after_elect SCHED_OPT_TICK st R' b) M" "cur st' = nxt" "sched_active st' = b"
      "thread_idle st' = thread_idle st"
    and q: "nxt \<noteq> thread_idle st \<longrightarrow> \<not> queued (after_elect SCHED_OPT_TICK st R' b) M nxt"
    and thr: "\<exists>s. (maps_ok st \<longrightarrow> s \<noteq> THREAD_STATE_BLOCKED) \<and> threads st' = (if SCHED_OPT_TICK = SCHED_OPT_TICK \<and> cur st \<noteq> thread_idle st
       then (threads st)(cur st := (threads st (cur st))\<lparr>ti_state := s\<rparr>) else threads st)"
    unfolding sched_inv_def by blast
  have "prio_ok st' nxt" if "nxt \<noteq> thread_idle st"
  proof -
    have ne: "flat (R b) \<noteq> []" "nxt = hd (flat (R b))"
      using assms(2) that by (auto simp: pick_def split: if_splits)
    then have "ti_priority (threads st nxt) = int (first_prio (R b))"
      using sched_repD(5) [OF rep flat_first(1) [OF ne(1)] hd_flat_not_idle(2) [OF rep ne(1)]] by simp
    moreover have "ti_priority (threads st' nxt) = ti_priority (threads st nxt)" using thr by auto
    ultimately show ?thesis using flat_first(1) [OF ne(1)] by (simp add: prio_ok_def)
  qed
  then show ?thesis using run st' q by (auto simp: sched_inv_def)
qed

lemma flat_append_at:
  assumes "p < 32"
  shows "flat (append_at R b p t c) = flat (R c) \<or> c = b"
    "length (flat (append_at R b p t b)) = Suc (length (flat (R b)))"
    "set (flat (append_at R b p t b)) = insert t (set (flat (R b)))"
proof -
  show "flat (append_at R b p t c) = flat (R c) \<or> c = b" by (auto simp: append_at_def)
  have "[0..<32] = [0..<p] @ p # [Suc p..<32]" using assms by (rule upt_split_at)
  moreover have "map ((R b)(p := R b p @ [t])) [0..<p] = map (R b) [0..<p]"
    "map ((R b)(p := R b p @ [t])) [Suc p..<32] = map (R b) [Suc p..<32]" by auto
  ultimately have "flat (append_at R b p t b) = concat (map (R b) [0..<p]) @ (R b p @ [t]) @ concat (map (R b) [Suc p..<32])"
    "flat (R b) = concat (map (R b) [0..<p]) @ R b p @ concat (map (R b) [Suc p..<32])"
    unfolding flat_def append_at_def fun_upd_same
    by (simp_all only: map_append concat_append list.map concat.simps fun_upd_same)
  then show "length (flat (append_at R b p t b)) = Suc (length (flat (R b)))"
    "set (flat (append_at R b p t b)) = insert t (set (flat (R b)))" by auto
qed

lemma flat_after_elect:
  assumes "sched_inv st R M"
  shows "flat (after_elect SCHED_OPT_TICK st R' b b) = flat (R' b)"
    "length (flat (after_elect SCHED_OPT_TICK st R' b (\<not> b))) \<le> Suc (length (flat (R' (\<not> b))))"
    "set (flat (R' (\<not> b))) \<subseteq> set (flat (after_elect SCHED_OPT_TICK st R' b (\<not> b)))"
  using assms flat_append_at [OF prio_index_eq(2), of st "cur st" R' "\<not> b" "cur st"]
  by (auto simp: after_elect_def sched_inv_def append_at_def)

text \<open>Ticks elect the active threads one after the other, in the order of their priorities.\<close>

lemma ticks_active:
  assumes "sched_inv st R M" "flat (R (sched_active st)) = ys @ t # zs"
  shows "\<exists>st' R'. ticks (Suc (length ys)) st = Some st' \<and> cur st' = t \<and> sched_inv st' R' M \<and>
    sched_active st' = sched_active st \<and> flat (R' (sched_active st)) = zs \<and>
    length (flat (R' (\<not> sched_active st))) \<le> length (flat (R (\<not> sched_active st))) + Suc (length ys) \<and>
    set (flat (R (\<not> sched_active st))) \<subseteq> set (flat (R' (\<not> sched_active st)))"
  using assms
proof (induction ys arbitrary: st R)
  case Nil
  let ?a = "sched_active st" and ?R = "R(sched_active st := pop_first (R (sched_active st)))"
  have "pick ?a R (thread_idle st) = (t, ?a, ?R)" using Nil.prems(2) by (simp add: pick_def)
  from tick_step [OF Nil.prems(1) this] obtain out st' where
    "sched_bitmap_elect SCHED_OPT_TICK st = Some (out, st')" "cur st' = t"
    "sched_inv st' (after_elect SCHED_OPT_TICK st ?R ?a) M" "sched_active st' = ?a" by blast
  moreover have "flat (?R ?a) = zs" using flat_first(3) [of "R ?a"] Nil.prems(2) by simp
  ultimately show ?case using flat_after_elect [OF Nil.prems(1), of ?R ?a]
    by (intro exI [of _ st'] exI [of _ "after_elect SCHED_OPT_TICK st ?R ?a"]) simp
next
  case (Cons y ys)
  let ?a = "sched_active st" and ?R = "R(sched_active st := pop_first (R (sched_active st)))"
  have "pick ?a R (thread_idle st) = (y, ?a, ?R)" using Cons.prems(2) by (simp add: pick_def)
  from tick_step [OF Cons.prems(1) this] obtain out st1 where
    t1: "sched_bitmap_elect SCHED_OPT_TICK st = Some (out, st1)"
    "sched_inv st1 (after_elect SCHED_OPT_TICK st ?R ?a) M" "sched_active st1 = ?a" by blast
  note fa = flat_after_elect [OF Cons.prems(1), of ?R ?a]
  have "flat (?R ?a) = ys @ t # zs" using flat_first(3) [of "R ?a"] Cons.prems(2) by simp
  then have "flat (after_elect SCHED_OPT_TICK st ?R ?a (sched_active st1)) = ys @ t # zs" using fa t1(3) by simp
  from Cons.IH [OF t1(2) this, unfolded t1(3)] obtain st' R' where
    r: "ticks (Suc (length ys)) st1 = Some st'" "cur st' = t" "sched_inv st' R' M" "sched_active st' = ?a"
    "flat (R' ?a) = zs"
    "length (flat (R' (\<not> ?a))) \<le> length (flat (after_elect SCHED_OPT_TICK st ?R ?a (\<not> ?a))) + Suc (length ys)"
    "set (flat (after_elect SCHED_OPT_TICK st ?R ?a (\<not> ?a))) \<subseteq> set (flat (R' (\<not> ?a)))" by blast
  have fb: "length (flat (after_elect SCHED_OPT_TICK st ?R ?a (\<not> ?a))) \<le> Suc (length (flat (R (\<not> ?a))))"
    "set (flat (R (\<not> ?a))) \<subseteq> set (flat (after_elect SCHED_OPT_TICK st ?R ?a (\<not> ?a)))" using fa by simp_all
  have "ticks (Suc (length (y # ys))) st = Some st'" using t1(1) r(1) by simp
  moreover have "length (flat (R' (\<not> ?a))) \<le> length (flat (R (\<not> ?a))) + Suc (length (y # ys))"
    using r(6) fb(1) unfolding list.size by linarith
  ultimately show ?case using r(2-5) subset_trans [OF fb(2) r(7)] by blast
qed

text \<open>When the active bank is empty, the banks are exchanged.\<close>

lemma ticks_swap:
  assumes "sched_inv st R M" "flat (R (sched_active st)) = []" "flat (R (\<not> sched_active st)) = ys @ t # zs"
  shows "\<exists>st'. ticks (Suc (length ys)) st = Some st' \<and> cur st' = t"
proof -
  let ?e = "\<not> sched_active st"
  let ?R = "R(?e := pop_first (R ?e))" and ?y = "hd (ys @ [t])"
  have "pick (sched_active st) R (thread_idle st) = (?y, ?e, ?R)"
    using assms(2,3) by (cases ys) (simp_all add: pick_def)
  from tick_step [OF assms(1) this] obtain out st1 where
    t1: "sched_bitmap_elect SCHED_OPT_TICK st = Some (out, st1)" "cur st1 = ?y"
    "sched_inv st1 (after_elect SCHED_OPT_TICK st ?R ?e) M" "sched_active st1 = ?e" by blast
  show ?thesis
  proof (cases ys)
    case Nil
    then show ?thesis using t1 by simp
  next
    case (Cons y ys')
    have "flat (after_elect SCHED_OPT_TICK st ?R ?e (sched_active st1)) = ys' @ t # zs"
      using flat_after_elect(1) [OF assms(1), of ?R ?e] flat_first(3) [of "R ?e"] assms(3) Cons t1(4) by simp
    from ticks_active [OF t1(3) this] t1(1) Cons show ?thesis by auto
  qed
qed

lemma no_starvation_bound:
  assumes inv: "sched_inv st R M" and t: "t \<in> set (flat (R b))"
  shows "\<exists>n st'. n \<le> 2 * length (flat (R (sched_active st))) + length (flat (R (\<not> sched_active st))) \<and>
    ticks n st = Some st' \<and> cur st' = t"
proof -
  let ?a = "sched_active st"
  have split: "ticks (m + n) s = Option.bind (ticks m s) (ticks n)" for m n s
    by (induction m arbitrary: s) (auto split: Option.bind_split)
  show ?thesis
  proof (cases "t \<in> set (flat (R ?a))")
    case True
    then obtain ys zs where f: "flat (R ?a) = ys @ t # zs" by (meson split_list)
    from ticks_active [OF inv f] obtain st' where "ticks (Suc (length ys)) st = Some st'" "cur st' = t" by blast
    then show ?thesis using f by (intro exI [of _ "Suc (length ys)"] exI [of _ st']) simp
  next
    case False
    then have t': "t \<in> set (flat (R (\<not> ?a)))" using t by (cases "b = ?a") auto
    show ?thesis
    proof (cases "flat (R ?a)" rule: rev_cases)
      case Nil
      from t' obtain ys zs where f: "flat (R (\<not> ?a)) = ys @ t # zs" by (meson split_list)
      from ticks_swap [OF inv Nil f] obtain st' where "ticks (Suc (length ys)) st = Some st'" "cur st' = t" by blast
      then show ?thesis using f by (intro exI [of _ "Suc (length ys)"] exI [of _ st']) simp
    next
      case (snoc ys y)
      then have "flat (R ?a) = ys @ y # []" by simp
      from ticks_active [OF inv this] obtain st1 R1 where s1: "ticks (Suc (length ys)) st = Some st1"
        "sched_inv st1 R1 M" "sched_active st1 = ?a" "flat (R1 ?a) = []"
        "length (flat (R1 (\<not> ?a))) \<le> length (flat (R (\<not> ?a))) + Suc (length ys)"
        "set (flat (R (\<not> ?a))) \<subseteq> set (flat (R1 (\<not> ?a)))" by blast
      from s1(6) t' have "t \<in> set (flat (R1 (\<not> ?a)))" by blast
      then obtain us vs where f: "flat (R1 (\<not> ?a)) = us @ t # vs" by (meson split_list)
      from ticks_swap [OF s1(2), unfolded s1(3), OF s1(4) f] obtain st' where
        s2: "ticks (Suc (length us)) st1 = Some st'" "cur st' = t" by blast
      have "ticks (Suc (length ys) + Suc (length us)) st = Some st'"
        unfolding split s1(1) using s2(1) by simp
      moreover have "Suc (length ys) + Suc (length us) \<le> 2 * length (flat (R ?a)) + length (flat (R (\<not> ?a)))"
        using snoc f s1(5) by simp
      ultimately show ?thesis using s2(2) by blast
    qed
  qed
qed

section \<open>Properties\<close>

text \<open>A concrete scheduler state for the witnesses: threads 1 and 2 are ready, 3 runs, 9 is idle.\<close>

definition demo_R :: runqs where
  "demo_R = (\<lambda>b p. if \<not> b \<and> p = 31 then [1, 2] else [])"

definition demo_links :: "knode links" where
  "demo_links = \<lparr>
     lnext = (\<lambda>n. if n = RunQ False 31 then Node (TiQ 1) else if n = TiQ 1 then Node (TiQ 2)
                  else if n = TiQ 2 then Node (RunQ False 31) else Node n),
     lprev = (\<lambda>n. if n = RunQ False 31 then Node (TiQ 2) else if n = TiQ 1 then Node (RunQ False 31)
                  else if n = TiQ 2 then Node (TiQ 1) else Node n) \<rparr>"

definition demo_state :: kstate where
  "demo_state = kstate_zero\<lparr> klinks := demo_links, cur := 3, thread_idle := 9,
     banks := (\<lambda>b. \<lparr> bm_map = if b then 0 else 2 ^ 31, bm_queue = RunQ b \<rparr>) \<rparr>"

lemma demo_state_fields [simp]:
  "sched_active demo_state = False" "thread_idle demo_state = 9" "cur demo_state = 3"
  "klinks demo_state = demo_links"
  by (simp_all add: demo_state_def kstate_zero_def)

definition demo_M :: "knode \<Rightarrow> knode list option" where
  "demo_M = [MutexHead \<mapsto> [], CondHead \<mapsto> []]"

lemma demo_rings: "run_rings demo_R demo_M n = Some xs \<Longrightarrow>
    (n = RunQ False 31 \<and> xs = [TiQ 1, TiQ 2]) \<or>
    (xs = [] \<and> n \<noteq> RunQ False 31 \<and> n \<noteq> TiQ 1 \<and> n \<noteq> TiQ 2 \<and> n \<noteq> TiQ 3)"
  by (cases n) (auto simp: demo_R_def demo_M_def split: if_splits)

lemma demo_flat: "flat (demo_R False) = [1, 2]" "flat (demo_R True) = []"
  by code_simp+

lemma demo_inv: "sched_inv demo_state demo_R demo_M"
proof -
  have rings: "ring demo_links n xs" if "run_rings demo_R demo_M n = Some xs" for n xs
    using demo_rings [OF that] by (auto simp: ring_def demo_links_def)
  have disj: "set (a # xs) \<inter> set (b # ys) = {}"
    if "run_rings demo_R demo_M a = Some xs" "run_rings demo_R demo_M b = Some ys" "a \<noteq> b" for a b xs ys
    using demo_rings [OF that(1)] demo_rings [OF that(2)] that(3) by auto
  have "lists demo_links (run_rings demo_R demo_M)"
    unfolding lists_def using rings disj by blast
  moreover have "bit (2 ^ 31 :: u32) p \<longleftrightarrow> p = 31" for p by (simp only: bit_exp_iff) auto
  then have "bit (bm_map (banks demo_state b)) p \<longleftrightarrow> demo_R b p \<noteq> []" for b p
    unfolding demo_state_def demo_R_def kstate.simps kstate_zero_def bitmap_struct.simps by (cases b) simp_all
  moreover have "ti_priority (threads demo_state t) = int p \<and> t \<noteq> thread_idle demo_state"
    if "t \<in> set (demo_R b p)" for b p t
    using that by (auto simp: demo_R_def demo_state_def thread_info_zero_def kstate_zero_def split: if_splits)
  ultimately have "sched_rep demo_state demo_R demo_M"
    unfolding sched_rep_def by (auto simp: demo_state_def kstate_zero_def)
  moreover have "\<not> queued demo_R demo_M 3"
    unfolding queued_iff by (auto simp: demo_R_def demo_M_def split: if_splits)
  ultimately show ?thesis
    by (simp add: sched_inv_def prio_ok_def) (simp add: demo_state_def thread_info_zero_def kstate_zero_def)
qed

text \<open>
  C10. \<^verbatim>\<open>sched_bitmap_elect\<close> never faults and refines the abstract choice: the first thread of the
  highest-priority non-empty queue of the active bank; if that bank is empty, the banks are
  exchanged first; the idle thread only if no thread is ready. The chosen thread leaves its
  queue, and on a tick the running thread goes to the end of its queue in the expired bank.
\<close>

theorem sched_bitmap_elect_refines:
  assumes "sched_inv st R M" "pick (sched_active st) R (thread_idle st) = (nxt, b, R')"
  shows "\<exists>out st'. sched_bitmap_elect flags st = Some (out, st') \<and>
    sched_rep st' (after_elect flags st R' b) M \<and> cur st' = nxt \<and> sched_active st' = b \<and>
    (out = Switched \<longleftrightarrow> flags = SCHED_OPT_RESTORE_ONLY \<or> nxt \<noteq> cur st)"
  using sched_bitmap_elect_rep [of st R M flags nxt b R'] assms unfolding sched_inv_def by blast

theorem sched_bitmap_elect_refines_witness:
  "\<exists>out st'. sched_bitmap_elect SCHED_OPT_TICK demo_state = Some (out, st') \<and> cur st' = 1 \<and> out = Switched"
proof -
  have "pick (sched_active demo_state) demo_R (thread_idle demo_state) =
      (1, False, demo_R(False := pop_first (demo_R False)))"
    by (simp add: pick_def demo_flat)
  from sched_bitmap_elect_refines [OF demo_inv this, of SCHED_OPT_TICK] show ?thesis
    by auto
qed

text \<open>
  C11. No ready thread starves: with \<open>a\<close> threads in the active and \<open>e\<close> in the expired bank, every
  one of them is running after at most \<open>2 a + e\<close> timer ticks, whatever the priorities.
\<close>

theorem sched_bitmap_no_starvation:
  assumes "sched_inv st R M" "t \<in> set (R b p)" "p < 32"
  shows "\<exists>n st'. n \<le> 2 * length (flat (R (sched_active st))) + length (flat (R (\<not> sched_active st))) \<and>
    ticks n st = Some st' \<and> cur st' = t"
  using no_starvation_bound [OF assms(1), of t b] assms(2,3) by (auto simp: in_flat)

theorem sched_bitmap_no_starvation_witness:
  "\<exists>n st'. n \<le> 4 \<and> ticks n demo_state = Some st' \<and> cur st' = 2"
proof -
  have "2 \<in> set (demo_R False 31)" by (simp add: demo_R_def)
  from sched_bitmap_no_starvation [OF demo_inv this] show ?thesis
    by (simp add: demo_flat)
qed

end
