(* ===== verification/Sched_RR.thy ===== *)
theory Sched_RR
  imports Thread
begin

text \<open>
  The round-robin scheduler, \<^verbatim>\<open>kernel/sched/rr.c\<close>. Its single run queue keeps the running thread
  in the ring; the next thread is the successor of the current one, and the first of the ring
  after the last. It shares the link fields \<^verbatim>\<open>ti_q\<close> with the queues of mutexes and conditions.
\<close>

definition sched_rr_init :: "kstate \<Rightarrow> (int \<times> kstate) option" where
  "sched_rr_init st = Some (0, st)"

definition rr_find_next_thread :: "kstate \<Rightarrow> addr \<Rightarrow> addr option" where
  "rr_find_next_thread st t = do {
     l \<leftarrow> list_is_last (klinks st) (Node (TiQ t)) (Node RRunQ);
     p \<leftarrow> (if l then list_first_entry (klinks st) (Node RRunQ)
          else list_next_entry (klinks st) (Node (TiQ t)));
     ti_entry p }"

definition sched_rr_enqueue :: "kstate \<Rightarrow> addr \<Rightarrow> (int \<times> kstate) option" where
  "sched_rr_enqueue st t = do {
     h \<leftarrow> list_add (klinks st) (Node (TiQ t)) (Node RRunQ);
     Some (0, st\<lparr>klinks := h\<rparr>) }"

definition sched_rr_dequeue :: "kstate \<Rightarrow> addr \<Rightarrow> (outcome \<times> kstate) option" where
  "sched_rr_dequeue st t =
     (if cur st = t then do {
        s \<leftarrow> list_is_singular (klinks st) (Node RRunQ);
        nxt \<leftarrow> (if \<not> s then rr_find_next_thread st (cur st) else Some (thread_idle st));
        h \<leftarrow> list_del (klinks st) (Node (TiQ t));
        Some (Switched, thread_restore nxt (st\<lparr>klinks := h\<rparr>)) }
      else do {
        h \<leftarrow> list_del (klinks st) (Node (TiQ t));
        Some (Returned 0, st\<lparr>klinks := h\<rparr>) })"

definition sched_rr_elect_reset :: "kstate \<Rightarrow> (outcome \<times> kstate) option" where
  "sched_rr_elect_reset st = do {
     e \<leftarrow> list_empty (klinks st) (Node RRunQ);
     nxt \<leftarrow> (if \<not> e then do { p \<leftarrow> list_first_entry (klinks st) (Node RRunQ); ti_entry p }
            else Some (thread_idle st));
     Some (Switched, switch_to nxt st) }"

definition sched_rr_elect :: "nat \<Rightarrow> kstate \<Rightarrow> (outcome \<times> kstate) option" where
  "sched_rr_elect switch_type st =
     (if and switch_type SCHED_OPT_RESET \<noteq> 0 then sched_rr_elect_reset st
      else do {
        e \<leftarrow> list_empty (klinks st) (Node RRunQ);
        nxt \<leftarrow> (if e then Some (thread_idle st) else rr_find_next_thread st (cur st));
        if nxt = cur st then Some (Returned (- 1), st)
        else Some (Switched, switch_to nxt st) })"

section \<open>Rotation\<close>

definition rr_rep :: "kstate \<Rightarrow> addr list \<Rightarrow> (knode \<Rightarrow> knode list option) \<Rightarrow> bool" where
  "rr_rep st ts M \<longleftrightarrow> lists (klinks st) (M(RRunQ \<mapsto> map TiQ ts))"

text \<open>The successor of a thread in the ring.\<close>

definition rr_next :: "addr list \<Rightarrow> addr \<Rightarrow> addr" where
  "rr_next ts t = (case dropWhile (\<lambda>x. x \<noteq> t) ts of _ # u # _ \<Rightarrow> u | _ \<Rightarrow> hd ts)"

lemma rr_next_split:
  assumes "t \<notin> set ys"
  shows "rr_next (ys @ t # zs) t = (case zs of [] \<Rightarrow> hd (ys @ [t]) | u # _ \<Rightarrow> u)"
proof -
  have "dropWhile (\<lambda>x. x \<noteq> t) (ys @ t # zs) = t # zs" using assms by (induction ys) auto
  then show ?thesis by (cases zs) (auto simp: rr_next_def hd_append split: list.splits)
qed

lemma rr_find_next_rep:
  assumes rep: "rr_rep st ts M" and t: "t \<in> set ts"
  shows "rr_find_next_thread st t = Some (rr_next ts t)"
proof -
  let ?Q = "M(RRunQ \<mapsto> map TiQ ts)"
  have l: "lists (klinks st) ?Q" using rep by (simp add: rr_rep_def)
  have "ring (klinks st) RRunQ (map TiQ ts)" using listsD [OF l, of RRunQ] by simp
  then have "distinct ts" by (simp add: ring_def distinct_map)
  with t obtain ys zs where ts: "ts = ys @ t # zs" "t \<notin> set ys" "t \<notin> set zs"
    by (metis distinct.simps(2) distinct_append not_distinct_conv_prefix split_list)
  have Q: "?Q RRunQ = Some (map TiQ ys @ TiQ t # map TiQ zs)" using ts(1) by simp
  have last: "list_is_last (klinks st) (Node (TiQ t)) (Node RRunQ) = Some (zs = [])"
    using lists_list_is_last [OF l Q] by simp
  show ?thesis
  proof (cases zs)
    case Nil
    have "?Q RRunQ = Some (TiQ (hd ts) # map TiQ (tl ts))" using ts(1) by (cases ys) auto
    from lists_first [OF l this] show ?thesis
      using last Nil ts rr_next_split [OF ts(2), of zs] by (simp add: rr_find_next_thread_def)
  next
    case (Cons u us)
    have "lnext (klinks st) (TiQ t) = Node (TiQ u)"
      using ring_entry(1) [OF listsD [OF l Q]] Cons by simp
    then show ?thesis
      using last Cons ts rr_next_split [OF ts(2), of zs]
      by (simp add: rr_find_next_thread_def list_next_entry_def)
  qed
qed

text \<open>
  The round-robin class switches to the successor of the running thread in the ring, and
  keeps running it when it is alone; the ring is not changed.
\<close>

lemma sched_rr_elect_next:
  assumes "rr_rep st ts M" "cur st \<in> set ts"
  shows "sched_rr_elect SCHED_OPT_NONE st =
    (if rr_next ts (cur st) = cur st then Some (Returned (- 1), st)
     else Some (Switched, switch_to (rr_next ts (cur st)) st))"
proof -
  have "list_empty (klinks st) (Node RRunQ) = Some False"
    using lists_list_empty [of "klinks st" "M(RRunQ \<mapsto> map TiQ ts)" RRunQ] assms
    by (auto simp: rr_rep_def)
  then show ?thesis
    using rr_find_next_rep [OF assms] by (simp add: sched_rr_elect_def SCHED_OPT_NONE_def)
qed

definition rr_demo :: kstate where
  "rr_demo = kstate_zero\<lparr>cur := 2, klinks := \<lparr>
     lnext = (\<lambda>n. if n = RRunQ then Node (TiQ 1) else if n = TiQ 1 then Node (TiQ 2)
                  else if n = TiQ 2 then Node RRunQ else Node n),
     lprev = (\<lambda>n. if n = RRunQ then Node (TiQ 2) else if n = TiQ 1 then Node RRunQ
                  else if n = TiQ 2 then Node (TiQ 1) else Node n)\<rparr>\<rparr>"

lemma sched_rr_elect_next_witness:
  "sched_rr_elect SCHED_OPT_NONE rr_demo = Some (Switched, switch_to 1 rr_demo)"
proof -
  have "rr_rep rr_demo [1, 2] Map.empty"
    by (auto simp: rr_rep_def lists_def ring_def rr_demo_def split: if_splits)
  moreover have "cur rr_demo = 2" by (simp add: rr_demo_def)
  ultimately show ?thesis
    using sched_rr_elect_next [of rr_demo "[1, 2]" Map.empty] by (simp add: rr_next_def)
qed

end
