(* ===== verification/Sched.thy ===== *)
theory Sched
  imports Sched_Bitmap Sched_RR
begin

text \<open>
  The scheduler's front end, \<^verbatim>\<open>kernel/sched.c\<close>: initialisation and selection of the scheduling
  class, and the three calls the rest of the kernel uses. The classes registered by the linker
  in \<^verbatim>\<open>.sched.class\<close> are the parameter \<open>classes\<close>.
\<close>

section \<open>Definitions\<close>

definition class_init :: "sched_class \<Rightarrow> kstate \<Rightarrow> (int \<times> kstate) option" where
  "class_init c st = (case c of
     SCHED_CLASS_RR \<Rightarrow> sched_rr_init st | SCHED_CLASS_BITMAP \<Rightarrow> sched_bitmap_init st)"

fun sched_init_from :: "int \<Rightarrow> sched_class list \<Rightarrow> kstate \<Rightarrow> (int \<times> kstate) option" where
  "sched_init_from ret [] st = Some (ret, st)"
| "sched_init_from ret (c # cs) st = do {
     (r, st) \<leftarrow> class_init c st;
     sched_init_from (or ret r) cs st }"

definition sched_init :: "sched_class list \<Rightarrow> kstate \<Rightarrow> (int \<times> kstate) option" where
  "sched_init classes st = sched_init_from 0 classes st"

fun last_match :: "sched_class \<Rightarrow> sched_class list \<Rightarrow> sched_class option \<Rightarrow> sched_class option" where
  "last_match ty [] found = found"
| "last_match ty (c # cs) found = last_match ty cs (if ty = c then Some c else found)"

definition sched_select :: "sched_class list \<Rightarrow> sched_class \<Rightarrow> kstate \<Rightarrow> int \<times> kstate" where
  "sched_select classes ty st =
     (case last_match ty classes None of
        None \<Rightarrow> (- 1, st)
      | Some c \<Rightarrow> (0, st\<lparr>sched := Some c\<rparr>))"

definition sched_enqueue :: "kstate \<Rightarrow> addr \<Rightarrow> (int \<times> kstate) option" where
  "sched_enqueue st t = do {
     let st = set_ti_state t (map_actived (sched_map st)) st;
     c \<leftarrow> sched st;
     (case c of
        SCHED_CLASS_RR \<Rightarrow> sched_rr_enqueue st t
      | SCHED_CLASS_BITMAP \<Rightarrow> sched_bitmap_enqueue st t) }"

definition sched_dequeue :: "kstate \<Rightarrow> addr \<Rightarrow> (outcome \<times> kstate) option" where
  "sched_dequeue st t = do {
     c \<leftarrow> sched st;
     (case c of
        SCHED_CLASS_RR \<Rightarrow> sched_rr_dequeue st t
      | SCHED_CLASS_BITMAP \<Rightarrow> do { (r, st) \<leftarrow> sched_bitmap_dequeue st t; Some (Returned r, st) }) }"

text \<open>A damaged canary ends in an endless loop: no result.\<close>

definition KERNEL_STACK_CHECKING :: "kstate \<Rightarrow> unit option" where
  "KERNEL_STACK_CHECKING st =
     (if ti_canary0 (threads st (cur st)) \<noteq> THREAD_CANARY0 \<or>
         ti_canary1 (threads st (cur st)) \<noteq> THREAD_CANARY1 then None else Some ())"

definition sched_elect :: "nat \<Rightarrow> kstate \<Rightarrow> (outcome \<times> kstate) option" where
  "sched_elect flags st = do {
     let cur_thread = cur st;
     KERNEL_STACK_CHECKING st;
     c \<leftarrow> sched st;
     (r, st) \<leftarrow> (case c of
        SCHED_CLASS_RR \<Rightarrow> sched_rr_elect flags st
      | SCHED_CLASS_BITMAP \<Rightarrow> sched_bitmap_elect flags st);
     (case r of
        Returned v \<Rightarrow> Some (Returned v, set_ti_state cur_thread THREAD_STATE_RUNNING st)
      | Switched \<Rightarrow> Some (Switched, st)) }"

section \<open>Threads that only changed their state field\<close>

definition same_threads :: "kstate \<Rightarrow> kstate \<Rightarrow> bool" where
  "same_threads st st' \<longleftrightarrow> (\<forall>u. \<exists>s. threads st' u = (threads st u)\<lparr>ti_state := s\<rparr>)"

lemma same_threads_refl [simp]: "same_threads st st"
proof -
  have "threads st u = (threads st u)\<lparr>ti_state := ti_state (threads st u)\<rparr>" for u by simp
  then show ?thesis unfolding same_threads_def by metis
qed

lemma same_threads_trans: "same_threads a b \<Longrightarrow> same_threads b c \<Longrightarrow> same_threads a c"
proof -
  assume ab: "same_threads a b" and bc: "same_threads b c"
  have "\<exists>s. threads c u = (threads a u)\<lparr>ti_state := s\<rparr>" for u
  proof -
    obtain s s' where "threads b u = (threads a u)\<lparr>ti_state := s\<rparr>" "threads c u = (threads b u)\<lparr>ti_state := s'\<rparr>"
      using ab bc unfolding same_threads_def by metis
    then show ?thesis by auto
  qed
  then show ?thesis by (simp add: same_threads_def)
qed

lemma same_threads_eq: "threads st' = threads st \<Longrightarrow> same_threads st st'"
  using same_threads_refl [of st] unfolding same_threads_def by simp

lemma same_threads_set [simp]: "same_threads st (set_ti_state t s st)"
  unfolding same_threads_def
proof
  fix u
  show "\<exists>s'. threads (set_ti_state t s st) u = (threads st u)\<lparr>ti_state := s'\<rparr>"
    by (cases "u = t") (auto intro: exI [of _ s] exI [of _ "ti_state (threads st u)"])
qed

lemma same_threadsD:
  assumes "same_threads st st'"
  shows "ti_priority (threads st' u) = ti_priority (threads st u)"
    "ti_private (threads st' u) = ti_private (threads st u)"
    "ti_canary0 (threads st' u) = ti_canary0 (threads st u)"
    "ti_canary1 (threads st' u) = ti_canary1 (threads st u)"
    "prio_ok st' u = prio_ok st u" "prio_index st' u = prio_index st u"
proof -
  obtain s where "threads st' u = (threads st u)\<lparr>ti_state := s\<rparr>" using assms by (auto simp: same_threads_def)
  then show "ti_priority (threads st' u) = ti_priority (threads st u)"
    "ti_private (threads st' u) = ti_private (threads st u)"
    "ti_canary0 (threads st' u) = ti_canary0 (threads st u)"
    "ti_canary1 (threads st' u) = ti_canary1 (threads st u)"
    "prio_ok st' u = prio_ok st u" "prio_index st' u = prio_index st u"
    by (simp_all add: prio_ok_def prio_index_def)
qed

definition canary_ok :: "kstate \<Rightarrow> addr \<Rightarrow> bool" where
  "canary_ok st t \<longleftrightarrow> ti_canary0 (threads st t) = THREAD_CANARY0 \<and> ti_canary1 (threads st t) = THREAD_CANARY1"

section \<open>The calls under the priority scheduler\<close>

text \<open>What no call of the scheduler changes.\<close>

definition frame_eq :: "kstate \<Rightarrow> kstate \<Rightarrow> bool" where
  "frame_eq st st' \<longleftrightarrow> thread_idle st' = thread_idle st \<and> mutex_val st' = mutex_val st \<and>
     sched_map st' = sched_map st \<and> sched st' = sched st \<and> user_mem st' = user_mem st \<and> same_threads st st'"

lemma frame_eq_trans: "frame_eq a b \<Longrightarrow> frame_eq b c \<Longrightarrow> frame_eq a c"
  by (auto simp: frame_eq_def intro: same_threads_trans)

lemma frame_eq_set [simp]: "frame_eq st (set_ti_state t s st)"
  by (simp add: frame_eq_def)

lemma sched_enqueue_rep:
  assumes rep: "sched_rep st R M" and t: "\<not> queued R M t" "t \<noteq> thread_idle st" "prio_ok st t"
    and cls: "sched st = Some SCHED_CLASS_BITMAP"
  shows "\<exists>st'. sched_enqueue st t = Some (0, st') \<and>
    sched_rep st' (append_at R (sched_active st) (prio_index st t) t) M \<and> frame_eq st st' \<and>
    cur st' = cur st \<and> kstack st' = kstack st \<and> sched_active st' = sched_active st \<and> (maps_ok st \<longrightarrow> maps_ok st') \<and>
    threads st' = (threads st)(t := (threads st t)\<lparr>ti_state := map_actived (sched_map st)\<rparr>)"
proof -
  let ?st = "set_ti_state t (map_actived (sched_map st)) st"
  have rep1: "sched_rep ?st R M" by (rule sched_rep_cong [OF rep]) auto
  have p: "prio_ok ?st t" "prio_index ?st t = prio_index st t"
    using t(3) same_threadsD(5,6) [OF same_threads_set] by auto
  from thread_enqueue_rep [OF rep1 t(1) _ p(1), of "sched_active st"] t(2) p(2) obtain h bs where
    "thread_enqueue ?st t (sched_active st) = Some (0, ?st\<lparr>klinks := h, banks := bs\<rparr>)"
    "sched_rep (?st\<lparr>klinks := h, banks := bs\<rparr>) (append_at R (sched_active st) (prio_index st t) t) M" by auto
  moreover have "frame_eq st (?st\<lparr>klinks := h, banks := bs\<rparr>)"
    using same_threads_set [of st t "map_actived (sched_map st)"]
    by (simp add: frame_eq_def same_threads_def set_ti_state_def)
  ultimately show ?thesis
    using cls by (simp add: sched_enqueue_def sched_bitmap_enqueue_def Let_def maps_ok_def)
qed

lemma sched_elect_rep:
  assumes rep: "sched_rep st R M" and cls: "sched st = Some SCHED_CLASS_BITMAP"
    and can: "canary_ok st (cur st)"
    and me: "flags = SCHED_OPT_TICK \<and> cur st \<noteq> thread_idle st \<longrightarrow> \<not> queued R M (cur st) \<and> prio_ok st (cur st)"
    and p: "pick (sched_active st) R (thread_idle st) = (nxt, b, R')"
  shows "\<exists>out st'. sched_elect flags st = Some (out, st') \<and>
    sched_rep st' (after_elect flags st R' b) M \<and> cur st' = nxt \<and> sched_active st' = b \<and>
    (nxt \<noteq> thread_idle st \<longrightarrow> \<not> queued (after_elect flags st R' b) M nxt) \<and>
    (out = Switched \<longleftrightarrow> flags = SCHED_OPT_RESTORE_ONLY \<or> nxt \<noteq> cur st) \<and> (out \<noteq> Switched \<longrightarrow> out = Returned 0) \<and>
    frame_eq st st' \<and>
    kstack st' = (if flags = SCHED_OPT_RESTORE_ONLY then (kstack st)(cur st := [])
      else if nxt \<noteq> cur st then (kstack st)(cur st := K_elect # kstack st (cur st)) else kstack st) \<and>
    (out = Returned 0 \<longrightarrow> ti_state (threads st' (cur st)) = THREAD_STATE_RUNNING) \<and>
    (\<forall>u. u \<noteq> cur st \<longrightarrow> threads st' u = threads st u) \<and>
    (out = Switched \<and> flags \<noteq> SCHED_OPT_TICK \<longrightarrow> threads st' = threads st) \<and>
    (maps_ok st \<longrightarrow> maps_ok st') \<and>
    (maps_ok st \<and> flags = SCHED_OPT_TICK \<and> cur st \<noteq> thread_idle st \<longrightarrow>
      ti_state (threads st' (cur st)) \<noteq> THREAD_STATE_BLOCKED)"
proof -
  obtain out st1 s where e: "sched_bitmap_elect flags st = Some (out, st1)"
    "sched_rep st1 (after_elect flags st R' b) M" "cur st1 = nxt" "sched_active st1 = b"
    "nxt \<noteq> thread_idle st \<longrightarrow> \<not> queued (after_elect flags st R' b) M nxt"
    "out = Switched \<longleftrightarrow> flags = SCHED_OPT_RESTORE_ONLY \<or> nxt \<noteq> cur st" "out \<noteq> Switched \<longrightarrow> out = Returned 0"
    "thread_idle st1 = thread_idle st" "mutex_val st1 = mutex_val st" "sched_map st1 = sched_map st"
    "sched st1 = sched st" "user_mem st1 = user_mem st"
    "kstack st1 = (if flags = SCHED_OPT_RESTORE_ONLY then (kstack st)(cur st := [])
      else if nxt \<noteq> cur st then (kstack st)(cur st := K_elect # kstack st (cur st)) else kstack st)"
    and mok: "maps_ok st \<longrightarrow> maps_ok st1"
    and s: "maps_ok st \<longrightarrow> s \<noteq> THREAD_STATE_BLOCKED" "threads st1 = (if flags = SCHED_OPT_TICK \<and> cur st \<noteq> thread_idle st
       then (threads st)(cur st := (threads st (cur st))\<lparr>ti_state := s\<rparr>) else threads st)"
    using sched_bitmap_elect_rep [OF rep me p] by (elim exE conjE) (rule that; assumption)
  then have thr: "\<exists>s. (maps_ok st \<longrightarrow> s \<noteq> THREAD_STATE_BLOCKED) \<and> threads st1 = (if flags = SCHED_OPT_TICK \<and> cur st \<noteq> thread_idle st
       then (threads st)(cur st := (threads st (cur st))\<lparr>ti_state := s\<rparr>) else threads st)" by blast
  have same: "same_threads st st1"
  proof (cases "flags = SCHED_OPT_TICK \<and> cur st \<noteq> thread_idle st")
    case True
    then obtain s where "threads st1 = threads (set_ti_state (cur st) s st)" using thr by auto
    then show ?thesis
      using same_threads_trans [OF same_threads_set same_threads_eq] by blast
  next
    case False
    then show ?thesis using thr by (intro same_threads_eq) auto
  qed
  have fr: "frame_eq st st1" using e(8-12) same by (simp add: frame_eq_def)
  have run: "sched_elect flags st = (case out of
      Returned v \<Rightarrow> Some (Returned v, set_ti_state (cur st) THREAD_STATE_RUNNING st1) | Switched \<Rightarrow> Some (Switched, st1))"
    using cls can e(1) by (simp add: sched_elect_def KERNEL_STACK_CHECKING_def canary_ok_def)
  have oth: "u \<noteq> cur st \<Longrightarrow> threads st1 u = threads st u" for u using thr by (auto split: if_splits)
  show ?thesis
  proof (cases out)
    case Switched
    have blk: "maps_ok st \<and> flags = SCHED_OPT_TICK \<and> cur st \<noteq> thread_idle st \<longrightarrow>
        ti_state (threads st1 (cur st)) \<noteq> THREAD_STATE_BLOCKED" using thr by auto
    have thr': "flags \<noteq> SCHED_OPT_TICK \<longrightarrow> threads st1 = threads st" using thr by auto
    show ?thesis
      using run e(2-6,13) fr oth Switched mok blk thr'
      by (intro exI [of _ Switched] exI [of _ st1] conjI) simp_all
  next
    case (Returned v)
    then have "v = 0" using e(7) by simp
    let ?st = "set_ti_state (cur st) THREAD_STATE_RUNNING st1"
    have stay: "flags \<noteq> SCHED_OPT_RESTORE_ONLY" "nxt = cur st" using e(6) Returned by auto
    have rep': "sched_rep ?st (after_elect flags st R' b) M" by (rule sched_rep_cong [OF e(2)]) auto
    have run': "sched_elect flags st = Some (Returned 0, ?st)" using run Returned \<open>v = 0\<close> by simp
    have fr': "frame_eq st ?st" using frame_eq_trans [OF fr frame_eq_set] .
    have maps: "maps_ok st1 \<Longrightarrow> maps_ok ?st" by (simp add: maps_ok_def)
    have "kstack ?st = kstack st" using e(13) stay by simp
    then show ?thesis
      using run' rep' fr' e(3-5) stay oth mok maps
      by (intro exI [of _ "Returned 0"] exI [of _ ?st] conjI) simp_all
  qed
qed

end
