(* ===== verification/Mutex.thy ===== *)
theory Mutex
  imports Sched
begin

text \<open>
  Mutexes and condition variables, \<^verbatim>\<open>kernel/mutex.c\<close> and \<^verbatim>\<open>kernel/cond.c\<close>. A mutex is an integer:
  -1 when it is free, and the number of waiting threads when it is held. All waiting threads of
  all mutexes are on one list, with the mutex in \<^verbatim>\<open>ti_private\<close>; the same holds for conditions.

  \<open>kernel_inv st R W V M\<close> is the invariant of the scheduler, of the list \<open>W\<close> of threads waiting for a
  mutex and of the list \<open>V\<close> of threads waiting for a condition. Every call keeps it, and so does the
  rest of a suspended call (\<open>run_frame\<close>).
\<close>

section \<open>Mutexes\<close>

definition set_ti_private :: "addr \<Rightarrow> addr \<Rightarrow> kstate \<Rightarrow> kstate" where
  "set_ti_private t v st = st\<lparr>threads := (threads st)(t := (threads st t)\<lparr>ti_private := v\<rparr>)\<rparr>"

definition add_val :: "addr \<Rightarrow> int \<Rightarrow> kstate \<Rightarrow> kstate" where
  "add_val m d st = st\<lparr>mutex_val := (mutex_val st)(m := mutex_val st m + d)\<rparr>"

definition returns_0 :: "outcome \<Rightarrow> outcome" where
  "returns_0 r = (case r of Returned _ \<Rightarrow> Returned 0 | Switched \<Rightarrow> Switched)"

definition sys_pthread_mutex_lock :: "addr \<Rightarrow> kstate \<Rightarrow> (outcome \<times> kstate) option" where
  "sys_pthread_mutex_lock m st = do {
     let st = add_val m 1 st;
     if mutex_val st m = 0 then Some (Returned 0, st)
     else do {
       let curr_thread = cur st;
       let st = set_ti_private curr_thread m st;
       let st = set_ti_state curr_thread THREAD_STATE_BLOCKED st;
       h \<leftarrow> list_add_tail (klinks st) (Node (TiQ curr_thread)) (Node MutexHead);
       (r, st) \<leftarrow> sched_elect SCHED_OPT_NONE (st\<lparr>klinks := h\<rparr>);
       Some (returns_0 r, st) } }"

text \<open>The search loops over \<^verbatim>\<open>ti_q\<close> for a thread with a given \<^verbatim>\<open>ti_private\<close>.\<close>

definition waits_on :: "kstate \<Rightarrow> addr \<Rightarrow> knode \<Rightarrow> bool" where
  "waits_on st v n = (case n of TiQ t \<Rightarrow> ti_private (threads st t) = v | _ \<Rightarrow> False)"

definition find_waiting :: "kstate \<Rightarrow> knode \<Rightarrow> addr \<Rightarrow> addr option option" where
  "find_waiting st head v = do {
     r \<leftarrow> list_for_each_entry_find (klinks st) (waits_on st v) (Node head);
     (case r of
        None \<Rightarrow> Some None
      | Some n \<Rightarrow> do { t \<leftarrow> ti_entry (Node n); Some (Some t) }) }"

definition find_first_blocking_thread :: "addr \<Rightarrow> kstate \<Rightarrow> addr option option" where
  "find_first_blocking_thread m st = find_waiting st MutexHead m"

text \<open>
  \<^verbatim>\<open>sys_pthread_mutex_unlock\<close> up to the wake-up of a waiter: an error (the mutex counts waiters, and
  there is none), or the waiter that was woken up, if any.
\<close>

datatype wake = No_waiter | Woken "addr option"

definition mutex_unlock_wake :: "addr \<Rightarrow> kstate \<Rightarrow> (wake \<times> kstate) option" where
  "mutex_unlock_wake m st = do {
     let st = add_val m (- 1) st;
     if mutex_val st m \<ge> 0 then do {
       w \<leftarrow> find_first_blocking_thread m st;
       (case w of
          None \<Rightarrow> Some (No_waiter, st)
        | Some waiter \<Rightarrow> do {
            h \<leftarrow> list_del (klinks st) (Node (TiQ waiter));
            (r, st) \<leftarrow> sched_enqueue (st\<lparr>klinks := h\<rparr>) waiter;
            Some (Woken (Some waiter), st) }) }
     else Some (Woken None, st) }"

definition sys_pthread_mutex_unlock :: "addr \<Rightarrow> kstate \<Rightarrow> (outcome \<times> kstate) option" where
  "sys_pthread_mutex_unlock m st = do {
     (w, st) \<leftarrow> mutex_unlock_wake m st;
     (case w of
        No_waiter \<Rightarrow> Some (Returned (- 1), st)
      | Woken waiter \<Rightarrow>
          if ti_state (threads st (cur st)) = THREAD_STATE_BLOCKED then do {
            (r, st) \<leftarrow> sched_elect SCHED_OPT_NONE st;
            Some (returns_0 r, st) }
          else if (case waiter of None \<Rightarrow> False
                   | Some t \<Rightarrow> ti_priority (threads st (cur st)) \<le> ti_priority (threads st t)) then do {
            (r, st) \<leftarrow> sched_enqueue st (cur st);
            (r, st) \<leftarrow> sched_elect SCHED_OPT_NONE st;
            Some (returns_0 r, st) }
          else Some (Returned 0, st)) }"

section \<open>Condition variables\<close>

definition find_other_thread :: "addr \<Rightarrow> kstate \<Rightarrow> addr option option" where
  "find_other_thread c st = find_waiting st CondHead c"

definition pop_frame :: "addr \<Rightarrow> kstate \<Rightarrow> kstate" where
  "pop_frame t st = st\<lparr>kstack := (kstack st)(t := tl (kstack st t))\<rparr>"

text \<open>While \<^verbatim>\<open>sys_pthread_cond_wait\<close> unlocks the mutex, it still has to lock it again.\<close>

definition sys_pthread_cond_wait :: "addr \<Rightarrow> addr \<Rightarrow> kstate \<Rightarrow> (outcome \<times> kstate) option" where
  "sys_pthread_cond_wait c m st = do {
     let curr_thread = cur st;
     let st = set_ti_private curr_thread c st;
     let st = set_ti_state curr_thread THREAD_STATE_BLOCKED st;
     h \<leftarrow> list_add_tail (klinks st) (Node (TiQ curr_thread)) (Node CondHead);
     let st = push_frame curr_thread (K_cond_lock m) (st\<lparr>klinks := h\<rparr>);
     (r, st) \<leftarrow> sys_pthread_mutex_unlock m st;
     (case r of
        Switched \<Rightarrow> Some (Switched, st)
      | Returned _ \<Rightarrow> do {
          (r, st) \<leftarrow> sys_pthread_mutex_lock m (pop_frame curr_thread st);
          Some (returns_0 r, st) }) }"

definition sys_pthread_cond_signal :: "addr \<Rightarrow> kstate \<Rightarrow> (outcome \<times> kstate) option" where
  "sys_pthread_cond_signal c st = do {
     w \<leftarrow> find_other_thread c st;
     (case w of
        None \<Rightarrow> Some (Returned 0, st)
      | Some other \<Rightarrow> do {
          h \<leftarrow> list_del (klinks st) (Node (TiQ other));
          (r, st) \<leftarrow> sched_enqueue (st\<lparr>klinks := h\<rparr>) other;
          if ti_priority (threads st other) \<ge> ti_priority (threads st (cur st)) then do {
            (r, st) \<leftarrow> sched_enqueue st (cur st);
            (r, st) \<leftarrow> sched_elect SCHED_OPT_NONE st;
            Some (returns_0 r, st) }
          else Some (Returned 0, st) }) }"

text \<open>A resumed thread executes its topmost frame.\<close>

definition run_frame :: "kstate \<Rightarrow> (outcome \<times> kstate) option" where
  "run_frame st =
     (case kstack st (cur st) of
        [] \<Rightarrow> None
      | K_elect # fs \<Rightarrow>
          Some (Returned 0, set_ti_state (cur st) THREAD_STATE_RUNNING (pop_frame (cur st) st))
      | K_cond_lock m # fs \<Rightarrow> sys_pthread_mutex_lock m (pop_frame (cur st) st)
      | K_join other retval # fs \<Rightarrow>
          Some (Returned 0, (pop_frame (cur st) st)\<lparr>user_mem :=
            (user_mem st)(retval := ti_retval (threads st other))\<rparr>))"

section \<open>The invariant\<close>

definition wait_rings :: "(knode \<Rightarrow> knode list option) \<Rightarrow> addr list \<Rightarrow> addr list \<Rightarrow> knode \<Rightarrow> knode list option" where
  "wait_rings M W V = M(MutexHead \<mapsto> map TiQ W, CondHead \<mapsto> map TiQ V)"

definition waiters :: "kstate \<Rightarrow> addr list \<Rightarrow> addr \<Rightarrow> addr list" where
  "waiters st W v = filter (\<lambda>t. ti_private (threads st t) = v) W"

definition mutex_inv :: "kstate \<Rightarrow> addr list \<Rightarrow> bool" where
  "mutex_inv st W \<longleftrightarrow> (\<forall>m. mutex_val st m = int (length (waiters st W m)) \<or>
     (mutex_val st m = - 1 \<and> waiters st W m = []))"

text \<open>The part of the invariant that does not mention the running thread.\<close>

definition queues_inv ::
    "kstate \<Rightarrow> runqs \<Rightarrow> addr list \<Rightarrow> addr list \<Rightarrow> (knode \<Rightarrow> knode list option) \<Rightarrow> bool" where
  "queues_inv st R W V M \<longleftrightarrow>
     sched_rep st R (wait_rings M W V) \<and> sched st = Some SCHED_CLASS_BITMAP \<and> maps_ok st \<and>
     (\<forall>t. canary_ok st t) \<and>
     (\<forall>t\<in>set W \<union> set V. prio_ok st t \<and> t \<noteq> thread_idle st) \<and>
     (\<forall>b p t. p < 32 \<longrightarrow> t \<in> set (R b p) \<longrightarrow> ti_state (threads st t) \<noteq> THREAD_STATE_BLOCKED) \<and>
     mutex_inv st W"

definition kernel_inv ::
    "kstate \<Rightarrow> runqs \<Rightarrow> addr list \<Rightarrow> addr list \<Rightarrow> (knode \<Rightarrow> knode list option) \<Rightarrow> bool" where
  "kernel_inv st R W V M \<longleftrightarrow> queues_inv st R W V M \<and>
     (cur st \<noteq> thread_idle st \<longrightarrow> \<not> queued R (wait_rings M W V) (cur st) \<and> prio_ok st (cur st) \<and>
        ti_state (threads st (cur st)) \<noteq> THREAD_STATE_BLOCKED)"

lemma waiters_Cons:
  assumes "waiters st W m = t # ts"
  shows "t \<in> set W" "ti_private (threads st t) = m"
proof -
  have "t \<in> set (waiters st W m)" using assms by simp
  then show "t \<in> set W" "ti_private (threads st t) = m" by (simp_all add: waiters_def)
qed

lemma frame_eq_fields:
  assumes "frame_eq st st'"
  shows "thread_idle st' = thread_idle st" "mutex_val st' = mutex_val st" "sched st' = sched st"
    "prio_ok st' t = prio_ok st t" "canary_ok st' t = canary_ok st t" "waiters st' W m = waiters st W m"
    "ti_priority (threads st' t) = ti_priority (threads st t)" "mutex_inv st' W = mutex_inv st W"
proof -
  have d: "same_threads st st'" and v: "mutex_val st' = mutex_val st" using assms by (simp_all add: frame_eq_def)
  show "waiters st' W m = waiters st W m" for W m by (simp add: waiters_def same_threadsD(2) [OF d])
  then show "mutex_inv st' W = mutex_inv st W" by (simp add: mutex_inv_def v)
  show "thread_idle st' = thread_idle st" "mutex_val st' = mutex_val st" "sched st' = sched st"
    using assms by (simp_all add: frame_eq_def)
  show "prio_ok st' t = prio_ok st t" "canary_ok st' t = canary_ok st t"
    "ti_priority (threads st' t) = ti_priority (threads st t)"
    by (simp_all add: canary_ok_def same_threadsD [OF d])
qed

text \<open>The invariant of the queues after a step that moved threads between run queues.\<close>

lemma queues_inv_step:
  assumes "queues_inv st R W V M" "frame_eq st st'" "sched_rep st' R' (wait_rings M W V)" "maps_ok st'"
    and "\<And>b p t. p < 32 \<Longrightarrow> t \<in> set (R' b p) \<Longrightarrow> ti_state (threads st' t) \<noteq> THREAD_STATE_BLOCKED"
  shows "queues_inv st' R' W V M"
proof -
  have "canary_ok st' = canary_ok st" by (rule ext) (rule frame_eq_fields [OF assms(2)])
  then show ?thesis
    using assms(1,3-5) unfolding queues_inv_def by (auto simp: frame_eq_fields [OF assms(2)])
qed

text \<open>A call leaves the frames of all threads alone, or suspends the running one in \<^verbatim>\<open>sched_elect\<close>.\<close>

definition stack_step :: "kstate \<Rightarrow> kstate \<Rightarrow> bool" where
  "stack_step st st' \<longleftrightarrow> kstack st' = kstack st \<or>
     kstack st' = (kstack st)(cur st := K_elect # kstack st (cur st))"

text \<open>All threads but the idle one: the running thread, the ready threads, the waiting threads.\<close>

definition ready :: "runqs \<Rightarrow> addr set" where
  "ready R = {t. \<exists>b p. p < 32 \<and> t \<in> set (R b p)}"

definition alive :: "kstate \<Rightarrow> runqs \<Rightarrow> addr list \<Rightarrow> addr list \<Rightarrow> addr set" where
  "alive st R W V = ({cur st} - {thread_idle st}) \<union> ready R \<union> set W \<union> set V"

lemma ready_append: "p < 32 \<Longrightarrow> ready (append_at R b p t) = insert t (ready R)"
proof -
  assume "p < 32"
  moreover have "u \<in> set (append_at R b p t c q) \<longleftrightarrow> u \<in> set (R c q) \<or> (c = b \<and> q = p \<and> u = t)" for u c q
    by (auto simp: append_at_def)
  ultimately show ?thesis by (auto simp: ready_def)
qed

lemma ready_insert:
  assumes "\<And>t c p. t \<in> set (R c p) \<longleftrightarrow> t \<in> set (Q c p) \<or> (c = b \<and> p = f \<and> t = h)" "f < 32"
  shows "insert h (ready Q) = ready R"
  using assms(2) by (auto simp: ready_def assms(1))

lemma ready_pop:
  assumes "flat (R b) \<noteq> []"
  shows "insert (hd (flat (R b))) (ready (R(b := pop_first (R b)))) = ready R"
proof (rule ready_insert)
  let ?f = "first_prio (R b)"
  show "?f < 32" using flat_first [OF assms] by blast
  have "set (R b ?f) = insert (hd (flat (R b))) (set (tl (R b ?f)))"
    using flat_first [OF assms] by (metis list.simps(15))
  then show "t \<in> set (R c p) \<longleftrightarrow> t \<in> set ((R(b := pop_first (R b))) c p) \<or>
      (c = b \<and> p = ?f \<and> t = hd (flat (R b)))" for t c p
    by (simp only: fun_upd_apply pop_first_def split: if_split) blast
qed

lemma ready_pick:
  assumes "pick a R idle = (nxt, b, R')" "idle \<notin> ready R"
  shows "({nxt} - {idle}) \<union> ready R' = ready R"
proof (cases "flat (R b) = []")
  case False
  then have "nxt = hd (flat (R b))" "R' = R(b := pop_first (R b))"
    using assms by (auto simp: pick_def split: if_splits)
  then show ?thesis using ready_pop [of R b] False assms(2) by auto
next
  case True
  then have "nxt = idle" "R' = R" using assms by (auto simp: pick_def split: if_splits)
  then show ?thesis by auto
qed

lemma idle_not_ready: "queues_inv st R W V M \<Longrightarrow> thread_idle st \<notin> ready R"
proof -
  assume "queues_inv st R W V M"
  then have "sched_rep st R (wait_rings M W V)" by (simp add: queues_inv_def)
  then show ?thesis using sched_repD(6) by (fastforce simp: ready_def)
qed

lemma alive_elect:
  assumes "queues_inv st R W V M" "pick (sched_active st) R (thread_idle st) = (nxt, b, R')"
    "cur st' = nxt" "thread_idle st' = thread_idle st"
  shows "alive st' R' W V = ready R \<union> set W \<union> set V"
  using ready_pick [OF assms(2) idle_not_ready [OF assms(1)]] assms(3,4) by (simp add: alive_def)

lemma queues_elect:
  assumes inv: "queues_inv st R W V M" and p: "pick (sched_active st) R (thread_idle st) = (nxt, b, R')"
  shows "\<exists>out st'. sched_elect SCHED_OPT_NONE st = Some (out, st') \<and> kernel_inv st' R' W V M \<and> cur st' = nxt \<and>
    (out = Switched \<longleftrightarrow> nxt \<noteq> cur st) \<and> (out \<noteq> Switched \<longrightarrow> out = Returned 0) \<and> frame_eq st st' \<and>
    kstack st' = (if nxt \<noteq> cur st then (kstack st)(cur st := K_elect # kstack st (cur st)) else kstack st)"
proof -
  let ?M = "wait_rings M W V"
  have rep: "sched_rep st R ?M" and cls: "sched st = Some SCHED_CLASS_BITMAP" and can: "canary_ok st (cur st)"
    using inv by (auto simp: queues_inv_def)
  have none: "SCHED_OPT_NONE \<noteq> SCHED_OPT_TICK" "SCHED_OPT_NONE \<noteq> SCHED_OPT_RESTORE_ONLY"
    by (simp_all add: SCHED_OPT_NONE_def SCHED_OPT_TICK_def SCHED_OPT_RESTORE_ONLY_def)
  have ae: "after_elect SCHED_OPT_NONE st R' b = R'" using none by (simp add: after_elect_def)
  obtain out st' where e: "sched_elect SCHED_OPT_NONE st = Some (out, st')" "sched_rep st' R' ?M" "cur st' = nxt"
    "nxt \<noteq> thread_idle st \<longrightarrow> \<not> queued R' ?M nxt" "out = Switched \<longleftrightarrow> nxt \<noteq> cur st" "out \<noteq> Switched \<longrightarrow> out = Returned 0"
    "frame_eq st st'" "kstack st' = (if nxt \<noteq> cur st then (kstack st)(cur st := K_elect # kstack st (cur st)) else kstack st)"
    "out = Returned 0 \<longrightarrow> ti_state (threads st' (cur st)) = THREAD_STATE_RUNNING"
    "\<forall>u. u \<noteq> cur st \<longrightarrow> threads st' u = threads st u" "out = Switched \<longrightarrow> threads st' = threads st"
    "maps_ok st \<longrightarrow> maps_ok st'"
    using sched_elect_rep [OF rep cls can _ p, of SCHED_OPT_NONE] none unfolding ae by auto
  note f = frame_eq_fields [OF e(7)]
  have st_ne: "ti_state (threads st' u) \<noteq> THREAD_STATE_BLOCKED" if "ti_state (threads st u) \<noteq> THREAD_STATE_BLOCKED" for u
    using that e(6,9-11) by (cases "out = Switched"; cases "u = cur st") auto
  have "queues_inv st' R' W V M"
  proof (rule queues_inv_step [OF inv e(7,2)])
    show "maps_ok st'" using e(12) inv by (simp add: queues_inv_def)
    fix c q u assume "q < 32" "u \<in> set (R' c q)"
    then have "ti_state (threads st u) \<noteq> THREAD_STATE_BLOCKED"
      using pick_sub [OF p, of c q] inv unfolding queues_inv_def by blast
    then show "ti_state (threads st' u) \<noteq> THREAD_STATE_BLOCKED" by (rule st_ne)
  qed
  moreover have "prio_ok st' nxt \<and> ti_state (threads st' nxt) \<noteq> THREAD_STATE_BLOCKED" if idle: "nxt \<noteq> thread_idle st"
  proof -
    obtain q where q: "q < 32" "nxt \<in> set (R b q)" using pick_from [OF p idle] by blast
    then have "ti_priority (threads st nxt) = int q" using sched_repD(5) [OF rep] by blast
    then show ?thesis using q inv f(4) st_ne by (auto simp: queues_inv_def prio_ok_def)
  qed
  ultimately have "kernel_inv st' R' W V M" using e(3,4) f(1) by (simp add: kernel_inv_def)
  then show ?thesis using e by blast
qed

text \<open>Moving a thread out of its wait list into the run queue.\<close>

lemma queues_enqueue:
  assumes inv: "queues_inv st R W V M" and t: "\<not> queued R (wait_rings M W V) t" "t \<noteq> thread_idle st" "prio_ok st t"
  shows "\<exists>st'. sched_enqueue st t = Some (0, st') \<and>
    queues_inv st' (append_at R (sched_active st) (prio_index st t) t) W V M \<and> frame_eq st st' \<and>
    cur st' = cur st \<and> kstack st' = kstack st \<and> sched_active st' = sched_active st \<and>
    (\<forall>u. u \<noteq> t \<longrightarrow> threads st' u = threads st u)"
proof -
  let ?M = "wait_rings M W V" and ?R = "append_at R (sched_active st) (prio_index st t) t"
  have rep: "sched_rep st R ?M" and cls: "sched st = Some SCHED_CLASS_BITMAP" and mo: "maps_ok st"
    using inv by (auto simp: queues_inv_def)
  obtain st' where e: "sched_enqueue st t = Some (0, st')" "sched_rep st' ?R ?M" "frame_eq st st'" "cur st' = cur st"
    "kstack st' = kstack st" "sched_active st' = sched_active st" "maps_ok st \<longrightarrow> maps_ok st'"
    "threads st' = (threads st)(t := (threads st t)\<lparr>ti_state := map_actived (sched_map st)\<rparr>)"
    using sched_enqueue_rep [OF rep t cls] by auto
  have "ti_state (threads st' u) \<noteq> THREAD_STATE_BLOCKED" if "q < 32" "u \<in> set (?R c q)" for c q u
    using that inv mo e(8) by (auto simp: append_at_def queues_inv_def maps_ok_def split: if_splits)
  then have "queues_inv st' ?R W V M"
    using e(7) mo by (intro queues_inv_step [OF inv e(3,2)]) auto
  then show ?thesis using e by auto
qed

section \<open>Wait lists\<close>

lemma run_rings_wait:
  "run_rings R (wait_rings M W V) MutexHead = Some (map TiQ W)"
  "run_rings R (wait_rings M W V) CondHead = Some (map TiQ V)"
  "(run_rings R (wait_rings M W V))(MutexHead \<mapsto> map TiQ W') = run_rings R (wait_rings M W' V)"
  "(run_rings R (wait_rings M W V))(CondHead \<mapsto> map TiQ V') = run_rings R (wait_rings M W V')"
proof -
  show "run_rings R (wait_rings M W V) MutexHead = Some (map TiQ W)"
    "run_rings R (wait_rings M W V) CondHead = Some (map TiQ V)" by (simp_all add: wait_rings_def)
  show "(run_rings R (wait_rings M W V))(MutexHead \<mapsto> map TiQ W') = run_rings R (wait_rings M W' V)"
    by (rule ext, rename_tac n, case_tac n) (auto simp: wait_rings_def)
  show "(run_rings R (wait_rings M W V))(CondHead \<mapsto> map TiQ V') = run_rings R (wait_rings M W V')"
    by (rule ext, rename_tac n, case_tac n) (auto simp: wait_rings_def)
qed

lemma queued_wait:
  "t \<in> set W \<Longrightarrow> queued R (wait_rings M W V) t" "t \<in> set V \<Longrightarrow> queued R (wait_rings M W V) t"
  "p < 32 \<Longrightarrow> t \<in> set (R b p) \<Longrightarrow> queued R (wait_rings M W V) t"
proof -
  show "queued R (wait_rings M W V) t" if "t \<in> set W"
    unfolding queued_def ring_nodes_iff using run_rings_wait(1) that by fastforce
  show "queued R (wait_rings M W V) t" if "t \<in> set V"
    unfolding queued_def ring_nodes_iff using run_rings_wait(2) that by fastforce
  show "queued R (wait_rings M W V) t" if "p < 32" "t \<in> set (R b p)"
    using that unfolding queued_iff by blast
qed

lemma queues_inv_fields [simp]:
  "queues_inv (st\<lparr>kstack := k\<rparr>) R W V M \<longleftrightarrow> queues_inv st R W V M"
  "queues_inv (st\<lparr>user_mem := u\<rparr>) R W V M \<longleftrightarrow> queues_inv st R W V M"
  "queues_inv (push_frame t f st) R W V M \<longleftrightarrow> queues_inv st R W V M"
  "queues_inv (pop_frame t st) R W V M \<longleftrightarrow> queues_inv st R W V M"
proof -
  have "canary_ok (st\<lparr>kstack := k\<rparr>) = canary_ok st" "canary_ok (st\<lparr>user_mem := u\<rparr>) = canary_ok st"
    "prio_ok (st\<lparr>kstack := k\<rparr>) = prio_ok st" "prio_ok (st\<lparr>user_mem := u\<rparr>) = prio_ok st" for k u
    by (simp_all add: fun_eq_iff canary_ok_def prio_ok_def)
  then show "queues_inv (st\<lparr>kstack := k\<rparr>) R W V M \<longleftrightarrow> queues_inv st R W V M"
    "queues_inv (st\<lparr>user_mem := u\<rparr>) R W V M \<longleftrightarrow> queues_inv st R W V M" for k u
    by (simp_all add: queues_inv_def maps_ok_def mutex_inv_def waiters_def)
  then show "queues_inv (push_frame t f st) R W V M \<longleftrightarrow> queues_inv st R W V M"
    "queues_inv (pop_frame t st) R W V M \<longleftrightarrow> queues_inv st R W V M"
    by (simp_all add: push_frame_def pop_frame_def)
qed

text \<open>The running thread, marked as blocked, goes to the end of one of the wait lists.\<close>

definition block_on :: "addr \<Rightarrow> kstate \<Rightarrow> kstate" where
  "block_on v st = set_ti_state (cur st) THREAD_STATE_BLOCKED (set_ti_private (cur st) v st)"

lemma block_on_facts:
  assumes "t \<noteq> cur st"
  shows "threads (block_on v st) t = threads st t"
  using assms by (simp add: block_on_def set_ti_private_def)

lemma block_on_fields [simp]:
  "klinks (block_on v st) = klinks st" "cur (block_on v st) = cur st" "thread_idle (block_on v st) = thread_idle st"
  "banks (block_on v st) = banks st" "sched_active (block_on v st) = sched_active st"
  "sched_expire (block_on v st) = sched_expire st" "sched (block_on v st) = sched st"
  "mutex_val (block_on v st) = mutex_val st" "kstack (block_on v st) = kstack st"
  "maps_ok (block_on v st) = maps_ok st" "canary_ok (block_on v st) = canary_ok st"
  "prio_ok (block_on v st) = prio_ok st" "ti_state (threads (block_on v st) (cur st)) = THREAD_STATE_BLOCKED"
  "ti_private (threads (block_on v st) (cur st)) = v"
  "ti_priority (threads (block_on v st) t) = ti_priority (threads st t)"
  by (auto simp: block_on_def set_ti_private_def maps_ok_def canary_ok_def prio_ok_def fun_eq_iff)

lemma waiters_block_on:
  assumes "cur st \<notin> set W"
  shows "waiters (block_on v st) W m = waiters st W m"
    "waiters (block_on v st) (W @ [cur st]) m = waiters st W m @ (if m = v then [cur st] else [])"
proof -
  have "ti_private (threads (block_on v st) t) = ti_private (threads st t)" if "t \<in> set W" for t
    using that assms block_on_facts [of t st v] by (cases "t = cur st") auto
  then show *: "waiters (block_on v st) W m = waiters st W m" by (auto simp: waiters_def intro: filter_cong)
  then show "waiters (block_on v st) (W @ [cur st]) m = waiters st W m @ (if m = v then [cur st] else [])"
    by (simp add: waiters_def)
qed

lemma run_not_blocked:
  assumes inv: "kernel_inv st R W V M" and "cur st \<noteq> thread_idle st" "p < 32" "t \<in> set (R b p)"
  shows "ti_state (threads (block_on v st) t) \<noteq> THREAD_STATE_BLOCKED" "t \<noteq> cur st"
proof -
  show "t \<noteq> cur st" using assms queued_wait(3) [of p t R b] by (auto simp: kernel_inv_def)
  then show "ti_state (threads (block_on v st) t) \<noteq> THREAD_STATE_BLOCKED"
    using assms block_on_facts by (simp add: kernel_inv_def queues_inv_def)
qed

lemma block_on_mutex:
  assumes inv: "kernel_inv st R W V M" and run: "cur st \<noteq> thread_idle st" and held: "mutex_val st m \<noteq> - 1"
  shows "\<exists>h. list_add_tail (klinks st) (Node (TiQ (cur st))) (Node MutexHead) = Some h \<and>
    queues_inv ((block_on m (add_val m 1 st))\<lparr>klinks := h\<rparr>) R (W @ [cur st]) V M"
proof -
  have notq: "\<not> queued R (wait_rings M W V) (cur st)" and ok: "prio_ok st (cur st)"
    using inv run by (auto simp: kernel_inv_def)
  have rep: "sched_rep st R (wait_rings M W V)" using inv by (simp add: kernel_inv_def queues_inv_def)
  have curW: "cur st \<notin> set W" using notq queued_wait(1) by blast
  obtain h where h: "list_add_tail (klinks st) (Node (TiQ (cur st))) (Node MutexHead) = Some h"
    "lists h (run_rings R (wait_rings M (W @ [cur st]) V))"
    using lists_list_add_tail [OF sched_repD(2) [OF rep] run_rings_wait(1), of "TiQ (cur st)"] notq
      run_rings_wait(3) [of R M W V "W @ [cur st]"] by (auto simp: queued_def)
  let ?st = "(block_on m (add_val m 1 st))\<lparr>klinks := h\<rparr>"
  have val: "mutex_val st m = int (length (waiters st W m))"
    using inv held by (auto simp: kernel_inv_def queues_inv_def mutex_inv_def)
  have w: "waiters ?st (W @ [cur st]) x = waiters st W x @ (if x = m then [cur st] else [])" for x
    using waiters_block_on(2) [of "add_val m 1 st" W m x] curW by (simp add: waiters_def add_val_def)
  have "mutex_inv ?st (W @ [cur st])"
    using inv val unfolding mutex_inv_def w by (auto simp: kernel_inv_def queues_inv_def mutex_inv_def add_val_def)
  moreover have "sched_rep ?st R (wait_rings M (W @ [cur st]) V)"
    using rep h(2) by (simp add: sched_rep_def add_val_def)
  moreover have "canary_ok ?st = canary_ok st" "prio_ok ?st = prio_ok st" "maps_ok ?st = maps_ok st"
    by (auto simp: fun_eq_iff canary_ok_def prio_ok_def maps_ok_def block_on_def set_ti_private_def add_val_def)
  moreover have "ti_state (threads ?st t) \<noteq> THREAD_STATE_BLOCKED" if "p < 32" "t \<in> set (R b p)" for b p t
    using run_not_blocked(1) [OF inv run that, of m] by (simp add: block_on_def set_ti_private_def add_val_def)
  ultimately have "queues_inv ?st R (W @ [cur st]) V M"
    using inv ok run by (auto simp: queues_inv_def kernel_inv_def add_val_def)
  with h(1) show ?thesis by blast
qed

lemma pick_not_cur:
  assumes "\<not> queued R M t" "t \<noteq> idle" "pick a R idle = (nxt, b, R')"
  shows "nxt \<noteq> t"
  using assms queued_picked [OF assms(3)] by metis

lemma mutex_lock_rep:
  assumes inv: "kernel_inv st R W V M" and run: "cur st \<noteq> thread_idle st"
  shows "\<exists>out st' R' W'. sys_pthread_mutex_lock m st = Some (out, st') \<and> kernel_inv st' R' W' V M \<and>
    mutex_val st' = (mutex_val st)(m := mutex_val st m + 1) \<and> thread_idle st' = thread_idle st \<and>
    (if mutex_val st m = - 1 then out = Returned 0 \<and> W' = W \<and> R' = R \<and> st' = add_val m 1 st
     else out = Switched \<and> W' = W @ [cur st] \<and> (cur st', R') = (fst (pick (sched_active st) R (thread_idle st)),
         snd (snd (pick (sched_active st) R (thread_idle st)))) \<and> cur st' \<noteq> cur st \<and>
       ti_private (threads st' (cur st)) = m \<and>
       (\<forall>t. t \<noteq> cur st \<longrightarrow> ti_private (threads st' t) = ti_private (threads st t)) \<and>
       kstack st' = (kstack st)(cur st := K_elect # kstack st (cur st)))"
proof (cases "mutex_val st m = - 1")
  case True
  let ?st = "add_val m 1 st"
  have "waiters st W m = []" using inv True
    by (auto simp: kernel_inv_def queues_inv_def mutex_inv_def dest: spec [of _ m])
  then have "mutex_inv ?st W" using inv True
    by (auto simp: kernel_inv_def queues_inv_def mutex_inv_def add_val_def waiters_def)
  moreover have "canary_ok ?st = canary_ok st" "prio_ok ?st = prio_ok st" "maps_ok ?st = maps_ok st"
    by (auto simp: fun_eq_iff canary_ok_def prio_ok_def maps_ok_def add_val_def)
  ultimately have "kernel_inv ?st R W V M"
    using inv by (simp add: kernel_inv_def queues_inv_def) (simp add: add_val_def)
  then show ?thesis using True
    by (intro exI [of _ "Returned 0"] exI [of _ ?st] exI [of _ R] exI [of _ W])
      (simp add: sys_pthread_mutex_lock_def add_val_def)
next
  case False
  obtain h where h: "list_add_tail (klinks st) (Node (TiQ (cur st))) (Node MutexHead) = Some h"
    "queues_inv ((block_on m (add_val m 1 st))\<lparr>klinks := h\<rparr>) R (W @ [cur st]) V M"
    using block_on_mutex [OF inv run False] by blast
  let ?st = "(block_on m (add_val m 1 st))\<lparr>klinks := h\<rparr>"
  obtain nxt b R' where p: "pick (sched_active st) R (thread_idle st) = (nxt, b, R')" by (metis prod_cases3)
  have p': "pick (sched_active ?st) R (thread_idle ?st) = (nxt, b, R')" using p by (simp add: add_val_def)
  have notq: "\<not> queued R (wait_rings M W V) (cur st)" using inv run by (auto simp: kernel_inv_def)
  have ne: "nxt \<noteq> cur st" by (rule pick_not_cur [OF notq run p])
  obtain out st' where e: "sched_elect SCHED_OPT_NONE ?st = Some (out, st')" "kernel_inv st' R' (W @ [cur st]) V M"
    "cur st' = nxt" "out = Switched \<longleftrightarrow> nxt \<noteq> cur ?st" "frame_eq ?st st'"
    "kstack st' = (if nxt \<noteq> cur ?st then (kstack ?st)(cur ?st := K_elect # kstack ?st (cur ?st)) else kstack ?st)"
    using queues_elect [OF h(2) p'] by blast
  have c: "cur ?st = cur st" "kstack ?st = kstack st" by (simp_all add: add_val_def)
  have prv: "ti_private (threads st' t) = ti_private (threads ?st t)" for t
    using e(5) same_threadsD(2) [of ?st st' t] by (simp add: frame_eq_def)
  have v: "mutex_val st' = (mutex_val st)(m := mutex_val st m + 1)" "thread_idle st' = thread_idle st"
    using e(5) by (simp_all add: frame_eq_def add_val_def)
  have "sys_pthread_mutex_lock m st = Some (Switched, st')"
    using False h(1) e(1,4) ne c
    by (simp add: sys_pthread_mutex_lock_def add_val_def block_on_def set_ti_private_def returns_0_def Let_def)
  moreover have "ti_private (threads ?st (cur st)) = m" "\<And>t. t \<noteq> cur st \<Longrightarrow> ti_private (threads ?st t) = ti_private (threads st t)"
    by (simp_all add: block_on_def set_ti_private_def add_val_def)
  ultimately show ?thesis
    using False e(2,3,6) v ne c p prv
    by (intro exI [of _ Switched] exI [of _ st'] exI [of _ R'] exI [of _ "W @ [cur st]"]) simp
qed

text \<open>The search finds the first waiting thread of the list.\<close>

lemma find_waiting_rep:
  assumes "lists (klinks st) Q" "Q head = Some (map TiQ W)"
  shows "find_waiting st head v = Some (find (\<lambda>t. ti_private (threads st t) = v) W)"
proof -
  have "find (waits_on st v) (map TiQ W) = map_option TiQ (find (\<lambda>t. ti_private (threads st t) = v) W)"
    by (induction W) (auto simp: waits_on_def)
  then show ?thesis
    using lists_search [OF assms, of "waits_on st v"]
    by (cases "find (\<lambda>t. ti_private (threads st t) = v) W") (simp_all add: find_waiting_def)
qed

lemma find_filter: "find P xs = (case filter P xs of [] \<Rightarrow> None | x # _ \<Rightarrow> Some x)"
  by (induction xs) auto

lemma remove1_TiQ: "remove1 (TiQ t) (map TiQ xs) = map TiQ (remove1 t xs)"
  by (induction xs) auto

lemma filter_remove1_first:
  "filter P xs = y # ys \<Longrightarrow> filter P (remove1 y xs) = ys"
proof (induction xs)
  case (Cons x xs)
  have "y \<in> set (filter P (x # xs))" using Cons.prems by simp
  then have "P y" by (simp only: set_filter mem_Collect_eq)
  then show ?case using Cons by (cases "P x") auto
qed simp

lemma filter_remove1_other: "\<not> P y \<Longrightarrow> filter P (remove1 y xs) = filter P xs"
  by (induction xs) auto

text \<open>The two halves of a wake-up: leaving the wait list, entering the run queue.\<close>

lemma leave_mutex_list:
  assumes inv: "queues_inv st R W V M" and t: "t \<in> set W"
    and minv: "mutex_inv st' (remove1 t W)"
    and st': "st' = st\<lparr>mutex_val := mv\<rparr>"
  shows "\<exists>h. list_del (klinks st) (Node (TiQ t)) = Some h \<and>
    queues_inv (st'\<lparr>klinks := h\<rparr>) R (remove1 t W) V M \<and> \<not> queued R (wait_rings M (remove1 t W) V) t"
proof -
  have rep: "sched_rep st R (wait_rings M W V)" using inv by (simp add: queues_inv_def)
  obtain h where h: "list_del (klinks st) (Node (TiQ t)) = Some h"
    "lists h (run_rings R (wait_rings M (remove1 t W) V))"
    "TiQ t \<notin> ring_nodes (run_rings R (wait_rings M (remove1 t W) V))"
    using lists_list_del' [OF sched_repD(2) [OF rep] run_rings_wait(1), of "TiQ t"] t
      run_rings_wait(3) [of R M W V "remove1 t W"] by (auto simp: remove1_TiQ)
  have "sched_rep (st'\<lparr>klinks := h\<rparr>) R (wait_rings M (remove1 t W) V)"
    using rep h(2) st' by (simp add: sched_rep_def)
  moreover have "canary_ok (st'\<lparr>klinks := h\<rparr>) = canary_ok st" "prio_ok (st'\<lparr>klinks := h\<rparr>) = prio_ok st"
    "maps_ok (st'\<lparr>klinks := h\<rparr>) = maps_ok st"
    using st' by (auto simp: fun_eq_iff canary_ok_def prio_ok_def maps_ok_def)
  moreover have "mutex_inv (st'\<lparr>klinks := h\<rparr>) (remove1 t W)"
    using minv by (simp add: mutex_inv_def waiters_def)
  moreover have "set (remove1 t W) \<subseteq> set W" by (rule set_remove1_subset)
  ultimately have "queues_inv (st'\<lparr>klinks := h\<rparr>) R (remove1 t W) V M"
    using inv st' by (auto simp: queues_inv_def)
  with h show ?thesis by (auto simp: queued_def)
qed

lemma mutex_wake_rep:
  assumes inv: "queues_inv st R W V M" and held: "0 \<le> mutex_val st m"
  shows "\<exists>st' R' W'. mutex_unlock_wake m st =
      Some (Woken (case waiters st W m of [] \<Rightarrow> None | t # _ \<Rightarrow> Some t), st') \<and> queues_inv st' R' W' V M \<and>
    mutex_val st' = (mutex_val st)(m := mutex_val st m - 1) \<and> thread_idle st' = thread_idle st \<and>
    cur st' = cur st \<and> kstack st' = kstack st \<and> same_threads st st' \<and> sched_active st' = sched_active st \<and>
    (case waiters st W m of
       [] \<Rightarrow> R' = R \<and> W' = W \<and> threads st' = threads st
     | t # _ \<Rightarrow> R' = append_at R (sched_active st) (prio_index st t) t \<and> W' = remove1 t W \<and>
         (\<forall>u. u \<noteq> t \<longrightarrow> threads st' u = threads st u))"
proof -
  let ?st = "add_val m (- 1) st"
  have val: "mutex_val st m = int (length (waiters st W m))"
    using inv held by (auto simp: queues_inv_def mutex_inv_def dest: spec [of _ m])
  have rep: "sched_rep st R (wait_rings M W V)" using inv by (simp add: queues_inv_def)
  show ?thesis
  proof (cases "waiters st W m")
    case Nil
    then have v: "mutex_val ?st m < 0" using val by (simp add: add_val_def)
    have "mutex_inv ?st W"
      using inv Nil val by (auto simp: queues_inv_def mutex_inv_def add_val_def waiters_def)
    moreover have "canary_ok ?st = canary_ok st" "prio_ok ?st = prio_ok st" "maps_ok ?st = maps_ok st"
      by (auto simp: fun_eq_iff canary_ok_def prio_ok_def maps_ok_def add_val_def)
    ultimately have "queues_inv ?st R W V M"
      using inv by (simp add: queues_inv_def) (simp add: add_val_def)
    moreover have "mutex_unlock_wake m st = Some (Woken None, ?st)" using v by (simp add: mutex_unlock_wake_def)
    ultimately show ?thesis using Nil
      by (intro exI [of _ ?st] exI [of _ R] exI [of _ W]) (simp add: add_val_def same_threads_eq)
  next
    case (Cons t ts)
    then have v: "0 \<le> mutex_val ?st m" using val by (simp add: add_val_def)
    have tW: "t \<in> set W" and prv: "ti_private (threads st t) = m"
      using waiters_Cons [OF Cons] by auto
    have w': "waiters ?st (remove1 t W) x = (if x = m then ts else waiters st W x)" for x
      using Cons prv filter_remove1_first [of _ W t ts] filter_remove1_other [of _ t W]
      by (auto simp: waiters_def add_val_def)
    have minv: "mutex_inv ?st (remove1 t W)"
      unfolding mutex_inv_def w' using inv Cons val by (auto simp: queues_inv_def mutex_inv_def add_val_def)
    obtain h where h: "list_del (klinks st) (Node (TiQ t)) = Some h"
      "queues_inv (?st\<lparr>klinks := h\<rparr>) R (remove1 t W) V M" "\<not> queued R (wait_rings M (remove1 t W) V) t"
      using leave_mutex_list [OF inv tW minv] by (auto simp: add_val_def)
    have ok: "prio_ok (?st\<lparr>klinks := h\<rparr>) t" "t \<noteq> thread_idle (?st\<lparr>klinks := h\<rparr>)"
      using inv tW by (auto simp: queues_inv_def prio_ok_def add_val_def)
    obtain st' where s: "sched_enqueue (?st\<lparr>klinks := h\<rparr>) t = Some (0, st')"
      "queues_inv st' (append_at R (sched_active st) (prio_index st t) t) (remove1 t W) V M"
      "frame_eq (?st\<lparr>klinks := h\<rparr>) st'" "cur st' = cur st" "kstack st' = kstack st"
      "sched_active st' = sched_active st" "\<forall>u. u \<noteq> t \<longrightarrow> threads st' u = threads st u"
      using queues_enqueue [OF h(2,3) ok(2,1)] by (auto simp: add_val_def prio_index_def)
    have "find_first_blocking_thread m ?st = Some (Some t)"
      using find_waiting_rep [of ?st "run_rings R (wait_rings M W V)" MutexHead W m] sched_repD(2) [OF rep]
        run_rings_wait(1) Cons
      by (simp add: find_first_blocking_thread_def add_val_def find_filter waiters_def)
    then have "mutex_unlock_wake m st = Some (Woken (Some t), st')"
      using v h(1) s(1) by (simp add: mutex_unlock_wake_def add_val_def)
    moreover have "mutex_val st' = (mutex_val st)(m := mutex_val st m - 1)" "thread_idle st' = thread_idle st"
      "same_threads st st'" using s(3) by (auto simp: frame_eq_def add_val_def same_threads_def)
    ultimately show ?thesis using Cons s
      by (intro exI [of _ st'] exI [of _ "append_at R (sched_active st) (prio_index st t) t"] exI [of _ "remove1 t W"]) simp
  qed
qed

lemma wait_disjoint:
  assumes "sched_rep st R (wait_rings M W V)"
  shows "set W \<inter> set V = {}"
proof -
  have "set (MutexHead # map TiQ W) \<inter> set (CondHead # map TiQ V) = {}"
    by (rule lists_disjoint [OF sched_repD(2) [OF assms] run_rings_wait(1,2)]) simp
  then show ?thesis by auto
qed

definition after_wake :: "addr list \<Rightarrow> addr list \<Rightarrow> addr list" where
  "after_wake W ws = (case ws of [] \<Rightarrow> W | t # _ \<Rightarrow> remove1 t W)"

text \<open>The running thread gives way: it goes to the end of its run queue and a thread is elected.\<close>

lemma preempt_self:
  assumes inv: "kernel_inv st R W V M" and run: "cur st \<noteq> thread_idle st"
  shows "\<exists>st1 out st' R'. sched_enqueue st (cur st) = Some (0, st1) \<and>
    sched_elect SCHED_OPT_NONE st1 = Some (out, st') \<and> kernel_inv st' R' W V M \<and> frame_eq st st' \<and>
    stack_step st st' \<and> (out = Returned 0 \<or> out = Switched) \<and> (cur st', R') = (let (nxt, b, R') =
      pick (sched_active st) (append_at R (sched_active st) (prio_index st (cur st)) (cur st)) (thread_idle st) in (nxt, R')) \<and>
    alive st' R' W V = alive st R W V"
proof -
  let ?R = "append_at R (sched_active st) (prio_index st (cur st)) (cur st)"
  have q: "queues_inv st R W V M" and notq: "\<not> queued R (wait_rings M W V) (cur st)" and ok: "prio_ok st (cur st)"
    using inv run by (auto simp: kernel_inv_def)
  obtain st1 where e: "sched_enqueue st (cur st) = Some (0, st1)" "queues_inv st1 ?R W V M" "frame_eq st st1"
    "sched_active st1 = sched_active st" "cur st1 = cur st" "kstack st1 = kstack st"
    using queues_enqueue [OF q notq run ok] by blast
  obtain nxt b R2 where p: "pick (sched_active st) ?R (thread_idle st) = (nxt, b, R2)" by (metis prod_cases3)
  then have p': "pick (sched_active st1) ?R (thread_idle st1) = (nxt, b, R2)"
    using e(3,4) by (simp add: frame_eq_def)
  obtain out st' where s: "sched_elect SCHED_OPT_NONE st1 = Some (out, st')" "kernel_inv st' R2 W V M" "cur st' = nxt"
    "out \<noteq> Switched \<longrightarrow> out = Returned 0" "frame_eq st1 st'"
    "kstack st' = (if nxt \<noteq> cur st1 then (kstack st1)(cur st1 := K_elect # kstack st1 (cur st1)) else kstack st1)"
    using queues_elect [OF e(2) p'] by blast
  have "stack_step st st'" using s(6) e(5,6) by (auto simp: stack_step_def)
  moreover have "alive st' R2 W V = alive st R W V"
  proof -
    have "prio_index st (cur st) < 32" using ok by (rule prio_index_eq)
    moreover have "thread_idle st' = thread_idle st1" "thread_idle st1 = thread_idle st"
      using s(5) e(3) by (simp_all add: frame_eq_def)
    ultimately show ?thesis
      using alive_elect [OF e(2) p' s(3)] run by (simp add: alive_def ready_append)
  qed
  ultimately show ?thesis using s e(1) frame_eq_trans [OF e(3) s(5)] p by auto
qed

text \<open>A woken thread is ready instead of waiting.\<close>

lemma ready_wake:
  assumes "queues_inv st R W V M"
    and "case waiters st L m of [] \<Rightarrow> R' = R | t # _ \<Rightarrow> R' = append_at R a (prio_index st t) t"
    and "L = W \<or> L = V"
  shows "ready R' \<union> set (after_wake L (waiters st L m)) = ready R \<union> set L"
proof (cases "waiters st L m")
  case (Cons t ts)
  then have t: "t \<in> set L" by (rule waiters_Cons)
  then have "prio_index st t < 32" using assms(1,3) by (intro prio_index_eq) (auto simp: queues_inv_def)
  then have "ready R' = insert t (ready R)" using assms(2) Cons by (simp add: ready_append)
  moreover have "insert t (set (remove1 t L)) = set L"
    using t set_remove1_subset [of t L] in_set_remove1 [of _ t L] by blast
  ultimately show ?thesis using Cons by (auto simp: after_wake_def)
qed (use assms in \<open>simp add: after_wake_def\<close>)

lemma mutex_unlock_rep:
  assumes inv: "kernel_inv st R W V M" and run: "cur st \<noteq> thread_idle st" and held: "0 \<le> mutex_val st m"
  shows "\<exists>out st' R'. sys_pthread_mutex_unlock m st = Some (out, st') \<and>
    kernel_inv st' R' (after_wake W (waiters st W m)) V M \<and>
    mutex_val st' = (mutex_val st)(m := mutex_val st m - 1) \<and> thread_idle st' = thread_idle st \<and>
    same_threads st st' \<and> stack_step st st' \<and> (out = Returned 0 \<or> out = Switched) \<and>
    alive st' R' (after_wake W (waiters st W m)) V = alive st R W V"
proof -
  have qinv: "queues_inv st R W V M" and nb: "ti_state (threads st (cur st)) \<noteq> THREAD_STATE_BLOCKED"
    and notq: "\<not> queued R (wait_rings M W V) (cur st)" and ok: "prio_ok st (cur st)"
    using inv run by (auto simp: kernel_inv_def)
  obtain st1 R1 where w: "mutex_unlock_wake m st = Some (Woken (case waiters st W m of [] \<Rightarrow> None | t # _ \<Rightarrow> Some t), st1)"
    "queues_inv st1 R1 (after_wake W (waiters st W m)) V M"
    "mutex_val st1 = (mutex_val st)(m := mutex_val st m - 1)" "thread_idle st1 = thread_idle st"
    "cur st1 = cur st" "same_threads st st1" "kstack st1 = kstack st"
    "case waiters st W m of [] \<Rightarrow> R1 = R \<and> threads st1 = threads st
     | t # _ \<Rightarrow> R1 = append_at R (sched_active st) (prio_index st t) t \<and> (\<forall>u. u \<noteq> t \<longrightarrow> threads st1 u = threads st u)"
    using mutex_wake_rep [OF qinv held] by (cases "waiters st W m") (auto simp: after_wake_def)
  let ?W = "after_wake W (waiters st W m)"
  have sub: "set ?W \<subseteq> set W" by (cases "waiters st W m") (simp_all add: after_wake_def set_remove1_subset)
  have wcur: "t \<noteq> cur st" if "waiters st W m = t # ts" for t ts
    using waiters_Cons(1) [OF that] notq queued_wait(1) [of t W] by auto
  have nb1: "ti_state (threads st1 (cur st1)) \<noteq> THREAD_STATE_BLOCKED"
    using w(5,8) nb wcur by (cases "waiters st W m") auto
  have notq1: "\<not> queued R1 (wait_rings M ?W V) (cur st)"
  proof -
    have "\<not> queued R (wait_rings M ?W V) (cur st)"
    proof
      assume "queued R (wait_rings M ?W V) (cur st)"
      then have "queued R (wait_rings M W V) (cur st)"
        unfolding queued_iff using sub by (auto simp: wait_rings_def split: if_splits) blast+
      with notq show False ..
    qed
    then show ?thesis using w(8) wcur by (cases "waiters st W m") (auto simp: queued_append)
  qed
  have live1: "alive st1 R1 ?W V = alive st R W V"
  proof -
    have "ready R1 \<union> set ?W = ready R \<union> set W"
      using ready_wake [OF qinv, where R' = R1 and L = W and m = m and a = "sched_active st"] w(8) by (cases "waiters st W m") auto
    then show ?thesis using w(4,5) by (auto simp: alive_def)
  qed
  have kinv1: "kernel_inv st1 R1 ?W V M"
    using w(2,5) nb1 notq1 ok same_threadsD(5) [OF w(6)] by (simp add: kernel_inv_def)
  show ?thesis
  proof (cases "case waiters st W m of [] \<Rightarrow> False | t # _ \<Rightarrow> ti_priority (threads st1 (cur st1)) \<le> ti_priority (threads st1 t)")
    case False
    then have "sys_pthread_mutex_unlock m st = Some (Returned 0, st1)"
      using w(1) nb1 by (cases "waiters st W m") (auto simp: sys_pthread_mutex_unlock_def)
    then show ?thesis using kinv1 w(3,4,6,7) live1 unfolding stack_step_def by blast
  next
    case True
    have "cur st1 \<noteq> thread_idle st1" using w(4,5) run by simp
    then obtain st2 out st' R2 where e: "sched_enqueue st1 (cur st1) = Some (0, st2)"
      "sched_elect SCHED_OPT_NONE st2 = Some (out, st')" "kernel_inv st' R2 ?W V M" "frame_eq st1 st'" "stack_step st1 st'"
      "alive st' R2 ?W V = alive st1 R1 ?W V" using preempt_self [OF kinv1] by blast
    have "sys_pthread_mutex_unlock m st = Some (returns_0 out, st')"
      using w(1) nb1 True e(1,2) by (cases "waiters st W m") (auto simp: sys_pthread_mutex_unlock_def)
    moreover have "returns_0 out = Returned 0 \<or> returns_0 out = Switched"
      by (cases out) (simp_all add: returns_0_def)
    moreover have "mutex_val st' = (mutex_val st)(m := mutex_val st m - 1)" "thread_idle st' = thread_idle st"
      "same_threads st st'"
      using e(4) w(3,4) same_threads_trans [OF w(6)] by (auto simp: frame_eq_def)
    moreover have "stack_step st st'" using e(5) w(5,7) by (simp add: stack_step_def)
    ultimately show ?thesis using e(3,6) live1 by auto
  qed
qed

section \<open>Waiting for and signalling a condition\<close>

lemma block_on_cond:
  assumes inv: "kernel_inv st R W V M" and run: "cur st \<noteq> thread_idle st"
  shows "\<exists>h. list_add_tail (klinks st) (Node (TiQ (cur st))) (Node CondHead) = Some h \<and>
    queues_inv ((block_on c st)\<lparr>klinks := h\<rparr>) R W (V @ [cur st]) M"
proof -
  have notq: "\<not> queued R (wait_rings M W V) (cur st)" and ok: "prio_ok st (cur st)"
    using inv run by (auto simp: kernel_inv_def)
  have rep: "sched_rep st R (wait_rings M W V)" using inv by (simp add: kernel_inv_def queues_inv_def)
  have curW: "cur st \<notin> set W" using notq queued_wait(1) by blast
  obtain h where h: "list_add_tail (klinks st) (Node (TiQ (cur st))) (Node CondHead) = Some h"
    "lists h (run_rings R (wait_rings M W (V @ [cur st])))"
    using lists_list_add_tail [OF sched_repD(2) [OF rep] run_rings_wait(2), of "TiQ (cur st)"] notq
      run_rings_wait(4) [of R M W V "V @ [cur st]"] by (auto simp: queued_def)
  let ?st = "(block_on c st)\<lparr>klinks := h\<rparr>"
  have "waiters ?st W x = waiters st W x" for x
    using waiters_block_on(1) [OF curW, of c x] by (simp add: waiters_def)
  then have "mutex_inv ?st W" using inv by (simp add: kernel_inv_def queues_inv_def mutex_inv_def)
  moreover have "sched_rep ?st R (wait_rings M W (V @ [cur st]))"
    using rep h(2) by (simp add: sched_rep_def)
  moreover have "canary_ok ?st = canary_ok st" "prio_ok ?st = prio_ok st" "maps_ok ?st = maps_ok st"
    by (auto simp: fun_eq_iff canary_ok_def prio_ok_def maps_ok_def block_on_def set_ti_private_def)
  moreover have "ti_state (threads ?st t) \<noteq> THREAD_STATE_BLOCKED" if "p < 32" "t \<in> set (R b p)" for b p t
    using run_not_blocked(1) [OF inv run that, of c] by simp
  ultimately have "queues_inv ?st R W (V @ [cur st]) M"
    using inv ok run by (auto simp: queues_inv_def kernel_inv_def)
  with h(1) show ?thesis by blast
qed

lemma cond_wait_rep:
  assumes inv: "kernel_inv st R W V M" and run: "cur st \<noteq> thread_idle st" and held: "0 \<le> mutex_val st m"
  shows "\<exists>st' R'. sys_pthread_cond_wait c m st = Some (Switched, st') \<and>
    kernel_inv st' R' (after_wake W (waiters st W m)) (V @ [cur st]) M \<and>
    mutex_val st' = (mutex_val st)(m := mutex_val st m - 1) \<and> thread_idle st' = thread_idle st \<and>
    cur st' \<noteq> cur st \<and> ti_private (threads st' (cur st)) = c \<and>
    (\<forall>t. t \<noteq> cur st \<longrightarrow> ti_private (threads st' t) = ti_private (threads st t)) \<and>
    kstack st' = (kstack st)(cur st := K_elect # K_cond_lock m # kstack st (cur st)) \<and>
    alive st' R' (after_wake W (waiters st W m)) (V @ [cur st]) = alive st R W V"
proof -
  obtain h where h: "list_add_tail (klinks st) (Node (TiQ (cur st))) (Node CondHead) = Some h"
    "queues_inv ((block_on c st)\<lparr>klinks := h\<rparr>) R W (V @ [cur st]) M" using block_on_cond [OF inv run] by blast
  define st0 where "st0 = push_frame (cur st) (K_cond_lock m) ((block_on c st)\<lparr>klinks := h\<rparr>)"
  have q0: "queues_inv st0 R W (V @ [cur st]) M" using h(2) by (simp add: st0_def)
  have f0: "mutex_val st0 = mutex_val st" "cur st0 = cur st" "thread_idle st0 = thread_idle st"
    "threads st0 = threads (block_on c st)" "kstack st0 = (kstack st)(cur st := K_cond_lock m # kstack st (cur st))"
    by (simp_all add: st0_def push_frame_def)
  have curW: "cur st \<notin> set W" using inv run queued_wait(1) by (auto simp: kernel_inv_def)
  have ws: "waiters st0 W m = waiters st W m"
    using waiters_block_on(1) [OF curW, of c m] by (simp add: waiters_def f0)
  obtain st1 R1 where w: "mutex_unlock_wake m st0 = Some (Woken (case waiters st W m of [] \<Rightarrow> None | t # _ \<Rightarrow> Some t), st1)"
    "queues_inv st1 R1 (after_wake W (waiters st W m)) (V @ [cur st]) M"
    "mutex_val st1 = (mutex_val st0)(m := mutex_val st0 m - 1)" "thread_idle st1 = thread_idle st0"
    "cur st1 = cur st0" "kstack st1 = kstack st0" "same_threads st0 st1"
    "case waiters st W m of [] \<Rightarrow> threads st1 = threads st0 | t # _ \<Rightarrow> \<forall>u. u \<noteq> t \<longrightarrow> threads st1 u = threads st0 u"
    "case waiters st W m of [] \<Rightarrow> R1 = R | t # _ \<Rightarrow> R1 = append_at R (sched_active st0) (prio_index st0 t) t"
    using mutex_wake_rep [OF q0, of m] held unfolding ws f0(1)
    by (cases "waiters st W m") (auto simp: after_wake_def)
  have blk: "ti_state (threads st1 (cur st1)) = THREAD_STATE_BLOCKED"
  proof (cases "waiters st W m")
    case Nil
    then show ?thesis using w(5,8) f0 by simp
  next
    case (Cons t ts)
    then have "t \<in> set W" by (rule waiters_Cons)
    then have "cur st \<noteq> t" using curW by auto
    then show ?thesis using w(5,8) f0 Cons by simp
  qed
  obtain nxt b R2 where p: "pick (sched_active st1) R1 (thread_idle st1) = (nxt, b, R2)" by (metis prod_cases3)
  have ne: "nxt \<noteq> cur st1"
  proof (cases "nxt = thread_idle st1")
    case False
    then obtain q where "q < 32" "nxt \<in> set (R1 b q)" using pick_from [OF p] by blast
    then show ?thesis using w(2) blk by (auto simp: queues_inv_def)
  qed (use w(4,5) f0 run in auto)
  obtain out st' where s: "sched_elect SCHED_OPT_NONE st1 = Some (out, st')"
    "kernel_inv st' R2 (after_wake W (waiters st W m)) (V @ [cur st]) M" "cur st' = nxt" "out = Switched \<longleftrightarrow> nxt \<noteq> cur st1"
    "frame_eq st1 st'" "kstack st' = (if nxt \<noteq> cur st1 then (kstack st1)(cur st1 := K_elect # kstack st1 (cur st1)) else kstack st1)"
    using queues_elect [OF w(2) p] by blast
  have "alive st' R2 (after_wake W (waiters st W m)) (V @ [cur st]) = alive st R W V"
  proof -
    have "ready R1 \<union> set (after_wake W (waiters st W m)) = ready R \<union> set W"
      using ready_wake [OF q0, where R' = R1 and L = W and m = m and a = "sched_active st0"] w(9) by (simp only: ws) simp
    moreover have "thread_idle st' = thread_idle st1" using s(5) by (simp add: frame_eq_def)
    ultimately show ?thesis using alive_elect [OF w(2) p s(3)] run by (auto simp: alive_def)
  qed
  moreover have "sys_pthread_mutex_unlock m st0 = Some (Switched, st')"
    using w(1) blk s(1,4) ne by (simp add: sys_pthread_mutex_unlock_def returns_0_def)
  then have "sys_pthread_cond_wait c m st = Some (Switched, st')"
    using h(1) by (simp add: sys_pthread_cond_wait_def Let_def block_on_def set_ti_private_def st0_def)
  moreover have "ti_private (threads st' t) = ti_private (threads (block_on c st) t)" for t
    using same_threadsD(2) [OF w(7), of t] same_threadsD(2) [of st1 st' t] s(5) f0(4) by (simp add: frame_eq_def)
  moreover have "kstack st' = (kstack st)(cur st := K_elect # K_cond_lock m # kstack st (cur st))"
    using s(6) ne w(5,6) f0 by simp
  moreover have "mutex_val st' = (mutex_val st)(m := mutex_val st m - 1)" "thread_idle st' = thread_idle st"
    using s(5) w(3,4) f0 by (simp_all add: frame_eq_def)
  ultimately show ?thesis
    using s(2,3) ne w(5) f0(2) block_on_facts [of _ st c]
    by (intro exI [of _ st'] exI [of _ R2]) auto
qed

lemma leave_cond_list:
  assumes inv: "queues_inv st R W V M" and t: "t \<in> set V"
  shows "\<exists>h. list_del (klinks st) (Node (TiQ t)) = Some h \<and>
    queues_inv (st\<lparr>klinks := h\<rparr>) R W (remove1 t V) M \<and> \<not> queued R (wait_rings M W (remove1 t V)) t"
proof -
  have rep: "sched_rep st R (wait_rings M W V)" using inv by (simp add: queues_inv_def)
  obtain h where h: "list_del (klinks st) (Node (TiQ t)) = Some h"
    "lists h (run_rings R (wait_rings M W (remove1 t V)))"
    "TiQ t \<notin> ring_nodes (run_rings R (wait_rings M W (remove1 t V)))"
    using lists_list_del' [OF sched_repD(2) [OF rep] run_rings_wait(2), of "TiQ t"] t
      run_rings_wait(4) [of R M W V "remove1 t V"] by (auto simp: remove1_TiQ)
  have "canary_ok (st\<lparr>klinks := h\<rparr>) = canary_ok st" "prio_ok (st\<lparr>klinks := h\<rparr>) = prio_ok st"
    "maps_ok (st\<lparr>klinks := h\<rparr>) = maps_ok st" "mutex_inv (st\<lparr>klinks := h\<rparr>) W = mutex_inv st W"
    by (auto simp: fun_eq_iff canary_ok_def prio_ok_def maps_ok_def mutex_inv_def waiters_def)
  moreover have "sched_rep (st\<lparr>klinks := h\<rparr>) R (wait_rings M W (remove1 t V))"
    using rep h(2) by (simp add: sched_rep_def)
  moreover have "set (remove1 t V) \<subseteq> set V" by (rule set_remove1_subset)
  ultimately have "queues_inv (st\<lparr>klinks := h\<rparr>) R W (remove1 t V) M"
    using inv by (auto simp: queues_inv_def)
  with h show ?thesis by (auto simp: queued_def)
qed

lemma cond_signal_rep:
  assumes inv: "kernel_inv st R W V M" and run: "cur st \<noteq> thread_idle st"
  shows "\<exists>out st' R'. sys_pthread_cond_signal c st = Some (out, st') \<and>
    kernel_inv st' R' W (after_wake V (waiters st V c)) M \<and> mutex_val st' = mutex_val st \<and>
    thread_idle st' = thread_idle st \<and> same_threads st st' \<and> stack_step st st' \<and> (out = Returned 0 \<or> out = Switched) \<and>
    alive st' R' W (after_wake V (waiters st V c)) = alive st R W V"
proof (cases "waiters st V c")
  case Nil
  have rep: "sched_rep st R (wait_rings M W V)" using inv by (simp add: kernel_inv_def queues_inv_def)
  have "find_other_thread c st = Some None"
    using find_waiting_rep [OF sched_repD(2) [OF rep] run_rings_wait(2), of c] Nil
    by (simp add: find_other_thread_def find_filter waiters_def)
  then show ?thesis using inv Nil
    by (intro exI [of _ "Returned 0"] exI [of _ st] exI [of _ R]) (simp add: sys_pthread_cond_signal_def after_wake_def stack_step_def)
next
  case (Cons t ts)
  note tV = waiters_Cons(1) [OF Cons]
  have rep: "sched_rep st R (wait_rings M W V)" and q: "queues_inv st R W V M" and ok: "prio_ok st (cur st)"
    and notq: "\<not> queued R (wait_rings M W V) (cur st)" and nb: "ti_state (threads st (cur st)) \<noteq> THREAD_STATE_BLOCKED"
    using inv run by (auto simp: kernel_inv_def queues_inv_def)
  have find: "find_other_thread c st = Some (Some t)"
    using find_waiting_rep [OF sched_repD(2) [OF rep] run_rings_wait(2), of c] Cons
    by (simp add: find_other_thread_def find_filter waiters_def)
  obtain h where h: "list_del (klinks st) (Node (TiQ t)) = Some h" "queues_inv (st\<lparr>klinks := h\<rparr>) R W (remove1 t V) M"
    "\<not> queued R (wait_rings M W (remove1 t V)) t" using leave_cond_list [OF q tV] by blast
  have t_ok: "t \<noteq> thread_idle (st\<lparr>klinks := h\<rparr>)" "prio_ok (st\<lparr>klinks := h\<rparr>) t"
    using q tV by (auto simp: queues_inv_def prio_ok_def)
  obtain st1 where e: "sched_enqueue (st\<lparr>klinks := h\<rparr>) t = Some (0, st1)"
    "queues_inv st1 (append_at R (sched_active st) (prio_index st t) t) W (remove1 t V) M"
    "frame_eq (st\<lparr>klinks := h\<rparr>) st1" "cur st1 = cur st" "\<forall>u. u \<noteq> t \<longrightarrow> threads st1 u = threads st u"
    "kstack st1 = kstack st"
    using queues_enqueue [OF h(2,3) t_ok] by (auto simp: prio_index_def)
  let ?R = "append_at R (sched_active st) (prio_index st t) t" and ?V = "remove1 t V"
  have fr: "thread_idle st1 = thread_idle st" "mutex_val st1 = mutex_val st" "same_threads st st1"
    using e(3) by (auto simp: frame_eq_def same_threads_def)
  have tc: "t \<noteq> cur st" using tV notq queued_wait(2) by blast
  have "\<not> queued R (wait_rings M W ?V) (cur st)"
  proof
    assume "queued R (wait_rings M W ?V) (cur st)"
    then have "queued R (wait_rings M W V) (cur st)"
      unfolding queued_iff using set_remove1_subset [of t V] by (auto simp: wait_rings_def split: if_splits) blast+
    with notq show False ..
  qed
  then have kinv1: "kernel_inv st1 ?R W ?V M"
    using e(2,4,5) tc nb ok fr(1) same_threadsD(5) [OF fr(3)] by (simp add: kernel_inv_def queued_append)
  have aw: "after_wake V (waiters st V c) = ?V" using Cons by (simp add: after_wake_def)
  have live1: "alive st1 ?R W ?V = alive st R W V"
  proof -
    have "ready ?R \<union> set ?V = ready R \<union> set V"
      using ready_wake [OF q, where R' = ?R and L = V and m = c and a = "sched_active st"] Cons unfolding aw by simp
    then show ?thesis using fr(1) e(4) by (auto simp: alive_def)
  qed
  show ?thesis
  proof (cases "ti_priority (threads st1 t) \<ge> ti_priority (threads st1 (cur st1))")
    case False
    then have "sys_pthread_cond_signal c st = Some (Returned 0, st1)"
      using find h(1) e(1) by (simp add: sys_pthread_cond_signal_def)
    then show ?thesis using kinv1 fr e(6) live1 unfolding aw stack_step_def by blast
  next
    case True
    have "cur st1 \<noteq> thread_idle st1" using e(4) fr(1) run by simp
    then obtain st2 out st' R2 where s: "sched_enqueue st1 (cur st1) = Some (0, st2)"
      "sched_elect SCHED_OPT_NONE st2 = Some (out, st')" "kernel_inv st' R2 W ?V M" "frame_eq st1 st'" "stack_step st1 st'"
      "alive st' R2 W ?V = alive st1 ?R W ?V" using preempt_self [OF kinv1] by blast
    have "sys_pthread_cond_signal c st = Some (returns_0 out, st')"
      using find h(1) e(1) s(1,2) True by (simp add: sys_pthread_cond_signal_def)
    moreover have "returns_0 out = Returned 0 \<or> returns_0 out = Switched"
      by (cases out) (simp_all add: returns_0_def)
    moreover have "mutex_val st' = mutex_val st" "thread_idle st' = thread_idle st" "same_threads st st'"
      using s(4) fr same_threads_trans [OF fr(3)] by (auto simp: frame_eq_def)
    moreover have "stack_step st st'" using s(5) e(4,6) by (simp add: stack_step_def)
    ultimately show ?thesis using s(3,6) live1 unfolding aw by auto
  qed
qed

section \<open>Resuming and preempting threads\<close>

lemma kernel_inv_fields [simp]:
  "kernel_inv (pop_frame t st) R W V M \<longleftrightarrow> kernel_inv st R W V M"
  "kernel_inv (st\<lparr>user_mem := u\<rparr>) R W V M \<longleftrightarrow> kernel_inv st R W V M"
  by (simp_all add: kernel_inv_def) (auto simp: pop_frame_def prio_ok_def)

lemma kernel_inv_running:
  assumes "kernel_inv st R W V M"
  shows "kernel_inv (set_ti_state (cur st) THREAD_STATE_RUNNING st) R W V M"
proof -
  let ?st = "set_ti_state (cur st) THREAD_STATE_RUNNING st"
  have q: "queues_inv st R W V M" using assms by (simp add: kernel_inv_def)
  have "queues_inv ?st R W V M"
  proof (rule queues_inv_step [OF q frame_eq_set])
    show "sched_rep ?st R (wait_rings M W V)"
    proof (rule sched_rep_cong [of st])
      show "sched_rep st R (wait_rings M W V)" using q by (simp add: queues_inv_def)
    qed simp_all
    show "maps_ok ?st" using q by (simp add: queues_inv_def maps_ok_def)
    show "ti_state (threads ?st t) \<noteq> THREAD_STATE_BLOCKED" if "p < 32" "t \<in> set (R b p)" for b p t
      using q that by (auto simp: queues_inv_def)
  qed
  then show ?thesis using assms by (auto simp: kernel_inv_def prio_ok_def)
qed

lemma run_frame_rep:
  assumes inv: "kernel_inv st R W V M" and k: "kstack st (cur st) \<noteq> []" and run: "cur st \<noteq> thread_idle st \<or> hd (kstack st (cur st)) = K_elect"
  shows "\<exists>out st' R' W'. run_frame st = Some (out, st') \<and> kernel_inv st' R' W' V M \<and> thread_idle st' = thread_idle st"
proof -
  obtain f fs where fs: "kstack st (cur st) = f # fs" using k by (meson neq_Nil_conv)
  have inv': "kernel_inv (pop_frame (cur st) st) R W V M" using inv by simp
  have pf: "cur (pop_frame t st) = cur st" "thread_idle (pop_frame t st) = thread_idle st" for t
    by (simp_all add: pop_frame_def)
  show ?thesis
  proof (cases f)
    case K_elect
    then show ?thesis
      using fs kernel_inv_running [OF inv'] pf by (simp add: run_frame_def) blast
  next
    case (K_cond_lock m)
    then have "cur (pop_frame (cur st) st) \<noteq> thread_idle (pop_frame (cur st) st)" using run fs pf by simp
    from mutex_lock_rep [OF inv' this, of m] show ?thesis
      using K_cond_lock fs pf by (simp add: run_frame_def) blast
  next
    case (K_join other r)
    then show ?thesis using fs inv' pf by (simp add: run_frame_def) blast
  qed
qed

lemma tick_rep:
  assumes inv: "kernel_inv st R W V M"
  shows "\<exists>out st' R'. sched_elect SCHED_OPT_TICK st = Some (out, st') \<and> kernel_inv st' R' W V M \<and>
    frame_eq st st' \<and> stack_step st st' \<and> cur st' = fst (pick (sched_active st) R (thread_idle st)) \<and>
    alive st' R' W V = alive st R W V"
proof -
  let ?M = "wait_rings M W V"
  have q: "queues_inv st R W V M" using inv by (simp add: kernel_inv_def)
  then have rep: "sched_rep st R ?M" and cls: "sched st = Some SCHED_CLASS_BITMAP" and can: "canary_ok st (cur st)"
    and mo: "maps_ok st" by (auto simp: queues_inv_def)
  obtain nxt b R' where p: "pick (sched_active st) R (thread_idle st) = (nxt, b, R')" by (metis prod_cases3)
  have me: "SCHED_OPT_TICK = SCHED_OPT_TICK \<and> cur st \<noteq> thread_idle st \<longrightarrow> \<not> queued R ?M (cur st) \<and> prio_ok st (cur st)"
    using inv by (simp add: kernel_inv_def)
  let ?R = "after_elect SCHED_OPT_TICK st R' b"
  obtain out st' where e: "sched_elect SCHED_OPT_TICK st = Some (out, st')" "sched_rep st' ?R ?M" "cur st' = nxt"
    "nxt \<noteq> thread_idle st \<longrightarrow> \<not> queued ?R ?M nxt" "out \<noteq> Switched \<longrightarrow> out = Returned 0" "frame_eq st st'"
    "out = Returned 0 \<longrightarrow> ti_state (threads st' (cur st)) = THREAD_STATE_RUNNING"
    "\<forall>u. u \<noteq> cur st \<longrightarrow> threads st' u = threads st u" "maps_ok st \<longrightarrow> maps_ok st'"
    "maps_ok st \<and> SCHED_OPT_TICK = SCHED_OPT_TICK \<and> cur st \<noteq> thread_idle st \<longrightarrow> ti_state (threads st' (cur st)) \<noteq> THREAD_STATE_BLOCKED"
    "kstack st' = (if SCHED_OPT_TICK = SCHED_OPT_RESTORE_ONLY then (kstack st)(cur st := [])
      else if nxt \<noteq> cur st then (kstack st)(cur st := K_elect # kstack st (cur st)) else kstack st)"
    using sched_elect_rep [OF rep cls can me p] by (elim exE conjE) (rule that; assumption)
  have nb: "ti_state (threads st' u) \<noteq> THREAD_STATE_BLOCKED"
    if "ti_state (threads st u) \<noteq> THREAD_STATE_BLOCKED \<or> (u = cur st \<and> cur st \<noteq> thread_idle st)"
      "u \<noteq> thread_idle st" for u
    using that e(8,10) mo by (cases "u = cur st") auto
  have "ti_state (threads st' u) \<noteq> THREAD_STATE_BLOCKED" if "r < 32" "u \<in> set (?R c r)" for c r u
  proof -
    have "u \<in> set (R c r) \<or> (u = cur st \<and> cur st \<noteq> thread_idle st)"
      using that(2) pick_sub [OF p, of c r] by (auto simp: after_elect_def append_at_def split: if_splits)
    moreover have "u \<noteq> thread_idle st" if "u \<in> set (R c r)" using sched_repD(6) [OF rep \<open>r < 32\<close> that] .
    ultimately show ?thesis using q that(1) nb by (auto simp: queues_inv_def)
  qed
  then have "queues_inv st' ?R W V M" using e(9) mo by (intro queues_inv_step [OF q e(6,2)]) auto
  moreover have "prio_ok st' nxt \<and> ti_state (threads st' nxt) \<noteq> THREAD_STATE_BLOCKED" if idle: "nxt \<noteq> thread_idle st"
  proof -
    obtain r where r: "r < 32" "nxt \<in> set (R b r)" using pick_from [OF p idle] by blast
    then have "ti_priority (threads st nxt) = int r" using sched_repD(5) [OF rep] by blast
    then show ?thesis using r q nb idle frame_eq_fields(4) [OF e(6)] by (auto simp: queues_inv_def prio_ok_def)
  qed
  ultimately have "kernel_inv st' ?R W V M" using e(3,4) frame_eq_fields(1) [OF e(6)] by (simp add: kernel_inv_def)
  moreover have "alive st' ?R W V = alive st R W V"
  proof -
    have "cur st \<noteq> thread_idle st \<longrightarrow> prio_index st (cur st) < 32" using inv prio_index_eq by (auto simp: kernel_inv_def)
    then have "ready ?R = (if cur st \<noteq> thread_idle st then insert (cur st) (ready R') else ready R')"
      by (simp add: after_elect_def ready_append)
    then show ?thesis
      using ready_pick [OF p idle_not_ready [OF q]] e(3) frame_eq_fields(1) [OF e(6)] by (auto simp: alive_def)
  qed
  moreover have "stack_step st st'"
    using e(11) by (auto simp: stack_step_def SCHED_OPT_TICK_def SCHED_OPT_RESTORE_ONLY_def)
  ultimately show ?thesis using e(1,3,6) p by auto
qed

section \<open>What the calls guarantee\<close>

lemma wait_distinct:
  assumes "queues_inv st R W V M"
  shows "distinct W" "distinct V" "set W \<inter> set V = {}"
proof -
  have rep: "sched_rep st R (wait_rings M W V)" using assms by (simp add: queues_inv_def)
  show "set W \<inter> set V = {}" by (rule wait_disjoint [OF rep])
  show "distinct W" "distinct V"
    using sched_repD(2) [OF rep] run_rings_wait [of R M W V] unfolding lists_def ring_def
    by (metis distinct.simps(2) distinct_map)+
qed

lemma waiters_append_new:
  assumes "t \<notin> set L" "ti_private (threads st' t) = v"
    "\<forall>u. u \<noteq> t \<longrightarrow> ti_private (threads st' u) = ti_private (threads st u)"
  shows "waiters st' (L @ [t]) v = waiters st L v @ [t]"
proof -
  have "ti_private (threads st' u) = ti_private (threads st u)" if "u \<in> set L" for u
    using that assms by metis
  then have "waiters st' L v = waiters st L v" unfolding waiters_def by (intro filter_cong) simp_all
  then show ?thesis using assms(2) by (simp add: waiters_def)
qed

text \<open>A thread that left the list it waited on, and is still alive, is ready or runs.\<close>

lemma woken_ready:
  assumes "kernel_inv st R W V M" "waiters st L v = t # ts"
    and "L = W \<and> W' = after_wake W (waiters st W v) \<and> V' = V \<or> L = V \<and> V' = after_wake V (waiters st V v) \<and> W' = W"
    and "alive st' R' W' V' = alive st R W V"
  shows "t \<in> ready R' \<or> t = cur st'"
proof -
  have q: "queues_inv st R W V M" using assms(1) by (simp add: kernel_inv_def)
  have t: "t \<in> set L" by (rule waiters_Cons [OF assms(2)])
  then have "t \<in> alive st' R' W' V'" using assms(3,4) by (auto simp: alive_def)
  moreover have "t \<notin> set W'" "t \<notin> set V'"
    using assms(2,3) t wait_distinct [OF q] by (auto simp: after_wake_def)
  ultimately show ?thesis by (auto simp: alive_def)
qed

text \<open>A state with two ready threads where thread 3 runs and may hold some mutexes.\<close>

lemma demo_kernel_inv:
  assumes "\<And>m. mv m = 0 \<or> mv m = - 1"
  shows "kernel_inv (demo_state\<lparr>mutex_val := mv\<rparr>) demo_R [] [] Map.empty"
proof -
  let ?st = "demo_state\<lparr>mutex_val := mv\<rparr>"
  have M: "wait_rings Map.empty [] [] = demo_M" by (simp add: wait_rings_def demo_M_def)
  have rep: "sched_rep demo_state demo_R demo_M" and q: "\<not> queued demo_R demo_M 3" and ok: "prio_ok demo_state 3"
    using demo_inv by (simp_all add: sched_inv_def)
  have "sched_rep ?st demo_R demo_M" by (rule sched_rep_cong [OF rep]) simp_all
  moreover have "prio_ok ?st t" for t by (simp add: prio_ok_def demo_state_def kstate_zero_def thread_info_zero_def)
  moreover have "ti_state (threads ?st t) = THREAD_STATE_READY1" "canary_ok ?st t" for t
    by (simp_all add: canary_ok_def demo_state_def kstate_zero_def thread_info_zero_def)
  moreover have "sched ?st = Some SCHED_CLASS_BITMAP" "maps_ok ?st"
    by (simp_all add: maps_ok_def THREAD_SCHED_STATE_def demo_state_def kstate_zero_def)
  ultimately show ?thesis using q assms by (simp add: kernel_inv_def queues_inv_def M mutex_inv_def waiters_def)
qed

definition demo_locked :: kstate where
  "demo_locked = demo_state\<lparr>mutex_val := (\<lambda>_. - 1)(7 := 0)\<rparr>"

lemma demo_locked_inv: "kernel_inv demo_locked demo_R [] [] Map.empty"
  unfolding demo_locked_def by (rule demo_kernel_inv) simp

lemma demo_locked_fields [simp]:
  "sched_active demo_locked = False" "thread_idle demo_locked = 9" "cur demo_locked = 3"
  "mutex_val demo_locked = (\<lambda>_. - 1)(7 := 0)"
  by (simp_all add: demo_locked_def)

text \<open>
  C12. \<^verbatim>\<open>sys_pthread_mutex_lock\<close> takes a free mutex and returns; on a held mutex the caller is appended
  to the threads waiting for it, in order of arrival, and the processor goes to the thread the
  scheduler picks. The call never faults and keeps the invariant of all queues.
\<close>

theorem sys_pthread_mutex_lock_correct:
  assumes "kernel_inv st R W V M" "cur st \<noteq> thread_idle st"
  shows "\<exists>out st' R' W'. sys_pthread_mutex_lock m st = Some (out, st') \<and> kernel_inv st' R' W' V M \<and>
    mutex_val st' = (mutex_val st)(m := mutex_val st m + 1) \<and>
    (if mutex_val st m = - 1 then out = Returned 0 \<and> cur st' = cur st \<and> W' = W
     else out = Switched \<and> W' = W @ [cur st] \<and> waiters st' W' m = waiters st W m @ [cur st] \<and>
       cur st' = fst (pick (sched_active st) R (thread_idle st)))"
proof -
  have curW: "cur st \<notin> set W" using assms queued_wait(1) by (auto simp: kernel_inv_def)
  obtain out st' R' W' where l: "sys_pthread_mutex_lock m st = Some (out, st')" "kernel_inv st' R' W' V M"
    "mutex_val st' = (mutex_val st)(m := mutex_val st m + 1)"
    "if mutex_val st m = - 1 then out = Returned 0 \<and> W' = W \<and> R' = R \<and> st' = add_val m 1 st
     else out = Switched \<and> W' = W @ [cur st] \<and> (cur st', R') = (fst (pick (sched_active st) R (thread_idle st)),
         snd (snd (pick (sched_active st) R (thread_idle st)))) \<and> cur st' \<noteq> cur st \<and>
       ti_private (threads st' (cur st)) = m \<and>
       (\<forall>t. t \<noteq> cur st \<longrightarrow> ti_private (threads st' t) = ti_private (threads st t)) \<and>
       kstack st' = (kstack st)(cur st := K_elect # kstack st (cur st))"
    using mutex_lock_rep [OF assms, of m] by (elim exE conjE) (rule that; assumption)
  have "waiters st' (W @ [cur st]) m = waiters st W m @ [cur st]" if "mutex_val st m \<noteq> - 1"
    using l(4) that by (intro waiters_append_new [OF curW]) auto
  with l show ?thesis
    by (intro exI [of _ out] exI [of _ st'] exI [of _ R'] exI [of _ W']) (auto simp: add_val_def split: if_splits)
qed

theorem sys_pthread_mutex_lock_correct_witness:
  "\<exists>st'. sys_pthread_mutex_lock 7 demo_locked = Some (Switched, st') \<and>
    cur st' = 1 \<and> mutex_val st' 7 = 1"
  using sys_pthread_mutex_lock_correct [OF demo_locked_inv, of 7] by (auto simp: pick_def demo_flat)

text \<open>
  C13. \<^verbatim>\<open>sys_pthread_mutex_unlock\<close> of a held mutex never reports an error: the mutex becomes free if no
  thread waits for it; otherwise it stays held and the thread that has waited longest leaves
  the wait list and is ready or already running.
\<close>

theorem sys_pthread_mutex_unlock_fifo:
  assumes "kernel_inv st R W V M" "cur st \<noteq> thread_idle st" "0 \<le> mutex_val st m"
  shows "\<exists>out st' R' W'. sys_pthread_mutex_unlock m st = Some (out, st') \<and> kernel_inv st' R' W' V M \<and>
    (out = Returned 0 \<or> out = Switched) \<and> waiters st' W' m = tl (waiters st W m) \<and>
    (case waiters st W m of
       [] \<Rightarrow> mutex_val st' m = - 1 \<and> W' = W
     | t # _ \<Rightarrow> 0 \<le> mutex_val st' m \<and> W' = remove1 t W \<and> (t \<in> ready R' \<or> t = cur st'))"
proof -
  let ?ws = "waiters st W m"
  have val: "mutex_val st m = int (length ?ws)"
    using assms(1,3) by (auto simp: kernel_inv_def queues_inv_def mutex_inv_def dest: spec [of _ m])
  obtain out st' R' where u: "sys_pthread_mutex_unlock m st = Some (out, st')" "kernel_inv st' R' (after_wake W ?ws) V M"
    "mutex_val st' = (mutex_val st)(m := mutex_val st m - 1)" "same_threads st st'" "out = Returned 0 \<or> out = Switched"
    "alive st' R' (after_wake W ?ws) V = alive st R W V"
    using mutex_unlock_rep [OF assms] by blast
  have "waiters st' (after_wake W ?ws) m = tl ?ws"
    using filter_remove1_first [of _ W] same_threadsD(2) [OF u(4)]
    by (cases ?ws) (simp_all add: waiters_def after_wake_def)
  moreover have "t \<in> ready R' \<or> t = cur st'" if "?ws = t # ts" for t ts
    using woken_ready [OF assms(1) that _ u(6)] by blast
  ultimately show ?thesis using u val
    by (intro exI [of _ out] exI [of _ st'] exI [of _ R'] exI [of _ "after_wake W ?ws"])
      (auto simp: after_wake_def split: list.splits)
qed

theorem sys_pthread_mutex_unlock_fifo_witness:
  "\<exists>out st'. sys_pthread_mutex_unlock 7 demo_locked = Some (out, st') \<and>
    mutex_val st' 7 = - 1"
  using sys_pthread_mutex_unlock_fifo [OF demo_locked_inv, of 7] by (auto simp: waiters_def)

text \<open>
  \<^verbatim>\<open>sys_pthread_cond_wait\<close> releases the mutex and puts the caller at the end of the threads waiting
  for the condition in one step, and runs another thread; the oldest thread waiting for the
  mutex, if any, is handed it. When resumed, the caller still has to lock the mutex again.
\<close>

lemma sys_pthread_cond_wait_correct:
  assumes "kernel_inv st R W V M" "cur st \<noteq> thread_idle st" "0 \<le> mutex_val st m"
  shows "\<exists>st' R'. sys_pthread_cond_wait c m st = Some (Switched, st') \<and>
    kernel_inv st' R' (after_wake W (waiters st W m)) (V @ [cur st]) M \<and>
    waiters st' (V @ [cur st]) c = waiters st V c @ [cur st] \<and>
    mutex_val st' = (mutex_val st)(m := mutex_val st m - 1) \<and>
    kstack st' (cur st) = K_elect # K_cond_lock m # kstack st (cur st) \<and>
    (\<forall>t ts. waiters st W m = t # ts \<longrightarrow> t \<in> ready R' \<or> t = cur st')"
proof -
  have q: "queues_inv st R W V M" and curV: "cur st \<notin> set V"
    using assms queued_wait(2) by (auto simp: kernel_inv_def)
  obtain st' R' where w: "sys_pthread_cond_wait c m st = Some (Switched, st')"
    "kernel_inv st' R' (after_wake W (waiters st W m)) (V @ [cur st]) M"
    "mutex_val st' = (mutex_val st)(m := mutex_val st m - 1)" "ti_private (threads st' (cur st)) = c"
    "\<forall>t. t \<noteq> cur st \<longrightarrow> ti_private (threads st' t) = ti_private (threads st t)"
    "kstack st' = (kstack st)(cur st := K_elect # K_cond_lock m # kstack st (cur st))"
    "alive st' R' (after_wake W (waiters st W m)) (V @ [cur st]) = alive st R W V"
    using cond_wait_rep [OF assms, of c] by blast
  have "waiters st' (V @ [cur st]) c = waiters st V c @ [cur st]"
    using w(4,5) by (intro waiters_append_new [OF curV]) auto
  moreover have "t \<in> ready R' \<or> t = cur st'" if "waiters st W m = t # ts" for t ts
  proof -
    have t: "t \<in> set W" by (rule waiters_Cons [OF that])
    then have "t \<in> alive st' R' (after_wake W (waiters st W m)) (V @ [cur st])" using w(7) by (auto simp: alive_def)
    moreover have "t \<noteq> cur st" using t assms queued_wait(1) by (auto simp: kernel_inv_def)
    ultimately show ?thesis using that t wait_distinct [OF q] by (auto simp: alive_def after_wake_def)
  qed
  ultimately show ?thesis using w by auto
qed

lemma sys_pthread_cond_wait_correct_witness:
  "\<exists>st'. sys_pthread_cond_wait 5 7 demo_locked = Some (Switched, st') \<and>
    mutex_val st' 7 = - 1"
  using sys_pthread_cond_wait_correct [OF demo_locked_inv, of 7 5] by auto

text \<open>
  \<^verbatim>\<open>sys_pthread_cond_signal\<close> wakes the thread that has waited longest for the condition, which is
  then ready or running, and changes nothing when no thread waits. No mutex changes.
\<close>

lemma sys_pthread_cond_signal_fifo:
  assumes "kernel_inv st R W V M" "cur st \<noteq> thread_idle st"
  shows "\<exists>out st' R' V'. sys_pthread_cond_signal c st = Some (out, st') \<and> kernel_inv st' R' W V' M \<and>
    mutex_val st' = mutex_val st \<and> waiters st' V' c = tl (waiters st V c) \<and>
    (case waiters st V c of
       [] \<Rightarrow> V' = V \<and> out = Returned 0
     | t # _ \<Rightarrow> V' = remove1 t V \<and> (t \<in> ready R' \<or> t = cur st'))"
proof -
  let ?ws = "waiters st V c"
  obtain out st' R' where u: "sys_pthread_cond_signal c st = Some (out, st')" "kernel_inv st' R' W (after_wake V ?ws) M"
    "mutex_val st' = mutex_val st" "same_threads st st'" "alive st' R' W (after_wake V ?ws) = alive st R W V"
    using cond_signal_rep [OF assms] by blast
  have "waiters st' (after_wake V ?ws) c = tl ?ws"
    using filter_remove1_first [of _ V] same_threadsD(2) [OF u(4)]
    by (cases ?ws) (simp_all add: waiters_def after_wake_def)
  moreover have "out = Returned 0" if "?ws = []"
  proof -
    have rep: "sched_rep st R (wait_rings M W V)" using assms(1) by (simp add: kernel_inv_def queues_inv_def)
    have "find_other_thread c st = Some None"
      using find_waiting_rep [OF sched_repD(2) [OF rep] run_rings_wait(2), of c] that
      by (simp add: find_other_thread_def find_filter waiters_def)
    then show ?thesis using u(1) by (simp add: sys_pthread_cond_signal_def)
  qed
  moreover have "t \<in> ready R' \<or> t = cur st'" if "?ws = t # ts" for t ts
    using woken_ready [OF assms(1) that _ u(5)] by blast
  ultimately show ?thesis using u
    by (intro exI [of _ out] exI [of _ st'] exI [of _ R'] exI [of _ "after_wake V ?ws"])
      (auto simp: after_wake_def split: list.splits)
qed

lemma sys_pthread_cond_signal_fifo_witness:
  "\<exists>out st'. sys_pthread_cond_signal 5 demo_locked = Some (out, st') \<and>
    out = Returned 0"
  using sys_pthread_cond_signal_fifo [OF demo_locked_inv, of 5] by (auto simp: waiters_def)

end
