(* ===== verification/Sync.thy ===== *)
theory Sync
  imports Mutex
begin

text \<open>
  Threads that synchronise through mutexes and condition variables, as a machine over the calls of
  \<^verbatim>\<open>kernel/mutex.c\<close> and \<^verbatim>\<open>kernel/cond.c\<close>. The running thread makes a call, the timer preempts it, or it
  continues a call in which it was suspended.

  Next to the kernel state the machine records what the callers see: \<open>call t\<close> is the mutex for which
  thread \<open>t\<close> is inside a call that has not returned, and \<open>held m\<close> are the threads that returned from
  locking \<open>m\<close> and have not released it. Both follow from the calls and their returns only, so
  mutual exclusion, at most one thread in \<open>held m\<close>, is a statement about the callers.
\<close>

section \<open>The machine\<close>

record sync =
  kern :: kstate
  held :: "addr \<Rightarrow> addr set"
  call :: "addr \<Rightarrow> addr option"

datatype sync_op =
    U_lock addr | U_unlock addr | U_cond_wait addr addr | U_cond_signal addr | U_tick | U_resume

abbreviation running :: "sync \<Rightarrow> addr" where
  "running s \<equiv> cur (kern s)"

definition in_user :: "sync \<Rightarrow> bool" where
  "in_user s \<longleftrightarrow> kstack (kern s) (running s) = []"

definition sync_enabled :: "sync_op \<Rightarrow> sync \<Rightarrow> bool" where
  "sync_enabled op s \<longleftrightarrow>
     (case op of
        U_lock m \<Rightarrow> in_user s \<and> running s \<noteq> thread_idle (kern s)
      | U_unlock m \<Rightarrow> in_user s \<and> running s \<noteq> thread_idle (kern s) \<and> running s \<in> held s m
      | U_cond_wait c m \<Rightarrow> in_user s \<and> running s \<noteq> thread_idle (kern s) \<and> running s \<in> held s m
      | U_cond_signal c \<Rightarrow> in_user s \<and> running s \<noteq> thread_idle (kern s)
      | U_tick \<Rightarrow> in_user s
      | U_resume \<Rightarrow> \<not> in_user s)"

definition acquire :: "addr \<Rightarrow> addr \<Rightarrow> sync \<Rightarrow> sync" where
  "acquire t m s = s\<lparr>held := (held s)(m := insert t (held s m)), call := (call s)(t := None)\<rparr>"

definition release :: "addr \<Rightarrow> addr \<Rightarrow> sync \<Rightarrow> sync" where
  "release t m s = s\<lparr>held := (held s)(m := held s m - {t})\<rparr>"

text \<open>The end of a call that locks \<open>m\<close>, or its suspension.\<close>

definition lock_return :: "addr \<Rightarrow> addr \<Rightarrow> outcome \<Rightarrow> sync \<Rightarrow> sync" where
  "lock_return t m r s =
     (case r of Returned _ \<Rightarrow> acquire t m s | Switched \<Rightarrow> s\<lparr>call := (call s)(t \<mapsto> m)\<rparr>)"

definition sync_exec :: "sync_op \<Rightarrow> sync \<Rightarrow> sync option" where
  "sync_exec op s = (let t = running s in
     case op of
       U_lock m \<Rightarrow> do {
         (r, k) \<leftarrow> sys_pthread_mutex_lock m (kern s);
         Some (lock_return t m r (s\<lparr>kern := k\<rparr>)) }
     | U_unlock m \<Rightarrow> do {
         (r, k) \<leftarrow> sys_pthread_mutex_unlock m (kern s);
         Some (release t m (s\<lparr>kern := k\<rparr>)) }
     | U_cond_wait c m \<Rightarrow> do {
         (r, k) \<leftarrow> sys_pthread_cond_wait c m (kern s);
         Some (lock_return t m r (release t m (s\<lparr>kern := k\<rparr>))) }
     | U_cond_signal c \<Rightarrow> do {
         (r, k) \<leftarrow> sys_pthread_cond_signal c (kern s);
         Some (s\<lparr>kern := k\<rparr>) }
     | U_tick \<Rightarrow> do {
         (r, k) \<leftarrow> sched_elect SCHED_OPT_TICK (kern s);
         Some (s\<lparr>kern := k\<rparr>) }
     | U_resume \<Rightarrow> do {
         (r, k) \<leftarrow> run_frame (kern s);
         Some (case call s t of
             Some m \<Rightarrow> if r \<noteq> Switched \<and> kstack k t = [] then acquire t m (s\<lparr>kern := k\<rparr>) else s\<lparr>kern := k\<rparr>
           | None \<Rightarrow> s\<lparr>kern := k\<rparr>) })"

section \<open>Its invariant\<close>

text \<open>
  Ownership of the mutexes. A thread in a call is in one of three places: on the mutex list, or
  already the owner and about to return; inside \<^verbatim>\<open>sys_pthread_cond_wait\<close> before it locks again; or at
  that lock, as the running thread.
\<close>

definition thread_shape ::
    "sync \<Rightarrow> addr list \<Rightarrow> addr list \<Rightarrow> (addr \<Rightarrow> addr option) \<Rightarrow> addr \<Rightarrow> bool" where
  "thread_shape s W V ow t \<longleftrightarrow>
     (case call s t of
        None \<Rightarrow> kstack (kern s) t \<in> {[], [K_elect]} \<and> t \<notin> set W \<union> set V
      | Some m \<Rightarrow> t \<noteq> thread_idle (kern s) \<and>
          (kstack (kern s) t = [K_elect] \<and> t \<notin> set V \<and>
             (if t \<in> set W then ti_private (threads (kern s) t) = m else ow m = Some t) \<or>
           kstack (kern s) t = [K_elect, K_cond_lock m] \<and> t \<notin> set W \<or>
           kstack (kern s) t = [K_cond_lock m] \<and> t = running s \<and> t \<notin> set W \<union> set V))"

definition owner_ok :: "sync \<Rightarrow> addr list \<Rightarrow> (addr \<Rightarrow> addr option) \<Rightarrow> addr \<Rightarrow> bool" where
  "owner_ok s W ow m \<longleftrightarrow>
     (ow m = None \<longleftrightarrow> mutex_val (kern s) m = - 1) \<and> held s m \<subseteq> set_option (ow m) \<and>
     (\<forall>t. ow m = Some t \<longrightarrow> t \<in> held s m \<or> call s t = Some m \<and> kstack (kern s) t = [K_elect] \<and> t \<notin> set W)"

definition sync_inv ::
    "(knode \<Rightarrow> knode list option) \<Rightarrow> addr set \<Rightarrow> sync \<Rightarrow> runqs \<Rightarrow> addr list \<Rightarrow> addr list \<Rightarrow>
      (addr \<Rightarrow> addr option) \<Rightarrow> bool" where
  "sync_inv M T s R W V ow \<longleftrightarrow> kernel_inv (kern s) R W V M \<and> alive (kern s) R W V = T \<and> dom (call s) \<subseteq> T \<and>
     (\<forall>m. owner_ok s W ow m) \<and> (\<forall>t. thread_shape s W V ow t)"

definition sync_ok :: "(knode \<Rightarrow> knode list option) \<Rightarrow> addr set \<Rightarrow> sync \<Rightarrow> bool" where
  "sync_ok M T s \<longleftrightarrow> (\<exists>R W V ow. sync_inv M T s R W V ow)"

lemma sync_invD:
  assumes "sync_inv M T s R W V ow"
  shows "kernel_inv (kern s) R W V M" "alive (kern s) R W V = T" "owner_ok s W ow m" "thread_shape s W V ow t"
    "dom (call s) \<subseteq> T"
  using assms by (simp_all add: sync_inv_def)

text \<open>A running thread in user mode is in no call, and a thread that holds a mutex finds it held.\<close>

lemma user_call:
  assumes "sync_inv M T s R W V ow" "in_user s"
  shows "call s (running s) = None"
  using sync_invD(4) [OF assms(1), of "running s"] assms(2)
  by (auto simp: thread_shape_def in_user_def split: option.splits)

lemma mutex_val_range:
  assumes "kernel_inv st R W V M"
  shows "mutex_val st m = int (length (waiters st W m)) \<or> mutex_val st m = - 1"
  using assms by (auto simp: kernel_inv_def queues_inv_def mutex_inv_def)

lemma held_val:
  assumes "sync_inv M T s R W V ow" "t \<in> held s m"
  shows "0 \<le> mutex_val (kern s) m" "ow m = Some t"
proof -
  have o: "owner_ok s W ow m" by (rule sync_invD [OF assms(1)])
  then show ow: "ow m = Some t" using assms(2) by (auto simp: owner_ok_def)
  show "0 \<le> mutex_val (kern s) m"
    using mutex_val_range [OF sync_invD(1) [OF assms(1)], of m] o ow by (auto simp: owner_ok_def)
qed

text \<open>Threads a step does not touch keep their place.\<close>

lemma shape_cong:
  assumes "thread_shape s W V ow t" "t \<noteq> running s"
    and "call s' t = call s t" "kstack (kern s') t = kstack (kern s) t"
    and "ti_private (threads (kern s') t) = ti_private (threads (kern s) t)"
    and "thread_idle (kern s') = thread_idle (kern s)"
    and "t \<in> set W' \<longleftrightarrow> t \<in> set W" "t \<in> set V' \<longrightarrow> t \<in> set V"
    and "\<And>m. ow m = Some t \<Longrightarrow> call s t = Some m \<Longrightarrow> ow' m = Some t"
  shows "thread_shape s' W' V' ow' t"
  using assms by (auto simp: thread_shape_def split: option.splits if_splits)

lemma shape_running:
  assumes "call s' t = None" "kstack (kern s') t \<in> {[], [K_elect]}" "t \<notin> set W \<union> set V"
  shows "thread_shape s' W V ow t"
  using assms by (simp add: thread_shape_def)

lemma running_not_waiting:
  assumes "kernel_inv st R W V M" "cur st \<noteq> thread_idle st"
  shows "cur st \<notin> set W" "cur st \<notin> set V"
  using assms queued_wait(1,2) by (auto simp: kernel_inv_def)

lemma owner_okD:
  assumes "owner_ok s W ow m"
  shows "ow m = None \<longleftrightarrow> mutex_val (kern s) m = - 1" "t \<in> held s m \<Longrightarrow> ow m = Some t"
    "ow m = Some t \<Longrightarrow> t \<in> held s m \<or> call s t = Some m \<and> kstack (kern s) t = [K_elect] \<and> t \<notin> set W"
  using assms by (auto simp: owner_ok_def)

lemma pop_frame_fields [simp]:
  "cur (pop_frame t st) = cur st" "thread_idle (pop_frame t st) = thread_idle st"
  "threads (pop_frame t st) = threads st" "mutex_val (pop_frame t st) = mutex_val st"
  "kstack (pop_frame t st) = (kstack st)(t := tl (kstack st t))"
  by (simp_all add: pop_frame_def)

section \<open>Every step keeps it\<close>

text \<open>Locking, by a thread without frames.\<close>

lemma sync_lock:
  assumes k: "kernel_inv (kern s) R W V M" "alive (kern s) R W V = T" and o: "\<And>m. owner_ok s W ow m"
    and sh: "\<And>t. t \<noteq> running s \<Longrightarrow> thread_shape s W V ow t" and dm: "dom (call s) \<subseteq> T"
    and me: "running s \<noteq> thread_idle (kern s)" "kstack (kern s) (running s) = []"
      "\<And>m. ow m = Some (running s) \<Longrightarrow> running s \<in> held s m"
  shows "\<exists>r k. sys_pthread_mutex_lock m (kern s) = Some (r, k) \<and> (r \<noteq> Switched \<longrightarrow> kstack k (running s) = []) \<and>
    (r = Switched \<longrightarrow> kstack k (running s) \<noteq> []) \<and>
    sync_ok M T (lock_return (running s) m r (s\<lparr>kern := k\<rparr>))"
proof -
  let ?t = "running s"
  note cw = running_not_waiting [OF k(1) me(1)]
  obtain out st' R' W' where l: "sys_pthread_mutex_lock m (kern s) = Some (out, st')" "kernel_inv st' R' W' V M"
    "mutex_val st' = (mutex_val (kern s))(m := mutex_val (kern s) m + 1)" "thread_idle st' = thread_idle (kern s)"
    "if mutex_val (kern s) m = - 1 then out = Returned 0 \<and> W' = W \<and> R' = R \<and> st' = add_val m 1 (kern s)
     else out = Switched \<and> W' = W @ [?t] \<and> (cur st', R') = (fst (pick (sched_active (kern s)) R (thread_idle (kern s))),
         snd (snd (pick (sched_active (kern s)) R (thread_idle (kern s))))) \<and> cur st' \<noteq> ?t \<and>
       ti_private (threads st' ?t) = m \<and>
       (\<forall>t. t \<noteq> ?t \<longrightarrow> ti_private (threads st' t) = ti_private (threads (kern s) t)) \<and>
       kstack st' = (kstack (kern s))(?t := K_elect # kstack (kern s) ?t)"
    using mutex_lock_rep [OF k(1) me(1), of m] by (elim exE conjE) (rule that; assumption)
  show ?thesis
  proof (cases "mutex_val (kern s) m = - 1")
    case True
    let ?s = "acquire ?t m (s\<lparr>kern := st'\<rparr>)" and ?ow = "ow(m \<mapsto> ?t)"
    have free: "ow m = None" using owner_okD(1) [OF o] True by blast
    have st': "out = Returned 0" "W' = W" "R' = R" "st' = add_val m 1 (kern s)" using l(5) True by auto
    then have f: "cur st' = ?t" "kstack st' = kstack (kern s)" "threads st' = threads (kern s)" by (simp_all add: add_val_def)
    have "owner_ok ?s W ?ow x" for x
      using o [of x] o [of m] free me(3) l(3) True f(2) unfolding owner_ok_def acquire_def by (cases "x = m") auto
    moreover have "thread_shape ?s W V ?ow t" for t
    proof (cases "t = ?t")
      case False
      show ?thesis by (rule shape_cong [OF sh [OF False] False]) (use False f free l(4) in \<open>auto simp: acquire_def\<close>)
    qed (use me(2) cw f in \<open>auto intro!: shape_running simp: acquire_def\<close>)
    moreover have "alive st' R W V = T" using k(2) f l(4) by (simp add: alive_def)
    ultimately have "sync_inv M T ?s R W V ?ow"
      using l(2) st' dm by (simp add: sync_inv_def) (auto simp: acquire_def)
    then show ?thesis using l(1) st' f me(2) by (auto simp: sync_ok_def lock_return_def)
  next
    case False
    let ?s = "s\<lparr>kern := st', call := (call s)(?t \<mapsto> m)\<rparr>"
    have st': "out = Switched" "W' = W @ [?t]" "kstack st' = (kstack (kern s))(?t := K_elect # kstack (kern s) ?t)"
      "ti_private (threads st' ?t) = m" "\<And>t. t \<noteq> ?t \<Longrightarrow> ti_private (threads st' t) = ti_private (threads (kern s) t)"
      using l(5) False by auto
    have "owner_ok ?s W' ow x" for x
      using o [of x] o [of m] me(3) l(3) False st'(2,3) mutex_val_range [OF k(1), of m] unfolding owner_ok_def
      by (cases "x = m") auto
    moreover have "thread_shape ?s W' V ow t" for t
    proof (cases "t = ?t")
      case True
      then show ?thesis using st' me(1,2) l(4) cw by (simp add: thread_shape_def)
    next
      case False
      show ?thesis by (rule shape_cong [OF sh [OF False] False]) (use False st' l(4) in auto)
    qed
    moreover have "alive st' R' W' V = T"
    proof -
      obtain b where "pick (sched_active (kern s)) R (thread_idle (kern s)) = (cur st', b, R')"
        using l(5) False by (metis prod.collapse fst_conv snd_conv)
      moreover have "queues_inv (kern s) R W V M" using k(1) by (simp add: kernel_inv_def)
      ultimately have "alive st' R' W V = ready R \<union> set W \<union> set V"
        by (intro alive_elect [OF _ _ refl l(4)])
      then show ?thesis using k(2) me(1) st'(2) by (auto simp: alive_def)
    qed
    moreover have "?t \<in> T" using k(2) me(1) by (auto simp: alive_def)
    ultimately have "sync_inv M T ?s R' W' V ow" using l(2) dm by (simp add: sync_inv_def)
    then show ?thesis using l(1) st'(1,3) by (auto simp: sync_ok_def lock_return_def)
  qed
qed

lemma after_wake_sub: "set (after_wake W ws) \<subseteq> set W"
  using set_remove1_subset by (cases ws) (simp_all add: after_wake_def)

text \<open>Releasing a mutex, in \<^verbatim>\<open>sys_pthread_mutex_unlock\<close> and \<^verbatim>\<open>sys_pthread_cond_wait\<close>: the first waiting thread
  becomes the owner.\<close>

lemma sync_release:
  assumes inv: "sync_inv M T s R W V ow" and user: "in_user s" and held: "running s \<in> held s m"
    and s': "kern s' = k" "held s' = (held s)(m := held s m - {running s})"
      "\<And>t. t \<noteq> running s \<Longrightarrow> call s' t = call s t"
    and k: "kernel_inv k R' (after_wake W (waiters (kern s) W m)) V' M" "alive k R' (after_wake W (waiters (kern s) W m)) V' = T"
      "mutex_val k = (mutex_val (kern s))(m := mutex_val (kern s) m - 1)" "thread_idle k = thread_idle (kern s)"
      "\<And>t. t \<noteq> running s \<Longrightarrow> ti_private (threads k t) = ti_private (threads (kern s) t)"
      "\<And>t. t \<noteq> running s \<Longrightarrow> kstack k t = kstack (kern s) t"
    and V': "set V' - {running s} \<subseteq> set V" and dm: "running s \<in> T"
    and me: "\<And>ow'. thread_shape s' (after_wake W (waiters (kern s) W m)) V' ow' (running s)"
  shows "sync_ok M T s'"
proof -
  let ?t = "running s" and ?ws = "waiters (kern s) W m"
  let ?W = "after_wake W ?ws" and ?ow = "ow(m := case ?ws of [] \<Rightarrow> None | t # _ \<Rightarrow> Some t)"
  have q: "queues_inv (kern s) R W V M" using sync_invD(1) [OF inv] by (simp add: kernel_inv_def)
  have nocall: "call s ?t = None" by (rule user_call [OF inv user])
  have own: "ow m = Some ?t" and "0 \<le> mutex_val (kern s) m" using held_val [OF inv held] by auto
  then have val: "mutex_val (kern s) m = int (length ?ws)"
    using mutex_val_range [OF sync_invD(1) [OF inv], of m] by auto
  have only: "held s m = {?t}" using sync_invD(3) [OF inv, of m] own held by (auto simp: owner_ok_def)
  have first: "t \<in> set W" "t \<notin> set ?W" "call s t = Some m" "kstack (kern s) t = [K_elect]" "t \<notin> set V" "t \<noteq> ?t"
    if w: "?ws = t # ts" for t ts
  proof -
    show t: "t \<in> set W" using waiters_Cons(1) [OF w] .
    show "t \<notin> set ?W" using w wait_distinct(1) [OF q] by (simp add: after_wake_def)
    show c: "call s t = Some m" and "kstack (kern s) t = [K_elect]"
      using sync_invD(4) [OF inv, of t] t waiters_Cons(2) [OF w] by (auto simp: thread_shape_def split: option.splits)
    show "t \<notin> set V" using t wait_distinct(3) [OF q] by blast
    show "t \<noteq> ?t" using c nocall by auto
  qed
  have rest: "t \<in> set ?W \<longleftrightarrow> t \<in> set W" if "\<And>ts. ?ws \<noteq> t # ts" for t
  proof (cases ?ws)
    case (Cons u us)
    then have "t \<noteq> u" using that by auto
    then show ?thesis using Cons by (simp add: after_wake_def)
  qed (simp add: after_wake_def)
  have "owner_ok s' ?W ?ow x" for x
  proof (cases "x = m")
    case True
    show ?thesis
    proof (cases ?ws)
      case Nil
      then show ?thesis using True val k(3) s'(1,2) only by (simp add: owner_ok_def)
    next
      case (Cons t ts)
      then show ?thesis using True val k(3,6) s' only first [OF Cons] by (simp add: owner_ok_def)
    qed
  next
    case False
    note o = sync_invD(3) [OF inv, of x]
    have "t \<in> held s' x \<or> call s' t = Some x \<and> kstack (kern s') t = [K_elect] \<and> t \<notin> set ?W" if t: "ow x = Some t" for t
    proof (cases "t \<in> held s x")
      case False
      then have c: "call s t = Some x" "kstack (kern s) t = [K_elect]" "t \<notin> set W" using owner_okD(3) [OF o t] by auto
      then have "t \<noteq> ?t" using nocall by auto
      moreover have "t \<notin> set ?W" using c(3) after_wake_sub by blast
      ultimately show ?thesis using c k(6) s'(1,3) by simp
    qed (simp add: s'(2) \<open>x \<noteq> m\<close>)
    then show ?thesis using o False k(3) s'(1,2) by (simp add: owner_ok_def)
  qed
  moreover have "thread_shape s' ?W V' ?ow t" for t
  proof (cases "t = ?t")
    case False
    show ?thesis
    proof (cases "\<exists>ts. ?ws = t # ts")
      case True
      then obtain ts where ws: "?ws = t # ts" by blast
      have "t \<notin> set V'" using V' first(5) [OF ws] False by blast
      moreover have "t \<noteq> thread_idle (kern s)" using q first(1) [OF ws] by (auto simp: queues_inv_def)
      ultimately show ?thesis using first [OF ws] ws s' k(4,6) False by (simp add: thread_shape_def)
    next
      case nf: False
      show ?thesis
        by (rule shape_cong [OF sync_invD(4) [OF inv] False])
          (use False nf s' k(4,5,6) V' own rest in \<open>auto split: list.splits\<close>)
    qed
  qed (simp add: me)
  moreover have "dom (call s') \<subseteq> T"
  proof
    fix t assume "t \<in> dom (call s')"
    then show "t \<in> T" using s'(3) [of t] dm sync_invD(5) [OF inv] unfolding dom_def by (cases "t = ?t") auto
  qed
  ultimately have "sync_inv M T s' R' ?W V' ?ow" using k(1,2) s'(1) by (simp add: sync_inv_def)
  then show ?thesis by (auto simp: sync_ok_def)
qed

lemma stack_stepD:
  assumes "stack_step st st'"
  shows "t \<noteq> cur st \<Longrightarrow> kstack st' t = kstack st t"
    "kstack st' (cur st) = kstack st (cur st) \<or> kstack st' (cur st) = K_elect # kstack st (cur st)"
  using assms by (auto simp: stack_step_def)

lemma sync_unlock:
  assumes inv: "sync_inv M T s R W V ow" and en: "sync_enabled (U_unlock m) s"
  shows "\<exists>s'. sync_exec (U_unlock m) s = Some s' \<and> sync_ok M T s'"
proof -
  have user: "in_user s" and run: "running s \<noteq> thread_idle (kern s)" and held: "running s \<in> held s m"
    using en by (simp_all add: sync_enabled_def)
  note k = sync_invD(1,2) [OF inv]
  obtain out k' R' where u: "sys_pthread_mutex_unlock m (kern s) = Some (out, k')"
    "kernel_inv k' R' (after_wake W (waiters (kern s) W m)) V M"
    "mutex_val k' = (mutex_val (kern s))(m := mutex_val (kern s) m - 1)" "thread_idle k' = thread_idle (kern s)"
    "same_threads (kern s) k'" "stack_step (kern s) k'"
    "alive k' R' (after_wake W (waiters (kern s) W m)) V = alive (kern s) R W V"
    using mutex_unlock_rep [OF k(1) run held_val(1) [OF inv held]] by blast
  let ?s = "release (running s) m (s\<lparr>kern := k'\<rparr>)"
  have "sync_ok M T ?s"
  proof (rule sync_release [OF inv user held _ _ _ u(2) _ u(3,4)])
    show "thread_shape ?s (after_wake W (waiters (kern s) W m)) V ow' (running s)" for ow'
      using stack_stepD(2) [OF u(6)] user user_call [OF inv user] running_not_waiting [OF k(1) run] after_wake_sub
      by (intro shape_running) (auto simp: release_def in_user_def)
    show "running s \<in> T" using k(2) run by (auto simp: alive_def)
  qed (use u(5,6,7) k(2) stack_stepD(1) in \<open>auto simp: release_def same_threadsD\<close>)
  then show ?thesis using u(1) by (simp add: sync_exec_def)
qed

lemma sync_cond_wait:
  assumes inv: "sync_inv M T s R W V ow" and en: "sync_enabled (U_cond_wait c m) s"
  shows "\<exists>s'. sync_exec (U_cond_wait c m) s = Some s' \<and> sync_ok M T s'"
proof -
  have user: "in_user s" and run: "running s \<noteq> thread_idle (kern s)" and held: "running s \<in> held s m"
    using en by (simp_all add: sync_enabled_def)
  note k = sync_invD(1,2) [OF inv]
  obtain k' R' where u: "sys_pthread_cond_wait c m (kern s) = Some (Switched, k')"
    "kernel_inv k' R' (after_wake W (waiters (kern s) W m)) (V @ [running s]) M"
    "mutex_val k' = (mutex_val (kern s))(m := mutex_val (kern s) m - 1)" "thread_idle k' = thread_idle (kern s)"
    "\<forall>t. t \<noteq> running s \<longrightarrow> ti_private (threads k' t) = ti_private (threads (kern s) t)"
    "kstack k' = (kstack (kern s))(running s := K_elect # K_cond_lock m # kstack (kern s) (running s))"
    "alive k' R' (after_wake W (waiters (kern s) W m)) (V @ [running s]) = alive (kern s) R W V"
    using cond_wait_rep [OF k(1) run held_val(1) [OF inv held], of c] by blast
  let ?s = "(release (running s) m (s\<lparr>kern := k'\<rparr>))\<lparr>call := (call s)(running s \<mapsto> m)\<rparr>"
  have "sync_ok M T ?s"
  proof (rule sync_release [OF inv user held _ _ _ u(2) _ u(3,4)])
    show "thread_shape ?s (after_wake W (waiters (kern s) W m)) (V @ [running s]) ow' (running s)" for ow'
      using u(4,6) user running_not_waiting [OF k(1) run] run after_wake_sub
      by (auto simp: thread_shape_def release_def in_user_def)
    show "running s \<in> T" using k(2) run by (auto simp: alive_def)
  qed (use u k(2) in \<open>auto simp: release_def\<close>)
  then show ?thesis using u(1) by (simp add: sync_exec_def lock_return_def release_def Let_def)
qed

text \<open>Signalling a condition and the timer: the mutexes do not change.\<close>

lemma sync_sched:
  assumes inv: "sync_inv M T s R W V ow" and user: "in_user s"
    and k: "kernel_inv k R' W V' M" "alive k R' W V' = T" "mutex_val k = mutex_val (kern s)"
      "thread_idle k = thread_idle (kern s)" "stack_step (kern s) k" "same_threads (kern s) k"
    and V': "set V' \<subseteq> set V"
  shows "sync_ok M T (s\<lparr>kern := k\<rparr>)"
proof -
  let ?t = "running s" and ?s = "s\<lparr>kern := k\<rparr>"
  have nocall: "call s ?t = None" by (rule user_call [OF inv user])
  have "owner_ok ?s W ow x" for x
  proof -
    have "kstack k t = kstack (kern s) t" if "call s t = Some x" for t
      using that nocall by (intro stack_stepD(1) [OF k(5)]) auto
    then show ?thesis using sync_invD(3) [OF inv, of x] k(3) by (auto simp: owner_ok_def)
  qed
  moreover have "thread_shape ?s W V' ow t" for t
  proof (cases "t = ?t")
    case True
    have "t \<notin> set W \<union> set V"
      using sync_invD(4) [OF inv, of t] nocall True by (simp add: thread_shape_def)
    then show ?thesis
      using True nocall stack_stepD(2) [OF k(5)] user V' by (intro shape_running) (auto simp: in_user_def)
  next
    case False
    show ?thesis
      by (rule shape_cong [OF sync_invD(4) [OF inv] False])
        (use False k(4) stack_stepD(1) [OF k(5)] same_threadsD(2) [OF k(6)] V' in auto)
  qed
  ultimately have "sync_inv M T ?s R' W V' ow" using k(1,2) sync_invD(5) [OF inv] by (simp add: sync_inv_def)
  then show ?thesis by (auto simp: sync_ok_def)
qed

lemma sync_signal:
  assumes inv: "sync_inv M T s R W V ow" and en: "sync_enabled (U_cond_signal c) s"
  shows "\<exists>s'. sync_exec (U_cond_signal c) s = Some s' \<and> sync_ok M T s'"
proof -
  have user: "in_user s" and run: "running s \<noteq> thread_idle (kern s)" using en by (simp_all add: sync_enabled_def)
  note k = sync_invD(1,2) [OF inv]
  obtain out k' R' where u: "sys_pthread_cond_signal c (kern s) = Some (out, k')"
    "kernel_inv k' R' W (after_wake V (waiters (kern s) V c)) M" "mutex_val k' = mutex_val (kern s)"
    "thread_idle k' = thread_idle (kern s)" "same_threads (kern s) k'" "stack_step (kern s) k'"
    "alive k' R' W (after_wake V (waiters (kern s) V c)) = alive (kern s) R W V"
    using cond_signal_rep [OF k(1) run, of c] by blast
  have "sync_ok M T (s\<lparr>kern := k'\<rparr>)"
    using u(7) k(2) by (intro sync_sched [OF inv user u(2) _ u(3,4,6,5) after_wake_sub]) simp
  then show ?thesis using u(1) by (simp add: sync_exec_def)
qed

lemma sync_tick:
  assumes inv: "sync_inv M T s R W V ow" and en: "sync_enabled U_tick s"
  shows "\<exists>s'. sync_exec U_tick s = Some s' \<and> sync_ok M T s'"
proof -
  have user: "in_user s" using en by (simp add: sync_enabled_def)
  note k = sync_invD(1,2) [OF inv]
  obtain out k' R' where u: "sched_elect SCHED_OPT_TICK (kern s) = Some (out, k')" "kernel_inv k' R' W V M"
    "frame_eq (kern s) k'" "stack_step (kern s) k'" "alive k' R' W V = alive (kern s) R W V"
    using tick_rep [OF k(1)] by blast
  have "sync_ok M T (s\<lparr>kern := k'\<rparr>)"
    using u(3,5) k(2) by (intro sync_sched [OF inv user u(2) _ _ _ u(4)]) (simp_all add: frame_eq_def)
  then show ?thesis using u(1) by (simp add: sync_exec_def)
qed

text \<open>Resuming a suspended call. The first frame is \<^verbatim>\<open>sched_elect\<close>, after the switch.\<close>

lemma sync_resume_elect:
  assumes inv: "sync_inv M T s R W V ow" and fs: "kstack (kern s) (running s) = K_elect # fs"
  shows "\<exists>s'. sync_exec U_resume s = Some s' \<and> sync_ok M T s'"
proof -
  let ?t = "running s" and ?k = "set_ti_state (running s) THREAD_STATE_RUNNING (pop_frame (running s) (kern s))"
  note k = sync_invD(1,2) [OF inv] and sh = sync_invD(4) [OF inv]
  have dm: "dom (call s) \<subseteq> T" by (rule sync_invD [OF inv])
  have kinv: "kernel_inv ?k R W V M"
    using kernel_inv_running [of "pop_frame ?t (kern s)" R W V M] k(1) by simp
  have run: "run_frame (kern s) = Some (Returned 0, ?k)" using fs by (simp add: run_frame_def)
  have f: "mutex_val ?k = mutex_val (kern s)" "cur ?k = ?t" "thread_idle ?k = thread_idle (kern s)"
    "kstack ?k = (kstack (kern s))(?t := fs)" "ti_private (threads ?k t) = ti_private (threads (kern s) t)" for t
    using fs by simp_all
  have lv: "alive ?k R W V = T" using k(2) f by (simp add: alive_def)
  have oth: "thread_shape s' W V ow t" if "t \<noteq> ?t" "kern s' = ?k" "call s' t = call s t" for s' t
    by (rule shape_cong [OF sh that(1)]) (use that f in auto)
  show ?thesis
  proof (cases "call s ?t")
    case None
    then have "fs = []" "?t \<notin> set W \<union> set V" using sh [of ?t] fs by (auto simp: thread_shape_def)
    then have "thread_shape (s\<lparr>kern := ?k\<rparr>) W V ow ?t" using None f(4) by (intro shape_running) auto
    then have "thread_shape (s\<lparr>kern := ?k\<rparr>) W V ow t" for t using oth [of t "s\<lparr>kern := ?k\<rparr>"] by (cases "t = ?t") auto
    moreover have "owner_ok (s\<lparr>kern := ?k\<rparr>) W ow x" for x
      using sync_invD(3) [OF inv, of x] f(1,4) None by (auto simp: owner_ok_def)
    ultimately have "sync_inv M T (s\<lparr>kern := ?k\<rparr>) R W V ow" using kinv lv dm by (simp add: sync_inv_def)
    then show ?thesis using run None by (auto simp: sync_exec_def sync_ok_def Let_def)
  next
    case (Some m)
    have idle: "?t \<noteq> thread_idle (kern s)" using sh [of ?t] Some by (simp add: thread_shape_def)
    note nw = running_not_waiting [OF k(1) idle]
    from sh [of ?t] Some fs nw consider "fs = []" "ow m = Some ?t" | "fs = [K_cond_lock m]"
      by (auto simp: thread_shape_def)
    then show ?thesis
    proof cases
      case 1
      let ?s = "acquire ?t m (s\<lparr>kern := ?k\<rparr>)"
      have "thread_shape ?s W V ow ?t" using 1(1) f(4) nw by (intro shape_running) (auto simp: acquire_def)
      then have "thread_shape ?s W V ow t" for t using oth [of t ?s] by (cases "t = ?t") (auto simp: acquire_def)
      moreover have "owner_ok ?s W ow x" for x
        using sync_invD(3) [OF inv, of x] f(1,4) 1(2) Some by (auto simp: owner_ok_def acquire_def)
      ultimately have "sync_inv M T ?s R W V ow" using kinv lv dm by (simp add: sync_inv_def) (auto simp: acquire_def)
      then show ?thesis using run Some 1(1) f(4) by (auto simp: sync_exec_def sync_ok_def Let_def)
    next
      case 2
      then have "thread_shape (s\<lparr>kern := ?k\<rparr>) W V ow ?t" using Some idle f nw by (simp add: thread_shape_def)
      then have "thread_shape (s\<lparr>kern := ?k\<rparr>) W V ow t" for t using oth [of t "s\<lparr>kern := ?k\<rparr>"] by (cases "t = ?t") auto
      moreover have "owner_ok (s\<lparr>kern := ?k\<rparr>) W ow x" for x
        using sync_invD(3) [OF inv, of x] f(1,4) fs 2 by (auto simp: owner_ok_def)
      ultimately have "sync_inv M T (s\<lparr>kern := ?k\<rparr>) R W V ow" using kinv lv dm by (simp add: sync_inv_def)
      then show ?thesis using run Some 2 f(4) by (auto simp: sync_exec_def sync_ok_def Let_def)
    qed
  qed
qed

lemma sync_resume_lock:
  assumes inv: "sync_inv M T s R W V ow" and fs: "kstack (kern s) (running s) = K_cond_lock m # fs"
  shows "\<exists>s'. sync_exec U_resume s = Some s' \<and> sync_ok M T s'"
proof -
  let ?t = "running s" and ?s = "s\<lparr>kern := pop_frame (running s) (kern s)\<rparr>"
  note k = sync_invD(1,2) [OF inv] and sh = sync_invD(4) [OF inv]
  have me: "call s ?t = Some m" "fs = []" "?t \<noteq> thread_idle (kern s)"
    using sh [of ?t] fs by (auto simp: thread_shape_def split: option.splits)
  have f: "cur (kern ?s) = ?t" "thread_idle (kern ?s) = thread_idle (kern s)" "threads (kern ?s) = threads (kern s)"
    "mutex_val (kern ?s) = mutex_val (kern s)" "kstack (kern ?s) = (kstack (kern s))(?t := [])"
    using fs me(2) by simp_all
  have own: "?t \<in> held s x" if "ow x = Some ?t" for x using owner_okD(3) [OF sync_invD(3) [OF inv] that] fs by auto
  have "\<exists>r k'. sys_pthread_mutex_lock m (kern ?s) = Some (r, k') \<and> (r \<noteq> Switched \<longrightarrow> kstack k' (running ?s) = []) \<and>
    (r = Switched \<longrightarrow> kstack k' (running ?s) \<noteq> []) \<and>
    sync_ok M T (lock_return (running ?s) m r (?s\<lparr>kern := k'\<rparr>))"
  proof (rule sync_lock)
    show "kernel_inv (kern ?s) R W V M" "alive (kern ?s) R W V = T" using k f(1,2) by (simp_all add: alive_def)
    show "owner_ok ?s W ow x" for x using sync_invD(3) [OF inv, of x] f(4,5) fs by (auto simp: owner_ok_def)
    show "thread_shape ?s W V ow t" if "t \<noteq> running ?s" for t
      by (rule shape_cong [OF sh]) (use that f in auto)
    show "dom (call ?s) \<subseteq> T" using sync_invD(5) [OF inv] by simp
    show "running ?s \<in> held ?s x" if "ow x = Some (running ?s)" for x using own that f(1) by simp
  qed (use f me in auto)
  then obtain r k' where l: "sys_pthread_mutex_lock m (pop_frame ?t (kern s)) = Some (r, k')"
    "r \<noteq> Switched \<longrightarrow> kstack k' ?t = []" "r = Switched \<longrightarrow> kstack k' ?t \<noteq> []"
    "sync_ok M T (lock_return ?t m r (s\<lparr>kern := k'\<rparr>))" by auto
  have "(call s)(?t \<mapsto> m) = call s" using me(1) by (rule map_upd_triv)
  then have "s\<lparr>kern := k', call := (call s)(?t \<mapsto> m)\<rparr> = s\<lparr>kern := k'\<rparr>" by simp
  then show ?thesis using l me(1) fs
    by (cases r) (auto simp: sync_exec_def run_frame_def lock_return_def)
qed

lemma sync_lock_user:
  assumes inv: "sync_inv M T s R W V ow" and en: "sync_enabled (U_lock m) s"
  shows "\<exists>s'. sync_exec (U_lock m) s = Some s' \<and> sync_ok M T s'"
proof -
  have user: "in_user s" and run: "running s \<noteq> thread_idle (kern s)" using en by (simp_all add: sync_enabled_def)
  have "running s \<in> held s x" if "ow x = Some (running s)" for x
    using owner_okD(3) [OF sync_invD(3) [OF inv] that] user_call [OF inv user] by auto
  then have "\<exists>r k. sys_pthread_mutex_lock m (kern s) = Some (r, k) \<and> (r \<noteq> Switched \<longrightarrow> kstack k (running s) = []) \<and>
    (r = Switched \<longrightarrow> kstack k (running s) \<noteq> []) \<and> sync_ok M T (lock_return (running s) m r (s\<lparr>kern := k\<rparr>))"
    using run user by (intro sync_lock [OF sync_invD(1-5) [OF inv]]) (simp_all add: in_user_def)
  then show ?thesis by (auto simp: sync_exec_def Let_def)
qed

lemma sync_resume:
  assumes inv: "sync_inv M T s R W V ow" and en: "sync_enabled U_resume s"
  shows "\<exists>s'. sync_exec U_resume s = Some s' \<and> sync_ok M T s'"
proof -
  have "kstack (kern s) (running s) \<noteq> []" using en by (simp add: sync_enabled_def in_user_def)
  then consider fs where "kstack (kern s) (running s) = K_elect # fs"
    | m fs where "kstack (kern s) (running s) = K_cond_lock m # fs"
    using sync_invD(4) [OF inv, of "running s"] by (auto simp: thread_shape_def split: option.splits)
  then show ?thesis using sync_resume_elect [OF inv] sync_resume_lock [OF inv] by cases blast+
qed

interpretation sync: guarded_machine sync_exec sync_enabled "sync_ok M T" for M T
proof
  fix s op assume "sync_ok M T s" and en: "sync_enabled op s"
  then obtain R W V ow where inv: "sync_inv M T s R W V ow" by (auto simp: sync_ok_def)
  show "\<exists>s'. sync_exec op s = Some s' \<and> sync_ok M T s'"
    using en sync_lock_user [OF inv] sync_unlock [OF inv] sync_cond_wait [OF inv] sync_signal [OF inv]
      sync_tick [OF inv] sync_resume [OF inv] by (cases op) blast+
qed

section \<open>Properties\<close>

text \<open>The start: all mutexes are free, no thread waits and no thread is inside a call.\<close>

definition sync_start :: "sync \<Rightarrow> bool" where
  "sync_start s \<longleftrightarrow> mutex_val (kern s) = (\<lambda>_. - 1) \<and> kstack (kern s) = (\<lambda>_. []) \<and>
     held s = (\<lambda>_. {}) \<and> call s = (\<lambda>_. None)"

lemma start_ok:
  assumes "sync_start s" "kernel_inv (kern s) R [] [] M"
  shows "sync_ok M (alive (kern s) R [] []) s"
proof -
  have "sync_inv M (alive (kern s) R [] []) s R [] [] (\<lambda>_. None)"
    using assms by (simp add: sync_inv_def sync_start_def owner_ok_def thread_shape_def)
  then show ?thesis by (auto simp: sync_ok_def)
qed

definition demo_sync :: sync where
  "demo_sync = \<lparr> kern = demo_state, held = (\<lambda>_. {}), call = (\<lambda>_. None) \<rparr>"

lemma demo_sync_start: "sync_start demo_sync" "kernel_inv (kern demo_sync) demo_R [] [] Map.empty"
proof -
  show "sync_start demo_sync" by (simp add: sync_start_def demo_sync_def demo_state_def kstate_zero_def)
  show "kernel_inv (kern demo_sync) demo_R [] [] Map.empty"
    using demo_kernel_inv [of "mutex_val demo_state"] by (simp add: demo_sync_def demo_state_def kstate_zero_def)
qed

lemma no_wait_free:
  assumes "kernel_inv st R W V M" "t \<in> set W"
  shows "0 \<le> mutex_val st (ti_private (threads st t))"
proof -
  let ?m = "ti_private (threads st t)"
  have "waiters st W ?m \<noteq> []" using assms(2) by (auto simp: waiters_def filter_empty_conv)
  moreover have "mutex_val st ?m = int (length (waiters st W ?m)) \<or> mutex_val st ?m = - 1 \<and> waiters st W ?m = []"
    using assms(1) by (auto simp: kernel_inv_def queues_inv_def mutex_inv_def)
  ultimately show ?thesis by auto
qed

text \<open>
  C14. Mutual exclusion: whatever the threads do and whenever the timer preempts them, at most one
  thread has returned from locking a mutex (by \<^verbatim>\<open>sys_pthread_mutex_lock\<close> or \<^verbatim>\<open>sys_pthread_cond_wait\<close>)
  without releasing it.
\<close>

theorem sync_mutual_exclusion:
  assumes "sync_start s0" "kernel_inv (kern s0) R [] [] M" "reaches sync_exec sync_enabled s0 s"
    "t \<in> held s m" "u \<in> held s m"
  shows "t = u"
proof -
  obtain R' W V ow where inv: "sync_inv M (alive (kern s0) R [] []) s R' W V ow"
    using sync.reachable_inv [OF assms(3) start_ok [OF assms(1,2)]] by (auto simp: sync_ok_def)
  show ?thesis using held_val(2) [OF inv assms(4)] held_val(2) [OF inv assms(5)] by simp
qed

theorem sync_mutual_exclusion_witness:
  "\<exists>s. sync_exec (U_lock 7) demo_sync = Some s \<and> 3 \<in> held s 7 \<and> (\<forall>t. t \<in> held s 7 \<longrightarrow> t = 3)"
proof -
  obtain s where s: "sync_exec (U_lock 7) demo_sync = Some s" "3 \<in> held s 7" "sync_enabled (U_lock 7) demo_sync"
    by (simp add: sync_exec_def sync_enabled_def in_user_def demo_sync_def sys_pthread_mutex_lock_def add_val_def
        lock_return_def acquire_def demo_state_def kstate_zero_def Let_def)
  have "reaches sync_exec sync_enabled demo_sync s" by (rule reaches_step [where op = "U_lock 7"]) (rule reaches_refl, rule s, rule s)
  then show ?thesis using sync_mutual_exclusion [OF demo_sync_start] s by blast
qed

text \<open>
  C15. No call of the machine ever faults: from a start state, every enabled operation (locking,
  unlocking or waiting with a held mutex, signalling, a timer tick, resuming a suspended call)
  has a result in every reachable state.
\<close>

theorem sync_never_faults:
  assumes "sync_start s0" "kernel_inv (kern s0) R [] [] M" "reaches sync_exec sync_enabled s0 s"
    "sync_enabled op s"
  shows "\<exists>s'. sync_exec op s = Some s'"
  using sync.never_stuck [OF assms(3) start_ok [OF assms(1,2)] assms(4)] .

theorem sync_never_faults_witness:
  "\<exists>s'. sync_exec U_tick demo_sync = Some s'"
proof -
  have "sync_enabled U_tick demo_sync"
    by (simp add: sync_enabled_def in_user_def demo_sync_def demo_state_def kstate_zero_def)
  then show ?thesis by (rule sync_never_faults [OF demo_sync_start reaches_refl])
qed

text \<open>
  C16. No thread is lost and no wake-up is missed: in every reachable state each thread of the start
  state runs, is ready, waits for a condition, or waits for a mutex that another call holds:
  its owner returned from the lock, or is past the wait list and about to return from it.
\<close>

theorem sync_no_lost_thread:
  assumes "sync_start s0" "kernel_inv (kern s0) R [] [] M" "reaches sync_exec sync_enabled s0 s"
    "t \<in> alive (kern s0) R [] []"
  shows "\<exists>R' W V. kernel_inv (kern s) R' W V M \<and>
    (t = running s \<or> t \<in> ready R' \<or> t \<in> set V \<or>
     (t \<in> set W \<and> (\<exists>m u. call s t = Some m \<and> ti_private (threads (kern s) t) = m \<and> 0 \<le> mutex_val (kern s) m \<and>
        (u \<in> held s m \<or> call s u = Some m \<and> u \<notin> set W \<and> u \<notin> set V \<and> (u = running s \<or> u \<in> ready R')))))"
proof -
  let ?T = "alive (kern s0) R [] []"
  obtain R' W V ow where inv: "sync_inv M ?T s R' W V ow"
    using sync.reachable_inv [OF assms(3) start_ok [OF assms(1,2)]] by (auto simp: sync_ok_def)
  note k = sync_invD(1,2) [OF inv]
  have "\<exists>m u. call s t = Some m \<and> ti_private (threads (kern s) t) = m \<and> 0 \<le> mutex_val (kern s) m \<and>
      (u \<in> held s m \<or> call s u = Some m \<and> u \<notin> set W \<and> u \<notin> set V \<and> (u = running s \<or> u \<in> ready R'))" if t: "t \<in> set W"
  proof -
    obtain m where m: "call s t = Some m" "ti_private (threads (kern s) t) = m"
      using sync_invD(4) [OF inv, of t] t by (auto simp: thread_shape_def split: option.splits)
    have val: "0 \<le> mutex_val (kern s) m" using no_wait_free [OF k(1) t] m(2) by simp
    then obtain u where u: "ow m = Some u" using owner_okD(1) [OF sync_invD(3) [OF inv], of m] by force
    from owner_okD(3) [OF sync_invD(3) [OF inv] u]
    have "u \<in> held s m \<or> call s u = Some m \<and> u \<notin> set W \<and> u \<notin> set V \<and> (u = running s \<or> u \<in> ready R')"
    proof (elim disjE conjE)
      assume c: "call s u = Some m" "kstack (kern s) u = [K_elect]" "u \<notin> set W"
      then have "u \<notin> set V" using sync_invD(4) [OF inv, of u] by (simp add: thread_shape_def)
      with c show ?thesis using sync_invD(5) [OF inv] k(2) by (auto simp: alive_def)
    qed blast
    then show ?thesis using m val by blast
  qed
  moreover have "t = running s \<or> t \<in> ready R' \<or> t \<in> set W \<or> t \<in> set V"
    using assms(4) k(2) by (auto simp: alive_def)
  ultimately show ?thesis using k(1) by blast
qed

theorem sync_no_lost_thread_witness:
  "\<exists>R' W V. kernel_inv (kern demo_sync) R' W V Map.empty \<and> (1 = running demo_sync \<or> 1 \<in> ready R' \<or> 1 \<in> set V \<or> 1 \<in> set W)"
proof -
  have "1 \<in> alive (kern demo_sync) demo_R [] []" unfolding alive_def ready_def demo_R_def
    by (auto intro!: exI [of _ False] exI [of _ 31])
  from sync_no_lost_thread [OF demo_sync_start reaches_refl this] show ?thesis by blast
qed

end
