(* ===== verification/Thread_Ops.thy ===== *)
theory Thread_Ops
  imports Sync Page
begin

text \<open>
  Threads: \<^verbatim>\<open>kernel/thread.c\<close>, with \<^verbatim>\<open>kernel/resource.c\<close>. The state adds to the scheduler's the page allocator,
  the memory that holds the initial stack frames, and the counter of thread ids.

  The addresses the linker and the processor's header file supply are the record \<open>board\<close>: where the
  pages are, the address of \<^verbatim>\<open>pthread_exit\<close> in the C library, and the Thumb bit of the status register.

  \<open>None\<close> is a fault: dereferencing NULL, or \<^verbatim>\<open>free\<close> of memory that \<^verbatim>\<open>malloc\<close> did not return, which is what
  \<^verbatim>\<open>thread_create\<close> does with the interrupt stack when there is no page for the user stack.
\<close>

section \<open>Data\<close>

record board =
  pgmem :: addr
  pthread_exit_addr :: u32
  xPSR_T_Msk :: u32

record rlimit =
  rlim_cur :: u32
  rlim_max :: u32

record tstate =
  ks :: kstate
  pgs :: page_maps
  kmem :: "addr \<Rightarrow> u32"
  thread_count :: int
  rlimits :: "nat \<Rightarrow> rlimit"

definition V7M_EXC_RETURN_THREAD_PROCESS :: u32 where "V7M_EXC_RETURN_THREAD_PROCESS = 0xfffffffd"

definition v7m_set_thumb_bit :: "u32 \<Rightarrow> u32" where "v7m_set_thumb_bit a = a OR 1"

definition v7m_clear_thumb_bit :: "u32 \<Rightarrow> u32" where "v7m_clear_thumb_bit a = a AND NOT 1"

definition sizeof_kernel_context_regs :: u32 where "sizeof_kernel_context_regs = 40"
definition sizeof_thread_context_regs :: u32 where "sizeof_thread_context_regs = 32"


definition THREAD_PRIV_SUPERVISOR :: u32 where "THREAD_PRIV_SUPERVISOR = 0"
definition THREAD_PRIV_USER :: u32 where "THREAD_PRIV_USER = 1"

definition RLIMIT_STACK :: nat where "RLIMIT_STACK = 0"

section \<open>Resource limits\<close>

definition rlimits_init :: "nat \<Rightarrow> rlimit" where
  "rlimits_init = (\<lambda>_. \<lparr> rlim_cur = 1024, rlim_max = 1024 \<rparr>)"

definition sys_getrlimit :: "nat \<Rightarrow> tstate \<Rightarrow> (int \<times> rlimit) option" where
  "sys_getrlimit resource st = (if resource < 1 then Some (0, rlimits st resource) else None)"

definition sys_setrlimit :: "nat \<Rightarrow> rlimit \<Rightarrow> tstate \<Rightarrow> (int \<times> tstate) option" where
  "sys_setrlimit resource rlim st =
     (if resource < 1 then Some (0, st\<lparr>rlimits := (rlimits st)(resource := rlim)\<rparr>) else None)"

section \<open>Creation\<close>

fun store_words :: "addr \<Rightarrow> u32 list \<Rightarrow> (addr \<Rightarrow> u32) \<Rightarrow> addr \<Rightarrow> u32" where
  "store_words a [] m = m"
| "store_words a (w # ws) m = store_words (a + 4) ws (m(a := w))"

text \<open>The order \<^verbatim>\<open>size_to_page_order\<close> returns, converted to \<^verbatim>\<open>unsigned long\<close> for the page allocator.\<close>

definition order_of :: "u32 \<Rightarrow> nat" where
  "order_of sz = unat (word_of_int (size_to_page_order sz) :: u32)"

text \<open>The initial contents of \<^verbatim>\<open>struct kernel_context_regs\<close> and of \<^verbatim>\<open>struct thread_context_regs\<close>.\<close>

definition kernel_frame :: "u32 list" where
  "kernel_frame = replicate 9 0 @ [V7M_EXC_RETURN_THREAD_PROCESS]"

definition thread_frame :: "board \<Rightarrow> u32 \<Rightarrow> u32 \<Rightarrow> u32 list" where
  "thread_frame bd start_routine arg =
     [arg, 0, 0, 0, 0, pthread_exit_addr bd, v7m_clear_thumb_bit start_routine, xPSR_T_Msk bd]"

definition alloc_interrupt_stack :: "board \<Rightarrow> tstate \<Rightarrow> (addr option \<times> tstate) option" where
  "alloc_interrupt_stack bd st = do {
     (memp, B) \<leftarrow> alloc_pages (pgmem bd) (pgs st) (order_of INTR_STACK_SIZE);
     let st = st\<lparr>pgs := B\<rparr>;
     (case memp of
        None \<Rightarrow> Some (None, st)
      | Some memp \<Rightarrow>
          let kcr = memp + INTR_STACK_SIZE - sizeof_kernel_context_regs
          in Some (Some kcr, st\<lparr>kmem := store_words kcr kernel_frame (kmem st)\<rparr>)) }"

definition alloc_thread_stack :: "board \<Rightarrow> u32 \<Rightarrow> u32 \<Rightarrow> u32 \<Rightarrow> tstate \<Rightarrow> (addr option \<times> tstate) option" where
  "alloc_thread_stack bd start_routine arg stacksize st = do {
     (memp, B) \<leftarrow> alloc_pages (pgmem bd) (pgs st) (order_of stacksize);
     let st = st\<lparr>pgs := B\<rparr>;
     (case memp of
        None \<Rightarrow> Some (None, st)
      | Some memp \<Rightarrow>
          let tcr = memp + stacksize - sizeof_thread_context_regs
          in Some (Some tcr, st\<lparr>kmem := store_words tcr (thread_frame bd start_routine arg) (kmem st)\<rparr>)) }"

definition thread_create ::
    "board \<Rightarrow> u32 \<Rightarrow> u32 \<Rightarrow> u32 \<Rightarrow> u32 \<Rightarrow> addr \<Rightarrow> tstate \<Rightarrow> (addr option \<times> tstate) option" where
  "thread_create bd start_routine arg priv stacksize task st = do {
     (kcr, st) \<leftarrow> alloc_interrupt_stack bd st;
     (case kcr of
        None \<Rightarrow> Some (None, st)
      | Some kcr \<Rightarrow> do {
          (tcr, st) \<leftarrow> alloc_thread_stack bd start_routine arg stacksize st;
          let thread = THREAD_INFO kcr;
          (case tcr of
             None \<Rightarrow> None
           | Some tcr \<Rightarrow> do {
               let ti = (threads (ks st) thread)\<lparr>
                 mi_psp := tcr, mi_msp := kcr, mi_priv := priv, ti_stacksize := stacksize,
                 ti_id := thread_count st, ti_task := task, ti_joinable := False, ti_joining := None,
                 ti_detached := False, ti_priority := PRI_MIN, ti_state := THREAD_STATE_NEW,
                 ti_canary0 := THREAD_CANARY0, ti_canary1 := THREAD_CANARY1\<rparr>;
               let k = (ks st)\<lparr>threads := (threads (ks st))(thread := ti)\<rparr>;
               h \<leftarrow> list_add (klinks k) (Node (TiList thread)) (Node (ThreadHead task));
               Some (Some thread, st\<lparr>ks := k\<lparr>klinks := h\<rparr>, thread_count := thread_count st + 1\<rparr>) }) }) }"

section \<open>Operations of threads\<close>

definition thread_yield :: "kstate \<Rightarrow> (outcome \<times> kstate) option" where
  "thread_yield k = do { (r, k) \<leftarrow> sched_enqueue k (cur k); sched_elect SCHED_OPT_NONE k }"

definition thread_self :: "kstate \<Rightarrow> int" where
  "thread_self k = ti_id (threads k (cur k))"

text \<open>\<^verbatim>\<open>thread_exit\<close>: between the release of the stack and the last election, the return value is published or the interrupt stack released.\<close>

definition exit_prepare :: "board \<Rightarrow> u32 \<Rightarrow> tstate \<Rightarrow> tstate option" where
  "exit_prepare bd retval st = do {
     let t = cur (ks st);
     let ti = threads (ks st) t;
     if \<not> ti_detached ti then do {
       let k = (ks st)\<lparr>threads := (threads (ks st))(t := ti\<lparr>ti_retval := retval\<rparr>)\<rparr>;
       (case ti_joining ti of
          Some joining \<Rightarrow> do { (r, k) \<leftarrow> sched_enqueue k joining; Some (st\<lparr>ks := k\<rparr>) }
        | None \<Rightarrow> Some (st\<lparr>ks := k\<lparr>threads := (threads k)(t := (threads k t)\<lparr>ti_joinable := True\<rparr>)\<rparr>\<rparr>)) }
     else do {
       B \<leftarrow> free_pages (pgmem bd) (pgs st) t (order_of INTR_STACK_SIZE);
       Some (st\<lparr>pgs := B\<rparr>) } }"

definition thread_exit :: "board \<Rightarrow> u32 \<Rightarrow> tstate \<Rightarrow> (outcome \<times> tstate) option" where
  "thread_exit bd retval st = do {
     let ti = threads (ks st) (cur (ks st));
     B \<leftarrow> free_pages (pgmem bd) (pgs st) (align (mi_psp ti) (ti_stacksize ti)) (order_of (ti_stacksize ti));
     st \<leftarrow> exit_prepare bd retval (st\<lparr>pgs := B\<rparr>);
     (r, k) \<leftarrow> sched_elect SCHED_OPT_RESTORE_ONLY (ks st);
     Some (r, st\<lparr>ks := k\<rparr>) }"

definition thread_set_priority :: "addr \<Rightarrow> int \<Rightarrow> kstate \<Rightarrow> int \<times> kstate" where
  "thread_set_priority t priority k =
     (0, k\<lparr>threads := (threads k)(t := (threads k t)\<lparr>ti_priority := priority\<rparr>)\<rparr>)"

definition has_id :: "kstate \<Rightarrow> int \<Rightarrow> knode \<Rightarrow> bool" where
  "has_id k i n = (case n of TiList t \<Rightarrow> ti_id (threads k t) = i | _ \<Rightarrow> False)"

definition find_thread_by_id :: "int \<Rightarrow> kstate \<Rightarrow> addr option option" where
  "find_thread_by_id i k = do {
     let curr_task = ti_task (threads k (cur k));
     r \<leftarrow> list_for_each_entry_find (klinks k) (has_id k i) (Node (ThreadHead curr_task));
     (case r of Some (TiList t) \<Rightarrow> Some (Some t) | Some _ \<Rightarrow> None | None \<Rightarrow> Some None) }"

definition set_ti_joining :: "addr \<Rightarrow> addr option \<Rightarrow> kstate \<Rightarrow> kstate" where
  "set_ti_joining t j k = k\<lparr>threads := (threads k)(t := (threads k t)\<lparr>ti_joining := j\<rparr>)\<rparr>"

definition thread_join :: "int \<Rightarrow> addr \<Rightarrow> kstate \<Rightarrow> (outcome \<times> kstate) option" where
  "thread_join i retval k = do {
     r \<leftarrow> find_thread_by_id i k;
     (case r of
        None \<Rightarrow> Some (Returned (- ESRCH), k)
      | Some other \<Rightarrow>
          if ti_detached (threads k other) then Some (Returned (- EINVAL), k)
          else if \<not> ti_joinable (threads k other) then
            (case ti_joining (threads k other) of
               Some _ \<Rightarrow> Some (Returned (- EINVAL), k)
             | None \<Rightarrow> do {
                 let k = push_frame (cur k) (K_join other retval) (set_ti_joining other (Some (cur k)) k);
                 (r, k) \<leftarrow> sched_elect SCHED_OPT_NONE k;
                 (case r of Switched \<Rightarrow> Some (Switched, k) | Returned _ \<Rightarrow> run_frame k) })
          else Some (Returned 0, k\<lparr>user_mem := (user_mem k)(retval := ti_retval (threads k other))\<rparr>)) }"

definition thread_detach :: "int \<Rightarrow> kstate \<Rightarrow> (int \<times> kstate) option" where
  "thread_detach i k = do {
     r \<leftarrow> find_thread_by_id i k;
     (case r of
        None \<Rightarrow> None
      | Some t \<Rightarrow> Some (0, k\<lparr>threads := (threads k)(t := (threads k t)\<lparr>ti_detached := True\<rparr>)\<rparr>)) }"

section \<open>The system calls\<close>

definition sys_pthread_yield :: "kstate \<Rightarrow> (outcome \<times> kstate) option" where
  "sys_pthread_yield = thread_yield"

definition sys_pthread_self :: "kstate \<Rightarrow> int" where
  "sys_pthread_self = thread_self"

definition sys_pthread_exit :: "board \<Rightarrow> u32 \<Rightarrow> tstate \<Rightarrow> (outcome \<times> tstate) option" where
  "sys_pthread_exit = thread_exit"

definition sys_pthread_detach :: "int \<Rightarrow> kstate \<Rightarrow> (int \<times> kstate) option" where
  "sys_pthread_detach = thread_detach"

text \<open>The attribute is NULL or holds the stack size.\<close>

definition sys_pthread_create ::
    "board \<Rightarrow> addr \<Rightarrow> u32 option \<Rightarrow> u32 \<Rightarrow> u32 \<Rightarrow> tstate \<Rightarrow> (int \<times> tstate) option" where
  "sys_pthread_create bd thread attr start_routine arg st = do {
     (r, stacklimit) \<leftarrow> sys_getrlimit RLIMIT_STACK st;
     let stacksize = (case attr of Some sz \<Rightarrow> min sz (rlim_max stacklimit) | None \<Rightarrow> rlim_cur stacklimit);
     (ti, st) \<leftarrow> thread_create bd start_routine arg THREAD_PRIV_USER stacksize
       (ti_task (threads (ks st) (cur (ks st)))) st;
     (case ti of
        None \<Rightarrow> Some (EAGAIN, st)
      | Some t \<Rightarrow> do {
          let k = (ks st)\<lparr>user_mem := (user_mem (ks st))(thread := word_of_int (ti_id (threads (ks st) t)))\<rparr>;
          (r, k) \<leftarrow> sched_enqueue k t;
          Some (0, st\<lparr>ks := k\<rparr>) }) }"

definition sys_pthread_join :: "int \<Rightarrow> addr \<Rightarrow> kstate \<Rightarrow> (outcome \<times> kstate) option" where
  "sys_pthread_join = thread_join"

section \<open>Stack frames in memory\<close>

definition frame_at :: "(addr \<Rightarrow> u32) \<Rightarrow> addr \<Rightarrow> u32 list \<Rightarrow> bool" where
  "frame_at m a ws \<longleftrightarrow> (\<forall>i<length ws. m (a + of_nat (4 * i)) = ws ! i)"

lemma store_words_off:
  assumes "\<And>i. i < length ws \<Longrightarrow> b \<noteq> a + of_nat (4 * i)"
  shows "store_words a ws m b = m b"
  using assms
proof (induction ws arbitrary: a m)
  case (Cons w ws)
  have "b \<noteq> a + 4 + of_nat (4 * i)" if "i < length ws" for i
    using Cons(2) [of "Suc i"] that by (simp add: algebra_simps)
  moreover have "b \<noteq> a" using Cons(2) [of 0] by simp
  ultimately show ?case using Cons(1) by simp
qed simp

lemma store_words_frame:
  assumes "4 * length ws < 2 ^ 32"
  shows "frame_at (store_words a ws m) a ws"
  using assms
proof (induction ws arbitrary: a m)
  case (Cons w ws)
  have ne: "a \<noteq> a + 4 + of_nat (4 * i)" if "i < length ws" for i
  proof
    assume "a = a + 4 + of_nat (4 * i)"
    then have "of_nat (4 + 4 * i) = (0 :: u32)" by (simp add: add.assoc)
    moreover have "unat (of_nat (4 + 4 * i) :: u32) = 4 + 4 * i"
      using Cons(2) that by (intro unat_of_nat_small) simp
    ultimately show False by simp
  qed
  have head: "store_words (a + 4) ws (m(a := w)) a = w" using store_words_off [of ws a "a + 4" "m(a := w)"] ne by simp
  have "store_words (a + 4) ws (m(a := w)) (a + of_nat (4 * i)) = (w # ws) ! i" if "i < Suc (length ws)" for i
  proof (cases i)
    case 0
    then show ?thesis using head by simp
  next
    case (Suc j)
    have "frame_at (store_words (a + 4) ws (m(a := w))) (a + 4) ws" using Cons by simp
    then have "store_words (a + 4) ws (m(a := w)) (a + 4 + of_nat (4 * j)) = ws ! j"
      using that Suc unfolding frame_at_def by blast
    moreover have "a + of_nat (4 * i) = a + 4 + of_nat (4 * j)" using Suc by (simp add: algebra_simps)
    ultimately show ?thesis using Suc by (simp only: nth_Cons_Suc)
  qed
  then show ?case by (simp add: frame_at_def)
qed (simp add: frame_at_def)

lemma order_of_fits:
  assumes "sz \<le> 2048"
  shows "order_of sz \<le> 3" "unat sz \<le> 2 ^ (order_of sz + 8)"
  using assms by (simp_all add: order_of_def size_to_page_order_def word_le_nat_alt)

lemma order_intr: "order_of INTR_STACK_SIZE = 1" "INTR_STACK_SIZE = 512" "order_of 512 = 1"
  by (simp_all add: order_of_def size_to_page_order_def INTR_STACK_SIZE_def)

text \<open>The bytes of a page belong to its units, so pages with disjoint units do not share a byte.\<close>

definition page_bytes :: "addr \<Rightarrow> nat \<Rightarrow> nat set" where
  "page_bytes a ord = {unat a ..< unat a + 2 ^ (ord + 8)}"

lemma page_bytes_units:
  assumes "pgmem_ok pg" "ord \<le> 3" "i < page_bitmap_sz ord" "x \<in> page_bytes (page_idx_to_addr pg i ord) ord"
  shows "(x - unat pg) div 256 \<in> units ord i"
proof -
  have "unat (page_idx_to_addr pg i ord) = unat pg + i * 2 ^ (ord + 8)"
    by (rule unat_page_addr [OF assms(1-3)])
  then obtain r where r: "x - unat pg = 256 * (i * 2 ^ ord) + r" "r < 256 * 2 ^ ord"
    using assms(4) by (auto simp: page_bytes_def power_add le_iff_add)
  then have "(x - unat pg) div 256 = i * 2 ^ ord + r div 256" by simp
  moreover have "r div 256 < 2 ^ ord" using r(2) by (simp add: less_mult_imp_div_less mult.commute)
  ultimately show ?thesis by (simp add: units_def)
qed

lemma pages_disjoint:
  assumes "pgmem_ok pg" "o1 \<le> 3" "i < page_bitmap_sz o1" "o2 \<le> 3" "j < page_bitmap_sz o2"
    "units o1 i \<inter> units o2 j = {}"
  shows "page_bytes (page_idx_to_addr pg i o1) o1 \<inter> page_bytes (page_idx_to_addr pg j o2) o2 = {}"
  using page_bytes_units [OF assms(1-3)] page_bytes_units [OF assms(1,4,5)] assms(6) by blast

lemma frame_in_page:
  assumes "unat a + 2 ^ (ord + 8) \<le> 2 ^ 32" "unat sz \<le> 2 ^ (ord + 8)" "4 * n \<le> unat sz" "i < n"
  shows "unat (a + sz - of_nat (4 * n) + of_nat (4 * i)) \<in> page_bytes a ord"
proof -
  have addr: "a + sz - of_nat (4 * n) + of_nat (4 * i) = a + of_nat (unat sz - 4 * n + 4 * i)"
    using assms(3) by (simp add: of_nat_diff algebra_simps)
  have "unat sz - 4 * n + 4 * i < unat sz" using assms(3,4) by simp
  then have k: "unat sz - 4 * n + 4 * i < 2 ^ (ord + 8)" using assms(2) by simp
  then have "unat (of_nat (unat sz - 4 * n + 4 * i) :: u32) = unat sz - 4 * n + 4 * i"
    using assms(1) by (intro unat_of_nat_small) simp
  then have "unat (a + of_nat (unat sz - 4 * n + 4 * i)) = unat a + (unat sz - 4 * n + 4 * i)"
    using assms(1) k by (subst unat_add_no_wrap) (simp_all del: of_nat_add)
  then show ?thesis using k unfolding addr page_bytes_def atLeastLessThan_iff by linarith
qed

section \<open>What thread creation does\<close>

text \<open>The thread is found from any stack pointer inside its interrupt stack.\<close>

lemma THREAD_INFO_page:
  assumes "pgmem_ok pg" "i < page_bitmap_sz 1" "unat x \<in> page_bytes (page_idx_to_addr pg i 1) 1"
  shows "THREAD_INFO x = page_idx_to_addr pg i 1"
proof -
  let ?t = "page_idx_to_addr pg i 1"
  have t: "unat ?t = unat pg + i * 512" using unat_page_addr(1) [OF assms(1) _ assms(2)] by simp
  have "unat pg mod 512 = 0" using assms(1) by (auto simp: pgmem_ok_def dvd_eq_mod_eq_0 [symmetric] intro: dvd_trans)
  then obtain q where q: "unat ?t = 512 * q" unfolding t by (metis dvdE dvd_add dvd_eq_mod_eq_0 dvd_triv_right)
  have "unat x div 512 = q" using assms(3) q by (intro div_nat_eqI) (auto simp: page_bytes_def)
  then have "unat (align x (2 ^ 9)) = unat ?t" using q unat_align [of x 9] by simp
  then have "align x 512 = ?t" by (simp add: word_unat_eq_iff)
  then show ?thesis by (simp add: THREAD_INFO_def order_intr)
qed

definition new_thread :: "board \<Rightarrow> addr \<Rightarrow> addr \<Rightarrow> u32 \<Rightarrow> u32 \<Rightarrow> addr \<Rightarrow> tstate \<Rightarrow> thread_info" where
  "new_thread bd t p priv stacksize task st = (threads (ks st) t)\<lparr>
     mi_psp := p + stacksize - sizeof_thread_context_regs, mi_msp := t + INTR_STACK_SIZE - sizeof_kernel_context_regs,
     mi_priv := priv, ti_stacksize := stacksize,
     ti_id := thread_count st, ti_task := task, ti_joinable := False, ti_joining := None,
     ti_detached := False, ti_priority := PRI_MIN, ti_state := THREAD_STATE_NEW,
     ti_canary0 := THREAD_CANARY0, ti_canary1 := THREAD_CANARY1\<rparr>"

lemma alloc_interrupt_stack_run:
  assumes "alloc_pages (pgmem bd) (pgs st) 1 = Some (Some t, B)"
  shows "alloc_interrupt_stack bd st = Some (Some (t + 512 - 40),
    st\<lparr>pgs := B, kmem := store_words (t + 512 - 40) kernel_frame (kmem st)\<rparr>)"
  using assms by (simp add: alloc_interrupt_stack_def order_intr sizeof_kernel_context_regs_def Let_def)

lemma alloc_thread_stack_run:
  assumes "alloc_pages (pgmem bd) (pgs st) (order_of sz) = Some (Some p, B)"
  shows "alloc_thread_stack bd start arg sz st = Some (Some (p + sz - 32),
    st\<lparr>pgs := B, kmem := store_words (p + sz - 32) (thread_frame bd start arg) (kmem st)\<rparr>)"
  using assms by (simp add: alloc_thread_stack_def sizeof_thread_context_regs_def Let_def)

text \<open>Both initial frames are in memory afterwards, and no byte outside the two new pages changed.\<close>

lemma frames_in_memory:
  assumes pg: "pgmem_ok pg" and i: "i < page_bitmap_sz 1" and j: "j < page_bitmap_sz ord" "ord \<le> 3"
    and d: "units 1 i \<inter> units ord j = {}" and sz: "unat sz \<le> 2 ^ (ord + 8)" "32 \<le> unat sz"
    and m': "m' = store_words (page_idx_to_addr pg j ord + sz - 32) ws
      (store_words (page_idx_to_addr pg i 1 + 512 - 40) kws m)" and len: "length ws = 8" "length kws = 10"
  shows "frame_at m' (page_idx_to_addr pg j ord + sz - 32) ws" "frame_at m' (page_idx_to_addr pg i 1 + 512 - 40) kws"
    "\<And>a. unat a \<notin> page_bytes (page_idx_to_addr pg i 1) 1 \<union> page_bytes (page_idx_to_addr pg j ord) ord \<Longrightarrow> m' a = m a"
proof -
  let ?t = "page_idx_to_addr pg i 1" and ?p = "page_idx_to_addr pg j ord"
  have "unat ?t + 512 \<le> 2 ^ 32" "unat ?p + 2 ^ (ord + 8) \<le> 2 ^ 32"
    using unat_page_addr(1) [OF pg _ i] unat_page_addr(1) [OF pg j(2,1)] block_end [OF _ i] block_end [OF j(2,1)] pg
    by (simp_all add: pgmem_ok_def)
  note top = this
  have int: "unat (?t + 512 - 40 + of_nat (4 * n)) \<in> page_bytes ?t 1" if "n < 10" for n
    using frame_in_page [of ?t 1 512 10 n] top(1) that by simp
  have inp: "unat (?p + sz - 32 + of_nat (4 * n)) \<in> page_bytes ?p ord" if "n < 8" for n
    using frame_in_page [of ?p ord sz 8 n] top(2) sz that by simp
  have dj: "page_bytes ?t 1 \<inter> page_bytes ?p ord = {}" by (rule pages_disjoint [OF pg _ i j(2,1) d]) simp
  show "frame_at m' (?p + sz - 32) ws" unfolding m' by (rule store_words_frame) (simp add: len)
  have "frame_at (store_words (?t + 512 - 40) kws m) (?t + 512 - 40) kws" by (rule store_words_frame) (simp add: len)
  moreover have "m' (?t + 512 - 40 + of_nat (4 * n)) = store_words (?t + 512 - 40) kws m (?t + 512 - 40 + of_nat (4 * n))"
    if "n < 10" for n
  proof -
    have "?t + 512 - 40 + of_nat (4 * n) \<noteq> ?p + sz - 32 + of_nat (4 * l)" if "l < 8" for l
    proof
      assume "?t + 512 - 40 + of_nat (4 * n) = ?p + sz - 32 + of_nat (4 * l)"
      then have "unat (?p + sz - 32 + of_nat (4 * l)) \<in> page_bytes ?t 1" using int [OF \<open>n < 10\<close>] by (simp only:)
      then show False using inp [OF that] dj by blast
    qed
    then show ?thesis unfolding m' len(1) [symmetric] by (rule store_words_off)
  qed
  ultimately show "frame_at m' (?t + 512 - 40) kws" using len by (simp add: frame_at_def)
  show "m' a = m a" if "unat a \<notin> page_bytes ?t 1 \<union> page_bytes ?p ord" for a
  proof -
    have "m' a = store_words (?t + 512 - 40) kws m a"
      unfolding m' by (rule store_words_off) (use that inp len in auto)
    also have "\<dots> = m a" by (rule store_words_off) (use that int len in auto)
    finally show ?thesis .
  qed
qed

text \<open>Creation in the two pages that the allocator returns.\<close>

lemma thread_create_run:
  assumes ok: "pgmem_ok (pgmem bd)" and ls: "lists (klinks (ks st)) Q" "Q (ThreadHead task) = Some ts" "TiList t \<notin> ring_nodes Q"
    and sz: "32 \<le> unat sz" "sz \<le> 2048"
    and a1: "alloc_pages (pgmem bd) (pgs st) 1 = Some (Some t, B)" "i < page_bitmap_sz 1" "t = page_idx_to_addr (pgmem bd) i 1"
    and a2: "alloc_pages (pgmem bd) B (order_of sz) = Some (Some p, B')" "j < page_bitmap_sz (order_of sz)"
      "p = page_idx_to_addr (pgmem bd) j (order_of sz)" "units 1 i \<inter> units (order_of sz) j = {}"
  shows "\<exists>st' h. thread_create bd start arg priv sz task st = Some (Some t, st') \<and> pgs st' = B' \<and>
    lists h (Q(ThreadHead task \<mapsto> TiList t # ts)) \<and>
    ks st' = (ks st)\<lparr>threads := (threads (ks st))(t := new_thread bd t p priv sz task st), klinks := h\<rparr> \<and>
    thread_count st' = thread_count st + 1 \<and> rlimits st' = rlimits st \<and>
    frame_at (kmem st') (t + 512 - 40) kernel_frame \<and> frame_at (kmem st') (p + sz - 32) (thread_frame bd start arg) \<and>
    (\<forall>a. unat a \<notin> page_bytes t 1 \<union> page_bytes p (order_of sz) \<longrightarrow> kmem st' a = kmem st a)"
proof -
  let ?pg = "pgmem bd" and ?ord = "order_of sz"
  have "unat t + 512 \<le> 2 ^ 32"
    using unat_page_addr(1) [OF ok _ a1(2)] block_end [OF _ a1(2)] ok by (simp add: pgmem_ok_def a1(3))
  then have "unat (t + 512 - 40) \<in> page_bytes t 1" using frame_in_page [of t 1 512 10 0] by simp
  then have info: "THREAD_INFO (t + 512 - 40) = t" unfolding a1(3) by (rule THREAD_INFO_page [OF ok a1(2)])
  obtain h where h: "list_add (klinks (ks st)) (Node (TiList t)) (Node (ThreadHead task)) = Some h"
    "lists h (Q(ThreadHead task \<mapsto> TiList t # ts))"
    using lists_list_add [OF ls] by blast
  define m where "m = store_words (p + sz - 32) (thread_frame bd start arg) (store_words (t + 512 - 40) kernel_frame (kmem st))"
  define st' where "st' = st\<lparr>pgs := B', kmem := m,
    ks := (ks st)\<lparr>threads := (threads (ks st))(t := new_thread bd t p priv sz task st), klinks := h\<rparr>,
    thread_count := thread_count st + 1\<rparr>"
  have "thread_create bd start arg priv sz task st = Some (Some t, st')"
    unfolding thread_create_def alloc_interrupt_stack_run [OF a1(1)]
    using alloc_thread_stack_run [of bd "st\<lparr>pgs := B, kmem := store_words (t + 512 - 40) kernel_frame (kmem st)\<rparr>" sz p B' start arg]
      a2(1) h(1) info
    by (simp add: new_thread_def st'_def m_def Let_def order_intr sizeof_kernel_context_regs_def sizeof_thread_context_regs_def)
  moreover note fr = frames_in_memory [OF ok a1(2) a2(2) order_of_fits(1) [OF sz(2)] a2(4) order_of_fits(2) [OF sz(2)] sz(1)
    m_def [unfolded a1(3) a2(3)]]
  have lens: "length (thread_frame bd start arg) = 8" "length kernel_frame = 10"
    by (simp_all add: thread_frame_def kernel_frame_def)
  ultimately show ?thesis using h(2) fr [OF lens]
    by (intro exI [of _ st'] exI [of _ h]) (auto simp: st'_def a1(3) a2(3))
qed

lemma thread_create_rep:
  assumes pg: "pages_rep (pgmem bd) (pgs st) F" and ls: "lists (klinks (ks st)) Q" "Q (ThreadHead task) = Some ts"
    and fresh: "\<And>i. units 1 i \<subseteq> F \<Longrightarrow> TiList (page_idx_to_addr (pgmem bd) i 1) \<notin> ring_nodes Q"
    and sz: "32 \<le> unat sz" "sz \<le> 2048"
    and room: "units 1 a \<subseteq> F" "\<And>i. units 1 i \<subseteq> F \<Longrightarrow> \<exists>j. units (order_of sz) j \<subseteq> F - units 1 i"
  shows "\<exists>i j t p st'. thread_create bd start arg priv sz task st = Some (Some t, st') \<and>
    t = page_idx_to_addr (pgmem bd) i 1 \<and> p = page_idx_to_addr (pgmem bd) j (order_of sz) \<and>
    units 1 i \<subseteq> F \<and> units (order_of sz) j \<subseteq> F - units 1 i \<and>
    pages_rep (pgmem bd) (pgs st') (F - units 1 i - units (order_of sz) j) \<and>
    (\<exists>h. lists h (Q(ThreadHead task \<mapsto> TiList t # ts)) \<and>
      ks st' = (ks st)\<lparr>threads := (threads (ks st))(t := new_thread bd t p priv sz task st), klinks := h\<rparr>) \<and>
    thread_count st' = thread_count st + 1 \<and> rlimits st' = rlimits st \<and>
    frame_at (kmem st') (t + 512 - 40) kernel_frame \<and> frame_at (kmem st') (p + sz - 32) (thread_frame bd start arg) \<and>
    (\<forall>a. unat a \<notin> page_bytes t 1 \<union> page_bytes p (order_of sz) \<longrightarrow> kmem st' a = kmem st a)"
proof -
  let ?pg = "pgmem bd" and ?ord = "order_of sz"
  have ok: "pgmem_ok ?pg" using pg by (simp add: pages_rep_def)
  obtain i B where B: "i < page_bitmap_sz 1" "units 1 i \<subseteq> F"
    "alloc_pages ?pg (pgs st) 1 = Some (Some (page_idx_to_addr ?pg i 1), B)" "page_rep B (F - units 1 i)"
    by (rule alloc_pages_cases [OF pg, of 1]) (use room(1) in auto)
  obtain j B' where B': "j < page_bitmap_sz ?ord" "units ?ord j \<subseteq> F - units 1 i"
    "alloc_pages ?pg B ?ord = Some (Some (page_idx_to_addr ?pg j ?ord), B')" "page_rep B' (F - units 1 i - units ?ord j)"
    by (rule alloc_pages_cases [of ?pg B "F - units 1 i" ?ord])
      (use ok B(4) room(2) [OF B(2)] order_of_fits [OF sz(2)] in \<open>auto simp: pages_rep_def\<close>)
  have d: "units 1 i \<inter> units ?ord j = {}" using B'(2) by blast
  from thread_create_run [OF ok ls fresh [OF B(2)] sz B(3,1) refl B'(3,1) refl d, of start arg priv] obtain st' h where
    r: "thread_create bd start arg priv sz task st = Some (Some (page_idx_to_addr ?pg i 1), st')" "pgs st' = B'"
      "lists h (Q(ThreadHead task \<mapsto> TiList (page_idx_to_addr ?pg i 1) # ts))"
      "ks st' = (ks st)\<lparr>threads := (threads (ks st))(page_idx_to_addr ?pg i 1 :=
         new_thread bd (page_idx_to_addr ?pg i 1) (page_idx_to_addr ?pg j ?ord) priv sz task st), klinks := h\<rparr>"
      "thread_count st' = thread_count st + 1" "rlimits st' = rlimits st"
      "frame_at (kmem st') (page_idx_to_addr ?pg i 1 + 512 - 40) kernel_frame"
      "frame_at (kmem st') (page_idx_to_addr ?pg j ?ord + sz - 32) (thread_frame bd start arg)"
      "\<forall>a. unat a \<notin> page_bytes (page_idx_to_addr ?pg i 1) 1 \<union> page_bytes (page_idx_to_addr ?pg j ?ord) ?ord \<longrightarrow> kmem st' a = kmem st a"
    by blast
  then show ?thesis using B(2) B'(2,4) ok
    by (intro exI [of _ i] exI [of _ j] exI [of _ "page_idx_to_addr ?pg i 1"] exI [of _ "page_idx_to_addr ?pg j ?ord"] exI [of _ st'])
      (simp add: pages_rep_def, blast)
qed

text \<open>A record for a thread that is in no queue may be replaced, and the list of a task's threads may grow.\<close>

lemma run_rings_thread_head:
  "(run_rings R (wait_rings M W V))(ThreadHead task \<mapsto> xs) = run_rings R (wait_rings (M(ThreadHead task \<mapsto> xs)) W V)"
  by (rule ext, rename_tac n, case_tac n) (auto simp: wait_rings_def)

lemma queued_thread_head:
  assumes "M (ThreadHead task) = Some ts"
  shows "queued R (wait_rings (M(ThreadHead task \<mapsto> TiList t # ts)) W V) u \<longleftrightarrow> queued R (wait_rings M W V) u"
proof -
  have "(\<exists>n xs. (\<forall>b p. n \<noteq> RunQ b p) \<and> wait_rings (M(ThreadHead task \<mapsto> TiList t # ts)) W V n = Some xs \<and> TiQ u \<in> set (n # xs)) \<longleftrightarrow>
      (\<exists>n xs. (\<forall>b p. n \<noteq> RunQ b p) \<and> wait_rings M W V n = Some xs \<and> TiQ u \<in> set (n # xs))"
  proof -
    have "(wait_rings (M(ThreadHead task \<mapsto> TiList t # ts)) W V n = Some xs \<and> TiQ u \<in> set (n # xs)) \<longleftrightarrow>
        (if n = ThreadHead task then xs = TiList t # ts \<and> TiQ u \<in> set ts
         else wait_rings M W V n = Some xs \<and> TiQ u \<in> set (n # xs))" for n xs
      by (auto simp: wait_rings_def)
    moreover have "wait_rings M W V (ThreadHead task) = Some ts" using assms by (simp add: wait_rings_def)
    ultimately show ?thesis by (smt (verit) knode.distinct list.set_intros(2) option.inject set_ConsD)
  qed
  then show ?thesis unfolding queued_iff by blast
qed

lemma kernel_inv_new_thread:
  assumes inv: "kernel_inv k R W V M" and M: "M (ThreadHead task) = Some ts"
    and t: "t \<noteq> cur k" "t \<noteq> thread_idle k" "\<not> queued R (wait_rings M W V) t"
    and ti: "ti_canary0 ti = THREAD_CANARY0" "ti_canary1 ti = THREAD_CANARY1"
    and h: "lists h (run_rings R (wait_rings (M(ThreadHead task \<mapsto> TiList t # ts)) W V))"
  shows "kernel_inv (k\<lparr>threads := (threads k)(t := ti), klinks := h\<rparr>) R W V (M(ThreadHead task \<mapsto> TiList t # ts))"
proof -
  let ?M = "M(ThreadHead task \<mapsto> TiList t # ts)" and ?k = "k\<lparr>threads := (threads k)(t := ti), klinks := h\<rparr>"
  have q: "queues_inv k R W V M" using inv by (simp add: kernel_inv_def)
  then have rep: "sched_rep k R (wait_rings M W V)" and mi: "mutex_inv k W" and can: "canary_ok k u" for u
    by (auto simp: queues_inv_def)
  have nt: "u \<noteq> t" if "p < 32" "u \<in> set (R b p)" for u b p using that t(3) queued_wait(3) [of p u R b M W V] by auto
  have nw: "t \<notin> set W" "t \<notin> set V" using queued_wait(1,2) t(3) by auto
  have prio: "prio_ok ?k u = prio_ok k u" if "u \<noteq> t" for u using that by (simp add: prio_ok_def)
  have "sched_rep ?k R (wait_rings ?M W V)"
    using rep h nt unfolding sched_rep_def by auto
  moreover have "waiters ?k W m = waiters k W m" for m
    unfolding waiters_def using nw(1) by (intro filter_cong) auto
  then have "mutex_inv ?k W" using mi by (simp add: mutex_inv_def)
  moreover have "canary_ok ?k u" for u using can [of u] ti by (simp add: canary_ok_def)
  moreover have "\<forall>u\<in>set W \<union> set V. prio_ok ?k u \<and> u \<noteq> thread_idle ?k"
  proof
    fix u assume u: "u \<in> set W \<union> set V"
    then have "u \<noteq> t" using nw by auto
    moreover have "prio_ok k u \<and> u \<noteq> thread_idle k" using q u unfolding queues_inv_def by blast
    ultimately show "prio_ok ?k u \<and> u \<noteq> thread_idle ?k" using prio by simp
  qed
  moreover have "ti_state (threads ?k u) \<noteq> THREAD_STATE_BLOCKED" if "p < 32" "u \<in> set (R b p)" for b p u
    using q that nt [OF that] by (auto simp: queues_inv_def)
  moreover have "sched ?k = Some SCHED_CLASS_BITMAP" "maps_ok ?k" using q by (simp_all add: queues_inv_def maps_ok_def)
  ultimately have "queues_inv ?k R W V ?M" unfolding queues_inv_def by blast
  then show ?thesis using inv queued_thread_head [of M task ts R t W V] M t(1) prio by (simp add: kernel_inv_def)
qed

text \<open>No free page holds the structure of a thread that is running, idle, queued or listed by a task.\<close>

definition unused :: "addr \<Rightarrow> nat set \<Rightarrow> kstate \<Rightarrow> runqs \<Rightarrow> (knode \<Rightarrow> knode list option) \<Rightarrow> bool" where
  "unused pg F k R Q \<longleftrightarrow> (\<forall>i. units 1 i \<subseteq> F \<longrightarrow>
     page_idx_to_addr pg i 1 \<noteq> cur k \<and> page_idx_to_addr pg i 1 \<noteq> thread_idle k \<and>
     \<not> queued R Q (page_idx_to_addr pg i 1) \<and> TiList (page_idx_to_addr pg i 1) \<notin> ring_nodes (run_rings R Q))"

text \<open>There is room for an interrupt stack, and whichever page it gets, for the stack beside it.\<close>

definition stack_room :: "nat set \<Rightarrow> u32 \<Rightarrow> bool" where
  "stack_room F sz \<longleftrightarrow> (\<exists>i. units 1 i \<subseteq> F) \<and>
     (\<forall>i. units 1 i \<subseteq> F \<longrightarrow> (\<exists>j. units (order_of sz) j \<subseteq> F - units 1 i))"

definition create_size :: "u32 option \<Rightarrow> tstate \<Rightarrow> u32" where
  "create_size attr st = (case attr of Some sz \<Rightarrow> min sz (rlim_max (rlimits st RLIMIT_STACK))
     | None \<Rightarrow> rlim_cur (rlimits st RLIMIT_STACK))"

lemma sys_pthread_create_alt:
  "sys_pthread_create bd thread attr start arg st = do {
     (ti, st) \<leftarrow> thread_create bd start arg THREAD_PRIV_USER (create_size attr st) (ti_task (threads (ks st) (cur (ks st)))) st;
     (case ti of
        None \<Rightarrow> Some (EAGAIN, st)
      | Some t \<Rightarrow> do {
          let k = (ks st)\<lparr>user_mem := (user_mem (ks st))(thread := word_of_int (ti_id (threads (ks st) t)))\<rparr>;
          (r, k) \<leftarrow> sched_enqueue k t;
          Some (0, st\<lparr>ks := k\<rparr>) }) }"
  unfolding RLIMIT_STACK_def create_size_def sys_pthread_create_def by (simp add: sys_getrlimit_def)

lemma kernel_inv_enqueue_new:
  assumes inv: "kernel_inv k R W V M" and t: "t \<noteq> cur k" "t \<noteq> thread_idle k" "\<not> queued R (wait_rings M W V) t"
    and pr: "ti_priority (threads k t) = PRI_MIN"
  shows "\<exists>k'. sched_enqueue k t = Some (0, k') \<and> kernel_inv k' (append_at R (sched_active k) 31 t) W V M \<and>
    alive k' (append_at R (sched_active k) 31 t) W V = insert t (alive k R W V) \<and>
    frame_eq k k' \<and> (\<forall>u. u \<noteq> t \<longrightarrow> threads k' u = threads k u)"
proof -
  have ok: "prio_ok k t" using pr by (simp add: prio_ok_def PRI_MIN_def)
  have pi: "prio_index k t = 31" using pr by (simp add: prio_index_def PRI_MIN_def)
  obtain k' where k': "sched_enqueue k t = Some (0, k')" "queues_inv k' (append_at R (sched_active k) 31 t) W V M"
    "frame_eq k k'" "cur k' = cur k" "\<forall>u. u \<noteq> t \<longrightarrow> threads k' u = threads k u"
    using queues_enqueue [of k R W V M t] inv t ok pi by (auto simp: kernel_inv_def)
  have "kernel_inv k' (append_at R (sched_active k) 31 t) W V M"
    using k' inv t(1) frame_eq_fields(1,4) [OF k'(3)] by (auto simp: kernel_inv_def queued_append)
  moreover have "alive k' (append_at R (sched_active k) 31 t) W V = insert t (alive k R W V)"
    using k'(4) frame_eq_fields(1) [OF k'(3)] by (auto simp: alive_def ready_append)
  ultimately show ?thesis using k' by blast
qed

lemma lists_add_empty:
  assumes "lists h Q" "n \<notin> ring_nodes Q" "lnext h n = Node n" "lprev h n = Node n"
  shows "lists h (Q(n \<mapsto> []))"
  using assms unfolding lists_def ring_def ring_nodes_iff by (auto split: if_splits)

section \<open>Properties of creation\<close>


text \<open>A task whose list head is initialised may be added to the invariant.\<close>

lemma kernel_inv_task_links:
  assumes inv: "kernel_inv k R W V M" and h: "lists h ((run_rings R (wait_rings M W V))(ThreadHead task \<mapsto> []))"
  shows "kernel_inv (k\<lparr>klinks := h\<rparr>) R W V (M(ThreadHead task \<mapsto> []))"
proof -
  let ?M = "M(ThreadHead task \<mapsto> [])"
  have "wait_rings ?M W V n = (if n = ThreadHead task then Some [] else wait_rings M W V n)" for n
    by (simp add: wait_rings_def)
  then have sub: "n \<noteq> ThreadHead task \<and> wait_rings M W V n = Some xs"
    if "wait_rings ?M W V n = Some xs" "TiQ u \<in> set (n # xs)" for n xs u
    using that by (cases "n = ThreadHead task") auto
  have "queued R (wait_rings ?M W V) u \<Longrightarrow> queued R (wait_rings M W V) u" for u
    unfolding queued_iff using sub by blast
  moreover have "lists h (run_rings R (wait_rings ?M W V))" using h run_rings_thread_head by metis
  moreover have "canary_ok (k\<lparr>klinks := h\<rparr>) u = canary_ok k u" "prio_ok (k\<lparr>klinks := h\<rparr>) u = prio_ok k u"
    "waiters (k\<lparr>klinks := h\<rparr>) W m = waiters k W m" for u m
    by (simp_all add: canary_ok_def prio_ok_def waiters_def)
  ultimately show ?thesis
    using inv by (auto simp: kernel_inv_def queues_inv_def sched_rep_def maps_ok_def mutex_inv_def)
qed

lemma kernel_inv_add_task:
  assumes inv: "kernel_inv k R W V M" and n: "ThreadHead task \<notin> ring_nodes (run_rings R (wait_rings M W V))"
    "lnext (klinks k) (ThreadHead task) = Node (ThreadHead task)" "lprev (klinks k) (ThreadHead task) = Node (ThreadHead task)"
  shows "kernel_inv k R W V (M(ThreadHead task \<mapsto> []))"
proof -
  have "lists (klinks k) (run_rings R (wait_rings M W V))"
    using inv by (auto simp: kernel_inv_def queues_inv_def sched_rep_def)
  from kernel_inv_task_links [OF inv lists_add_empty [OF this n]] show ?thesis by simp
qed

definition demo_board :: board where
  "demo_board = \<lparr> pgmem = 0x20001000, pthread_exit_addr = 0x08004321, xPSR_T_Msk = 0x01000000 \<rparr>"

definition demo_tstate :: tstate where
  "demo_tstate = \<lparr> ks = demo_state, pgs = page_bitmap, kmem = (\<lambda>_. 0), thread_count = 4, rlimits = rlimits_init \<rparr>"

lemma demo_tstate_fields [simp]:
  "ks demo_tstate = demo_state" "pgs demo_tstate = page_bitmap" "thread_count demo_tstate = 4"
  "pgmem demo_board = 0x20001000" "create_size None demo_tstate = 1024" "ti_task (threads demo_state t) = 0"
  by (simp_all add: demo_tstate_def demo_board_def create_size_def rlimits_init_def demo_state_def kstate_zero_def
      thread_info_zero_def)

lemma demo_task_inv: "kernel_inv demo_state demo_R [] [] [ThreadHead 0 \<mapsto> []]"
proof -
  have M: "wait_rings Map.empty [] [] = demo_M" by (simp add: wait_rings_def demo_M_def)
  have "kernel_inv demo_state demo_R [] [] Map.empty"
    using demo_kernel_inv [of "mutex_val demo_state"] by (simp add: demo_state_def kstate_zero_def)
  moreover have "ThreadHead 0 \<notin> ring_nodes (run_rings demo_R demo_M)"
    unfolding ring_nodes_iff by (auto dest: demo_rings) (simp add: demo_M_def)
  ultimately show ?thesis using kernel_inv_add_task [of demo_state demo_R "[]" "[]" Map.empty 0]
    unfolding M by (simp add: demo_links_def)
qed

lemma demo_unused: "unused 0x20001000 {..<120} demo_state demo_R (wait_rings [ThreadHead 0 \<mapsto> []] [] [])"
proof -
  have big: "unat (page_idx_to_addr 0x20001000 i 1) \<ge> 0x20001000" if "units 1 i \<subseteq> {..<120}" for i
  proof -
    have "i * 2 \<in> units 1 i" by (simp add: units_def)
    then have "i < page_bitmap_sz 1" using that by (auto simp: page_bitmap_sz_def)
    then show ?thesis using unat_page_addr(1) [of "0x20001000" 1 i] by (simp add: pgmem_ok_def)
  qed
  have small: "unat t < 0x20001000" if "queued demo_R (wait_rings [ThreadHead 0 \<mapsto> []] [] []) t" for t
    using that unfolding queued_iff by (auto simp: demo_R_def wait_rings_def split: if_splits)
  have no: "TiList t \<notin> ring_nodes (run_rings demo_R (wait_rings [ThreadHead 0 \<mapsto> []] [] []))" for t
  proof -
    have "TiList t \<notin> set (n # xs)" if "run_rings demo_R (wait_rings [ThreadHead 0 \<mapsto> []] [] []) n = Some xs" for n xs
      using that by (cases n) (auto simp: wait_rings_def demo_R_def split: if_splits)
    then show ?thesis unfolding ring_nodes_iff by blast
  qed
  show ?thesis unfolding unused_def
  proof (intro allI impI conjI no)
    fix i assume i: "units 1 i \<subseteq> {..<120}"
    show "page_idx_to_addr 0x20001000 i 1 \<noteq> cur demo_state" using big [OF i] by auto
    show "page_idx_to_addr 0x20001000 i 1 \<noteq> thread_idle demo_state" using big [OF i] by auto
    show "\<not> queued demo_R (wait_rings [ThreadHead 0 \<mapsto> []] [] []) (page_idx_to_addr 0x20001000 i 1)"
      using big [OF i] small by fastforce
  qed
qed

lemma demo_room: "stack_room {..<120} 1024"
proof -
  have "\<exists>j. units 2 j \<subseteq> {..<120} - units 1 i" for i
  proof (cases "i < 2")
    case True
    then have "units 2 1 \<subseteq> {..<120} - units 1 i" by (auto simp: units_def)
    then show ?thesis ..
  next
    case False
    then have "units 2 0 \<subseteq> {..<120} - units 1 i" by (auto simp: units_def)
    then show ?thesis ..
  qed
  moreover have "units 1 0 \<subseteq> {..<120}" by (auto simp: units_def)
  moreover have "order_of 1024 = 2" by (simp add: order_of_def size_to_page_order_def)
  ultimately show ?thesis by (auto simp: stack_room_def)
qed


text \<open>
  \<^verbatim>\<open>pthread_create\<close> when no page is left for an interrupt stack: it returns EAGAIN and changes nothing.
\<close>

lemma sys_pthread_create_no_memory:
  assumes "pages_rep (pgmem bd) (pgs st) F" "\<nexists>i. units 1 i \<subseteq> F"
  shows "sys_pthread_create bd thread attr start arg st = Some (EAGAIN, st)"
proof -
  have "alloc_pages (pgmem bd) (pgs st) 1 = Some (None, pgs st)"
    by (rule alloc_pages_cases [OF assms(1), of 1]) (use assms(2) in auto)
  then show ?thesis
    by (simp add: sys_pthread_create_alt thread_create_def alloc_interrupt_stack_def order_intr)
qed

lemma sys_pthread_create_no_memory_witness:
  "sys_pthread_create demo_board 0x100 None 0x08000201 42 (demo_tstate\<lparr>pgs := (\<lambda>_ _. 0)\<rparr>) =
    Some (EAGAIN, demo_tstate\<lparr>pgs := (\<lambda>_ _. 0)\<rparr>)"
proof (rule sys_pthread_create_no_memory)
  show "pages_rep (pgmem demo_board) (pgs (demo_tstate\<lparr>pgs := (\<lambda>_ _. 0)\<rparr>)) {}"
    by (auto simp: pages_rep_def pgmem_ok_def page_rep_def max_free_def bm_bit_def units_def)
  show "\<nexists>i. units 1 i \<subseteq> {}" by (auto simp: units_def)
qed

text \<open>
  When there is a page for the interrupt stack and none for the user stack, \<^verbatim>\<open>thread_create\<close> passes the page to
  \<^verbatim>\<open>free\<close>, which reads a block header below it that does not exist.
\<close>

lemma thread_create_no_stack_faults:
  assumes "alloc_pages (pgmem bd) (pgs st) 1 = Some (Some t, B)" "alloc_pages (pgmem bd) B (order_of sz) = Some (None, B')"
  shows "thread_create bd start arg priv sz task st = None"
  using assms by (simp add: thread_create_def alloc_interrupt_stack_def alloc_thread_stack_def order_intr Let_def)

section \<open>Joining and exit\<close>

text \<open>The fields of a thread the invariant depends on.\<close>

definition sched_fields :: "thread_info \<Rightarrow> int \<times> thread_state \<times> addr \<times> u32 \<times> u32" where
  "sched_fields ti = (ti_priority ti, ti_state ti, ti_private ti, ti_canary0 ti, ti_canary1 ti)"

lemma queues_inv_threads:
  assumes inv: "queues_inv k R W V M" and f: "\<And>u. sched_fields (f u) = sched_fields (threads k u)"
  shows "queues_inv (k\<lparr>threads := f\<rparr>) R W V M"
proof -
  let ?k = "k\<lparr>threads := f\<rparr>"
  have e: "ti_priority (f u) = ti_priority (threads k u)" "ti_state (f u) = ti_state (threads k u)"
    "ti_private (f u) = ti_private (threads k u)" "ti_canary0 (f u) = ti_canary0 (threads k u)"
    "ti_canary1 (f u) = ti_canary1 (threads k u)" for u
    using f [of u] by (simp_all add: sched_fields_def)
  have "waiters ?k W m = waiters k W m" "prio_ok ?k u = prio_ok k u" "canary_ok ?k u = canary_ok k u" for m u
    by (simp_all add: waiters_def prio_ok_def canary_ok_def e)
  then show ?thesis using inv by (simp add: queues_inv_def sched_rep_def mutex_inv_def maps_ok_def e)
qed

lemma queues_restore:
  assumes inv: "queues_inv st R W V M" and p: "pick (sched_active st) R (thread_idle st) = (nxt, b, R')"
  shows "\<exists>st'. sched_elect SCHED_OPT_RESTORE_ONLY st = Some (Switched, st') \<and> kernel_inv st' R' W V M \<and> cur st' = nxt \<and>
    threads st' = threads st \<and> frame_eq st st' \<and> kstack st' = (kstack st)(cur st := [])"
proof -
  let ?M = "wait_rings M W V"
  have rep: "sched_rep st R ?M" and cls: "sched st = Some SCHED_CLASS_BITMAP" and can: "canary_ok st (cur st)"
    using inv by (auto simp: queues_inv_def)
  have none: "SCHED_OPT_RESTORE_ONLY \<noteq> SCHED_OPT_TICK" by (simp add: SCHED_OPT_TICK_def SCHED_OPT_RESTORE_ONLY_def)
  then have ae: "after_elect SCHED_OPT_RESTORE_ONLY st R' b = R'" by (simp add: after_elect_def)
  obtain st' where e: "sched_elect SCHED_OPT_RESTORE_ONLY st = Some (Switched, st')" "sched_rep st' R' ?M" "cur st' = nxt"
    "nxt \<noteq> thread_idle st \<longrightarrow> \<not> queued R' ?M nxt" "frame_eq st st'" "kstack st' = (kstack st)(cur st := [])"
    "threads st' = threads st" "maps_ok st \<longrightarrow> maps_ok st'"
    using sched_elect_rep [OF rep cls can _ p, of SCHED_OPT_RESTORE_ONLY] none unfolding ae by auto
  have nb: "ti_state (threads st' u) \<noteq> THREAD_STATE_BLOCKED" if "q < 32" "u \<in> set (R c q)" for c q u
    using that inv e(7) unfolding queues_inv_def by simp
  have "queues_inv st' R' W V M"
    by (rule queues_inv_step [OF inv e(5,2)])
      (use e(8) inv in \<open>simp add: queues_inv_def\<close>, use nb pick_sub [OF p] in blast)
  moreover have "prio_ok st' nxt \<and> ti_state (threads st' nxt) \<noteq> THREAD_STATE_BLOCKED" if idle: "nxt \<noteq> thread_idle st"
  proof -
    obtain q where q: "q < 32" "nxt \<in> set (R b q)" using pick_from [OF p idle] by blast
    then have "ti_priority (threads st nxt) = int q" using sched_repD(5) [OF rep] by blast
    then show ?thesis using q nb e(7) by (auto simp: prio_ok_def)
  qed
  ultimately have "kernel_inv st' R' W V M" using e(3,4) frame_eq_fields(1) [OF e(5)] by (simp add: kernel_inv_def)
  then show ?thesis using e by blast
qed

lemma find_thread_rep:
  assumes "lists (klinks k) Q" "Q (ThreadHead (ti_task (threads k (cur k)))) = Some (map TiList us)"
  shows "find_thread_by_id i k = Some (find (\<lambda>t. ti_id (threads k t) = i) us)"
proof -
  have "find (has_id k i) (map TiList us) = map_option TiList (find (\<lambda>t. ti_id (threads k t) = i) us)"
    by (induction us) (auto simp: has_id_def)
  then show ?thesis unfolding find_thread_by_id_def lists_search [OF assms]
    by (simp add: lists_search [OF assms] split: option.split)
qed

lemma pick_not_queued:
  assumes "pick a R idle = (nxt, b, R')" "\<not> queued R M t" "t \<noteq> idle"
  shows "nxt \<noteq> t"
  using queued_picked [OF assms(1)] assms(2,3) by blast

lemma alive_minus_cur:
  assumes "kernel_inv k R W V M"
  shows "ready R \<union> set W \<union> set V = alive k R W V - ({cur k} - {thread_idle k})"
proof -
  have "t \<notin> ready R \<union> set W \<union> set V" if "\<not> queued R (wait_rings M W V) t" for t
    using that queued_wait(1,2) [of t] queued_wait(3) [of _ t R _ M W V] by (auto simp: ready_def)
  then show ?thesis using assms by (auto simp: alive_def kernel_inv_def)
qed

lemma thread_join_block:
  assumes inv: "kernel_inv k R W V M" and run: "cur k \<noteq> thread_idle k"
    and other: "find_thread_by_id i k = Some (Some u)" "\<not> ti_detached (threads k u)" "\<not> ti_joinable (threads k u)"
      "ti_joining (threads k u) = None"
  shows "\<exists>k' R'. thread_join i r k = Some (Switched, k') \<and> kernel_inv k' R' W V M \<and>
    alive k' R' W V = alive k R W V - {cur k} \<and> ti_joining (threads k' u) = Some (cur k) \<and>
    kstack k' (cur k) = K_elect # K_join u r # kstack k (cur k)"
proof -
  define k1 where "k1 = push_frame (cur k) (K_join u r) (set_ti_joining u (Some (cur k)) k)"
  have "queues_inv (set_ti_joining u (Some (cur k)) k) R W V M"
    unfolding set_ti_joining_def using inv by (intro queues_inv_threads) (auto simp: kernel_inv_def sched_fields_def)
  then have q: "queues_inv k1 R W V M" by (simp add: k1_def)
  have f: "cur k1 = cur k" "thread_idle k1 = thread_idle k" "kstack k1 (cur k) = K_join u r # kstack k (cur k)"
    "ti_joining (threads k1 u) = Some (cur k)" by (simp_all add: k1_def push_frame_def set_ti_joining_def)
  obtain nxt b R' where p: "pick (sched_active k1) R (thread_idle k1) = (nxt, b, R')" by (metis prod_cases3)
  have ne: "nxt \<noteq> cur k1"
    using pick_not_queued [OF p] inv run f by (auto simp: kernel_inv_def)
  from queues_elect [OF q p] ne obtain k2 where k2: "sched_elect SCHED_OPT_NONE k1 = Some (Switched, k2)"
    "kernel_inv k2 R' W V M" "cur k2 = nxt" "frame_eq k1 k2" "kstack k2 = (kstack k1)(cur k1 := K_elect # kstack k1 (cur k1))" by auto
  have "\<exists>s. threads k2 u = (threads k1 u)\<lparr>ti_state := s\<rparr>" using k2(4) by (simp add: frame_eq_def same_threads_def)
  then have "ti_joining (threads k2 u) = Some (cur k)" using f(4) by auto
  moreover have "alive k2 R' W V = alive k R W V - {cur k}"
    using alive_elect [OF q p k2(3) frame_eq_fields(1) [OF k2(4)]] alive_minus_cur [OF inv] run by simp
  moreover have "thread_join i r k = Some (Switched, k2)"
    using other k2(1) by (simp add: thread_join_def k1_def)
  ultimately show ?thesis using k2 f by auto
qed

text \<open>
  C21. \<^verbatim>\<open>pthread_join\<close> on every branch, for the threads \<open>us\<close> of the caller's task: no thread with the id gives
  ESRCH; a detached thread, or one that another thread is already joining, gives EINVAL, and neither changes
  anything; a thread that has exited gives its return value at once; otherwise the caller is recorded as the
  joining thread and leaves the set of runnable threads, keeping what it has to do when it is resumed.
\<close>

theorem sys_pthread_join_correct:
  assumes inv: "kernel_inv k R W V M" and run: "cur k \<noteq> thread_idle k"
    and M: "M (ThreadHead (ti_task (threads k (cur k)))) = Some (map TiList us)"
  shows "case find (\<lambda>t. ti_id (threads k t) = i) us of
      None \<Rightarrow> sys_pthread_join i r k = Some (Returned (- ESRCH), k)
    | Some u \<Rightarrow>
        if ti_detached (threads k u) \<or> (\<not> ti_joinable (threads k u) \<and> ti_joining (threads k u) \<noteq> None)
        then sys_pthread_join i r k = Some (Returned (- EINVAL), k)
        else if ti_joinable (threads k u)
        then sys_pthread_join i r k = Some (Returned 0, k\<lparr>user_mem := (user_mem k)(r := ti_retval (threads k u))\<rparr>)
        else \<exists>k' R'. sys_pthread_join i r k = Some (Switched, k') \<and> kernel_inv k' R' W V M \<and>
          alive k' R' W V = alive k R W V - {cur k} \<and> ti_joining (threads k' u) = Some (cur k) \<and>
          kstack k' (cur k) = K_elect # K_join u r # kstack k (cur k)"
proof -
  have "lists (klinks k) (run_rings R (wait_rings M W V))" using inv by (auto simp: kernel_inv_def queues_inv_def sched_rep_def)
  moreover have "run_rings R (wait_rings M W V) (ThreadHead (ti_task (threads k (cur k)))) = Some (map TiList us)"
    using M by (simp add: wait_rings_def)
  ultimately have find: "find_thread_by_id i k = Some (find (\<lambda>t. ti_id (threads k t) = i) us)" by (rule find_thread_rep)
  show ?thesis
  proof (cases "find (\<lambda>t. ti_id (threads k t) = i) us")
    case None
    then show ?thesis using find by (simp add: sys_pthread_join_def thread_join_def)
  next
    case (Some u)
    then show ?thesis
      using find thread_join_block [OF inv run, of i u r] by (auto simp: sys_pthread_join_def thread_join_def)
  qed
qed

definition demo_join :: kstate where
  "demo_join = demo_state\<lparr>klinks := the (list_add demo_links (Node (TiList 5)) (Node (ThreadHead 0)))\<rparr>"

lemma demo_join_inv: "kernel_inv demo_join demo_R [] [] [ThreadHead 0 \<mapsto> [TiList 5]]"
proof -
  let ?Q = "wait_rings [ThreadHead 0 \<mapsto> []] [] []"
  have ls: "lists demo_links (run_rings demo_R ?Q)"
    using demo_task_inv by (auto simp: kernel_inv_def queues_inv_def sched_rep_def)
  have "TiList 5 \<notin> set (n # xs)" "TiQ 5 \<notin> set (n # xs)" if "run_rings demo_R ?Q n = Some xs" for n xs
    using that by (cases n; auto simp: wait_rings_def demo_R_def split: if_splits)+
  then have fr: "TiList 5 \<notin> ring_nodes (run_rings demo_R ?Q)" "\<not> queued demo_R ?Q 5"
    unfolding ring_nodes_iff queued_def by blast+
  obtain h where h: "list_add demo_links (Node (TiList 5)) (Node (ThreadHead 0)) = Some h"
    "lists h (run_rings demo_R (wait_rings [ThreadHead 0 \<mapsto> [TiList 5]] [] []))"
    using lists_list_add [OF ls _ fr(1), of "ThreadHead 0" "[]"] run_rings_thread_head [of demo_R "[ThreadHead 0 \<mapsto> []]" "[]" "[]" 0]
    by (auto simp: wait_rings_def)
  have "kernel_inv (demo_state\<lparr>threads := (threads demo_state)(5 := threads demo_state 5), klinks := h\<rparr>) demo_R [] []
      ([ThreadHead 0 \<mapsto> []](ThreadHead 0 \<mapsto> [TiList 5]))"
    by (rule kernel_inv_new_thread [OF demo_task_inv _ _ _ fr(2)])
      (use h in \<open>simp_all add: demo_state_def kstate_zero_def thread_info_zero_def\<close>)
  then show ?thesis using h by (simp add: demo_join_def)
qed

theorem sys_pthread_join_correct_witness:
  "\<exists>k' R'. sys_pthread_join 0 0x200 demo_join = Some (Switched, k') \<and> kernel_inv k' R' [] [] [ThreadHead 0 \<mapsto> [TiList 5]] \<and>
    ti_joining (threads k' 5) = Some 3 \<and> kstack k' 3 = [K_elect, K_join 5 0x200]"
  using sys_pthread_join_correct [OF demo_join_inv, of "[5]" 0 "0x200"]
  by (auto simp: demo_join_def demo_state_def kstate_zero_def thread_info_zero_def)

text \<open>The stack of a thread is found from its saved stack pointer, when its size is a page size.\<close>

lemma stack_page:
  assumes "pgmem_ok pg" "ord \<le> 3" "j < page_bitmap_sz ord" "unat x \<in> page_bytes (page_idx_to_addr pg j ord) ord"
  shows "align x (2 ^ (ord + 8)) = page_idx_to_addr pg j ord"
proof -
  let ?p = "page_idx_to_addr pg j ord"
  have p: "unat ?p = unat pg + j * 2 ^ (ord + 8)" by (rule unat_page_addr(1) [OF assms(1-3)])
  have "(2 :: nat) ^ (ord + 8) dvd 2 ^ 11" using assms(2) by (intro le_imp_power_dvd) simp
  then have "2 ^ (ord + 8) dvd unat pg" using assms(1) by (auto simp: pgmem_ok_def dvd_eq_mod_eq_0 [symmetric] intro: dvd_trans)
  then have "2 ^ (ord + 8) dvd unat ?p" unfolding p by simp
  then obtain q where q: "unat ?p = 2 ^ (ord + 8) * q" by (auto simp: dvd_def)
  have "unat x div 2 ^ (ord + 8) = q" using assms(4) q by (intro div_nat_eqI) (auto simp: page_bytes_def)
  moreover have "ord + 8 < 32" using assms(2) by simp
  ultimately have "unat (align x (2 ^ (ord + 8))) = unat ?p" using q unat_align [of x "ord + 8"] by (simp only: mult.commute)
  then show ?thesis by (simp add: word_unat_eq_iff)
qed

lemma order_of_page:
  assumes "ord \<le> 3"
  shows "order_of (2 ^ (ord + 8)) = ord"
proof -
  have "ord = 0 \<or> ord = 1 \<or> ord = 2 \<or> ord = 3" using assms by arith
  then show ?thesis by (auto simp: order_of_def size_to_page_order_def)
qed

definition exit_ready :: "kstate \<Rightarrow> addr set" where
  "exit_ready k = (let ti = threads k (cur k) in
     if ti_detached ti then {} else case ti_joining ti of Some u \<Rightarrow> {u} | None \<Rightarrow> {})"

lemma exit_prepare_rep:
  assumes inv: "queues_inv (ks st) R W V M" and pg: "pages_rep (pgmem bd) (pgs st) F"
    and own: "cur (ks st) = page_idx_to_addr (pgmem bd) i 1" "i < page_bitmap_sz 1" "units 1 i \<inter> F = {}"
    and joiner: "\<And>u. ti_joining (threads (ks st) (cur (ks st))) = Some u \<Longrightarrow>
      \<not> queued R (wait_rings M W V) u \<and> u \<noteq> thread_idle (ks st) \<and> u \<noteq> cur (ks st) \<and> prio_ok (ks st) u"
  shows "\<exists>s R'. exit_prepare bd v st = Some s \<and> queues_inv (ks s) R' W V M \<and> ready R' = exit_ready (ks st) \<union> ready R \<and>
    cur (ks s) = cur (ks st) \<and> thread_idle (ks s) = thread_idle (ks st) \<and>
    pages_rep (pgmem bd) (pgs s) (if ti_detached (threads (ks st) (cur (ks st))) then F \<union> units 1 i else F) \<and>
    (\<not> ti_detached (threads (ks st) (cur (ks st))) \<longrightarrow> ti_retval (threads (ks s) (cur (ks st))) = v \<and>
      (ti_joining (threads (ks st) (cur (ks st))) = None \<longrightarrow> ti_joinable (threads (ks s) (cur (ks st)))))"
proof (cases "ti_detached (threads (ks st) (cur (ks st)))")
  case True
  obtain B where "free_pages (pgmem bd) (pgs st) (cur (ks st)) 1 = Some B" "page_rep B (F \<union> units 1 i)"
    using free_pages_rep [of "pgmem bd" "pgs st" F 1 i] own pg by (auto simp: pages_rep_def)
  then show ?thesis using True inv pg by (auto simp: exit_prepare_def order_intr exit_ready_def pages_rep_def)
next
  case False
  let ?t = "cur (ks st)"
  define k where "k = (ks st)\<lparr>threads := (threads (ks st))(?t := (threads (ks st) ?t)\<lparr>ti_retval := v\<rparr>)\<rparr>"
  have q: "queues_inv k R W V M" unfolding k_def by (rule queues_inv_threads [OF inv]) (simp add: sched_fields_def)
  have k: "cur k = ?t" "thread_idle k = thread_idle (ks st)" "sched_active k = sched_active (ks st)" "ti_retval (threads k ?t) = v"
    "prio_ok k u = prio_ok (ks st) u" for u by (simp_all add: k_def prio_ok_def)
  show ?thesis
  proof (cases "ti_joining (threads (ks st) ?t)")
    case None
    define k' where "k' = k\<lparr>threads := (threads k)(?t := (threads k ?t)\<lparr>ti_joinable := True\<rparr>)\<rparr>"
    have "queues_inv k' R W V M" unfolding k'_def by (rule queues_inv_threads [OF q]) (simp add: sched_fields_def)
    moreover have "exit_prepare bd v st = Some (st\<lparr>ks := k'\<rparr>)"
      using False None unfolding exit_prepare_def Let_def k_def [symmetric] by (simp add: k'_def)
    moreover have "cur k' = ?t" "thread_idle k' = thread_idle (ks st)" "ti_retval (threads k' ?t) = v" "ti_joinable (threads k' ?t)"
      using k by (simp_all add: k'_def)
    ultimately show ?thesis using False None pg by (auto simp: exit_ready_def)
  next
    case (Some u)
    note u = joiner [OF Some]
    obtain k' where k': "sched_enqueue k u = Some (0, k')"
      "queues_inv k' (append_at R (sched_active k) (prio_index k u) u) W V M" "frame_eq k k'" "cur k' = cur k"
      "\<forall>w. w \<noteq> u \<longrightarrow> threads k' w = threads k w"
      using queues_enqueue [OF q, of u] u k by auto
    have "prio_index k u < 32" using u k(5) [of u] prio_index_eq(2) [of k u] by simp
    note ra = ready_append [OF this, of R "sched_active k" u]
    have "exit_prepare bd v st = Some (st\<lparr>ks := k'\<rparr>)"
      using False Some k'(1) unfolding exit_prepare_def Let_def k_def [symmetric] by simp
    then show ?thesis using False Some k' k u pg ra frame_eq_fields(1) [OF k'(3)] by (auto simp: exit_ready_def)
  qed
qed

text \<open>
  C22. \<^verbatim>\<open>pthread_exit\<close> gives the processor away for good: the calling thread is not runnable any more and its stack's
  page is free again. Unless it was detached, its return value is kept, and the thread that is joining it becomes
  ready, or it is marked joinable; if it was detached, the page with its structure and interrupt stack is free too.
\<close>

theorem sys_pthread_exit_correct:
  assumes inv: "kernel_inv (ks st) R W V M" and t: "cur (ks st) = t" "t \<noteq> thread_idle (ks st)" "ti = threads (ks st) t"
    and pg: "pages_rep (pgmem bd) (pgs st) F"
    and stack: "ord \<le> 3" "j < page_bitmap_sz ord" "units ord j \<inter> F = {}" "ti_stacksize ti = 2 ^ (ord + 8)"
      "unat (mi_psp ti) \<in> page_bytes (page_idx_to_addr (pgmem bd) j ord) ord"
    and own: "t = page_idx_to_addr (pgmem bd) i 1" "i < page_bitmap_sz 1" "units 1 i \<inter> (F \<union> units ord j) = {}"
    and joiner: "\<And>u. ti_joining ti = Some u \<Longrightarrow>
      \<not> queued R (wait_rings M W V) u \<and> u \<noteq> thread_idle (ks st) \<and> u \<noteq> t \<and> prio_ok (ks st) u"
  shows "\<exists>st' R'. sys_pthread_exit bd v st = Some (Switched, st') \<and> kernel_inv (ks st') R' W V M \<and>
    kstack (ks st') t = [] \<and>
    (if ti_detached ti
     then pages_rep (pgmem bd) (pgs st') (F \<union> units ord j \<union> units 1 i) \<and> alive (ks st') R' W V = alive (ks st) R W V - {t}
     else pages_rep (pgmem bd) (pgs st') (F \<union> units ord j) \<and> ti_retval (threads (ks st') t) = v \<and>
       (case ti_joining ti of
          Some u \<Rightarrow> alive (ks st') R' W V = insert u (alive (ks st) R W V - {t})
        | None \<Rightarrow> ti_joinable (threads (ks st') t) \<and> alive (ks st') R' W V = alive (ks st) R W V - {t}))"
proof -
  let ?pg = "pgmem bd"
  have ok: "pgmem_ok ?pg" and rep: "page_rep (pgs st) F" using pg by (simp_all add: pages_rep_def)
  obtain B where B: "free_pages ?pg (pgs st) (page_idx_to_addr ?pg j ord) ord = Some B" "page_rep B (F \<union> units ord j)"
    using free_pages_rep [OF ok rep stack(1-3)] by blast
  define s0 where "s0 = st\<lparr>pgs := B\<rparr>"
  have s0: "ks s0 = ks st" "pages_rep ?pg (pgs s0) (F \<union> units ord j)" using B ok by (simp_all add: s0_def pages_rep_def)
  obtain s R1 where s: "exit_prepare bd v s0 = Some s" "queues_inv (ks s) R1 W V M" "ready R1 = exit_ready (ks st) \<union> ready R"
    "cur (ks s) = t" "thread_idle (ks s) = thread_idle (ks st)"
    "pages_rep ?pg (pgs s) (if ti_detached ti then F \<union> units ord j \<union> units 1 i else F \<union> units ord j)"
    "\<not> ti_detached ti \<longrightarrow> ti_retval (threads (ks s) t) = v \<and> (ti_joining ti = None \<longrightarrow> ti_joinable (threads (ks s) t))"
    using exit_prepare_rep [of s0 R W V M bd "F \<union> units ord j" i v] inv t own joiner s0 unfolding kernel_inv_def by auto
  obtain nxt b R' where p: "pick (sched_active (ks s)) R1 (thread_idle (ks s)) = (nxt, b, R')" by (metis prod_cases3)
  from queues_restore [OF s(2) p] obtain k where k: "sched_elect SCHED_OPT_RESTORE_ONLY (ks s) = Some (Switched, k)"
    "kernel_inv k R' W V M" "cur k = nxt" "threads k = threads (ks s)" "frame_eq (ks s) k" "kstack k = (kstack (ks s))(t := [])"
    using s(4) by auto
  have "alive k R' W V = exit_ready (ks st) \<union> (ready R \<union> set W \<union> set V)"
    using alive_elect [OF s(2) p k(3) frame_eq_fields(1) [OF k(5)]] s(3) by auto
  then have al: "alive k R' W V = exit_ready (ks st) \<union> (alive (ks st) R W V - {t})"
    using alive_minus_cur [OF inv] t by simp
  have "sys_pthread_exit bd v st = Some (Switched, s\<lparr>ks := k\<rparr>)"
    using B(1) s(1) k(1) t stack stack_page [OF ok stack(1,2,5)]
    by (simp add: sys_pthread_exit_def thread_exit_def Let_def order_of_page s0_def)
  then show ?thesis using k s(6,7) al t
    by (intro exI [of _ "s\<lparr>ks := k\<rparr>"] exI [of _ R']) (auto simp: exit_ready_def split: option.splits)
qed

definition demo_exit_state :: tstate where
  "demo_exit_state = demo_tstate\<lparr>ks := demo_state\<lparr>cur := 0x20008800, threads := (threads demo_state)(0x20008800 :=
     thread_info_zero\<lparr>mi_psp := 0x20008f00, ti_joining := Some 5\<rparr>)\<rparr>\<rparr>"

lemma demo_exit_inv: "kernel_inv (ks demo_exit_state) demo_R [] [] Map.empty" "\<not> queued demo_R (wait_rings Map.empty [] []) 5"
proof -
  have no: "\<not> queued demo_R (wait_rings Map.empty [] []) t" if "t \<noteq> 1" "t \<noteq> 2" for t
    unfolding queued_iff using that by (auto simp: demo_R_def wait_rings_def split: if_splits)
  then show "\<not> queued demo_R (wait_rings Map.empty [] []) 5" by simp
  define k where "k = demo_state\<lparr>cur := 0x20008800\<rparr>"
  have "kernel_inv demo_state demo_R [] [] Map.empty"
    using demo_kernel_inv [of "mutex_val demo_state"] by (simp add: demo_state_def kstate_zero_def)
  then have "queues_inv k demo_R [] [] Map.empty"
    by (simp add: kernel_inv_def queues_inv_def k_def sched_rep_def maps_ok_def mutex_inv_def waiters_def canary_ok_def)
  then have "queues_inv (k\<lparr>threads := (threads demo_state)(0x20008800 :=
     thread_info_zero\<lparr>mi_psp := 0x20008f00, ti_joining := Some 5\<rparr>)\<rparr>) demo_R [] [] Map.empty"
    by (rule queues_inv_threads) (simp add: sched_fields_def k_def demo_state_def kstate_zero_def thread_info_zero_def)
  then show "kernel_inv (ks demo_exit_state) demo_R [] [] Map.empty"
    using no [of "0x20008800"]
    by (simp add: demo_exit_state_def k_def kernel_inv_def prio_ok_def thread_info_zero_def)
qed

theorem sys_pthread_exit_correct_witness:
  "\<exists>st' R'. sys_pthread_exit demo_board 77 demo_exit_state = Some (Switched, st') \<and> kernel_inv (ks st') R' [] [] Map.empty \<and>
    ti_retval (threads (ks st') 0x20008800) = 77 \<and> 5 \<in> alive (ks st') R' [] []"
proof -
  have p: "page_idx_to_addr 0x20001000 31 2 = 0x20008c00" "page_idx_to_addr 0x20001000 60 1 = 0x20008800"
    by (simp_all add: page_idx_to_addr_def page_shift_eq)
  have "pages_rep (pgmem demo_board) (pgs demo_exit_state) {..<120}"
    using page_rep_boot by (simp add: pages_rep_def pgmem_ok_def demo_exit_state_def)
  moreover have "units 2 31 \<inter> {..<120} = {}" "units 1 60 \<inter> ({..<120} \<union> units 2 31) = {}" by (auto simp: units_def)
  moreover have "prio_ok (ks demo_exit_state) 5"
    by (simp add: demo_exit_state_def prio_ok_def demo_state_def kstate_zero_def thread_info_zero_def)
  ultimately obtain st' R' where "sys_pthread_exit demo_board 77 demo_exit_state = Some (Switched, st')"
    "kernel_inv (ks st') R' [] [] Map.empty" "ti_retval (threads (ks st') 0x20008800) = 77"
    "alive (ks st') R' [] [] = insert 5 (alive (ks demo_exit_state) demo_R [] [] - {0x20008800})"
    using sys_pthread_exit_correct [OF demo_exit_inv(1), of "0x20008800" "threads (ks demo_exit_state) 0x20008800"
        demo_board "{..<120}" 2 31 60 77] demo_exit_inv(2) p
    by (auto simp: demo_exit_state_def thread_info_zero_def page_bytes_def page_bitmap_sz_def)
  then show ?thesis by blast
qed

end
