(* ===== verification/Malloc.thy ===== *)
theory Malloc
  imports Linux_List Bitops
begin

text \<open>
  The heap of \<^verbatim>\<open>libc/stdlib.c\<close>: first-fit allocation with boundary tags. The tags are on one
  circular list in address order; a tag word holds the length of its block and, in bit 30,
  whether the block is free.

  The abstraction of a heap is the list of its blocks \<open>(address, length, free)\<close>, which tile the
  region without gaps. \<^verbatim>\<open>malloc\<close> refines \<open>take_block\<close>, the first block that fits, split when enough
  remains; \<^verbatim>\<open>free\<close> refines marking the block and merging adjacent free blocks everywhere
  (\<open>coalesce\<close>), although the code looks at the two neighbours only.
\<close>

section \<open>The code\<close>

datatype heap_node = Blocks | Tag addr

record heap =
  tags :: "addr \<Rightarrow> u32"
  hlinks :: "heap_node links"

definition BLOCK_FREE_MASK :: u32 where "BLOCK_FREE_MASK = push_bit 30 1"
definition BLOCK_LENGTH_MASK :: u32 where "BLOCK_LENGTH_MASK = NOT (push_bit 30 1)"

definition sizeof_malloc_tag :: u32 where "sizeof_malloc_tag = 12"

definition get_block_length :: "heap \<Rightarrow> addr \<Rightarrow> u32" where
  "get_block_length h block = tags h block AND BLOCK_LENGTH_MASK"

definition set_block_length :: "addr \<Rightarrow> u32 \<Rightarrow> heap \<Rightarrow> heap" where
  "set_block_length block len h =
     h\<lparr>tags := (tags h)(block := (tags h block AND BLOCK_FREE_MASK) OR len)\<rparr>"

definition get_block_free :: "heap \<Rightarrow> addr \<Rightarrow> bool" where
  "get_block_free h block = (tags h block AND BLOCK_FREE_MASK \<noteq> 0)"

definition set_block_free :: "addr \<Rightarrow> bool \<Rightarrow> heap \<Rightarrow> heap" where
  "set_block_free block is_free h = h\<lparr>tags := (tags h)(block :=
     if is_free then tags h block OR BLOCK_FREE_MASK else tags h block AND BLOCK_LENGTH_MASK)\<rparr>"

definition kernel_heap_init :: "addr \<Rightarrow> u32 \<Rightarrow> heap \<Rightarrow> heap option" where
  "kernel_heap_init heap_start heap_size h = do {
     let h = h\<lparr>tags := (tags h)(heap_start := BLOCK_FREE_MASK OR heap_size)\<rparr>;
     l \<leftarrow> list_add (hlinks h) (Node (Tag heap_start)) (Node Blocks);
     Some (h\<lparr>hlinks := l\<rparr>) }"

definition tag_entry :: "heap_node link \<Rightarrow> addr option" where
  "tag_entry p = (case p of Node (Tag b) \<Rightarrow> Some b | _ \<Rightarrow> None)"

definition block_fits :: "heap \<Rightarrow> u32 \<Rightarrow> heap_node \<Rightarrow> bool" where
  "block_fits h len n =
     (case n of Tag b \<Rightarrow> get_block_free h b \<and> len \<le> get_block_length h b | Blocks \<Rightarrow> False)"

definition malloc_from :: "addr \<Rightarrow> u32 \<Rightarrow> heap \<Rightarrow> (addr option \<times> heap) option" where
  "malloc_from free_block len h =
     (if get_block_length h free_block - len > sizeof_malloc_tag then do {
        let h = set_block_length free_block (get_block_length h free_block - len) h;
        let new_block = free_block + get_block_length h free_block;
        let h = set_block_free new_block False h;
        let h = set_block_length new_block len h;
        l \<leftarrow> list_add (hlinks h) (Node (Tag new_block)) (Node (Tag free_block));
        Some (Some (new_block + sizeof_malloc_tag), h\<lparr>hlinks := l\<rparr>) }
      else Some (Some (free_block + sizeof_malloc_tag), set_block_free free_block False h))"

definition malloc :: "u32 \<Rightarrow> heap \<Rightarrow> (addr option \<times> heap) option" where
  "malloc len h = do {
     let len = align_next len 4 + sizeof_malloc_tag;
     r \<leftarrow> list_for_each_entry_find (hlinks h) (block_fits h len) (Node Blocks);
     (case r of
        None \<Rightarrow> Some (None, h)
      | Some n \<Rightarrow> do { free_block \<leftarrow> tag_entry (Node n); malloc_from free_block len h }) }"

text \<open>The two halves of \<^verbatim>\<open>free\<close>: merging with the previous block, and with the next one.\<close>

definition free_merge_prev :: "addr \<Rightarrow> heap \<Rightarrow> (addr \<times> heap) option" where
  "free_merge_prev block h = do {
     prv \<leftarrow> rd_prev (hlinks h) (Node (Tag block));
     if prv \<noteq> Node Blocks then do {
       prev_block \<leftarrow> tag_entry prv;
       if get_block_free h prev_block then do {
         let h = set_block_length prev_block (get_block_length h prev_block + get_block_length h block) h;
         l \<leftarrow> list_del (hlinks h) (Node (Tag block));
         Some (prev_block, h\<lparr>hlinks := l\<rparr>) }
       else Some (block, h) }
     else Some (block, h) }"

definition free_merge_next :: "addr \<Rightarrow> heap \<Rightarrow> heap option" where
  "free_merge_next block h = do {
     nxt \<leftarrow> rd_next (hlinks h) (Node (Tag block));
     if nxt \<noteq> Node Blocks then do {
       next_block \<leftarrow> tag_entry nxt;
       if get_block_free h next_block then do {
         let h = set_block_length block (get_block_length h block + get_block_length h next_block) h;
         l \<leftarrow> list_del (hlinks h) (Node (Tag next_block));
         Some (h\<lparr>hlinks := l\<rparr>) }
       else Some h }
     else Some h }"

definition free :: "addr \<Rightarrow> heap \<Rightarrow> heap option" where
  "free ptr h = do {
     let block = ptr - sizeof_malloc_tag;
     let h = set_block_free block True h;
     (block, h) \<leftarrow> free_merge_prev block h;
     free_merge_next block h }"

section \<open>Blocks\<close>

type_synonym blk = "addr \<times> nat \<times> bool"

fun tiled :: "nat \<Rightarrow> blk list \<Rightarrow> nat \<Rightarrow> bool" where
  "tiled s [] e \<longleftrightarrow> s = e"
| "tiled s ((a, l, f) # bs) e \<longleftrightarrow> unat a = s \<and> 12 \<le> l \<and> tiled (s + l) bs e"

fun coalesced :: "blk list \<Rightarrow> bool" where
  "coalesced ((a, l, f) # (b, m, g) # bs) \<longleftrightarrow> \<not> (f \<and> g) \<and> coalesced ((b, m, g) # bs)"
| "coalesced [b] \<longleftrightarrow> True"
| "coalesced [] \<longleftrightarrow> True"

function coalesce :: "blk list \<Rightarrow> blk list" where
  "coalesce ((a, l, True) # (b, m, True) # bs) = coalesce ((a, l + m, True) # bs)"
| "coalesce ((a, l, True) # (b, m, False) # bs) = (a, l, True) # coalesce ((b, m, False) # bs)"
| "coalesce ((a, l, False) # bs) = (a, l, False) # coalesce bs"
| "coalesce [(a, l, True)] = [(a, l, True)]"
| "coalesce [] = []"
  by pat_completeness auto
termination by (relation "measure length") auto

fun take_block :: "nat \<Rightarrow> blk list \<Rightarrow> (addr \<times> blk list) option" where
  "take_block n [] = None"
| "take_block n ((a, l, f) # bs) =
     (if f \<and> n \<le> l then
        if 12 < l - n then Some (a + of_nat (l - n), (a, l - n, True) # (a + of_nat (l - n), n, False) # bs)
        else Some (a, (a, l, False) # bs)
      else map_option (\<lambda>(p, bs'). (p, (a, l, f) # bs')) (take_block n bs))"

definition mark_free :: "addr \<Rightarrow> blk list \<Rightarrow> blk list" where
  "mark_free p = map (\<lambda>(a, l, f). (a, l, f \<or> a = p))"

definition give_block :: "addr \<Rightarrow> blk list \<Rightarrow> blk list" where
  "give_block p bs = coalesce (mark_free p bs)"

definition tag_word :: "bool \<Rightarrow> nat \<Rightarrow> u32" where
  "tag_word f l = (if f then BLOCK_FREE_MASK else 0) OR of_nat l"

definition malloc_rep :: "nat \<Rightarrow> nat \<Rightarrow> heap \<Rightarrow> blk list \<Rightarrow> bool" where
  "malloc_rep s e h bs \<longleftrightarrow> tiled s bs e \<and> e < 2 ^ 32 \<and> e - s < 2 ^ 30 \<and> coalesced bs \<and>
     lists (hlinks h) [Blocks \<mapsto> map (\<lambda>b. Tag (fst b)) bs] \<and>
     (\<forall>(a, l, f)\<in>set bs. tags h a = tag_word f l)"

section \<open>Tag words\<close>

lemma bit_free_mask [simp]: "bit BLOCK_FREE_MASK i \<longleftrightarrow> i = 30"
  unfolding BLOCK_FREE_MASK_def bit_one_shift by simp

lemma length_mask: "BLOCK_LENGTH_MASK = NOT BLOCK_FREE_MASK"
  by (simp only: BLOCK_LENGTH_MASK_def BLOCK_FREE_MASK_def)

lemma tag_bits: "l < 2 ^ 30 \<Longrightarrow> \<not> bit l 30" for l :: nat
  by (simp add: bit_iff_odd)

lemma and_free_mask: "x AND BLOCK_FREE_MASK = (if bit x 30 then BLOCK_FREE_MASK else 0)" for x :: u32
  by (rule bit_word_eqI) (auto simp: bit_simps)

lemma free_mask_nonzero: "BLOCK_FREE_MASK \<noteq> 0"
proof
  assume "BLOCK_FREE_MASK = 0"
  then have "\<not> bit BLOCK_FREE_MASK 30" by (simp del: bit_free_mask)
  then show False by simp
qed

lemma tag_word_bit: "l < 2 ^ 30 \<Longrightarrow> bit (tag_word f l) 30 \<longleftrightarrow> f"
  using tag_bits [of l] by (simp add: tag_word_def bit_simps)

lemma tag_word_length: "l < 2 ^ 30 \<Longrightarrow> tag_word f l AND BLOCK_LENGTH_MASK = of_nat l"
  using tag_bits [of l] by (intro bit_word_eqI) (auto simp: tag_word_def length_mask bit_simps)

lemma tag_word_set_free:
  assumes "l < 2 ^ 30"
  shows "tag_word f l OR BLOCK_FREE_MASK = tag_word True l" "tag_word f l AND BLOCK_LENGTH_MASK = tag_word False l"
proof -
  show "tag_word f l OR BLOCK_FREE_MASK = tag_word True l"
    by (rule bit_word_eqI) (auto simp: tag_word_def bit_simps)
  show "tag_word f l AND BLOCK_LENGTH_MASK = tag_word False l"
    by (simp add: tag_word_length [OF assms]) (simp add: tag_word_def)
qed

text \<open>Whatever a fresh tag word held, clearing the flag and storing a length sets it.\<close>

lemma fresh_tag_word: "((w AND BLOCK_LENGTH_MASK) AND BLOCK_FREE_MASK) OR of_nat l = tag_word False l"
  by (rule bit_word_eqI) (auto simp: tag_word_def length_mask bit_simps)

lemma tag_word_set_length: "l < 2 ^ 30 \<Longrightarrow> (tag_word f l AND BLOCK_FREE_MASK) OR of_nat m = tag_word f m"
  using tag_word_bit [of l f] by (simp add: and_free_mask tag_word_def)

section \<open>Tilings\<close>

lemma tiled_append: "tiled s (xs @ ys) e \<longleftrightarrow> (\<exists>m. tiled s xs m \<and> tiled m ys e)"
  by (induction s xs e rule: tiled.induct) auto

lemma tiled_le: "tiled s bs e \<Longrightarrow> s + 12 * length bs \<le> e"
  by (induction s bs e rule: tiled.induct) auto

lemma tiled_in:
  assumes "tiled s bs e" "(a, l, f) \<in> set bs"
  shows "s \<le> unat a" "unat a + l \<le> e" "12 \<le> l"
proof -
  obtain xs ys where "bs = xs @ (a, l, f) # ys" using assms(2) by (meson split_list)
  then obtain m where m: "tiled s xs m" "unat a = m" "12 \<le> l" "tiled (m + l) ys e"
    using assms(1) by (auto simp: tiled_append)
  then show "s \<le> unat a" "unat a + l \<le> e" "12 \<le> l" using tiled_le [of s xs m] tiled_le [of "m + l" ys e] by auto
qed

lemma tiled_distinct: "tiled s bs e \<Longrightarrow> distinct (map fst bs)"
proof (induction s bs e rule: tiled.induct)
  case (2 s a l f bs e)
  then have "(a, x) \<notin> set bs" for x using tiled_in(1) [of "s + l" bs e a "fst x" "snd x"] by auto
  then show ?case using 2 by auto
qed simp

text \<open>Two different blocks of a tiling do not overlap.\<close>

lemma tiled_disjoint:
  assumes "tiled s bs e" "(a, l, f) \<in> set bs" "(b, m, g) \<in> set bs" "a \<noteq> b"
  shows "unat a + l \<le> unat b \<or> unat b + m \<le> unat a"
proof -
  obtain xs ys where bs: "bs = xs @ (a, l, f) # ys" using assms(2) by (meson split_list)
  then obtain k where k: "tiled s xs k" "unat a = k" "tiled (k + l) ys e" using assms(1) by (auto simp: tiled_append)
  have "(b, m, g) \<in> set xs \<or> (b, m, g) \<in> set ys" using assms(3,4) bs by auto
  then show ?thesis using tiled_in [OF k(1), of b m g] tiled_in [OF k(3), of b m g] k(2) by auto
qed

lemma coalesced_append:
  "coalesced (xs @ ys) \<longleftrightarrow> coalesced xs \<and> coalesced ys \<and>
     (xs \<noteq> [] \<and> ys \<noteq> [] \<longrightarrow> \<not> (snd (snd (last xs)) \<and> snd (snd (hd ys))))"
proof (induction xs rule: coalesced.induct)
  case (2 v)
  then show ?case by (cases ys; cases v; cases "hd ys") auto
qed auto

lemma coalesce_id: "coalesced bs \<Longrightarrow> coalesce bs = bs"
  by (induction bs rule: coalesce.induct) (auto elim: coalesced.elims)

lemma coalesce_prefix:
  assumes "coalesced xs" "xs = [] \<or> \<not> snd (snd (last xs))"
  shows "coalesce (xs @ ys) = xs @ coalesce ys"
  using assms
proof (induction xs rule: coalesced.induct)
  case (1 a l f b m g bs)
  then show ?case by (cases f; cases g) auto
next
  case (2 v)
  then show ?case by (cases v) auto
qed simp

lemma coalesced_coalesce: "coalesced (coalesce bs)"
proof (induction bs rule: coalesce.induct)
  case (2 a l b m bs)
  then show ?case by (cases "coalesce ((b, m, False) # bs)") auto
next
  case (3 a l bs)
  then show ?case by (cases "coalesce bs") auto
qed auto

lemma tiled_coalesce: "tiled s bs e \<Longrightarrow> tiled s (coalesce bs) e"
  by (induction bs arbitrary: s rule: coalesce.induct) (auto simp: add.assoc)

lemma coalesce_used: "(a, l, False) \<in> set (coalesce bs) \<longleftrightarrow> (a, l, False) \<in> set bs"
  by (induction bs rule: coalesce.induct) auto

section \<open>Allocation\<close>

lemma malloc_rep_block:
  assumes "malloc_rep s e h bs" "(a, l, f) \<in> set bs"
  shows "l < 2 ^ 30" "tags h a = tag_word f l" "get_block_length h a = of_nat l" "get_block_free h a = f"
    "unat (of_nat l :: u32) = l"
proof -
  have t: "tiled s bs e" "e - s < 2 ^ 30" and w: "tags h a = tag_word f l"
    using assms unfolding malloc_rep_def by auto
  show l: "l < 2 ^ 30" using tiled_in [OF t(1) assms(2)] t(2) by linarith
  show "tags h a = tag_word f l" by (rule w)
  show "get_block_length h a = of_nat l" using l w by (simp add: get_block_length_def tag_word_length)
  show "get_block_free h a = f"
    using l w free_mask_nonzero by (simp add: get_block_free_def and_free_mask tag_word_bit)
  show "unat (of_nat l :: u32) = l" using l by (intro unat_of_nat_small) simp
qed

lemma block_fits_rep:
  assumes "malloc_rep s e h bs" "(a, l, f) \<in> set bs"
  shows "block_fits h n (Tag a) \<longleftrightarrow> f \<and> unat n \<le> l"
  using malloc_rep_block [OF assms] by (simp add: block_fits_def word_le_nat_alt)

lemma take_block_None: "take_block n bs = None \<longleftrightarrow> (\<forall>(a, l, f)\<in>set bs. \<not> (f \<and> n \<le> l))"
  by (induction n bs rule: take_block.induct) auto

lemma take_block_split:
  assumes "\<forall>(a, l, f)\<in>set xs. \<not> (f \<and> n \<le> l)" "n \<le> l"
  shows "take_block n (xs @ (a, l, True) # ys) =
    (if 12 < l - n then Some (a + of_nat (l - n), xs @ (a, l - n, True) # (a + of_nat (l - n), n, False) # ys)
     else Some (a, xs @ (a, l, False) # ys))"
  using assms by (induction xs) auto

lemma find_map_Tag: "find P (map (\<lambda>b. Tag (fst b)) bs) = map_option (\<lambda>b. Tag (fst b)) (find (\<lambda>b. P (Tag (fst b))) bs)"
  by (induction bs) auto

lemma find_block:
  assumes "malloc_rep s e h bs"
  shows "list_for_each_entry_find (hlinks h) (block_fits h n) (Node Blocks) =
    Some (map_option (\<lambda>b. Tag (fst b)) (find (\<lambda>(a, l, f). f \<and> unat n \<le> l) bs))"
proof -
  have "find (\<lambda>b. block_fits h n (Tag (fst b))) bs = find (\<lambda>(a, l, f). f \<and> unat n \<le> l) bs"
    by (rule find_cong) (use block_fits_rep [OF assms] in auto)
  moreover have "lists (hlinks h) [Blocks \<mapsto> map (\<lambda>b. Tag (fst b)) bs]" using assms by (simp add: malloc_rep_def)
  ultimately show ?thesis
    using lists_search [of "hlinks h" _ Blocks _ "block_fits h n"] by (simp add: find_map_Tag)
qed

lemma ring_nodes_Blocks: "Tag p \<in> ring_nodes [Blocks \<mapsto> map (\<lambda>b. Tag (fst b)) bs] \<longleftrightarrow> p \<in> fst ` set bs"
  unfolding ring_nodes_iff by (auto split: if_splits)

lemma malloc_from_rep:
  assumes rep: "malloc_rep s e h bs" and bs: "bs = xs @ (a, l, True) # ys" and n: "unat n \<le> l" "12 \<le> unat n"
    and nf: "\<forall>(a, l, f)\<in>set xs. \<not> (f \<and> unat n \<le> l)"
  shows "\<exists>h' p bs'. malloc_from a n h = Some (Some (p + 12), h') \<and> take_block (unat n) bs = Some (p, bs') \<and>
    malloc_rep s e h' bs'"
proof -
  have a: "(a, l, True) \<in> set bs" using bs by simp
  note b = malloc_rep_block [OF rep a]
  have t: "tiled s bs e" "e < 2 ^ 32" "e - s < 2 ^ 30" "coalesced bs"
    and ls: "lists (hlinks h) [Blocks \<mapsto> map (\<lambda>b. Tag (fst b)) bs]" and tg: "\<forall>(a, l, f)\<in>set bs. tags h a = tag_word f l"
    using rep by (auto simp: malloc_rep_def)
  have sub: "of_nat l - n = of_nat (l - unat n)" using n(1) by (simp add: of_nat_diff)
  have cmp: "get_block_length h a - n > sizeof_malloc_tag \<longleftrightarrow> 12 < l - unat n"
    using b(1,3) sub by (simp add: sizeof_malloc_tag_def word_less_nat_alt unat_of_nat_small)
  show ?thesis
  proof (cases "12 < l - unat n")
    case False
    let ?bs = "xs @ (a, l, False) # ys"
    have "malloc_rep s e (set_block_free a False h) ?bs"
    proof -
      have ti: "tiled s ?bs e" using t(1) bs by (auto simp: tiled_append)
      have "tags (set_block_free a False h) c = tag_word f m" if "(c, m, f) \<in> set ?bs" for c m f
      proof (cases "c = a")
        case True
        then have "(c, m, f) = (a, l, False)" using that tiled_distinct [OF ti] by (auto simp: image_iff)
        then show ?thesis using b(1,2) by (simp add: set_block_free_def tag_word_set_free)
      next
        case False
        then have "(c, m, f) \<in> set bs" using that bs by auto
        then show ?thesis using tg False by (auto simp: set_block_free_def)
      qed
      moreover have "coalesced ?bs" using t(4) bs by (cases ys) (auto simp: coalesced_append)
      moreover have "hlinks (set_block_free a False h) = hlinks h" by (simp add: set_block_free_def)
      ultimately show ?thesis using ti t(2,3) ls bs by (auto simp: malloc_rep_def)
    qed
    moreover have "malloc_from a n h = Some (Some (a + 12), set_block_free a False h)"
      using False cmp by (simp add: malloc_from_def sizeof_malloc_tag_def)
    ultimately show ?thesis using take_block_split [OF nf n(1), of a ys] False bs by auto
  next
    case True
    let ?k = "l - unat n" let ?p = "a + of_nat ?k"
    let ?bs = "xs @ (a, ?k, True) # (?p, unat n, False) # ys"
    have ua: "unat a + l \<le> e" using tiled_in [OF t(1) a] by simp
    have up: "unat ?p = unat a + ?k"
      using ua t(2) b(1) by (subst unat_add_no_wrap) (simp_all add: unat_of_nat_small)
    have ti: "tiled s ?bs e" using t(1) bs n True up by (auto simp: tiled_append)
    define h1 where "h1 = set_block_length ?p n (set_block_free ?p False (set_block_length a (of_nat ?k) h))"
    have gl: "get_block_length (set_block_length a (of_nat ?k) h) a = of_nat ?k"
      using b(1,2) by (simp add: get_block_length_def set_block_length_def tag_word_set_length tag_word_length)
    have pa: "?p \<noteq> a" using up True by auto
    have "?p \<notin> fst ` set bs" using tiled_distinct [OF ti] bs pa by (auto simp: image_iff)
    then have fresh: "Tag ?p \<notin> ring_nodes [Blocks \<mapsto> map (\<lambda>b. Tag (fst b)) bs]" unfolding ring_nodes_Blocks .
    have ring: "[Blocks \<mapsto> map (\<lambda>b. Tag (fst b)) bs] Blocks =
        Some (map (\<lambda>b. Tag (fst b)) xs @ Tag a # map (\<lambda>b. Tag (fst b)) ys)" by (simp add: bs)
    obtain l' where l': "list_add (hlinks h) (Node (Tag ?p)) (Node (Tag a)) = Some l'"
      "lists l' [Blocks \<mapsto> map (\<lambda>b. Tag (fst b)) ?bs]"
      using lists_list_add_after [OF ls ring fresh] unfolding fun_upd_upd list.map map_append fst_conv by blast
    have hl: "hlinks h1 = hlinks h" by (simp add: h1_def set_block_length_def set_block_free_def)
    have run: "malloc_from a n h = Some (Some (?p + 12), h1\<lparr>hlinks := l'\<rparr>)"
    proof -
      define w :: u32 where "w = of_nat ?k"
      have "get_block_length h a - n = w" using b(3) sub by (simp only: w_def)
      then show ?thesis
        using True cmp l'(1) gl hl unfolding malloc_from_def h1_def Let_def w_def [symmetric]
        by (simp add: sizeof_malloc_tag_def)
    qed
    have "tags h1 c = tag_word f m" if "(c, m, f) \<in> set ?bs" for c m f
    proof -
      consider "c = a" | "c = ?p" | "c \<noteq> a" "c \<noteq> ?p" by blast
      then show ?thesis
      proof cases
        case 1
        then have "(c, m, f) = (a, ?k, True)" using that tiled_distinct [OF ti] pa by (auto simp: image_iff)
        then show ?thesis using b(1,2) pa
          by (simp add: h1_def set_block_length_def set_block_free_def tag_word_set_length)
      next
        case 2
        then have "(c, m, f) = (?p, unat n, False)" using that tiled_distinct [OF ti] pa by (auto simp: image_iff)
        then show ?thesis using pa fresh_tag_word [of _ "unat n"]
          by (simp add: h1_def set_block_length_def set_block_free_def)
      next
        case 3
        then have "(c, m, f) \<in> set bs" using that bs by auto
        then show ?thesis using tg 3 by (auto simp: h1_def set_block_length_def set_block_free_def)
      qed
    qed
    moreover have "coalesced ?bs" using t(4) bs by (cases ys) (auto simp: coalesced_append)
    ultimately have "malloc_rep s e (h1\<lparr>hlinks := l'\<rparr>) ?bs" using ti t(2,3) l'(2) by (auto simp: malloc_rep_def)
    then show ?thesis using run take_block_split [OF nf n(1), of a ys] True bs by auto
  qed
qed

lemma malloc_rep_malloc:
  assumes rep: "malloc_rep s e h bs" and n: "12 \<le> unat (align_next n 4 + 12)"
  shows "case take_block (unat (align_next n 4 + 12)) bs of
      None \<Rightarrow> malloc n h = Some (None, h)
    | Some (p, bs') \<Rightarrow> \<exists>h'. malloc n h = Some (Some (p + 12), h') \<and> malloc_rep s e h' bs'"
proof -
  let ?n = "align_next n 4 + 12"
  note fb = find_block [OF rep, of ?n]
  show ?thesis
  proof (cases "find (\<lambda>(a, l, f). f \<and> unat ?n \<le> l) bs")
    case None
    then have "take_block (unat ?n) bs = None" by (auto simp: take_block_None find_None_iff)
    then show ?thesis using fb None by (simp add: malloc_def Let_def sizeof_malloc_tag_def)
  next
    case (Some b)
    obtain a l f where b: "b = (a, l, f)" by (cases b)
    from Some obtain i where i: "i < length bs" "f" "unat ?n \<le> l" "bs ! i = (a, l, f)"
      "\<forall>j<i. \<not> (case bs ! j of (a, l, f) \<Rightarrow> f \<and> unat ?n \<le> l)"
      by (auto simp: find_Some_iff b)
    let ?xs = "take i bs" and ?ys = "drop (Suc i) bs"
    have bs: "bs = ?xs @ (a, l, True) # ?ys" using i(1,2,4) id_take_nth_drop [of i bs] by simp
    have nf: "\<forall>(a, l, f)\<in>set ?xs. \<not> (f \<and> unat ?n \<le> l)" using i(1,5) by (fastforce simp: in_set_conv_nth)
    have "malloc n h = malloc_from a ?n h"
      using fb Some b by (simp add: malloc_def Let_def sizeof_malloc_tag_def tag_entry_def)
    then show ?thesis using malloc_from_rep [OF rep bs i(3) n nf] by auto
  qed
qed

section \<open>Release\<close>

lemma give_block_split:
  assumes "coalesced (xs @ (p, l, False) # ys)" "p \<notin> fst ` set xs" "p \<notin> fst ` set ys"
  shows "give_block p (xs @ (p, l, False) # ys) = coalesce (xs @ (p, l, True) # ys)"
proof -
  have "map (\<lambda>(a, l, f). (a, l, f \<or> a = p)) zs = zs" if "p \<notin> fst ` set zs" for zs :: "blk list"
    using that by (induction zs) auto
  then show ?thesis using assms(2,3) by (simp add: give_block_def mark_free_def)
qed

text \<open>Merging with the free neighbour on the left, then with the one on the right.\<close>

lemma coalesce_left:
  assumes "coalesced (xs @ [(a, k, True)])"
  shows "coalesce (xs @ (a, k, True) # (p, l, True) # ys) = coalesce (xs @ (a, k + l, True) # ys)"
proof -
  have "coalesced xs" "xs = [] \<or> \<not> snd (snd (last xs))" using assms by (auto simp: coalesced_append)
  then show ?thesis by (simp add: coalesce_prefix)
qed

lemma coalesce_right:
  assumes "coalesced xs" "xs = [] \<or> \<not> snd (snd (last xs))" "coalesced ys"
  shows "coalesce (xs @ (a, k, True) # ys) =
    (case ys of (b, m, True) # zs \<Rightarrow> xs @ (a, k + m, True) # zs | _ \<Rightarrow> xs @ (a, k, True) # ys)"
proof (cases ys)
  case Nil
  then show ?thesis using assms by (simp add: coalesce_prefix)
next
  case (Cons b zs)
  obtain c m f where b: "b = (c, m, f)" by (cases b)
  have zs: "coalesced zs" using assms(3) Cons by (cases zs) (auto simp: b)
  show ?thesis
  proof (cases f)
    case True
    then have "zs = [] \<or> \<not> snd (snd (hd zs))" using assms(3) Cons b by (cases zs) auto
    then have "coalesce ((a, k + m, True) # zs) = (a, k + m, True) # zs"
      using coalesce_id [OF zs] by (cases zs) auto
    then show ?thesis using assms Cons b True by (simp add: coalesce_prefix)
  next
    case False
    then show ?thesis using assms Cons b coalesce_id [OF assms(3)] by (simp add: coalesce_prefix)
  qed
qed

text \<open>The state between the halves of \<^verbatim>\<open>free\<close>: \<open>malloc_rep\<close> except that one free block may have free
  neighbours.\<close>

definition tags_rep :: "nat \<Rightarrow> nat \<Rightarrow> heap \<Rightarrow> blk list \<Rightarrow> bool" where
  "tags_rep s e h bs \<longleftrightarrow> tiled s bs e \<and> e < 2 ^ 32 \<and> e - s < 2 ^ 30 \<and>
     lists (hlinks h) [Blocks \<mapsto> map (\<lambda>b. Tag (fst b)) bs] \<and> (\<forall>(a, l, f)\<in>set bs. tags h a = tag_word f l)"

lemma malloc_rep_tags: "malloc_rep s e h bs \<longleftrightarrow> tags_rep s e h bs \<and> coalesced bs"
  by (auto simp: malloc_rep_def tags_rep_def)

lemma tags_rep_block:
  assumes "tags_rep s e h bs" "(a, l, f) \<in> set bs"
  shows "l < 2 ^ 30" "tags h a = tag_word f l" "get_block_length h a = of_nat l" "get_block_free h a = f"
proof -
  have t: "tiled s bs e" "e - s < 2 ^ 30" and w: "tags h a = tag_word f l"
    using assms unfolding tags_rep_def by auto
  show l: "l < 2 ^ 30" using tiled_in [OF t(1) assms(2)] t(2) by linarith
  show "tags h a = tag_word f l" by (rule w)
  show "get_block_length h a = of_nat l" using l w by (simp add: get_block_length_def tag_word_length)
  show "get_block_free h a = f"
    using l w free_mask_nonzero by (simp add: get_block_free_def and_free_mask tag_word_bit)
qed

text \<open>Joining a free block with its right neighbour.\<close>

lemma join_rep:
  assumes rep: "tags_rep s e h (xs @ (a, k, True) # (b, m, g) # ys)"
  shows "\<exists>l. list_del (hlinks h) (Node (Tag b)) = Some l \<and>
    tags_rep s e ((set_block_length a (of_nat (k + m)) h)\<lparr>hlinks := l\<rparr>) (xs @ (a, k + m, True) # ys)"
proof -
  let ?bs = "xs @ (a, k, True) # (b, m, g) # ys" and ?bs' = "xs @ (a, k + m, True) # ys"
  let ?h = "set_block_length a (of_nat (k + m)) h"
  have t: "tiled s ?bs e" "e < 2 ^ 32" "e - s < 2 ^ 30"
    and ls: "lists (hlinks h) [Blocks \<mapsto> map (\<lambda>b. Tag (fst b)) ?bs]"
    using rep by (simp_all add: tags_rep_def)
  note tg = tags_rep_block(2) [OF rep]
  note d = tiled_distinct [OF t(1)]
  have ti: "tiled s ?bs' e" using t(1) by (auto simp: tiled_append add.assoc)
  have "remove1 (Tag b) (map (\<lambda>b. Tag (fst b)) ?bs) = map (\<lambda>b. Tag (fst b)) ?bs'"
    using d by (auto simp: remove1_append image_iff)
  then obtain l where l: "list_del (hlinks h) (Node (Tag b)) = Some l" "lists l [Blocks \<mapsto> map (\<lambda>b. Tag (fst b)) ?bs']"
    using lists_list_del' [OF ls, of Blocks _ "Tag b"] by auto
  have "tags ?h c = tag_word f n" if "(c, n, f) \<in> set ?bs'" for c n f
  proof (cases "c = a")
    case True
    then have "(c, n, f) = (a, k + m, True)" using that tiled_distinct [OF ti] by (auto simp: image_iff)
    moreover have "k < 2 ^ 30" "tags h a = tag_word True k" using tags_rep_block [OF rep, of a k True] by auto
    ultimately show ?thesis by (simp add: set_block_length_def tag_word_set_length del: of_nat_add)
  next
    case False
    then have "(c, n, f) \<in> set ?bs" using that by auto
    then show ?thesis using tg False by (simp add: set_block_length_def)
  qed
  then have "tags_rep s e (?h\<lparr>hlinks := l\<rparr>) ?bs'" using ti t(2,3) l(2) by (auto simp: tags_rep_def)
  then show ?thesis using l(1) by blast
qed

lemma tags_rep_neighbours:
  assumes "tags_rep s e h (xs @ (p, l, f) # ys)"
  shows "rd_prev (hlinks h) (Node (Tag p)) = Some (Node (if xs = [] then Blocks else Tag (fst (last xs))))"
    "rd_next (hlinks h) (Node (Tag p)) = Some (Node (case ys of [] \<Rightarrow> Blocks | y # _ \<Rightarrow> Tag (fst y)))"
proof -
  let ?xs = "map (\<lambda>b. Tag (fst b)) xs" and ?ys = "map (\<lambda>b. Tag (fst b)) ys"
  have "lists (hlinks h) [Blocks \<mapsto> ?xs @ Tag p # ?ys]" using assms by (simp add: tags_rep_def)
  then have "ring (hlinks h) Blocks (?xs @ Tag p # ?ys)" by (rule listsD) simp
  from ring_entry [OF this] show
    "rd_prev (hlinks h) (Node (Tag p)) = Some (Node (if xs = [] then Blocks else Tag (fst (last xs))))"
    "rd_next (hlinks h) (Node (Tag p)) = Some (Node (case ys of [] \<Rightarrow> Blocks | y # _ \<Rightarrow> Tag (fst y)))"
    by (simp_all add: last_map split: list.splits)
qed

lemma free_merge_prev_rep:
  assumes rep: "tags_rep s e h (xs @ (p, l, True) # ys)" and co: "coalesced xs"
  shows "\<exists>q k zs h'. free_merge_prev p h = Some (q, h') \<and> tags_rep s e h' (zs @ (q, k, True) # ys) \<and>
    coalesced zs \<and> (zs = [] \<or> \<not> snd (snd (last zs))) \<and>
    coalesce (zs @ (q, k, True) # ys) = coalesce (xs @ (p, l, True) # ys)"
proof (cases xs rule: rev_cases)
  case Nil
  then show ?thesis using rep tags_rep_neighbours(1) [OF rep]
    by (intro exI [of _ p] exI [of _ l] exI [of _ "[]"] exI [of _ h]) (simp add: free_merge_prev_def)
next
  case (snoc zs b)
  obtain q k f where b: "b = (q, k, f)" by (cases b)
  have prv: "rd_prev (hlinks h) (Node (Tag p)) = Some (Node (Tag q))"
    using tags_rep_neighbours(1) [OF rep] snoc b by simp
  have q: "get_block_free h q = f" "get_block_length h q = of_nat k" "get_block_length h p = of_nat l"
    using tags_rep_block [OF rep, of q k f] tags_rep_block [OF rep, of p l True] snoc b by auto
  show ?thesis
  proof (cases f)
    case False
    then show ?thesis using rep prv q snoc b co
      by (intro exI [of _ p] exI [of _ l] exI [of _ xs] exI [of _ h]) (simp add: free_merge_prev_def tag_entry_def)
  next
    case True
    then have rep': "tags_rep s e h (zs @ (q, k, True) # (p, l, True) # ys)" using rep snoc b by simp
    from join_rep [OF this] obtain m where m: "list_del (hlinks h) (Node (Tag p)) = Some m"
      "tags_rep s e ((set_block_length q (of_nat (k + l)) h)\<lparr>hlinks := m\<rparr>) (zs @ (q, k + l, True) # ys)" by blast
    have hl: "hlinks (set_block_length q v h) = hlinks h" for v by (simp add: set_block_length_def)
    have "free_merge_prev p h = Some (q, (set_block_length q (of_nat (k + l)) h)\<lparr>hlinks := m\<rparr>)"
      using prv q True m(1) hl by (simp add: free_merge_prev_def tag_entry_def)
    moreover have zs: "coalesced (zs @ [(q, k, True)])" using co snoc b True by simp
    ultimately show ?thesis using m(2) coalesce_left [OF zs, of p l ys] snoc b True
      by (intro exI [of _ q] exI [of _ "k + l"] exI [of _ zs]) (auto simp: coalesced_append)
  qed
qed

lemma free_merge_next_rep:
  assumes rep: "tags_rep s e h (zs @ (q, k, True) # ys)"
    and co: "coalesced zs" "zs = [] \<or> \<not> snd (snd (last zs))" "coalesced ys"
  shows "\<exists>h'. free_merge_next q h = Some h' \<and> tags_rep s e h' (coalesce (zs @ (q, k, True) # ys))"
proof (cases ys)
  case Nil
  then show ?thesis using rep tags_rep_neighbours(2) [OF rep] coalesce_right [OF co, of q k]
    by (simp add: free_merge_next_def)
next
  case (Cons b ws)
  obtain p l f where b: "b = (p, l, f)" by (cases b)
  have nxt: "rd_next (hlinks h) (Node (Tag q)) = Some (Node (Tag p))"
    using tags_rep_neighbours(2) [OF rep] Cons b by simp
  have p: "get_block_free h p = f" "get_block_length h p = of_nat l" "get_block_length h q = of_nat k"
    using tags_rep_block [OF rep, of p l f] tags_rep_block [OF rep, of q k True] Cons b by auto
  show ?thesis
  proof (cases f)
    case False
    then show ?thesis using rep nxt p Cons b coalesce_right [OF co, of q k]
      by (simp add: free_merge_next_def tag_entry_def)
  next
    case True
    then have rep': "tags_rep s e h (zs @ (q, k, True) # (p, l, True) # ws)" using rep Cons b by simp
    from join_rep [OF this] obtain m where m: "list_del (hlinks h) (Node (Tag p)) = Some m"
      "tags_rep s e ((set_block_length q (of_nat (k + l)) h)\<lparr>hlinks := m\<rparr>) (zs @ (q, k + l, True) # ws)" by blast
    have hl: "hlinks (set_block_length q v h) = hlinks h" for v by (simp add: set_block_length_def)
    have "free_merge_next q h = Some ((set_block_length q (of_nat (k + l)) h)\<lparr>hlinks := m\<rparr>)"
      using nxt p True m(1) hl by (simp add: free_merge_next_def tag_entry_def)
    then show ?thesis using m(2) coalesce_right [OF co, of q k] Cons b True by simp
  qed
qed

lemma malloc_rep_free:
  assumes rep: "malloc_rep s e h bs" and p: "(p, l, False) \<in> set bs"
  shows "\<exists>h'. free (p + 12) h = Some h' \<and> malloc_rep s e h' (give_block p bs)"
proof -
  obtain xs ys where bs: "bs = xs @ (p, l, False) # ys" using p by (meson split_list)
  let ?bs = "xs @ (p, l, True) # ys" and ?h = "set_block_free p True h"
  have t: "tiled s bs e" and co: "coalesced bs" and tg: "tags_rep s e h bs"
    using rep by (simp_all add: malloc_rep_tags tags_rep_def)
  have d: "p \<notin> fst ` set xs" "p \<notin> fst ` set ys" using tiled_distinct [OF t] bs by auto
  have ti: "tiled s ?bs e" using t bs by (auto simp: tiled_append)
  have "tags ?h c = tag_word f m" if "(c, m, f) \<in> set ?bs" for c m f
  proof (cases "c = p")
    case True
    then have "(c, m, f) = (p, l, True)" using that d by (auto simp: image_iff)
    then show ?thesis using tags_rep_block(1,2) [OF tg p] by (simp add: set_block_free_def tag_word_set_free)
  next
    case False
    then have "(c, m, f) \<in> set bs" using that bs by auto
    then show ?thesis using tags_rep_block(2) [OF tg] False by (simp add: set_block_free_def)
  qed
  moreover have "hlinks ?h = hlinks h" by (simp add: set_block_free_def)
  ultimately have rep1: "tags_rep s e ?h ?bs" using ti tg bs by (auto simp: tags_rep_def)
  have cx: "coalesced xs" "coalesced ys" using co bs by (cases ys; auto simp: coalesced_append)+
  obtain q k zs h1 where m: "free_merge_prev p ?h = Some (q, h1)" "tags_rep s e h1 (zs @ (q, k, True) # ys)"
    "coalesced zs" "zs = [] \<or> \<not> snd (snd (last zs))" "coalesce (zs @ (q, k, True) # ys) = coalesce ?bs"
    using free_merge_prev_rep [OF rep1 cx(1)] by blast
  obtain h2 where h2: "free_merge_next q h1 = Some h2" "tags_rep s e h2 (coalesce ?bs)"
    using free_merge_next_rep [OF m(2-4) cx(2)] m(5) by auto
  have "give_block p bs = coalesce ?bs" using give_block_split [of xs p l ys] co bs d by simp
  then show ?thesis using m(1) h2 coalesced_coalesce by (simp add: free_def sizeof_malloc_tag_def malloc_rep_tags)
qed

section \<open>Requests, round trips and sequences of calls\<close>

definition request :: "u32 \<Rightarrow> nat" where
  "request n = (unat n + 3) div 4 * 4 + 12"

lemma request_unat:
  assumes "unat n \<le> 2 ^ 32 - 16"
  shows "unat (align_next n 4 + 12) = request n"
proof -
  have a: "unat (align_next n 4) = (unat n + 3) div 4 * 4"
    using unat_align_next [of 2 n] assms by simp
  have "(unat n + 3) div 4 * 4 \<le> unat n + 3" by simp
  then have "unat (align_next n 4) + unat (12 :: u32) < 2 ^ LENGTH(32)" using a assms by simp
  then show ?thesis using a by (simp add: unat_add_no_wrap request_def)
qed

lemma request_bounds: "unat n + 12 \<le> request n" "12 \<le> request n"
  by (simp_all add: request_def)

lemma take_block_SomeD:
  assumes "take_block n bs = Some (p, bs')"
  shows "\<exists>xs a l ys. bs = xs @ (a, l, True) # ys \<and> n \<le> l \<and>
    (if 12 < l - n then p = a + of_nat (l - n) \<and> bs' = xs @ (a, l - n, True) # (p, n, False) # ys
     else p = a \<and> bs' = xs @ (a, l, False) # ys)"
  using assms
proof (induction n bs arbitrary: bs' rule: take_block.induct)
  case (2 n a l f bs)
  show ?case
  proof (cases "f \<and> n \<le> l")
    case True
    then show ?thesis using 2(2)
      by (intro exI [of _ "[]"] exI [of _ a] exI [of _ l] exI [of _ bs]) (auto split: if_splits)
  next
    case False
    then obtain ds where ds: "take_block n bs = Some (p, ds)" "bs' = (a, l, f) # ds" using 2(2) by auto
    from 2(1) [OF False ds(1)] obtain xs c m ys where x: "bs = xs @ (c, m, True) # ys" "n \<le> m"
      "if 12 < m - n then p = c + of_nat (m - n) \<and> ds = xs @ (c, m - n, True) # (p, n, False) # ys
       else p = c \<and> ds = xs @ (c, m, False) # ys" by blast
    show ?thesis using x ds(2)
      by (intro exI [of _ "(a, l, f) # xs"] exI [of _ c] exI [of _ m] exI [of _ ys]) auto
  qed
qed simp

lemma take_block_block:
  assumes "take_block n bs = Some (p, bs')"
  shows "\<exists>l. (p, l, False) \<in> set bs' \<and> n \<le> l" "(a, l, False) \<in> set bs \<Longrightarrow> (a, l, False) \<in> set bs'"
  using take_block_SomeD [OF assms] by (auto split: if_splits)

text \<open>The block that is handed out was not in use.\<close>

lemma take_block_not_used:
  assumes t: "take_block n bs = Some (p, bs')" and ti: "tiled s bs e" "tiled s bs' e"
  shows "(p, l, False) \<notin> set bs"
proof
  assume p: "(p, l, False) \<in> set bs"
  obtain xs a k ys where x: "bs = xs @ (a, k, True) # ys"
    "if 12 < k - n then p = a + of_nat (k - n) \<and> bs' = xs @ (a, k - n, True) # (p, n, False) # ys
     else p = a \<and> bs' = xs @ (a, k, False) # ys" using take_block_SomeD [OF t] by blast
  have "(p, l, False) \<in> set xs \<union> set ys" using p x(1) by auto
  then show False using tiled_distinct [OF ti(2)] x(2) by (auto split: if_splits simp: image_iff)
qed

lemma take_give:
  assumes t: "take_block n bs = Some (p, bs')" and co: "coalesced bs" and ti: "tiled s bs' e" "coalesced bs'"
  shows "give_block p bs' = bs"
proof -
  obtain xs a l ys where x: "bs = xs @ (a, l, True) # ys" "n \<le> l"
    "if 12 < l - n then p = a + of_nat (l - n) \<and> bs' = xs @ (a, l - n, True) # (p, n, False) # ys
     else p = a \<and> bs' = xs @ (a, l, False) # ys" using take_block_SomeD [OF t] by blast
  note d = tiled_distinct [OF ti(1)]
  show ?thesis
  proof (cases "12 < l - n")
    case True
    then have bs': "bs' = (xs @ [(a, l - n, True)]) @ (p, n, False) # ys" using x(3) by simp
    have "p \<notin> fst ` set (xs @ [(a, l - n, True)])" "p \<notin> fst ` set ys" using d bs' by auto
    then have "give_block p bs' = coalesce (xs @ (a, l - n, True) # (p, n, True) # ys)"
      using give_block_split [of "xs @ [(a, l - n, True)]" p n ys] ti(2) bs' by simp
    also have "\<dots> = coalesce (xs @ (a, l, True) # ys)"
      using coalesce_left [of xs a "l - n" p n ys] ti(2) bs' x(2) by (simp add: coalesced_append)
    finally show ?thesis using coalesce_id [OF co] x(1) by simp
  next
    case False
    then have bs': "bs' = xs @ (p, l, False) # ys" "p = a" using x(3) by auto
    have "p \<notin> fst ` set xs" "p \<notin> fst ` set ys" using d bs' by auto
    then show ?thesis using give_block_split [of xs p l ys] ti(2) bs' coalesce_id [OF co] x(1) by simp
  qed
qed

lemma give_block_used:
  assumes "(a, l, False) \<in> set bs" "a \<noteq> p"
  shows "(a, l, False) \<in> set (give_block p bs)"
  using assms by (force simp: give_block_def coalesce_used mark_free_def)

lemma rep_block_bounds:
  assumes "malloc_rep s e h bs" "(a, l, f) \<in> set bs"
  shows "unat (a + 12) = unat a + 12" "s \<le> unat a" "unat a + l \<le> e"
proof -
  have t: "tiled s bs e" "e < 2 ^ 32" using assms(1) by (simp_all add: malloc_rep_def)
  note b = tiled_in [OF t(1) assms(2)]
  show "s \<le> unat a" "unat a + l \<le> e" by (rule b)+
  show "unat (a + 12) = unat a + 12" using b t(2) by (subst unat_add_no_wrap) simp_all
qed

text \<open>The machine of calls: \<open>live\<close> holds the pointers that were returned and not freed, with the requested sizes.\<close>

datatype heap_op = H_malloc u32 | H_free addr

fun heap_exec :: "heap_op \<Rightarrow> heap \<times> (addr \<times> u32) list \<Rightarrow> (heap \<times> (addr \<times> u32) list) option" where
  "heap_exec (H_malloc n) (h, live) = do {
     (r, h) \<leftarrow> malloc n h;
     Some (h, case r of None \<Rightarrow> live | Some p \<Rightarrow> (p, n) # live) }"
| "heap_exec (H_free p) (h, live) = do {
     h \<leftarrow> free p h;
     Some (h, filter (\<lambda>b. fst b \<noteq> p) live) }"

fun heap_enabled :: "heap_op \<Rightarrow> heap \<times> (addr \<times> u32) list \<Rightarrow> bool" where
  "heap_enabled (H_malloc n) s \<longleftrightarrow> unat n \<le> 2 ^ 32 - 16"
| "heap_enabled (H_free p) (h, live) \<longleftrightarrow> p \<in> fst ` set live"

definition heap_ok :: "nat \<Rightarrow> nat \<Rightarrow> heap \<times> (addr \<times> u32) list \<Rightarrow> bool" where
  "heap_ok s e st \<longleftrightarrow> (\<exists>bs. malloc_rep s e (fst st) bs \<and> distinct (map fst (snd st)) \<and>
     (\<forall>(p, n)\<in>set (snd st). \<exists>l. (p - 12, l, False) \<in> set bs \<and> unat n + 12 \<le> l))"

lemma heap_ok_malloc:
  assumes "heap_ok s e (h, live)" "unat n \<le> 2 ^ 32 - 16"
  shows "\<exists>st. heap_exec (H_malloc n) (h, live) = Some st \<and> heap_ok s e st"
proof -
  obtain bs where rep: "malloc_rep s e h bs" and d: "distinct (map fst live)"
    and b: "\<forall>(p, n)\<in>set live. \<exists>l. (p - 12, l, False) \<in> set bs \<and> unat n + 12 \<le> l"
    using assms(1) by (auto simp: heap_ok_def)
  note r = malloc_rep_malloc [OF rep, of n, unfolded request_unat [OF assms(2)]]
  show ?thesis
  proof (cases "take_block (request n) bs")
    case None
    then show ?thesis using r request_bounds assms(1) by simp
  next
    case (Some pb)
    obtain p bs' where pb: "pb = (p, bs')" by (cases pb)
    then obtain h' where h': "malloc n h = Some (Some (p + 12), h')" "malloc_rep s e h' bs'"
      using r Some request_bounds by auto
    note tb = take_block_block [OF Some [unfolded pb]]
    have bs': "\<forall>(q, m)\<in>set live. \<exists>l. (q - 12, l, False) \<in> set bs' \<and> unat m + 12 \<le> l"
      using b tb(2) by fastforce
    have new: "p + 12 \<notin> fst ` set live"
    proof
      assume "p + 12 \<in> fst ` set live"
      then obtain m l where "(p, l, False) \<in> set bs" using b by fastforce
      moreover have "(p, l, False) \<notin> set bs" for l
        using take_block_not_used [OF Some [unfolded pb]] h'(2) rep by (auto simp: malloc_rep_def)
      ultimately show False by blast
    qed
    obtain l where "(p, l, False) \<in> set bs'" "request n \<le> l" using tb(1) by blast
    then have "heap_ok s e (h', (p + 12, n) # live)"
      using h'(2) bs' d new request_bounds(1) [of n] unfolding heap_ok_def by (intro exI [of _ bs']) force
    then show ?thesis using h'(1) by simp
  qed
qed

lemma heap_ok_free:
  assumes "heap_ok s e (h, live)" "p \<in> fst ` set live"
  shows "\<exists>st. heap_exec (H_free p) (h, live) = Some st \<and> heap_ok s e st"
proof -
  obtain bs where rep: "malloc_rep s e h bs" and d: "distinct (map fst live)"
    and b: "\<forall>(p, n)\<in>set live. \<exists>l. (p - 12, l, False) \<in> set bs \<and> unat n + 12 \<le> l"
    using assms(1) by (auto simp: heap_ok_def)
  obtain l where "(p - 12, l, False) \<in> set bs" using assms(2) b by fastforce
  from malloc_rep_free [OF rep this] obtain h' where h': "free p h = Some h'"
    "malloc_rep s e h' (give_block (p - 12) bs)" by auto
  let ?live = "filter (\<lambda>b. fst b \<noteq> p) live"
  have "\<exists>l. (q - 12, l, False) \<in> set (give_block (p - 12) bs) \<and> unat n + 12 \<le> l" if q: "(q, n) \<in> set ?live" for q n
  proof -
    have "q - 12 \<noteq> p - 12" using q by simp
    moreover obtain l where "(q - 12, l, False) \<in> set bs" "unat n + 12 \<le> l" using q b by force
    ultimately show ?thesis using give_block_used [of "q - 12" l bs "p - 12"] by blast
  qed
  then have "heap_ok s e (h', ?live)"
    using h'(2) distinct_map_filter [OF d] unfolding heap_ok_def by auto
  then show ?thesis using h'(1) by simp
qed

interpretation heap: guarded_machine heap_exec heap_enabled "heap_ok s e" for s e
proof
  fix st op assume ok: "heap_ok s e st" and en: "heap_enabled op st"
  obtain h live where st: "st = (h, live)" by (cases st)
  show "\<exists>t. heap_exec op st = Some t \<and> heap_ok s e t"
    using ok en heap_ok_malloc [of s e h live] heap_ok_free [of s e h live] unfolding st by (cases op) auto
qed

lemma kernel_heap_init_rep:
  assumes "lists (hlinks h) [Blocks \<mapsto> []]" "12 \<le> unat n" "unat n < 2 ^ 30" "unat a + unat n < 2 ^ 32"
  shows "\<exists>h'. kernel_heap_init a n h = Some h' \<and> malloc_rep (unat a) (unat a + unat n) h' [(a, unat n, True)]"
proof -
  have "Tag a \<notin> ring_nodes [Blocks \<mapsto> []]" unfolding ring_nodes_iff by auto
  from lists_list_add [OF assms(1) _ this, of Blocks "[]"] obtain l where
    "list_add (hlinks h) (Node (Tag a)) (Node Blocks) = Some l" "lists l [Blocks \<mapsto> [Tag a]]" by auto
  then show ?thesis using assms(2-4) by (simp add: kernel_heap_init_def malloc_rep_def tag_word_def)
qed

definition demo_heap :: heap where
  "demo_heap = \<lparr> tags = (\<lambda>_. 0xdeadbeef), hlinks = \<lparr>lnext = Node, lprev = Node\<rparr> \<rparr>"

lemma demo_heap_empty: "lists (hlinks demo_heap) [Blocks \<mapsto> []]"
  by (auto simp: demo_heap_def lists_def ring_def split: if_splits)

lemma demo_heap_rep:
  obtains h where "kernel_heap_init 0x1000 256 demo_heap = Some h" "malloc_rep 0x1000 0x1100 h [(0x1000, 256, True)]"
  using kernel_heap_init_rep [OF demo_heap_empty, of 256 "0x1000"] by auto

text \<open>
  C17. \<^verbatim>\<open>malloc\<close> refines the first-fit choice on the list of blocks: it returns NULL and changes nothing
  exactly when no free block holds the request (rounded up to a multiple of 4, plus the tag);
  otherwise it takes the first free block that does, from its end when more than a tag remains.
\<close>

theorem malloc_refines:
  assumes "malloc_rep s e h bs" "unat n \<le> 2 ^ 32 - 16"
  shows "case take_block (request n) bs of
      None \<Rightarrow> malloc n h = Some (None, h) \<and> (\<forall>(a, l, f)\<in>set bs. f \<longrightarrow> l < request n)
    | Some (p, bs') \<Rightarrow> \<exists>h'. malloc n h = Some (Some (p + 12), h') \<and> malloc_rep s e h' bs'"
  using malloc_rep_malloc [OF assms(1), of n, unfolded request_unat [OF assms(2)]] request_bounds(2) [of n]
    take_block_None [of "request n" bs]
  by (cases "take_block (request n) bs") auto

theorem malloc_refines_witness:
  "\<exists>h h'. malloc 10 h = Some (Some 0x10f4, h') \<and> malloc_rep 0x1000 0x1100 h' [(0x1000, 232, True), (0x10e8, 24, False)]"
proof -
  obtain h where h: "malloc_rep 0x1000 0x1100 h [(0x1000, 256, True)]" using demo_heap_rep .
  have "request 10 = 24" by (simp add: request_def)
  then show ?thesis using malloc_refines [OF h, of 10] by auto
qed

text \<open>
  C18. \<^verbatim>\<open>free\<close> of an allocated block marks it free and leaves no two adjacent free blocks anywhere: looking
  at the two neighbours implements merging all adjacent free blocks. All other allocated blocks
  stay, and the blocks still tile the whole region.
\<close>

theorem free_refines:
  assumes "malloc_rep s e h bs" "(p, l, False) \<in> set bs"
  shows "\<exists>h'. free (p + 12) h = Some h' \<and> malloc_rep s e h' (coalesce (mark_free p bs)) \<and>
    (\<forall>a k. a \<noteq> p \<longrightarrow> (a, k, False) \<in> set bs \<longrightarrow> (a, k, False) \<in> set (coalesce (mark_free p bs)))"
  using malloc_rep_free [OF assms] give_block_used [of _ _ bs p] unfolding give_block_def by blast

theorem free_refines_witness:
  "\<exists>h h'. malloc_rep 0x1000 0x1100 h [(0x1000, 232, True), (0x10e8, 24, False)] \<and>
    free 0x10f4 h = Some h' \<and> malloc_rep 0x1000 0x1100 h' [(0x1000, 256, True)]"
proof -
  obtain h where h: "malloc_rep 0x1000 0x1100 h [(0x1000, 232, True), (0x10e8, 24, False)]"
    using demo_heap_rep malloc_rep_malloc [of "0x1000" "0x1100" _ "[(0x1000, 256, True)]" 10] request_unat [of 10]
    by (auto simp: request_def)
  show ?thesis using free_refines [OF h, of "0x10e8" 24] h by (auto simp: mark_free_def)
qed

text \<open>
  Freeing what \<^verbatim>\<open>malloc\<close> just returned gives back exactly the list of blocks there was before.
\<close>

lemma malloc_free_round_trip:
  assumes "malloc_rep s e h bs" "unat n \<le> 2 ^ 32 - 16" "malloc n h = Some (Some p, h')"
  shows "\<exists>h''. free p h' = Some h'' \<and> malloc_rep s e h'' bs"
proof -
  note r = malloc_rep_malloc [OF assms(1), of n, unfolded request_unat [OF assms(2)]]
  obtain q bs' where t: "take_block (request n) bs = Some (q, bs')" and q: "p = q + 12" and rep: "malloc_rep s e h' bs'"
    using r request_bounds(2) assms(3) by (cases "take_block (request n) bs") auto
  obtain l where "(q, l, False) \<in> set bs'" using take_block_block(1) [OF t] by blast
  moreover have "give_block q bs' = bs"
    using take_give [OF t] assms(1) rep by (auto simp: malloc_rep_def)
  ultimately show ?thesis using malloc_rep_free [OF rep] q by metis
qed

lemma malloc_free_round_trip_witness:
  "\<exists>h h' h''. malloc 10 h = Some (Some 0x10f4, h') \<and> free 0x10f4 h' = Some h'' \<and>
    malloc_rep 0x1000 0x1100 h'' [(0x1000, 256, True)]"
proof -
  obtain h where h: "malloc_rep 0x1000 0x1100 h [(0x1000, 256, True)]" using demo_heap_rep .
  obtain h' where "malloc 10 h = Some (Some 0x10f4, h')"
    using malloc_rep_malloc [OF h, of 10] request_unat [of 10] by (auto simp: request_def)
  then show ?thesis using malloc_free_round_trip [OF h, of 10] by fastforce
qed

text \<open>
  C19. In every state that calls of \<^verbatim>\<open>malloc\<close> and \<^verbatim>\<open>free\<close> (of live pointers) reach from an initialised heap,
  the live allocations lie inside the region and no two of them overlap, and no call faults.
\<close>

theorem heap_run_safe:
  assumes "lists (hlinks h0) [Blocks \<mapsto> []]" "12 \<le> unat len" "unat len < 2 ^ 30" "unat a + unat len < 2 ^ 32"
    "kernel_heap_init a len h0 = Some h1" "reaches heap_exec heap_enabled (h1, []) (h, live)"
  shows "(\<forall>(p, n)\<in>set live. unat a \<le> unat p \<and> unat p + unat n \<le> unat a + unat len) \<and>
    (\<forall>(p, n)\<in>set live. \<forall>(q, m)\<in>set live. p \<noteq> q \<longrightarrow> unat p + unat n \<le> unat q \<or> unat q + unat m \<le> unat p) \<and>
    (\<forall>op. heap_enabled op (h, live) \<longrightarrow> (\<exists>st. heap_exec op (h, live) = Some st))"
proof -
  let ?s = "unat a" and ?e = "unat a + unat len"
  have "heap_ok ?s ?e (h1, [])" using kernel_heap_init_rep [OF assms(1-4)] assms(5) by (auto simp: heap_ok_def)
  note ok = heap.reachable_inv [OF assms(6) this] and ns = heap.never_stuck [OF assms(6) this]
  obtain bs where rep: "malloc_rep ?s ?e h bs"
    and b: "\<forall>(p, n)\<in>set live. \<exists>l. (p - 12, l, False) \<in> set bs \<and> unat n + 12 \<le> l"
    using ok unfolding heap_ok_def by auto
  have t: "tiled ?s bs ?e" using rep by (simp add: malloc_rep_def)
  have "?s \<le> unat p \<and> unat p + unat n \<le> ?e" if p: "(p, n) \<in> set live" for p n
  proof -
    obtain l where l: "(p - 12, l, False) \<in> set bs" "unat n + 12 \<le> l" using b p by blast
    show ?thesis using rep_block_bounds [OF rep l(1)] l(2) by simp
  qed
  moreover have "unat p + unat n \<le> unat q \<or> unat q + unat m \<le> unat p"
    if p: "(p, n) \<in> set live" and q: "(q, m) \<in> set live" and ne: "p \<noteq> q" for p q n m
  proof -
    obtain l k where l: "(p - 12, l, False) \<in> set bs" "unat n + 12 \<le> l" "(q - 12, k, False) \<in> set bs" "unat m + 12 \<le> k"
      using b p q by blast
    have "p - 12 \<noteq> q - 12" using ne by simp
    then show ?thesis
      using tiled_disjoint [OF t l(1,3)] rep_block_bounds(1) [OF rep l(1)] rep_block_bounds(1) [OF rep l(3)] l(2,4) by simp linarith
  qed
  ultimately show ?thesis using ns by blast
qed

theorem heap_run_safe_witness:
  "\<exists>h1. kernel_heap_init 0x1000 256 demo_heap = Some h1 \<and> (\<exists>st. heap_exec (H_malloc 10) (h1, []) = Some st)"
proof -
  obtain h1 where h1: "kernel_heap_init 0x1000 256 demo_heap = Some h1" using demo_heap_rep .
  have "reaches heap_exec heap_enabled (h1, []) (h1, [])" by (rule reaches_refl)
  from heap_run_safe [OF demo_heap_empty _ _ _ h1 this]
  have "\<forall>op. heap_enabled op (h1, []) \<longrightarrow> (\<exists>st. heap_exec op (h1, []) = Some st)" by simp
  moreover have "heap_enabled (H_malloc 10) (h1, [])" by simp
  ultimately have "\<exists>st. heap_exec (H_malloc 10) (h1, []) = Some st" by blast
  with h1 show ?thesis by blast
qed

text \<open>
  Without the bound on the size the request wraps around: a call for \<^verbatim>\<open>0xfffffff4\<close> bytes is served as a
  block of length 0, and the pointer it returns lies behind the free block it was taken from.
\<close>

lemma malloc_size_wraps:
  assumes rep: "malloc_rep s e h [(a, l, True)]" and l: "12 < l"
  shows "\<exists>h'. malloc 0xfffffff4 h = Some (Some (a + of_nat l + 12), h')"
proof -
  let ?k = "of_nat l :: u32"
  have n: "align_next 0xfffffff4 4 + sizeof_malloc_tag = 0"
    by (simp add: align_next_def align_next_mask_def sizeof_malloc_tag_def)
  note b = malloc_rep_block [OF rep, of a l True]
  have ls: "lists (hlinks h) [Blocks \<mapsto> [Tag a]]" using rep by (simp add: malloc_rep_def)
  have "?k \<noteq> 0" using b(5) l by auto
  then have fresh: "Tag (a + ?k) \<notin> ring_nodes [Blocks \<mapsto> [Tag a]]" unfolding ring_nodes_iff by auto
  obtain m where m: "list_add (hlinks h) (Node (Tag (a + ?k))) (Node (Tag a)) = Some m"
    using lists_list_add_after [OF ls _ fresh, of Blocks "[]"] by auto
  have "sizeof_malloc_tag < ?k" using b(5) l by (simp add: sizeof_malloc_tag_def word_less_nat_alt)
  moreover have "get_block_length (set_block_length a ?k h) a = ?k"
    using b(1,2) by (simp add: get_block_length_def set_block_length_def tag_word_set_length tag_word_length)
  ultimately have "\<exists>h'. malloc_from a 0 h = Some (Some (a + ?k + 12), h')"
    using b(3) m by (simp add: malloc_from_def Let_def set_block_free_def set_block_length_def sizeof_malloc_tag_def)
  then show ?thesis using find_block [OF rep, of 0] n by (simp add: malloc_def tag_entry_def)
qed

end
