(* ===== verification/Alloc.thy ===== *)
theory Alloc
  imports Malloc
begin

text \<open>
  The interface between the heap and the kernel's users of it: what a caller of \<^verbatim>\<open>malloc\<close> may rely on,
  as a locale, and what follows for the pattern all of them share, to allocate a structure and put the list
  head embedded in it on a list.
\<close>

locale allocator =
  fixes alloc :: "u32 \<Rightarrow> 'h \<Rightarrow> (addr option \<times> 'h) option"
    and release :: "addr \<Rightarrow> 'h \<Rightarrow> 'h option"
    and ok :: "'h \<times> (addr \<times> u32) list \<Rightarrow> bool"
    and outside :: "addr \<Rightarrow> bool"
  assumes alloc_total: "ok (h, live) \<Longrightarrow> unat n \<le> 2 ^ 32 - 16 \<Longrightarrow> \<exists>r h'. alloc n h = Some (r, h')"
    and alloc_none: "ok (h, live) \<Longrightarrow> unat n \<le> 2 ^ 32 - 16 \<Longrightarrow> alloc n h = Some (None, h') \<Longrightarrow> h' = h"
    and alloc_some: "ok (h, live) \<Longrightarrow> unat n \<le> 2 ^ 32 - 16 \<Longrightarrow> alloc n h = Some (Some p, h') \<Longrightarrow>
      p \<notin> fst ` set live \<and> ok (h', (p, n) # live)"
    and release_ok: "ok (h, live) \<Longrightarrow> p \<in> fst ` set live \<Longrightarrow>
      \<exists>h'. release p h = Some h' \<and> ok (h', filter (\<lambda>b. fst b \<noteq> p) live)"
    and inside: "ok (h, (p, n) # live) \<Longrightarrow> 0 < n \<Longrightarrow> \<not> outside p"
begin

lemma alloc_fresh:
  assumes ok: "ok (h, live)" "0 < n" "unat n \<le> 2 ^ 32 - 16"
    and mem: "\<And>p. mk p \<in> ring_nodes Q \<Longrightarrow> p \<in> fst ` set live \<or> outside p"
  obtains (no) "alloc n h = Some (None, h)"
  | (yes) p h' where "alloc n h = Some (Some p, h')" "ok (h', (p, n) # live)" "p \<notin> fst ` set live"
      "\<not> outside p" "mk p \<notin> ring_nodes Q"
proof -
  obtain r h' where r: "alloc n h = Some (r, h')" using alloc_total [OF ok(1,3)] by blast
  show thesis
  proof (cases r)
    case None
    then show ?thesis using no r alloc_none [OF ok(1,3)] by blast
  next
    case (Some p)
    then have p: "p \<notin> fst ` set live" "ok (h', (p, n) # live)" using alloc_some [OF ok(1,3)] r by auto
    then have "\<not> outside p" using inside ok(2) by blast
    then show ?thesis using yes r Some p mem by blast
  qed
qed

lemma alloc_front:
  assumes ok: "ok (h, live)" "0 < n" "unat n \<le> 2 ^ 32 - 16" and ls: "lists l Q" "Q hn = Some xs"
    and mem: "\<And>p. mk p \<in> ring_nodes Q \<Longrightarrow> p \<in> fst ` set live \<or> outside p"
  obtains (no) "alloc n h = Some (None, h)"
  | (yes) p h' l' where "alloc n h = Some (Some p, h')" "ok (h', (p, n) # live)" "p \<notin> fst ` set live" "mk p \<notin> ring_nodes Q"
      "list_add l (Node (mk p)) (Node hn) = Some l'" "lists l' (Q(hn \<mapsto> mk p # xs))"
  by (rule alloc_fresh [OF ok mem]) (use lists_list_add [OF ls] in blast)+

lemma alloc_back:
  assumes ok: "ok (h, live)" "0 < n" "unat n \<le> 2 ^ 32 - 16" and ls: "lists l Q" "Q hn = Some xs"
    and mem: "\<And>p. mk p \<in> ring_nodes Q \<Longrightarrow> p \<in> fst ` set live \<or> outside p"
  obtains (no) "alloc n h = Some (None, h)"
  | (yes) p h' l' where "alloc n h = Some (Some p, h')" "ok (h', (p, n) # live)" "p \<notin> fst ` set live" "mk p \<notin> ring_nodes Q"
      "list_add_tail l (Node (mk p)) (Node hn) = Some l'" "lists l' (Q(hn \<mapsto> xs @ [mk p]))"
  by (rule alloc_fresh [OF ok mem]) (use lists_list_add_tail [OF ls] in blast)+

end

lemma heap_ok_inside:
  assumes "heap_ok s e (h, (p, n) # live)" "0 < n"
  shows "s \<le> unat p \<and> unat p < e"
proof -
  obtain bs l where b: "malloc_rep s e h bs" "(p - 12, l, False) \<in> set bs" "unat n + 12 \<le> l"
    using assms(1) by (auto simp: heap_ok_def)
  have "0 < unat n" using assms(2) by (simp add: word_less_nat_alt)
  then show ?thesis using rep_block_bounds [OF b(1,2)] b(3) by simp
qed

interpretation libc: allocator malloc free "heap_ok s e" "\<lambda>p. unat p < s \<or> e \<le> unat p" for s e
proof
  fix h :: heap and live :: "(addr \<times> u32) list" and n p :: u32
  show "\<exists>r h'. malloc n h = Some (r, h')" if ok: "heap_ok s e (h, live)" "unat n \<le> 2 ^ 32 - 16"
    using heap_ok_malloc [OF ok] by (cases "malloc n h") auto
  show "h' = h" if ok: "heap_ok s e (h, live)" "unat n \<le> 2 ^ 32 - 16" "malloc n h = Some (None, h')" for h'
  proof -
    obtain bs where rep: "malloc_rep s e h bs" using ok(1) by (auto simp: heap_ok_def)
    from malloc_rep_malloc [OF rep, of n, unfolded request_unat [OF ok(2)]] show ?thesis
      using ok(3) request_bounds(2) by (auto split: option.splits)
  qed
  show "p \<notin> fst ` set live \<and> heap_ok s e (h', (p, n) # live)"
    if ok: "heap_ok s e (h, live)" "unat n \<le> 2 ^ 32 - 16" "malloc n h = Some (Some p, h')" for h'
    using heap_ok_malloc [OF ok(1,2)] ok(3) by (auto simp: heap_ok_def)
  show "\<exists>h'. free p h = Some h' \<and> heap_ok s e (h', filter (\<lambda>b. fst b \<noteq> p) live)"
    if ok: "heap_ok s e (h, live)" "p \<in> fst ` set live"
    using heap_ok_free [OF ok] by (cases "free p h") auto
  show "\<not> (unat p < s \<or> e \<le> unat p)" if "heap_ok s e (h, (p, n) # live)" "0 < n"
    using heap_ok_inside [OF that] by simp
qed

end
