(* ===== verification/Task.thy ===== *)
theory Task
  imports Thread_Ops Alloc
begin

text \<open>
  Tasks: \<^verbatim>\<open>kernel/task.c\<close>. A task is named by the address of its \<^verbatim>\<open>task_info\<close>. Its head of threads is a node of the
  scheduler's link heap; the list of all tasks, and the lists of installed signal handlers, are on a
  second link heap. The file table of a task is modelled with the file system.
\<close>

section \<open>Data\<close>

datatype tnode = TaskHead | TaskList addr | SignalHead addr | SigList addr

record task_info =
  pid :: int
  filemap :: u32

record pstate =
  ts :: tstate
  tlinks :: "tnode links"
  tasks :: "addr \<Rightarrow> task_info"
  next_pid :: int
  kheap :: heap

section \<open>The code\<close>

definition alloc_pid :: "pstate \<Rightarrow> int \<times> pstate" where
  "alloc_pid st = (next_pid st, st\<lparr>next_pid := next_pid st + 1\<rparr>)"

definition task_init :: "addr \<Rightarrow> pstate \<Rightarrow> pstate option" where
  "task_init task st = do {
     let (retpid, st) = alloc_pid st;
     let st = st\<lparr>tasks := (tasks st)(task := (tasks st task)\<lparr>pid := retpid, filemap := 0\<rparr>)\<rparr>;
     k \<leftarrow> INIT_LIST_HEAD (klinks (ks (ts st))) (Node (ThreadHead task));
     l \<leftarrow> INIT_LIST_HEAD (tlinks st) (Node (SignalHead task));
     l \<leftarrow> list_add l (Node (TaskList task)) (Node TaskHead);
     Some (st\<lparr>ts := (ts st)\<lparr>ks := (ks (ts st))\<lparr>klinks := k\<rparr>\<rparr>, tlinks := l\<rparr>) }"

definition task_exit :: "addr \<Rightarrow> pstate \<Rightarrow> pstate option" where
  "task_exit task st = do {
     l \<leftarrow> list_del (tlinks st) (Node (TaskList task));
     h \<leftarrow> free task (kheap st);
     Some (st\<lparr>tlinks := l, kheap := h\<rparr>) }"

definition current_task_info :: "pstate \<Rightarrow> addr" where
  "current_task_info st = (let k = ks (ts st) in ti_task (threads k (cur k)))"

definition sys_getpid :: "pstate \<Rightarrow> int" where
  "sys_getpid st = pid (tasks st (current_task_info st))"

section \<open>The invariant of the task list\<close>

definition tasks_inv :: "pstate \<Rightarrow> addr list \<Rightarrow> (tnode \<Rightarrow> tnode list option) \<Rightarrow> bool" where
  "tasks_inv st us Q \<longleftrightarrow> lists (tlinks st) Q \<and> Q TaskHead = Some (map TaskList us) \<and>
     distinct (map (\<lambda>t. pid (tasks st t)) us) \<and> (\<forall>t\<in>set us. pid (tasks st t) < next_pid st)"

text \<open>
  \<^verbatim>\<open>task_init\<close> of a new task gives it a process id no other task has and an empty file map, puts it at the
  front of the list of tasks and gives it empty lists of threads and of signal handlers; the other tasks
  and the scheduler are not affected.
\<close>

lemma task_init_lists:
  assumes t: "tasks_inv st us Q" and k: "lists (klinks (ks (ts st))) K"
    and new: "TaskList task \<notin> ring_nodes Q" "SignalHead task \<notin> ring_nodes Q" "ThreadHead task \<notin> ring_nodes K"
  shows "\<exists>st' kl. task_init task st = Some st' \<and>
    tasks_inv st' (task # us) (Q(SignalHead task \<mapsto> [], TaskHead \<mapsto> TaskList task # map TaskList us)) \<and>
    lists kl (K(ThreadHead task \<mapsto> [])) \<and> ts st' = (ts st)\<lparr>ks := (ks (ts st))\<lparr>klinks := kl\<rparr>\<rparr> \<and> kheap st' = kheap st \<and>
    next_pid st' = next_pid st + 1 \<and> pid (tasks st' task) = next_pid st \<and> filemap (tasks st' task) = 0 \<and>
    (\<forall>u. u \<noteq> task \<longrightarrow> tasks st' u = tasks st u)"
proof -
  have ls: "lists (tlinks st) Q" and Q: "Q TaskHead = Some (map TaskList us)" using t by (simp_all add: tasks_inv_def)
  have nin: "task \<notin> set us" using new(1) Q unfolding ring_nodes_iff by fastforce
  obtain kl where kl: "INIT_LIST_HEAD (klinks (ks (ts st))) (Node (ThreadHead task)) = Some kl" "lists kl (K(ThreadHead task \<mapsto> []))"
    using lists_INIT_LIST_HEAD [OF k] new(3) by meson
  obtain l where l: "INIT_LIST_HEAD (tlinks st) (Node (SignalHead task)) = Some l" "lists l (Q(SignalHead task \<mapsto> []))"
    using lists_INIT_LIST_HEAD [OF ls] new(2) by meson
  have "TaskList task \<notin> ring_nodes (Q(SignalHead task \<mapsto> []))"
    using new(1) unfolding ring_nodes_iff by (auto split: if_splits)
  from lists_list_add [OF l(2) _ this, of TaskHead "map TaskList us"] Q obtain l' where
    l': "list_add l (Node (TaskList task)) (Node TaskHead) = Some l'"
    "lists l' (Q(SignalHead task \<mapsto> [], TaskHead \<mapsto> TaskList task # map TaskList us))" by auto
  define st' where "st' = st\<lparr>next_pid := next_pid st + 1,
    tasks := (tasks st)(task := (tasks st task)\<lparr>pid := next_pid st, filemap := 0\<rparr>),
    ts := (ts st)\<lparr>ks := (ks (ts st))\<lparr>klinks := kl\<rparr>\<rparr>, tlinks := l'\<rparr>"
  have run: "task_init task st = Some st'"
    using kl(1) l(1) l'(1) by (simp add: task_init_def alloc_pid_def st'_def)
  have eq: "pid (tasks st' u) = pid (tasks st u)" and lt: "pid (tasks st u) < next_pid st" if "u \<in> set us" for u
    using t that nin by (auto simp: tasks_inv_def st'_def)
  have f: "tlinks st' = l'" "next_pid st' = next_pid st + 1" "pid (tasks st' task) = next_pid st" by (simp_all add: st'_def)
  have m: "map (\<lambda>u. pid (tasks st' u)) us = map (\<lambda>u. pid (tasks st u)) us" using eq by simp
  have "distinct (map (\<lambda>u. pid (tasks st' u)) us)" unfolding m using t by (simp add: tasks_inv_def)
  moreover have "pid (tasks st' task) \<notin> (\<lambda>u. pid (tasks st' u)) ` set us" using lt eq f(3) by force
  ultimately have "distinct (map (\<lambda>u. pid (tasks st' u)) (task # us))" by simp
  moreover have "\<forall>u\<in>set (task # us). pid (tasks st' u) < next_pid st'" using lt eq f by fastforce
  ultimately have "tasks_inv st' (task # us) (Q(SignalHead task \<mapsto> [], TaskHead \<mapsto> TaskList task # map TaskList us))"
    using l'(2) f(1) by (simp add: tasks_inv_def)
  then show ?thesis using run kl(2) by (intro exI [of _ st'] exI [of _ kl]) (simp add: st'_def)
qed

lemma task_init_correct:
  assumes t: "tasks_inv st us Q" and k: "kernel_inv (ks (ts st)) R W V M"
    and new: "TaskList task \<notin> ring_nodes Q" "SignalHead task \<notin> ring_nodes Q"
      "ThreadHead task \<notin> ring_nodes (run_rings R (wait_rings M W V))"
  shows "\<exists>st'. task_init task st = Some st' \<and>
    tasks_inv st' (task # us) (Q(SignalHead task \<mapsto> [], TaskHead \<mapsto> TaskList task # map TaskList us)) \<and>
    kernel_inv (ks (ts st')) R W V (M(ThreadHead task \<mapsto> [])) \<and>
    pid (tasks st' task) = next_pid st \<and> filemap (tasks st' task) = 0 \<and>
    (\<forall>u. u \<noteq> task \<longrightarrow> tasks st' u = tasks st u)"
proof -
  have "lists (klinks (ks (ts st))) (run_rings R (wait_rings M W V))"
    using k by (auto simp: kernel_inv_def queues_inv_def sched_rep_def)
  from task_init_lists [OF t this new] obtain st' kl where
    r: "task_init task st = Some st'"
      "tasks_inv st' (task # us) (Q(SignalHead task \<mapsto> [], TaskHead \<mapsto> TaskList task # map TaskList us))"
      "lists kl ((run_rings R (wait_rings M W V))(ThreadHead task \<mapsto> []))" "ts st' = (ts st)\<lparr>ks := (ks (ts st))\<lparr>klinks := kl\<rparr>\<rparr>"
      "pid (tasks st' task) = next_pid st" "filemap (tasks st' task) = 0" "\<forall>u. u \<noteq> task \<longrightarrow> tasks st' u = tasks st u"
    by blast
  then show ?thesis using kernel_inv_task_links [OF k r(3)] by auto
qed

text \<open>\<^verbatim>\<open>task_exit\<close> of a task whose structure is a live allocation takes it off the list and frees it.\<close>

lemma task_exit_correct:
  assumes t: "tasks_inv st us Q" "task \<in> set us" and h: "heap_ok s e (kheap st, live)" "task \<in> fst ` set live"
  shows "\<exists>st'. task_exit task st = Some st' \<and> tasks_inv st' (remove1 task us) (Q(TaskHead \<mapsto> map TaskList (remove1 task us))) \<and>
    heap_ok s e (kheap st', filter (\<lambda>b. fst b \<noteq> task) live)"
proof -
  have ls: "lists (tlinks st) Q" and Q: "Q TaskHead = Some (map TaskList us)" using t by (simp_all add: tasks_inv_def)
  have r: "remove1 (TaskList task) (map TaskList us) = map TaskList (remove1 task us)"
    by (induction us) auto
  obtain l where l: "list_del (tlinks st) (Node (TaskList task)) = Some l" "lists l (Q(TaskHead \<mapsto> map TaskList (remove1 task us)))"
    using lists_list_del [OF ls Q, of "TaskList task"] t(2) r by auto
  obtain h' where "free task (kheap st) = Some h'" "heap_ok s e (h', filter (\<lambda>b. fst b \<noteq> task) live)"
    using libc.release_ok [OF h] by blast
  moreover have "distinct (map (\<lambda>t. pid (tasks st t)) (remove1 task us))"
    using t(1) by (auto simp: tasks_inv_def distinct_map intro: inj_on_subset)
  ultimately show ?thesis using l t(1) set_remove1_subset [of task us]
    by (auto simp: task_exit_def tasks_inv_def)
qed

definition demo_pstate :: pstate where
  "demo_pstate = \<lparr> ts = demo_tstate, tlinks = \<lparr>lnext = Node, lprev = Node\<rparr>, tasks = (\<lambda>_. \<lparr>pid = 0, filemap = 7\<rparr>),
     next_pid = 7000, kheap = demo_heap \<rparr>"

lemma task_init_correct_witness:
  "\<exists>st'. task_init 0x40 demo_pstate = Some st' \<and> pid (tasks st' 0x40) = 7000 \<and>
    kernel_inv (ks (ts st')) demo_R [] [] [ThreadHead 0 \<mapsto> [], ThreadHead 0x40 \<mapsto> []]"
proof -
  have "tasks_inv demo_pstate [] [TaskHead \<mapsto> []]"
    by (auto simp: tasks_inv_def demo_pstate_def lists_def ring_def split: if_splits)
  moreover have "kernel_inv (ks (ts demo_pstate)) demo_R [] [] [ThreadHead 0 \<mapsto> []]"
    using demo_task_inv by (simp add: demo_pstate_def)
  moreover have "TaskList 0x40 \<notin> ring_nodes [TaskHead \<mapsto> []]" "SignalHead 0x40 \<notin> ring_nodes [TaskHead \<mapsto> []]"
    unfolding ring_nodes_iff by auto
  moreover have "ThreadHead 0x40 \<notin> set (n # xs)"
    if "run_rings demo_R (wait_rings [ThreadHead 0 \<mapsto> []] [] []) n = Some xs" for n xs
    using that by (cases n) (auto simp: wait_rings_def demo_R_def split: if_splits)
  then have "ThreadHead 0x40 \<notin> ring_nodes (run_rings demo_R (wait_rings [ThreadHead 0 \<mapsto> []] [] []))"
    unfolding ring_nodes_iff by blast
  ultimately show ?thesis using task_init_correct [of demo_pstate "[]" "[TaskHead \<mapsto> []]" demo_R "[]" "[]" "[ThreadHead 0 \<mapsto> []]" "0x40"]
    by (auto simp: demo_pstate_def)
qed

end
