(* ===== verification/Signal.thy ===== *)
theory Signal
  imports Task
begin

text \<open>
  Signals: \<^verbatim>\<open>kernel/signal.c\<close>. A delivered signal is a second exception frame on the stack of the thread, which
  returns into the handler first; the addresses of the two trampolines the handlers return to are in
  assembly files and are parameters (\<open>trampolines\<close>). \<open>psp\<close> is the process stack pointer of the processor.

  \<open>None\<close> is a fault. \<^verbatim>\<open>is_signal_supported\<close> has no lower bound: a negative signal number reads memory
  outside the one-word mask.
\<close>

section \<open>Data\<close>

record sigaction =
  sa_handler :: u32
  sa_mask :: u32
  sa_flags :: u32

record signal_info =
  signo :: int
  act_storage :: sigaction

record sigevent =
  sigev_value :: u32
  sigev_notify_function :: u32

record trampolines =
  return_from_sighandler :: u32
  return_from_sigaction :: u32

record sstate =
  ps :: pstate
  psp :: u32
  signals :: "addr \<Rightarrow> signal_info"
  errno :: int

definition SIGKILL :: int where "SIGKILL = 9"
definition SIGUSR1 :: int where "SIGUSR1 = 10"
definition SIGUSR2 :: int where "SIGUSR2 = 12"
definition SIGSTOP :: int where "SIGSTOP = 19"
definition SIGMAX :: int where "SIGMAX = 31"

definition SA_SIGINFO :: u32 where "SA_SIGINFO = 1"


definition sizeof_signal_info :: u32 where "sizeof_signal_info = 36"
definition sizeof_siginfo_t :: u32 where "sizeof_siginfo_t = 12"

section \<open>Access to the thread and its stack\<close>

definition kst :: "sstate \<Rightarrow> kstate" where "kst st = ks (ts (ps st))"

definition set_kst :: "kstate \<Rightarrow> sstate \<Rightarrow> sstate" where
  "set_kst k st = st\<lparr>ps := (ps st)\<lparr>ts := (ts (ps st))\<lparr>ks := k\<rparr>\<rparr>\<rparr>"

definition mem :: "sstate \<Rightarrow> addr \<Rightarrow> u32" where "mem st = kmem (ts (ps st))"

definition write_words :: "addr \<Rightarrow> u32 list \<Rightarrow> sstate \<Rightarrow> sstate" where
  "write_words a ws st = st\<lparr>ps := (ps st)\<lparr>ts := (ts (ps st))\<lparr>kmem := store_words a ws (mem st)\<rparr>\<rparr>\<rparr>"

definition set_mi_psp :: "addr \<Rightarrow> u32 \<Rightarrow> sstate \<Rightarrow> sstate" where
  "set_mi_psp t v st = set_kst ((kst st)\<lparr>threads := (threads (kst st))(t := (threads (kst st) t)\<lparr>mi_psp := v\<rparr>)\<rparr>) st"

definition mi_psp_of :: "sstate \<Rightarrow> addr \<Rightarrow> u32" where
  "mi_psp_of st t = mi_psp (threads (kst st) t)"

section \<open>The code\<close>

definition v7m_alloca_thread_context :: "addr \<Rightarrow> u32 \<Rightarrow> sstate \<Rightarrow> addr \<times> sstate" where
  "v7m_alloca_thread_context tip len st = (let st = set_mi_psp tip (mi_psp_of st tip - len) st in (mi_psp_of st tip, st))"

definition stage_sighandler :: "trampolines \<Rightarrow> board \<Rightarrow> sigaction \<Rightarrow> sstate \<Rightarrow> sstate" where
  "stage_sighandler tr bd act st =
     (let curr_thread = cur (kst st);
          st = set_mi_psp curr_thread (psp st) st;
          st = write_words (mi_psp_of st curr_thread) [0] st;
          (ctx, st) = v7m_alloca_thread_context curr_thread sizeof_thread_context_regs st;
          st = write_words (ctx + 4) [0, 0, 0, 0, v7m_set_thumb_bit (return_from_sighandler tr),
                 v7m_clear_thumb_bit (sa_handler act), xPSR_T_Msk bd] st
      in st\<lparr>psp := mi_psp_of st curr_thread\<rparr>)"

definition stage_sigaction :: "trampolines \<Rightarrow> board \<Rightarrow> sigaction \<Rightarrow> int \<Rightarrow> u32 \<Rightarrow> sstate \<Rightarrow> sstate" where
  "stage_sigaction tr bd act sig v st =
     (let curr_thread = cur (kst st);
          st = set_mi_psp curr_thread (psp st) st;
          st = write_words (mi_psp_of st curr_thread) [0] st;
          (siginfo_ptr, st) = v7m_alloca_thread_context curr_thread sizeof_siginfo_t st;
          st = write_words siginfo_ptr [word_of_int sig, v, word_of_int (ti_id (threads (kst st) curr_thread))] st;
          (ctx, st) = v7m_alloca_thread_context curr_thread sizeof_thread_context_regs st;
          st = write_words (ctx + 4) [siginfo_ptr, 0, 0, 0, v7m_set_thumb_bit (return_from_sigaction tr),
                 v7m_clear_thumb_bit (sa_handler act), xPSR_T_Msk bd] st
      in st\<lparr>psp := mi_psp_of st curr_thread\<rparr>)"

definition do_sigevent :: "trampolines \<Rightarrow> board \<Rightarrow> sigevent \<Rightarrow> addr \<Rightarrow> sstate \<Rightarrow> sstate" where
  "do_sigevent tr bd ev thread st =
     (let curr_thread = cur (kst st);
          st = (if thread = curr_thread then set_mi_psp thread (psp st) st else st);
          (ctx, st) = v7m_alloca_thread_context thread sizeof_thread_context_regs st;
          st = write_words ctx [sigev_value ev, 0, 0, 0, 0, v7m_set_thumb_bit (return_from_sighandler tr),
                 v7m_clear_thumb_bit (sigev_notify_function ev), xPSR_T_Msk bd] st
      in if thread = curr_thread then st\<lparr>psp := mi_psp_of st thread\<rparr> else st)"

definition has_signo :: "sstate \<Rightarrow> int \<Rightarrow> tnode \<Rightarrow> bool" where
  "has_signo st sig n = (case n of SigList p \<Rightarrow> signo (signals st p) = sig | _ \<Rightarrow> False)"

definition find_sigaction_by_sig :: "int \<Rightarrow> sstate \<Rightarrow> addr option option" where
  "find_sigaction_by_sig sig st = do {
     r \<leftarrow> list_for_each_entry_find (tlinks (ps st)) (has_signo st sig) (Node (SignalHead (current_task_info (ps st))));
     (case r of Some (SigList p) \<Rightarrow> Some (Some p) | Some _ \<Rightarrow> None | None \<Rightarrow> Some None) }"

text \<open>\<open>act\<close> is NULL or the action to install; \<open>oldact\<close> is NULL or the contents of the caller's buffer,
  and the second result is what the buffer holds afterwards.\<close>

definition sys_sigaction ::
    "int \<Rightarrow> sigaction option \<Rightarrow> sigaction option \<Rightarrow> sstate \<Rightarrow> (int \<times> sigaction option \<times> sstate) option" where
  "sys_sigaction sig act oldact st =
     (if sig = SIGKILL \<or> sig = SIGSTOP then Some (- 1, oldact, st\<lparr>errno := EINVAL\<rparr>)
      else case act of
        None \<Rightarrow> Some (- 1, oldact, st\<lparr>errno := EFAULT\<rparr>)
      | Some act \<Rightarrow> do {
          oldact \<leftarrow> (case oldact of
             None \<Rightarrow> Some None
           | Some old \<Rightarrow> do {
               oact \<leftarrow> find_sigaction_by_sig sig st;
               Some (Some (case oact of Some p \<Rightarrow> act_storage (signals st p) | None \<Rightarrow> old)) });
          (p, h) \<leftarrow> malloc sizeof_signal_info (kheap (ps st));
          let st = st\<lparr>ps := (ps st)\<lparr>kheap := h\<rparr>\<rparr>;
          (case p of
             None \<Rightarrow> Some (- 1, oldact, st\<lparr>errno := ENOMEM\<rparr>)
           | Some sgnl \<Rightarrow> do {
               l \<leftarrow> list_add (tlinks (ps st)) (Node (SigList sgnl)) (Node (SignalHead (current_task_info (ps st))));
               Some (0, oldact, st\<lparr>ps := (ps st)\<lparr>tlinks := l\<rparr>,
                 signals := (signals st)(sgnl := \<lparr>signo = sig, act_storage = act\<rparr>)\<rparr>) }) })"

definition supported_signal_mask :: u32 where
  "supported_signal_mask = push_bit 9 1 OR push_bit 10 1 OR push_bit 12 1 OR push_bit 19 1"

definition is_signal_supported :: "int \<Rightarrow> int option" where
  "is_signal_supported sig =
     (if sig > SIGMAX then Some 0
      else if sig < 0 then None
      else Some (uint (bitmap_get_bit (\<lambda>_. supported_signal_mask) (nat sig))))"

definition sys_kill :: "trampolines \<Rightarrow> board \<Rightarrow> int \<Rightarrow> sstate \<Rightarrow> (int \<times> sstate) option" where
  "sys_kill tr bd sig st = do {
     s \<leftarrow> is_signal_supported sig;
     if s = 0 then Some (- EINVAL, st)
     else do {
       act \<leftarrow> find_sigaction_by_sig sig st;
       (case act of
          None \<Rightarrow> Some (- EINVAL, st)
        | Some p \<Rightarrow>
            let a = act_storage (signals st p)
            in Some (sig, if sa_flags a AND SA_SIGINFO \<noteq> 0 then stage_sigaction tr bd a sig 0 st
                          else stage_sighandler tr bd a st)) } }"

section \<open>Delivery\<close>

lemma state_access [simp]:
  "kst (write_words a ws st) = kst st" "psp (write_words a ws st) = psp st"
  "mi_psp_of (write_words a ws st) t = mi_psp_of st t" "mem (write_words a ws st) = store_words a ws (mem st)"
  "mem (set_mi_psp t v st) = mem st" "psp (set_mi_psp t v st) = psp st" "mi_psp_of (set_mi_psp t v st) t = v"
  "cur (kst (set_mi_psp t v st)) = cur (kst st)" "ti_id (threads (kst (set_mi_psp t v st)) u) = ti_id (threads (kst st) u)"
  "mem (st\<lparr>psp := p\<rparr>) = mem st" "mi_psp_of (st\<lparr>psp := p\<rparr>) t = mi_psp_of st t"
  by (simp_all add: kst_def write_words_def mi_psp_of_def mem_def set_mi_psp_def set_kst_def)

text \<open>Addresses at a distance below the stack pointer.\<close>

lemma below_neq:
  fixes p :: u32
  assumes "a < 2 ^ 32" "b < 2 ^ 32" "a \<noteq> b"
  shows "p - of_nat a \<noteq> p - of_nat b"
proof
  assume "p - of_nat a = p - of_nat b"
  then have "unat (of_nat a :: u32) = unat (of_nat b :: u32)" by simp
  then show False using assms by (simp add: unat_of_nat_small)
qed

lemma below_addr:
  fixes p :: u32
  shows "4 * i \<le> c \<Longrightarrow> p - of_nat c + of_nat (4 * i) = p - of_nat (c - 4 * i)"
  by (simp add: of_nat_diff algebra_simps)

lemma store_below_off:
  fixes p :: u32
  assumes "\<And>i. i < length ws \<Longrightarrow> a \<noteq> p - of_nat (c - 4 * i)" "4 * length ws \<le> c"
  shows "store_words (p - of_nat c) ws m a = m a"
proof (rule store_words_off)
  fix i assume i: "i < length ws"
  have e: "p - of_nat c + of_nat (4 * i) = p - of_nat (c - 4 * i)" using i assms(2) by (intro below_addr) simp
  show "a \<noteq> p - of_nat c + of_nat (4 * i)" unfolding e by (rule assms(1) [OF i])
qed

lemma store_below_above:
  fixes p :: u32
  assumes "d + 4 * length ws \<le> c" "c < 2 ^ 32"
  shows "store_words (p - of_nat c) ws m (p - of_nat d) = m (p - of_nat d)"
proof (rule store_below_off)
  show "4 * length ws \<le> c" using assms(1) by simp
  fix i assume "i < length ws"
  then show "p - of_nat d \<noteq> p - of_nat (c - 4 * i)" using assms by (intro below_neq) auto
qed

lemma store_below_frame:
  fixes p :: u32
  assumes "frame_at m (p - of_nat d) us" "4 * length us \<le> d" "c < 2 ^ 32" "d + 4 * length ws \<le> c"
  shows "frame_at (store_words (p - of_nat c) ws m) (p - of_nat d) us"
  unfolding frame_at_def
proof (intro allI impI)
  fix i assume i: "i < length us"
  have e: "p - of_nat d + of_nat (4 * i) = p - of_nat (d - 4 * i)" using i assms(2) by (intro below_addr) simp
  have "store_words (p - of_nat c) ws m (p - of_nat (d - 4 * i)) = m (p - of_nat (d - 4 * i))"
    by (rule store_below_above) (use assms in auto)
  then show "store_words (p - of_nat c) ws m (p - of_nat d + of_nat (4 * i)) = us ! i"
    using assms(1) i unfolding e frame_at_def by (simp only: e [symmetric])
qed

definition handler_frame :: "trampolines \<Rightarrow> board \<Rightarrow> sigaction \<Rightarrow> u32 list" where
  "handler_frame tr bd act = [0, 0, 0, 0, v7m_set_thumb_bit (return_from_sighandler tr),
     v7m_clear_thumb_bit (sa_handler act), xPSR_T_Msk bd]"

definition action_frame :: "trampolines \<Rightarrow> board \<Rightarrow> sigaction \<Rightarrow> addr \<Rightarrow> u32 list" where
  "action_frame tr bd act siginfo_ptr = [siginfo_ptr, 0, 0, 0, v7m_set_thumb_bit (return_from_sigaction tr),
     v7m_clear_thumb_bit (sa_handler act), xPSR_T_Msk bd]"

lemma stage_sighandler_mem:
  "mem (stage_sighandler tr bd act st) = store_words (psp st - of_nat 28) (handler_frame tr bd act) ((mem st)(psp st := 0))"
  "psp (stage_sighandler tr bd act st) = psp st - 32" "mi_psp_of (stage_sighandler tr bd act st) (cur (kst st)) = psp st - 32"
  by (simp_all add: stage_sighandler_def v7m_alloca_thread_context_def Let_def handler_frame_def sizeof_thread_context_regs_def)

lemma stage_sigaction_mem:
  "mem (stage_sigaction tr bd act sig v st) = store_words (psp st - of_nat 40) (action_frame tr bd act (psp st - 12))
     (store_words (psp st - of_nat 12) [word_of_int sig, v, word_of_int (ti_id (threads (kst st) (cur (kst st))))]
       ((mem st)(psp st := 0)))"
  "psp (stage_sigaction tr bd act sig v st) = psp st - 44" "mi_psp_of (stage_sigaction tr bd act sig v st) (cur (kst st)) = psp st - 44"
  by (simp_all add: stage_sigaction_def v7m_alloca_thread_context_def Let_def action_frame_def
      sizeof_thread_context_regs_def sizeof_siginfo_t_def)

lemma find_sigaction_rep:
  assumes "lists (tlinks (ps st)) Q" "Q (SignalHead (current_task_info (ps st))) = Some (map SigList ss)"
  shows "find_sigaction_by_sig sig st = Some (find (\<lambda>p. signo (signals st p) = sig) ss)"
proof -
  have "find (has_signo st sig) (map SigList ss) = map_option SigList (find (\<lambda>p. signo (signals st p) = sig) ss)"
    by (induction ss) (auto simp: has_signo_def)
  then show ?thesis unfolding find_sigaction_by_sig_def lists_search [OF assms]
    by (simp add: lists_search [OF assms] split: option.split)
qed

lemma is_signal_supported_iff:
  assumes "0 \<le> sig"
  shows "is_signal_supported sig = Some (if sig \<in> {SIGKILL, SIGUSR1, SIGUSR2, SIGSTOP} then 1 else 0)"
proof (cases "sig > SIGMAX")
  case True
  then show ?thesis by (auto simp: is_signal_supported_def SIGMAX_def SIGKILL_def SIGUSR1_def SIGUSR2_def SIGSTOP_def)
next
  case False
  define n where "n = nat sig"
  have n: "sig = int n" "n < 32" using assms False by (simp_all add: n_def SIGMAX_def)
  have "bm_bit (\<lambda>_. supported_signal_mask) n \<longleftrightarrow> n \<in> {9, 10, 12, 19}"
    using n(2) unfolding bm_bit_def supported_signal_mask_def bit_or_iff bit_one_shift by (auto simp: BITS_PER_LONG_def)
  then show ?thesis using False n
    by (auto simp: is_signal_supported_def bitmap_get_bit_eq SIGKILL_def SIGUSR1_def SIGUSR2_def SIGSTOP_def)
qed

text \<open>A negative number is not rejected: the mask is read at an index outside it.\<close>

lemma is_signal_supported_negative: "sig < 0 \<Longrightarrow> sys_kill tr bd sig st = None"
  by (simp add: sys_kill_def is_signal_supported_def SIGMAX_def)

section \<open>Properties\<close>

text \<open>The words that each kind of handler finds on the stack, and that no other word is written.\<close>

lemma frame_length: "length (handler_frame tr bd a) = 7" "length (action_frame tr bd a x) = 7"
  by (simp_all add: handler_frame_def action_frame_def)

lemma stage_sighandler_frame:
  assumes m: "m = mem (stage_sighandler tr bd a st)"
  shows "m (psp st) = 0" "frame_at m (psp st - 28) (handler_frame tr bd a)"
    "\<forall>i\<le>7. b \<noteq> psp st - of_nat (4 * i) \<Longrightarrow> m b = mem st b"
proof -
  note m = m [unfolded stage_sighandler_mem]
  have "frame_at m (psp st - of_nat 28) (handler_frame tr bd a)" unfolding m by (rule store_words_frame) (simp add: frame_length)
  then show "frame_at m (psp st - 28) (handler_frame tr bd a)" by simp
  show "m (psp st) = 0" using store_below_above [of 0 "handler_frame tr bd a" 28 "psp st"] by (simp add: m frame_length)
  show "m b = mem st b" if b: "\<forall>i\<le>7. b \<noteq> psp st - of_nat (4 * i)"
  proof -
    have "b \<noteq> psp st" using b by (auto dest: spec [of _ 0])
    moreover have "b \<noteq> psp st - of_nat (28 - 4 * i)" if "i < length (handler_frame tr bd a)" for i
      using that b [rule_format, of "7 - i"] by (simp add: frame_length right_diff_distrib')
    ultimately show ?thesis unfolding m by (subst store_below_off) (auto simp: frame_length)
  qed
qed

lemma stage_sigaction_frame:
  assumes m: "m = mem (stage_sigaction tr bd a sig v st)"
    and info: "info = [word_of_int sig, v, word_of_int (ti_id (threads (kst st) (cur (kst st))))]"
  shows "m (psp st) = 0" "frame_at m (psp st - 40) (action_frame tr bd a (psp st - 12))" "frame_at m (psp st - 12) info"
    "\<forall>i\<le>10. b \<noteq> psp st - of_nat (4 * i) \<Longrightarrow> m b = mem st b"
proof -
  note m = m [unfolded stage_sigaction_mem, folded info]
  have len: "length info = 3" by (simp add: info)
  have "frame_at m (psp st - of_nat 40) (action_frame tr bd a (psp st - 12))"
    unfolding m by (rule store_words_frame) (simp add: frame_length)
  then show "frame_at m (psp st - 40) (action_frame tr bd a (psp st - 12))" by simp
  have "frame_at m (psp st - of_nat 12) info"
    unfolding m by (rule store_below_frame, rule store_words_frame) (simp_all add: frame_length len)
  then show "frame_at m (psp st - 12) info" by simp
  show "m (psp st) = 0"
    using store_below_above [of 0 "action_frame tr bd a (psp st - 12)" 40 "psp st"] store_below_above [of 0 info 12 "psp st"]
    by (simp add: m frame_length len)
  show "m b = mem st b" if b: "\<forall>i\<le>10. b \<noteq> psp st - of_nat (4 * i)"
  proof -
    have "b \<noteq> psp st" using b by (auto dest: spec [of _ 0])
    moreover have "b \<noteq> psp st - of_nat (40 - 4 * i)" if "i < length (action_frame tr bd a (psp st - 12))" for i
      using that b [rule_format, of "10 - i"] by (simp add: frame_length right_diff_distrib')
    moreover have "b \<noteq> psp st - of_nat (12 - 4 * i)" if "i < length info" for i
      using that b [rule_format, of "3 - i"] by (simp add: len right_diff_distrib')
    ultimately show ?thesis
      unfolding m by (subst store_below_off, simp, simp add: frame_length, subst store_below_off) (auto simp: frame_length len)
  qed
qed

text \<open>
  C23. \<^verbatim>\<open>kill\<close> on every branch. A signal that is not supported, or for which the task has installed no handler,
  gives EINVAL and changes nothing. Otherwise the most recently installed action is delivered: the interrupted
  system call will return 0, below its frame there is a frame that starts the handler and returns to the
  trampoline, preceded by the signal's number, value and sender when the action asks for them, and no
  other word of memory is written.
\<close>

theorem sys_kill_correct:
  assumes ls: "lists (tlinks (ps st)) Q" "Q (SignalHead (current_task_info (ps st))) = Some (map SigList ss)" and sig: "0 \<le> sig"
  shows "case (if sig \<in> {SIGKILL, SIGUSR1, SIGUSR2, SIGSTOP} then find (\<lambda>p. signo (signals st p) = sig) ss else None) of
      None \<Rightarrow> sys_kill tr bd sig st = Some (- EINVAL, st)
    | Some p \<Rightarrow> \<exists>st'. sys_kill tr bd sig st = Some (sig, st') \<and> mem st' (psp st) = 0 \<and> mi_psp_of st' (cur (kst st)) = psp st' \<and>
        (if sa_flags (act_storage (signals st p)) AND SA_SIGINFO = 0
         then psp st' = psp st - 32 \<and> frame_at (mem st') (psp st - 28) (handler_frame tr bd (act_storage (signals st p))) \<and>
           (\<forall>a. (\<forall>i\<le>7. a \<noteq> psp st - of_nat (4 * i)) \<longrightarrow> mem st' a = mem st a)
         else psp st' = psp st - 44 \<and>
           frame_at (mem st') (psp st - 40) (action_frame tr bd (act_storage (signals st p)) (psp st - 12)) \<and>
           frame_at (mem st') (psp st - 12) [word_of_int sig, 0, word_of_int (ti_id (threads (kst st) (cur (kst st))))] \<and>
           (\<forall>a. (\<forall>i\<le>10. a \<noteq> psp st - of_nat (4 * i)) \<longrightarrow> mem st' a = mem st a))"
proof (cases "if sig \<in> {SIGKILL, SIGUSR1, SIGUSR2, SIGSTOP} then find (\<lambda>p. signo (signals st p) = sig) ss else None")
  case None
  then show ?thesis using is_signal_supported_iff [OF sig] find_sigaction_rep [OF ls]
    by (auto simp: sys_kill_def split: if_splits)
next
  case (Some p)
  let ?a = "act_storage (signals st p)"
  let ?st = "if sa_flags ?a AND SA_SIGINFO \<noteq> 0 then stage_sigaction tr bd ?a sig 0 st else stage_sighandler tr bd ?a st"
  have run: "sys_kill tr bd sig st = Some (sig, ?st)"
    using Some is_signal_supported_iff [OF sig] find_sigaction_rep [OF ls]
    by (auto simp: sys_kill_def Let_def split: if_splits)
  show ?thesis
  proof (cases "sa_flags ?a AND SA_SIGINFO = 0")
    case True
    then show ?thesis using Some run stage_sighandler_frame [OF refl, where tr = tr and bd = bd and a = ?a and st = st] stage_sighandler_mem [of tr bd ?a st] by simp
  next
    case False
    then show ?thesis using Some run stage_sigaction_frame [OF refl refl, where tr = tr and bd = bd and a = ?a and sig = sig and v = 0 and st = st] stage_sigaction_mem [of tr bd ?a sig 0 st]
      by simp
  qed
qed

definition demo_sstate :: sstate where
  "demo_sstate = \<lparr> ps = demo_pstate\<lparr>tlinks := \<lparr>
       lnext = (\<lambda>n. if n = SignalHead 0 then Node (SigList 16) else if n = SigList 16 then Node (SignalHead 0) else Node n),
       lprev = (\<lambda>n. if n = SignalHead 0 then Node (SigList 16) else if n = SigList 16 then Node (SignalHead 0) else Node n)\<rparr>\<rparr>,
     psp = 0x20001800,
     signals = (\<lambda>_. \<lparr>signo = 10, act_storage = \<lparr>sa_handler = 0x08000401, sa_mask = 0, sa_flags = 0\<rparr>\<rparr>), errno = 0 \<rparr>"

lemma demo_sstate_lists:
  "lists (tlinks (ps demo_sstate)) [SignalHead 0 \<mapsto> [SigList 16]]" "current_task_info (ps demo_sstate) = 0"
  by (auto simp: demo_sstate_def lists_def ring_def current_task_info_def demo_pstate_def split: if_splits)

lemma demo_sstate_fields [simp]:
  "psp demo_sstate = 0x20001800" "signo (signals demo_sstate p) = 10"
  "act_storage (signals demo_sstate p) = \<lparr>sa_handler = 0x08000401, sa_mask = 0, sa_flags = 0\<rparr>"
  by (simp_all add: demo_sstate_def)

definition demo_trampolines :: trampolines where
  "demo_trampolines = \<lparr> return_from_sighandler = 0x08000100, return_from_sigaction = 0x08000200 \<rparr>"

theorem sys_kill_correct_witness:
  "\<exists>st'. sys_kill demo_trampolines demo_board SIGUSR1 demo_sstate = Some (SIGUSR1, st') \<and> psp st' = 0x200017e0 \<and>
    mem st' 0x20001800 = 0 \<and> frame_at (mem st') 0x200017e4 [0, 0, 0, 0, 0x08000101, 0x08000400, 0x01000000]"
proof -
  have "handler_frame demo_trampolines demo_board \<lparr>sa_handler = 0x08000401, sa_mask = 0, sa_flags = 0\<rparr> =
      [0, 0, 0, 0, 0x08000101, 0x08000400, 0x01000000]"
    by (simp add: handler_frame_def demo_trampolines_def demo_board_def v7m_clear_thumb_bit_def v7m_set_thumb_bit_def)
  then show ?thesis
    using sys_kill_correct [OF demo_sstate_lists(1), of "[16]" SIGUSR1 demo_trampolines demo_board]
    by (auto simp: demo_sstate_lists(2) SIGUSR1_def SA_SIGINFO_def)
qed



end
