(* ===== verification/Softirq.thy ===== *)
theory Softirq
  imports Task
begin

text \<open>
  Deferred work: \<^verbatim>\<open>kernel/softirq.c\<close>. Tasklets are queued by priority in a bitmap queue of their own; the thread
  \<^verbatim>\<open>softirqd\<close> takes them out and calls their functions. What a tasklet's function does is a parameter, \<open>invoke\<close>, on
  the whole state: it may schedule tasklets, so the loop of \<^verbatim>\<open>tasklet_action\<close> need not end and is a partial
  function. \<open>world\<close> is the state of the rest of the program.
\<close>

section \<open>Data\<close>

datatype sqnode = TaskletRunQ nat | TskQ addr

record tasklet_struct =
  tsk_prio :: u32
  tsk_func :: u32
  tsk_data :: u32

record 'w softirq =
  sq :: "sqnode links"
  prio_tasklet :: "sqnode bitmap_struct"
  tasklets :: "addr \<Rightarrow> tasklet_struct"
  softirq_vec :: "nat \<Rightarrow> u32"
  softirq_running :: bool
  thread_softirqd :: addr
  sps :: pstate
  world :: 'w

definition PRIO_TASKLET :: u32 where "PRIO_TASKLET = 0"
definition NR_SOFTIRQS :: u32 where "NR_SOFTIRQS = 1"
definition PRIO_TASKLET_MINPRIO :: u32 where "PRIO_TASKLET_MINPRIO = 31"

definition sizeof_tasklet_struct :: u32 where "sizeof_tasklet_struct = 20"

definition sks :: "'w softirq \<Rightarrow> kstate" where "sks st = ks (ts (sps st))"

definition set_sks :: "kstate \<Rightarrow> 'w softirq \<Rightarrow> 'w softirq" where
  "set_sks k st = st\<lparr>sps := (sps st)\<lparr>ts := (ts (sps st))\<lparr>ks := k\<rparr>\<rparr>\<rparr>"

section \<open>The code\<close>

definition open_softirq :: "u32 \<Rightarrow> u32 \<Rightarrow> 'w softirq \<Rightarrow> int \<times> 'w softirq" where
  "open_softirq nr action st =
     (if nr \<ge> NR_SOFTIRQS then (- 1, st)
      else (0, st\<lparr>softirq_vec := (softirq_vec st)(unat nr := action)\<rparr>))"

definition raise_softirq :: "u32 \<Rightarrow> 'w softirq \<Rightarrow> (int \<times> 'w softirq) option" where
  "raise_softirq nr st =
     (if nr \<ge> NR_SOFTIRQS then Some (- 1, st)
      else if \<not> softirq_running st then do {
        (r, k) \<leftarrow> sched_enqueue (sks st) (thread_softirqd st);
        Some (0, (set_sks k st)\<lparr>softirq_running := True\<rparr>) }
      else Some (0, st))"

definition tasklet_init :: "u32 \<Rightarrow> u32 \<Rightarrow> u32 \<Rightarrow> 'w softirq \<Rightarrow> (addr option \<times> 'w softirq) option" where
  "tasklet_init func data prio st = do {
     (tsk, h) \<leftarrow> malloc sizeof_tasklet_struct (kheap (sps st));
     let st = st\<lparr>sps := (sps st)\<lparr>kheap := h\<rparr>\<rparr>;
     (case tsk of
        None \<Rightarrow> Some (None, st)
      | Some tsk \<Rightarrow> do {
          l \<leftarrow> INIT_LIST_HEAD (sq st) (Node (TskQ tsk));
          Some (Some tsk, st\<lparr>sq := l, tasklets := (tasklets st)(tsk :=
            \<lparr>tsk_prio = prio, tsk_func = func, tsk_data = data\<rparr>)\<rparr>) }) }"

definition tasklet_schedule :: "addr option \<Rightarrow> 'w softirq \<Rightarrow> (int \<times> 'w softirq) option" where
  "tasklet_schedule task st =
     (case task of
        None \<Rightarrow> Some (- 1, st)
      | Some tsk \<Rightarrow>
          if tsk_prio (tasklets st tsk) > PRIO_TASKLET_MINPRIO then Some (- 1, st)
          else do {
            (l, bm) \<leftarrow> bitmap_enqueue (Node (TskQ tsk)) (unat (tsk_prio (tasklets st tsk))) (sq st) (prio_tasklet st);
            raise_softirq PRIO_TASKLET (st\<lparr>sq := l, prio_tasklet := bm\<rparr>) })"

definition tsk_entry :: "sqnode link \<Rightarrow> addr option" where
  "tsk_entry p = (case p of Node (TskQ t) \<Rightarrow> Some t | _ \<Rightarrow> None)"

partial_function (option) tasklet_action ::
    "(u32 \<Rightarrow> u32 \<Rightarrow> 'w softirq \<Rightarrow> 'w softirq option) \<Rightarrow> 'w softirq \<Rightarrow> (int \<times> 'w softirq) option" where
  "tasklet_action invoke st =
     (if bm_map (prio_tasklet st) \<noteq> 0 then do {
        let max_prio = find_first_bit (one_word (bm_map (prio_tasklet st))) 32;
        e \<leftarrow> bitmap_first_entry (sq st) (prio_tasklet st) max_prio;
        tsk \<leftarrow> tsk_entry e;
        (l, bm) \<leftarrow> bitmap_queue_del (Node (TskQ tsk)) max_prio (sq st) (prio_tasklet st);
        let st = st\<lparr>sq := l, prio_tasklet := bm\<rparr>;
        if tsk_func (tasklets st tsk) = 0 then Some (- 1, st)
        else do {
          st \<leftarrow> invoke (tsk_func (tasklets st tsk)) (tsk_data (tasklets st tsk)) st;
          tasklet_action invoke st } }
      else Some (0, st))"

text \<open>One round of the thread: \<open>True\<close> when it will yield and go on.\<close>

definition softirqd_round ::
    "(u32 \<Rightarrow> u32 \<Rightarrow> 'w softirq \<Rightarrow> 'w softirq option) \<Rightarrow> 'w softirq \<Rightarrow> (bool \<times> 'w softirq) option" where
  "softirqd_round invoke st = do {
     (ret, st) \<leftarrow> tasklet_action invoke st;
     if ret = 0 then Some (True, st) else Some (False, st\<lparr>softirq_running := False\<rparr>) }"

definition init_softirq :: "board \<Rightarrow> u32 \<Rightarrow> u32 \<Rightarrow> addr \<Rightarrow> 'w softirq \<Rightarrow> (int \<times> 'w softirq) option" where
  "init_softirq bd tasklet_action_addr softirqd_addr softirq_daemon st = do {
     let (r, st) = open_softirq PRIO_TASKLET tasklet_action_addr st;
     (l, bm) \<leftarrow> INIT_BITMAP (sq st) (prio_tasklet st);
     let st = st\<lparr>sq := l, prio_tasklet := bm\<rparr>;
     p \<leftarrow> task_init softirq_daemon (sps st);
     (t, s) \<leftarrow> thread_create bd softirqd_addr 0 THREAD_PRIV_USER 1024 softirq_daemon (ts p);
     let st = st\<lparr>sps := p\<lparr>ts := s\<rparr>\<rparr>;
     (case t of
        None \<Rightarrow> Some (- 1, st)
      | Some t \<Rightarrow>
          let (r, k) = thread_set_priority t PRI_MAX (sks st)
          in Some (0, (set_sks k st)\<lparr>thread_softirqd := t\<rparr>)) }"

section \<open>Draining the queue\<close>

text \<open>The tasklets of the queue, by priority and, within a priority, oldest first.\<close>

definition tasklets_rep :: "'w softirq \<Rightarrow> (nat \<Rightarrow> addr list) \<Rightarrow> bool" where
  "tasklets_rep st L \<longleftrightarrow> bq_rep (sq st, prio_tasklet st) (\<lambda>i. map TskQ (L i))"

lemma flat_map: "flat (\<lambda>i. map f (L i)) = map f (flat L)"
  by (simp add: flat_def map_concat comp_def)

lemma tasklets_map_zero:
  assumes "tasklets_rep st L"
  shows "bm_map (prio_tasklet st) = 0 \<longleftrightarrow> flat L = []"
proof -
  have e: "bitmap_first_bit (prio_tasklet st) \<ge> 32 \<longleftrightarrow> flat L = []"
    using bitmap_pq.top_empty [of "(sq st, prio_tasklet st)"] assms by (simp add: tasklets_rep_def flat_map)
  have "least_below (\<lambda>i. bit (bm_map (prio_tasklet st)) i) 32 (bitmap_first_bit (prio_tasklet st))"
    using find_first_bit_least [of "one_word (bm_map (prio_tasklet st))" 32]
    by (auto simp: bitmap_first_bit_def least_below_def bm_bit_one_word)
  then have "bitmap_first_bit (prio_tasklet st) \<ge> 32 \<longleftrightarrow> (\<forall>i<32. \<not> bit (bm_map (prio_tasklet st)) i)"
    by (auto simp: least_below_def le_less)
  then show ?thesis using e word_eq_0_iff_bits [of "bm_map (prio_tasklet st)"] by simp
qed

lemma tasklets_pop:
  assumes "tasklets_rep st L" "flat L \<noteq> []"
  obtains t l bm L' where "flat L = t # flat L'" "tasklets_rep (st\<lparr>sq := l, prio_tasklet := bm\<rparr>) L'"
    "bitmap_first_entry (sq st) (prio_tasklet st) (find_first_bit (one_word (bm_map (prio_tasklet st))) 32) = Some (Node (TskQ t))"
    "bitmap_queue_del (Node (TskQ t)) (find_first_bit (one_word (bm_map (prio_tasklet st))) 32) (sq st) (prio_tasklet st) = Some (l, bm)"
proof -
  let ?s = "(sq st, prio_tasklet st)" and ?b = "bitmap_first_bit (prio_tasklet st)"
  have rep: "bq_rep ?s (\<lambda>i. map TskQ (L i))" using assms(1) by (simp add: tasklets_rep_def)
  have b: "?b < 32" using bitmap_pq.top_empty [OF rep] assms(2) by (auto simp: flat_map)
  have lb: "least_below (\<lambda>i. map TskQ (L i) \<noteq> []) 32 ?b" using bitmap_pq.rep_top [OF rep] by simp
  then obtain t xs where t: "L ?b = t # xs" using b by (cases "L ?b") (auto simp: least_below_def)
  obtain s' where s': "bq_take ?s ?b = Some (TskQ t, s')" "bq_rep s' ((\<lambda>i. map TskQ (L i))(?b := map TskQ xs))"
    using bitmap_pq.rep_deq [OF rep b] t by auto
  have "least_below (\<lambda>i. L i \<noteq> []) 32 ?b" using lb by simp
  from flat_take_first [OF this b t] have "flat L = t # flat (L(?b := xs))" .
  moreover have "(\<lambda>i. map TskQ (L i))(?b := map TskQ xs) = (\<lambda>i. map TskQ ((L(?b := xs)) i))" by auto
  then have "tasklets_rep (st\<lparr>sq := fst s', prio_tasklet := snd s'\<rparr>) (L(?b := xs))"
    using s'(2) by (simp add: tasklets_rep_def)
  ultimately show thesis using s'(1) b that [of t "L(?b := xs)" "snd s'" "fst s'"]
    by (auto simp: bq_take_def bitmap_dequeue_def bitmap_first_entry_def bitmap_first_bit_def queue_head_def
        split: option.splits link.splits Option.bind_splits)
qed

section \<open>Properties\<close>

text \<open>
  C25. \<^verbatim>\<open>tasklet_action\<close> returns, with the queue empty, after calling the function of every queued tasklet exactly
  once, in the order of the priorities and first come first served within one: for functions whose effect
  on the rest of the program is \<open>g\<close> and that do not themselves schedule tasklets.
\<close>

theorem tasklet_action_drains:
  assumes "tasklets_rep st L" "\<And>t. t \<in> set (flat L) \<Longrightarrow> tsk_func (tasklets st t) \<noteq> 0"
    and "\<And>f d s. invoke f d s = Some (s\<lparr>world := g f d (world s)\<rparr>)"
  shows "\<exists>l bm L'. tasklet_action invoke st = Some (0, st\<lparr>sq := l, prio_tasklet := bm,
      world := fold (\<lambda>t. g (tsk_func (tasklets st t)) (tsk_data (tasklets st t))) (flat L) (world st)\<rparr>) \<and>
    tasklets_rep (st\<lparr>sq := l, prio_tasklet := bm\<rparr>) L' \<and> flat L' = []"
  using assms(1,2)
proof (induction "flat L" arbitrary: st L)
  case Nil
  then have "tasklet_action invoke st = Some (0, st)"
    using tasklets_map_zero [OF Nil(2)] by (subst tasklet_action.simps) simp
  then show ?case using Nil by (intro exI [of _ "sq st"] exI [of _ "prio_tasklet st"] exI [of _ L]) simp
next
  case (Cons t ts)
  have ne: "flat L \<noteq> []" using Cons(2) by (metis list.distinct(1))
  obtain u l bm L' where p: "flat L = u # flat L'" "tasklets_rep (st\<lparr>sq := l, prio_tasklet := bm\<rparr>) L'"
    "bitmap_first_entry (sq st) (prio_tasklet st) (find_first_bit (one_word (bm_map (prio_tasklet st))) 32) = Some (Node (TskQ u))"
    "bitmap_queue_del (Node (TskQ u)) (find_first_bit (one_word (bm_map (prio_tasklet st))) 32) (sq st) (prio_tasklet st) = Some (l, bm)"
    by (rule tasklets_pop [OF Cons(3) ne])
  have tu: "u = t" "flat L' = ts" using p(1) Cons(2) by auto
  define s where "s = st\<lparr>sq := l, prio_tasklet := bm, world := g (tsk_func (tasklets st t)) (tsk_data (tasklets st t)) (world st)\<rparr>"
  have "tasklets_rep s L'" using p(2) by (simp add: s_def tasklets_rep_def)
  moreover have "tsk_func (tasklets s v) \<noteq> 0" if "v \<in> set (flat L')" for v using that Cons(4) [of v] p(1) by (simp add: s_def)
  ultimately obtain l' bm' L'' where r: "tasklet_action invoke s = Some (0, s\<lparr>sq := l', prio_tasklet := bm',
      world := fold (\<lambda>t. g (tsk_func (tasklets s t)) (tsk_data (tasklets s t))) (flat L') (world s)\<rparr>)"
    "tasklets_rep (s\<lparr>sq := l', prio_tasklet := bm'\<rparr>) L''" "flat L'' = []"
    using Cons(1) [of L' s] tu(2) by blast
  have "tsk_func (tasklets st t) \<noteq> 0" using Cons(2,4) by (metis list.set_intros(1))
  then have "tasklet_action invoke st = tasklet_action invoke s"
    using tasklets_map_zero [OF Cons(3)] ne p(3,4) tu(1) assms(3)
    by (subst tasklet_action.simps) (simp add: tsk_entry_def s_def)
  moreover have "tasklets_rep (st\<lparr>sq := l', prio_tasklet := bm'\<rparr>) L''" using r(2) by (simp add: s_def tasklets_rep_def)
  ultimately show ?case using r(1,3) p(1) tu by (auto simp: s_def)
qed

text \<open>A queue with a tasklet of priority 3 and one of priority 0.\<close>

definition demo_tasklets :: "u32 list softirq" where
  "demo_tasklets = \<lparr> sq = \<lparr>
       lnext = (\<lambda>n. if n = TaskletRunQ 3 then Node (TskQ 16) else if n = TskQ 16 then Node (TaskletRunQ 3)
                    else if n = TaskletRunQ 0 then Node (TskQ 32) else if n = TskQ 32 then Node (TaskletRunQ 0) else Node n),
       lprev = (\<lambda>n. if n = TaskletRunQ 3 then Node (TskQ 16) else if n = TskQ 16 then Node (TaskletRunQ 3)
                    else if n = TaskletRunQ 0 then Node (TskQ 32) else if n = TskQ 32 then Node (TaskletRunQ 0) else Node n)\<rparr>,
     prio_tasklet = \<lparr> bm_map = push_bit 3 1 OR push_bit 0 1, bm_queue = TaskletRunQ \<rparr>,
     tasklets = (\<lambda>t. \<lparr> tsk_prio = if t = 16 then 3 else 0, tsk_func = 0x08000001, tsk_data = t \<rparr>),
     softirq_vec = (\<lambda>_. 0), softirq_running = True, thread_softirqd = 0, sps = demo_pstate, world = [] \<rparr>"

definition demo_tasklet_queue :: "nat \<Rightarrow> addr list" where
  "demo_tasklet_queue = (\<lambda>i. if i = 3 then [16] else if i = 0 then [32] else [])"

lemma demo_tasklets_rep: "tasklets_rep demo_tasklets demo_tasklet_queue"
proof -
  let ?Q = "\<lambda>n. case n of TaskletRunQ i \<Rightarrow> if i < 32 then Some (map TskQ (demo_tasklet_queue i)) else None | TskQ t \<Rightarrow> None"
  have "ring (sq demo_tasklets) n xs" if "?Q n = Some xs" for n xs
    using that by (cases n) (auto simp: ring_def demo_tasklets_def demo_tasklet_queue_def split: if_splits)
  moreover have "set (a # xs) \<inter> set (b # ys) = {}" if "?Q a = Some xs" "?Q b = Some ys" "a \<noteq> b" for a xs b ys
    using that by (cases a; cases b) (auto simp: demo_tasklet_queue_def split: if_splits)
  ultimately have "lists (sq demo_tasklets) ?Q" unfolding lists_def by blast
  moreover have "bm_map (prio_tasklet demo_tasklets) = push_bit 3 1 OR push_bit 0 1" by (simp add: demo_tasklets_def)
  then have "bit (bm_map (prio_tasklet demo_tasklets)) i \<longleftrightarrow> i = 3 \<or> i = 0" for i
    by (simp only: bit_or_iff bit_one_shift) simp
  moreover have "bm_queue (prio_tasklet demo_tasklets) = TaskletRunQ" by (simp add: demo_tasklets_def)
  ultimately have "bq_inv (sq demo_tasklets) (prio_tasklet demo_tasklets) ?Q"
    by (auto simp: bq_inv_def bq_shape_def inj_on_def demo_tasklet_queue_def)
  then show ?thesis unfolding tasklets_rep_def bq_rep_def
    by (intro exI [of _ ?Q]) (simp add: bq_list_def demo_tasklets_def)
qed

theorem tasklet_action_drains_witness:
  "\<exists>st'. tasklet_action (\<lambda>f d s. Some (s\<lparr>world := world s @ [d]\<rparr>)) demo_tasklets = Some (0, st') \<and> world st' = [32, 16]"
proof -
  have "flat demo_tasklet_queue = [32, 16]" by (simp add: flat_def demo_tasklet_queue_def upt_rec)
  then show ?thesis
    using tasklet_action_drains [OF demo_tasklets_rep, of "\<lambda>f d s. Some (s\<lparr>world := world s @ [d]\<rparr>)" "\<lambda>f d w. w @ [d]"]
    by (auto simp: demo_tasklets_def)
qed

end
