(* ===== verification/Libc_String.thy ===== *)
theory Libc_String
  imports Prelude "HOL-Library.Monad_Syntax"
begin

text \<open>
  Number formatting: \<^verbatim>\<open>libc/utils.c\<close>. Memory is a function from addresses to bytes. A loop that may run forever
  is a partial function; \<open>None\<close> is that, division by zero, or an access outside the table of digits.
\<close>

section \<open>The code\<close>

type_synonym bytes = "addr \<Rightarrow> u8"

definition chr :: "char \<Rightarrow> u8" where "chr c = of_nat (of_char c)"

partial_function (option) last_char :: "bytes \<Rightarrow> addr \<Rightarrow> addr option" where
  "last_char m u = (if m (u + 1) \<noteq> 0 then last_char m (u + 1) else Some u)"

declare last_char.simps [code]

function swap_ends :: "bytes \<Rightarrow> addr \<Rightarrow> addr \<Rightarrow> bytes" where
  "swap_ends m t u =
     (if t < u then swap_ends (m(t := m u, u := m t)) (t + 1) (u - 1) else m)"
  by pat_completeness auto
termination
proof (relation "measure (\<lambda>(m, t, u). unat u - unat t)")
  fix m :: bytes and t u :: addr assume "t < u"
  then have "unat t < unat u" by (simp add: word_less_nat_alt)
  then have "unat (t + 1) = unat t + 1" "unat (u - 1) = unat u - 1"
    using unsigned_less [of u, where 'a = nat] by (auto simp: unat_word_ariths unat_sub_if')
  then show "((m(t := m u, u := m t), t + 1, u - 1), m, t, u) \<in> measure (\<lambda>(m, t, u). unat u - unat t)"
    using \<open>unat t < unat u\<close> by simp
qed simp

declare swap_ends.simps [simp del]

definition strrev :: "bytes \<Rightarrow> addr \<Rightarrow> bytes option" where
  "strrev m s = (if s = 0 \<or> m s = 0 then Some m else do { u \<leftarrow> last_char m s; Some (swap_ends m s u) })"

fun pad_down :: "bytes \<Rightarrow> addr \<Rightarrow> u8 \<Rightarrow> nat \<Rightarrow> bytes" where
  "pad_down m buf v 0 = m"
| "pad_down m buf v (Suc n) = pad_down (m(buf + of_nat n := v)) buf v n"

text \<open>\<^verbatim>\<open>strpad\<close>: the first store is outside the buffer when the count is negative.\<close>

definition strpad :: "bytes \<Rightarrow> addr \<Rightarrow> u8 \<Rightarrow> int \<Rightarrow> bytes" where
  "strpad m buf pad_val count = pad_down (m(buf + word_of_int count := 0)) buf pad_val (nat count)"

definition base36 :: "u8 list" where
  "base36 = map chr ''0123456789abcdefghijklmnopqrstuvwxyz'' @ [0]"

partial_function (option) itoa_loop :: "u32 \<Rightarrow> u32 \<Rightarrow> addr \<Rightarrow> bytes \<Rightarrow> (addr \<times> bytes) option" where
  "itoa_loop base val p m =
     (if base = 0 \<or> unat (val mod base) \<ge> length base36 then None
      else let m = m(p := base36 ! unat (val mod base)); val = val div base
           in if val \<noteq> 0 then itoa_loop base val (p + 1) m else Some (p + 1, m))"

declare itoa_loop.simps [code]

text \<open>The result is the memory, and NULL or the buffer.\<close>

definition itoa_base :: "int \<Rightarrow> addr \<Rightarrow> int \<Rightarrow> bytes \<Rightarrow> (addr option \<times> bytes) option" where
  "itoa_base v buf base m =
     (if buf = 0 \<or> base > 36 then Some (None, m)
      else do {
        let isneg = (v < 0 \<and> base = 10);
        let val = (word_of_int (if isneg then \<bar>v\<bar> else v) :: u32);
        (p, m) \<leftarrow> itoa_loop (word_of_int base) val buf m;
        let (p, m) = (if isneg then (p + 1, m(p := chr (CHR ''-''))) else (p, m));
        m \<leftarrow> strrev (m(p := 0)) buf;
        Some (Some buf, m) })"

text \<open>Copies of the standard library: the bytes of a range, and storing bytes.\<close>

definition load_bytes :: "addr \<Rightarrow> nat \<Rightarrow> bytes \<Rightarrow> u8 list" where
  "load_bytes a n m = map (\<lambda>i. m (a + of_nat i)) [0..<n]"

fun store_bytes :: "addr \<Rightarrow> u8 list \<Rightarrow> bytes \<Rightarrow> bytes" where
  "store_bytes a [] m = m"
| "store_bytes a (x # xs) m = store_bytes (a + 1) xs (m(a := x))"

section \<open>Bytes in memory\<close>

definition bytes_at :: "bytes \<Rightarrow> addr \<Rightarrow> u8 list \<Rightarrow> bool" where
  "bytes_at m a xs \<longleftrightarrow> (\<forall>i<length xs. m (a + of_nat i) = xs ! i)"

definition region :: "addr \<Rightarrow> nat \<Rightarrow> addr set" where
  "region a n = (\<lambda>i. a + of_nat i) ` {..<n}"

definition same_outside :: "addr set \<Rightarrow> bytes \<Rightarrow> bytes \<Rightarrow> bool" where
  "same_outside S m m' \<longleftrightarrow> (\<forall>a. a \<notin> S \<longrightarrow> m' a = m a)"

text \<open>A string with its terminating zero, not wrapping around the end of memory.\<close>

definition str_at :: "bytes \<Rightarrow> addr \<Rightarrow> u8 list \<Rightarrow> bool" where
  "str_at m a s \<longleftrightarrow> bytes_at m a (s @ [0]) \<and> 0 \<notin> set s \<and> unat a + length s < 2 ^ 32"

lemma bytes_at_Nil [simp]: "bytes_at m a []"
  by (simp add: bytes_at_def)

lemma bytes_at_Cons [simp]: "bytes_at m a (x # xs) \<longleftrightarrow> m a = x \<and> bytes_at m (a + 1) xs"
  unfolding bytes_at_def by (auto simp: less_Suc_eq_0_disj ac_simps)

lemma bytes_at_append: "bytes_at m a (xs @ ys) \<longleftrightarrow> bytes_at m a xs \<and> bytes_at m (a + of_nat (length xs)) ys"
  by (induction xs arbitrary: a) (auto simp: ac_simps)

lemma addr_offset:
  fixes a :: addr
  assumes "unat a + i < 2 ^ 32"
  shows "unat (a + of_nat i) = unat a + i"
proof -
  have "unat (of_nat i :: u32) = i" using assms by (intro unat_of_nat_small) simp
  then show ?thesis using assms by (subst unat_add_no_wrap) simp_all
qed

lemma addr_offset_eq:
  fixes a :: addr
  shows "unat a + i < 2 ^ 32 \<Longrightarrow> unat a + j < 2 ^ 32 \<Longrightarrow> a + of_nat i = a + of_nat j \<longleftrightarrow> i = j"
  using addr_offset [of a i] addr_offset [of a j] by (metis add_left_cancel)

lemma in_region:
  assumes "unat a + n \<le> 2 ^ 32"
  shows "x \<in> region a n \<longleftrightarrow> unat a \<le> unat x \<and> unat x < unat a + n"
proof
  assume "x \<in> region a n"
  then obtain i where "i < n" "x = a + of_nat i" by (auto simp: region_def)
  then show "unat a \<le> unat x \<and> unat x < unat a + n" using addr_offset [of a i] assms by simp
next
  assume x: "unat a \<le> unat x \<and> unat x < unat a + n"
  then have "x = a + of_nat (unat x - unat a)" by (simp add: of_nat_diff)
  then show "x \<in> region a n" using x unfolding region_def by (intro image_eqI [of _ _ "unat x - unat a"]) auto
qed

lemma bytes_at_same:
  assumes "same_outside S m m'" "bytes_at m a xs" "S \<inter> region a (length xs) = {}"
  shows "bytes_at m' a xs"
  unfolding bytes_at_def
proof (intro allI impI)
  fix i assume i: "i < length xs"
  then have "a + of_nat i \<in> region a (length xs)" by (simp add: region_def)
  then have "m' (a + of_nat i) = m (a + of_nat i)" using assms(1,3) by (auto simp: same_outside_def)
  then show "m' (a + of_nat i) = xs ! i" using assms(2) i by (simp add: bytes_at_def)
qed

lemma same_outside_trans:
  "same_outside S m m' \<Longrightarrow> same_outside T m' m'' \<Longrightarrow> same_outside (S \<union> T) m m''"
  by (simp add: same_outside_def)

lemma same_outside_mono: "same_outside S m m' \<Longrightarrow> S \<subseteq> T \<Longrightarrow> same_outside T m m'"
  by (auto simp: same_outside_def)

lemma store_bytes_off: "b \<notin> region a (length xs) \<Longrightarrow> store_bytes a xs m b = m b"
proof (induction xs arbitrary: a m)
  case (Cons x xs)
  have "b \<noteq> a + of_nat i" if "i < Suc (length xs)" for i using Cons(2) that by (auto simp: region_def)
  from this [of 0] this [of "Suc _"] have "b \<noteq> a" "b \<notin> region (a + 1) (length xs)" by (auto simp: region_def ac_simps)
  then show ?case using Cons(1) by simp
qed simp

lemma store_bytes_at:
  assumes "unat a + length xs \<le> 2 ^ 32"
  shows "bytes_at (store_bytes a xs m) a xs"
  using assms
proof (induction xs arbitrary: a m)
  case (Cons x xs)
  show ?case
  proof (cases xs)
    case (Cons y ys)
    have a: "unat (a + 1) = unat a + 1" using addr_offset [of a 1] Cons.prems Cons by simp
    have "a \<notin> region (a + 1) (length xs)" using in_region [of "a + 1" "length xs" a] a Cons.prems by simp
    then have "store_bytes (a + 1) xs (m(a := x)) a = x" by (simp add: store_bytes_off)
    then show ?thesis using Cons.IH [of "a + 1"] a Cons.prems by simp
  qed simp
qed simp

lemma load_bytes_at: "bytes_at m a xs \<Longrightarrow> load_bytes a (length xs) m = xs"
  by (auto simp: load_bytes_def bytes_at_def intro: nth_equalityI)

lemma length_load_bytes [simp]: "length (load_bytes a n m) = n"
  by (simp add: load_bytes_def)

lemma load_store_same:
  "unat a + length xs \<le> 2 ^ 32 \<Longrightarrow> load_bytes a (length xs) (store_bytes a xs m) = xs"
  by (rule load_bytes_at [OF store_bytes_at])

lemma store_bytes_same: "same_outside (region a (length xs)) m (store_bytes a xs m)"
  by (simp add: same_outside_def store_bytes_off)

lemma load_same:
  assumes "same_outside S m m'" "S \<inter> region a n = {}"
  shows "load_bytes a n m' = load_bytes a n m"
proof -
  have "m' (a + of_nat i) = m (a + of_nat i)" if "i < n" for i
  proof -
    have "a + of_nat i \<in> region a n" using that by (simp add: region_def)
    then show ?thesis using assms by (auto simp: same_outside_def)
  qed
  then show ?thesis by (simp add: load_bytes_def)
qed

section \<open>Reversal\<close>

lemma swap_ends_rev:
  assumes "bytes_at m a xs" "xs \<noteq> []" "unat a + length xs \<le> 2 ^ 32"
  shows "bytes_at (swap_ends m a (a + of_nat (length xs - 1))) a (rev xs) \<and>
    same_outside (region a (length xs)) m (swap_ends m a (a + of_nat (length xs - 1)))"
  using assms
proof (induction "length xs" arbitrary: m a xs rule: less_induct)
  case less
  show ?case
  proof (cases "length xs = 1")
    case True
    then show ?thesis using less(2) by (cases xs) (auto simp: swap_ends.simps same_outside_def)
  next
    case False
    then obtain x ys y where xs: "xs = x # ys @ [y]"
      using less(3) by (metis append_butlast_last_id length_Cons list.exhaust list.size(3) One_nat_def)
    let ?n = "length ys" and ?u = "a + of_nat (Suc (length ys))"
    have off: "unat (a + of_nat i) = unat a + i" if "i \<le> Suc ?n" for i
      using that less(4) xs by (intro addr_offset) simp
    have ends: "a \<notin> region (a + 1) ?n" "?u \<notin> region (a + 1) ?n"
      using in_region [of "a + 1" ?n] off [of 1] off [of "Suc ?n"] less(4) xs by simp_all
    define m1 where "m1 = m(a := m ?u, ?u := m a)"
    have lt: "a < ?u" using off [of "Suc ?n"] unfolding word_less_nat_alt by simp
    have m: "m a = x" "m ?u = y" "bytes_at m (a + 1) ys" using less(2) xs by (auto simp: bytes_at_append ac_simps)
    have m1: "m1 a = y" "m1 ?u = x" using m lt by (auto simp: m1_def)
    have mid: "bytes_at m1 (a + 1) ys"
    proof (rule bytes_at_same [OF _ m(3), of "{a, ?u}"])
      show "same_outside {a, ?u} m m1" by (simp add: same_outside_def m1_def)
      show "{a, ?u} \<inter> region (a + 1) ?n = {}" using ends by blast
    qed
    have step: "swap_ends m a ?u = swap_ends m1 (a + 1) (a + of_nat ?n)"
      using lt by (subst swap_ends.simps) (simp add: m1_def add.commute)
    have sub: "region (a + 1) ?n \<subseteq> region a (length xs)"
      unfolding region_def xs by (auto simp: image_iff ac_simps intro!: bexI [of _ "Suc _"])
    define m2 where "m2 = swap_ends m1 (a + 1) (a + of_nat ?n)"
    have rec: "bytes_at m2 (a + 1) (rev ys) \<and> same_outside (region (a + 1) ?n) m1 m2"
    proof (cases "ys = []")
      case True
      then show ?thesis using off [of 1] by (simp add: m2_def swap_ends.simps [of m1] word_less_nat_alt same_outside_def)
    next
      case False
      then have e: "a + of_nat ?n = a + 1 + of_nat (?n - 1)" by (cases ys) simp_all
      show ?thesis unfolding m2_def e
        by (rule less(1) [OF _ mid]) (use False xs less(4) off [of 1] in simp_all)
    qed
    have "m2 a = m1 a" "m2 ?u = m1 ?u"
      using rec ends by (auto simp: same_outside_def)
    then have "bytes_at m2 a (rev xs)" using rec m1 xs by (simp add: bytes_at_append ac_simps)
    moreover have "a \<in> region a (length xs)" "?u \<in> region a (length xs)"
      unfolding region_def xs by (auto simp: image_iff intro: bexI [of _ 0] bexI [of _ "Suc ?n"])
    then have "same_outside (region a (length xs)) m m1" by (auto simp: same_outside_def m1_def)
    then have "same_outside (region a (length xs)) m m2"
      using rec sub by (auto simp: same_outside_def)
    ultimately show ?thesis using step xs by (simp add: m2_def)
  qed
qed

lemma last_char_str:
  assumes "bytes_at m (u + 1) (s @ [0])" "0 \<notin> set s"
  shows "last_char m u = Some (u + of_nat (length s))"
  using assms
proof (induction s arbitrary: u)
  case Nil
  then show ?case by (subst last_char.simps) simp
next
  case (Cons x s)
  then show ?case by (subst last_char.simps) (auto simp: ac_simps)
qed

lemma strrev_str:
  assumes "str_at m a s" "a \<noteq> 0"
  shows "\<exists>m'. strrev m a = Some m' \<and> str_at m' a (rev s) \<and> same_outside (region a (length s)) m m'"
proof (cases s)
  case Nil
  then show ?thesis using assms by (auto simp: strrev_def str_at_def same_outside_def)
next
  case (Cons x xs)
  have b: "bytes_at m a s" "bytes_at m (a + 1) (xs @ [0])" "0 \<notin> set s" "x \<noteq> 0" "unat a + length s < 2 ^ 32"
    using assms Cons by (auto simp: str_at_def bytes_at_append)
  have l: "last_char m a = Some (a + of_nat (length s - 1))" using last_char_str [OF b(2)] b(3) Cons by simp
  let ?m = "swap_ends m a (a + of_nat (length s - 1))"
  have r: "bytes_at ?m a (rev s)" "same_outside (region a (length s)) m ?m"
    using swap_ends_rev [OF b(1)] b(5) Cons by auto
  have "a + of_nat (length s) \<notin> region a (length s)"
    using in_region [of a "length s"] addr_offset [of a "length s"] b(5) by simp
  then have "?m (a + of_nat (length s)) = 0" using r(2) assms(1) by (simp add: same_outside_def str_at_def bytes_at_append)
  then have "str_at ?m a (rev s)" using r(1) b by (simp add: str_at_def bytes_at_append)
  moreover have "strrev m a = Some ?m" using l assms(2) b(4) Cons by (simp add: strrev_def) (use b(1) in simp)
  ultimately show ?thesis using r(2) by blast
qed

section \<open>Digits\<close>

text \<open>The reference: the digits of a number, least significant first.\<close>

function digits :: "nat \<Rightarrow> nat \<Rightarrow> nat list" where
  "digits b n = (if 2 \<le> b \<and> n div b \<noteq> 0 then n mod b # digits b (n div b) else [n mod b])"
  by pat_completeness auto
termination
proof (relation "measure snd")
  fix b n :: nat assume "2 \<le> b \<and> n div b \<noteq> 0"
  then have "0 < n" "1 < b" by (auto intro: Nat.gr0I)
  then show "((b, n div b), b, n) \<in> measure snd" by simp
qed simp

declare digits.simps [simp del]

fun horner :: "nat \<Rightarrow> nat list \<Rightarrow> nat" where
  "horner b [] = 0"
| "horner b (d # ds) = d + b * horner b ds"

lemma horner_digits: "2 \<le> b \<Longrightarrow> horner b (digits b n) = n"
proof (induction b n rule: digits.induct)
  case (1 b n)
  show ?case
  proof (cases "n div b = 0")
    case True
    then show ?thesis using 1(2) by (subst digits.simps) (auto simp: div_eq_0_iff)
  next
    case False
    then show ?thesis using 1 by (subst digits.simps) simp
  qed
qed

lemma digits_small: "2 \<le> b \<Longrightarrow> d \<in> set (digits b n) \<Longrightarrow> d < b"
proof (induction b n rule: digits.induct)
  case (1 b n)
  then show ?case by (subst (asm) (2) digits.simps) (auto split: if_splits)
qed

lemma digits_nonempty [simp]: "digits b n \<noteq> []"
  by (subst digits.simps) simp

text \<open>No leading zero, except for the number zero itself.\<close>

lemma digits_last: "2 \<le> b \<Longrightarrow> last (digits b n) = 0 \<Longrightarrow> digits b n = [0]"
proof (induction b n rule: digits.induct)
  case (1 b n)
  show ?case
  proof (cases "n div b = 0")
    case True
    then show ?thesis using 1(2,3) by (subst digits.simps) (simp add: digits.simps [of b n])
  next
    case False
    have "last (digits b (n div b)) = 0" using 1(2,3) False by (simp add: digits.simps [of b n])
    then have "digits b (n div b) = [0]" using 1 False by blast
    then have "n div b = 0" using horner_digits [OF 1(2), of "n div b"] by simp
    then show ?thesis using False by simp
  qed
qed

lemma digits_length: "2 \<le> b \<Longrightarrow> n < b ^ k \<Longrightarrow> 0 < k \<Longrightarrow> length (digits b n) \<le> k"
proof (induction k arbitrary: n)
  case (Suc k)
  show ?case
  proof (cases "n div b = 0")
    case False
    have "n div b < b ^ k" using Suc(3) by (simp add: less_mult_imp_div_less mult.commute)
    moreover have "0 < k" using calculation False by (cases k) auto
    ultimately show ?thesis using Suc by (subst digits.simps) auto
  qed (subst digits.simps, simp)
qed simp

lemma base36_nth: "d < 36 \<Longrightarrow> base36 ! d \<noteq> 0" "length base36 = 37"
proof -
  define xs where "xs = map chr ''0123456789abcdefghijklmnopqrstuvwxyz''"
  have xs: "\<forall>c\<in>set xs. c \<noteq> 0" "length xs = 36" by (simp_all add: xs_def chr_def)
  have b: "base36 = xs @ [0]" by (simp only: base36_def xs_def)
  show "base36 ! d \<noteq> 0" if "d < 36" using that xs by (simp add: b nth_append)
  show "length base36 = 37" by (simp add: b xs)
qed

lemma itoa_loop_digits:
  assumes "2 \<le> b" "b \<le> 36" "unat p + length (digits b (unat v)) < 2 ^ 32"
  shows "\<exists>m'. itoa_loop (of_nat b) v p m = Some (p + of_nat (length (digits b (unat v))), m') \<and>
    bytes_at m' p (map ((!) base36) (digits b (unat v))) \<and> same_outside (region p (length (digits b (unat v)))) m m'"
  using assms
proof (induction "unat v" arbitrary: v p m rule: less_induct)
  case less
  have b: "unat (of_nat b :: u32) = b" "(of_nat b :: u32) \<noteq> 0"
  proof -
    show u: "unat (of_nat b :: u32) = b" using less(3) by (intro unat_of_nat_small) simp
    show "(of_nat b :: u32) \<noteq> 0" using u less(2) by auto
  qed
  have d: "unat (v mod of_nat b) = unat v mod b" "unat (v div of_nat b) = unat v div b"
    using b(1) by (simp_all add: unat_mod unat_div)
  have small: "unat v mod b < 36" using mod_less_divisor [of b "unat v"] less(2,3) by linarith
  let ?m = "m(p := base36 ! (unat v mod b))"
  have z: "v div of_nat b = 0 \<longleftrightarrow> unat v div b = 0" using d(2) by (metis unat_0 word_unat_eq_iff)
  show ?case
  proof (cases "unat v div b = 0")
    case True
    then have "digits b (unat v) = [unat v mod b]" by (subst digits.simps) simp
    moreover have "itoa_loop (of_nat b) v p m = Some (p + 1, ?m)"
      using True z b d small by (subst itoa_loop.simps) (simp add: base36_nth(2) Let_def)
    ultimately show ?thesis by (auto simp: same_outside_def region_def)
  next
    case False
    let ?ds = "digits b (unat v div b)"
    have dg: "digits b (unat v) = unat v mod b # ?ds" using False less(2) by (subst digits.simps) simp
    have p: "unat (p + 1) = unat p + 1" using addr_offset [of p 1] less(4) dg by simp
    have "0 < unat v" using False by (cases "unat v") auto
    then have "unat (v div of_nat b) < unat v" using less(2) d(2) by simp
    from less(1) [OF this less(2,3), of "p + 1" ?m] obtain m' where m':
      "itoa_loop (of_nat b) (v div of_nat b) (p + 1) ?m = Some (p + 1 + of_nat (length ?ds), m')"
      "bytes_at m' (p + 1) (map ((!) base36) ?ds)" "same_outside (region (p + 1) (length ?ds)) ?m m'"
      using less(4) dg p unfolding d(2) by auto
    have "itoa_loop (of_nat b) v p m = itoa_loop (of_nat b) (v div of_nat b) (p + 1) ?m"
      using False z b d small by (subst itoa_loop.simps) (simp add: base36_nth(2) Let_def)
    moreover have "p \<notin> region (p + 1) (length ?ds)"
      using in_region [of "p + 1" "length ?ds" p] p less(4) dg by simp
    then have "m' p = base36 ! (unat v mod b)" using m'(3) by (simp add: same_outside_def)
    moreover have "region (p + 1) (length ?ds) \<subseteq> region p (Suc (length ?ds))" "p \<in> region p (Suc (length ?ds))"
      using in_region [of "p + 1" "length ?ds"] in_region [of p "Suc (length ?ds)"] p less(4) dg by auto
    then have "same_outside (region p (Suc (length ?ds))) m m'" using m'(3) by (auto simp: same_outside_def)
    ultimately show ?thesis using m'(1,2) dg by (auto simp: ac_simps)
  qed
qed

lemma pad_down_off: "b \<notin> region a n \<Longrightarrow> pad_down m a v n b = m b"
proof (induction n arbitrary: m)
  case (Suc n)
  then have "b \<notin> region a n" "b \<noteq> a + of_nat n" by (auto simp: region_def)
  with Suc.IH show ?case by simp
qed simp

lemma pad_down_at: "unat a + n \<le> 2 ^ 32 \<Longrightarrow> bytes_at (pad_down m a v n) a (replicate n v)"
proof (induction n arbitrary: m)
  case (Suc n)
  let ?m = "m(a + of_nat n := v)"
  have "a + of_nat n \<notin> region a n" using Suc.prems in_region [of a n] addr_offset [of a n] by simp
  then have "pad_down ?m a v n (a + of_nat n) = v" by (simp add: pad_down_off)
  moreover have "bytes_at (pad_down ?m a v n) a (replicate n v)" using Suc by simp
  ultimately have "bytes_at (pad_down ?m a v n) a (replicate n v @ [v])" by (simp add: bytes_at_append)
  then show ?case by (simp add: replicate_append_same)
qed simp

text \<open>Padding by a number of characters that is not negative.\<close>

lemma strpad_at:
  assumes "unat a + n < 2 ^ 32"
  shows "bytes_at (strpad m a v (int n)) a (replicate n v)"
    and "same_outside (region a (Suc n)) m (strpad m a v (int n))"
proof -
  show "bytes_at (strpad m a v (int n)) a (replicate n v)"
    using assms by (simp add: strpad_def pad_down_at)
  have "a + of_nat n \<in> region a (Suc n)" "region a n \<subseteq> region a (Suc n)" by (auto simp: region_def)
  then show "same_outside (region a (Suc n)) m (strpad m a v (int n))"
    unfolding same_outside_def strpad_def by (metis fun_upd_other nat_int of_int_of_nat_eq pad_down_off subset_iff)
qed

text \<open>The string of a number in a base.\<close>

definition magnitude :: "int \<Rightarrow> int \<Rightarrow> nat" where
  "magnitude base v = (if v < 0 \<and> base = 10 then nat \<bar>v\<bar> else nat (v mod 2 ^ 32))"

definition num_str :: "int \<Rightarrow> int \<Rightarrow> u8 list" where
  "num_str base v = (if v < 0 \<and> base = 10 then [chr (CHR ''-'')] else []) @
     map ((!) base36) (rev (digits (nat base) (magnitude base v)))"

lemma num_str_hex_length: "length (num_str 16 (sint (v :: u32))) \<le> 8"
proof -
  have "magnitude 16 (sint v) < 16 ^ 8" by (simp add: magnitude_def nat_less_iff)
  then show ?thesis using digits_length [of 16 "magnitude 16 (sint v)" 8] by (simp add: num_str_def)
qed

lemma num_str_nonzero:
  assumes "2 \<le> base" "base \<le> 36"
  shows "0 \<notin> set (num_str base v)"
  using digits_small [of "nat base" _ "magnitude base v"] base36_nth(1) assms by (fastforce simp: num_str_def chr_def)

lemma itoa_base_run:
  assumes base: "2 \<le> base" "base \<le> 36" and v: "- (2 ^ 31) \<le> v" "v < 2 ^ 31" and buf: "buf \<noteq> 0" "unat buf + 34 \<le> 2 ^ 32"
  shows "\<exists>m'. itoa_base v buf base m = Some (Some buf, m') \<and> str_at m' buf (num_str base v) \<and>
    same_outside (region buf 34) m m' \<and> length (num_str base v) \<le> 33"
proof -
  let ?b = "nat base" and ?neg = "v < 0 \<and> base = 10"
  define n where "n = magnitude base v"
  let ?ds = "digits ?b n" and ?w = "word_of_int (if ?neg then \<bar>v\<bar> else v) :: u32"
  have "base = int ?b" using base by simp
  then have "word_of_int base = (of_nat ?b :: u32)" by (metis of_int_of_nat_eq)
  then have b: "2 \<le> ?b" "?b \<le> 36" "word_of_int base = (of_nat ?b :: u32)" using base by simp_all
  have u: "unat (word_of_int x :: u32) = nat (x mod 2 ^ 32)" for x by (simp add: unat_eq_nat_uint uint_word_of_int)
  have "\<bar>v\<bar> mod 2 ^ 32 = \<bar>v\<bar>" using v by (intro mod_pos_pos_trivial) simp_all
  then have w: "unat ?w = n" unfolding u n_def magnitude_def by simp
  then have "n < 2 ^ 32" using unsigned_less [of ?w, where ?'a = nat] by simp
  also have "\<dots> \<le> ?b ^ 32" using b(1) by (rule power_mono) simp
  finally have len: "length ?ds \<le> 32" using digits_length [OF b(1)] by simp
  obtain m1 where m1: "itoa_loop (of_nat ?b) ?w buf m = Some (buf + of_nat (length ?ds), m1)"
    "bytes_at m1 buf (map ((!) base36) ?ds)" "same_outside (region buf (length ?ds)) m m1"
    using itoa_loop_digits [OF b(1,2), of buf ?w m] w len buf(2) by auto
  define s where "s = map ((!) base36) ?ds @ (if ?neg then [chr (CHR ''-'')] else [])"
  let ?q = "buf + of_nat (length s)"
  define m2 where "m2 = (if ?neg then m1(buf + of_nat (length ?ds) := chr (CHR ''-'')) else m1)(?q := 0)"
  have sl: "length s \<le> 33" "length ?ds \<le> length s" using len by (auto simp: s_def)
  have nz: "0 \<notin> set s" using digits_small [OF b(1)] b(2) base36_nth(1) by (fastforce simp: s_def chr_def)
  have ne: "buf + of_nat i \<noteq> ?q" if "i < length s" for i
    using that addr_offset_eq [of buf i "length s"] sl buf(2) by simp
  have "bytes_at m2 buf (s @ [0])"
    using m1(2) ne addr_offset_eq [of buf _ "length ?ds"] len buf(2)
    by (auto simp: bytes_at_def m2_def s_def nth_append less_Suc_eq)
  then have "str_at m2 buf s" using nz sl buf(2) by (simp add: str_at_def)
  from strrev_str [OF this buf(1)] obtain m3 where m3: "strrev m2 buf = Some m3" "str_at m3 buf (rev s)"
    "same_outside (region buf (length s)) m2 m3" by blast
  have "itoa_base v buf base m = Some (Some buf, m3)"
    using m1(1) m3(1) base(2) buf(1) unfolding itoa_base_def Let_def b(3)
    by (cases ?neg) (auto simp: m2_def s_def ac_simps)
  moreover have "region buf k \<subseteq> region buf 34" if "k \<le> 34" for k using that by (auto simp: region_def)
  then have "same_outside (region buf 34) m m3"
    using m1(3) m3(3) sl len by (fastforce simp: same_outside_def m2_def region_def)
  moreover have "rev s = num_str base v" by (simp add: s_def num_str_def rev_map n_def)
  then have "str_at m3 buf (num_str base v)" "length (num_str base v) \<le> 33" using m3(2) sl(1) by (simp, metis length_rev)
  ultimately show ?thesis by blast
qed

section \<open>Properties\<close>

text \<open>
  C26. \<^verbatim>\<open>itoa_base\<close> returns for every base from 2 to 36, and leaves in the buffer the string of the number: the
  digits of its magnitude, the most significant first and without leading zeros, after a minus sign for a
  negative number in base 10; in another base the digits are those of the two's complement value. The
  digits read in the base give the number back, and at most 34 bytes are written.
\<close>

theorem itoa_base_correct:
  assumes "2 \<le> base" "base \<le> 36" "- (2 ^ 31) \<le> v" "v < 2 ^ 31" "buf \<noteq> 0" "unat buf + 34 \<le> 2 ^ 32"
  shows "\<exists>m' ds. itoa_base v buf base m = Some (Some buf, m') \<and>
    str_at m' buf ((if v < 0 \<and> base = 10 then [chr (CHR ''-'')] else []) @ map ((!) base36) ds) \<and>
    horner (nat base) (rev ds) = (if v < 0 \<and> base = 10 then nat \<bar>v\<bar> else nat (v mod 2 ^ 32)) \<and>
    (\<forall>d\<in>set ds. d < nat base) \<and> (hd ds = 0 \<longrightarrow> ds = [0]) \<and> same_outside (region buf 34) m m'"
proof -
  let ?ds = "digits (nat base) (magnitude base v)"
  have b: "2 \<le> nat base" using assms(1) by simp
  have "horner (nat base) ?ds = (if v < 0 \<and> base = 10 then nat \<bar>v\<bar> else nat (v mod 2 ^ 32))"
    using horner_digits [OF b] by (simp add: magnitude_def)
  then show ?thesis
    using itoa_base_run [OF assms, of m] digits_small [OF b] digits_last [OF b, of "magnitude base v"]
    by (auto simp: num_str_def hd_rev intro!: exI [of _ "rev ?ds"])
qed

theorem itoa_base_correct_witness:
  "\<exists>m' ds. itoa_base (- 42) 0x1000 10 (\<lambda>_. 0) = Some (Some 0x1000, m') \<and>
    str_at m' 0x1000 (chr (CHR ''-'') # map ((!) base36) ds) \<and> horner 10 (rev ds) = 42"
  using itoa_base_correct [of 10 "- 42" "0x1000" "\<lambda>_. 0"] by auto

text \<open>
  The bases below 2 are not rejected: base 1 never ends for a number above zero, base 0 divides by zero.
\<close>

lemma itoa_loop_base_one:
  assumes "itoa_loop b v p m = Some y"
  shows "b = 1 \<longrightarrow> v = 0"
proof (rule itoa_loop.raw_induct [where P = "\<lambda>b v p m y. b = 1 \<longrightarrow> v = 0", OF _ assms])
  fix itoa :: "u32 \<Rightarrow> u32 \<Rightarrow> addr \<Rightarrow> bytes \<Rightarrow> (addr \<times> bytes) option" and b v p m y
  assume ih: "\<And>b v p m y. itoa b v p m = Some y \<Longrightarrow> b = 1 \<longrightarrow> v = 0"
    and e: "(if b = 0 \<or> unat (v mod b) \<ge> length base36 then None
      else let m = m(p := base36 ! unat (v mod b)); v = v div b
           in if v \<noteq> 0 then itoa b v (p + 1) m else Some (p + 1, m)) = Some y"
  show "b = 1 \<longrightarrow> v = 0"
    using e ih [of 1 v "p + 1" "m(p := base36 ! unat (v mod 1))" y] by (auto simp: Let_def split: if_splits)
qed

lemma itoa_base_one_diverges: "0 < v \<Longrightarrow> v < 2 ^ 31 \<Longrightarrow> buf \<noteq> 0 \<Longrightarrow> itoa_base v buf 1 m = None"
proof -
  assume v: "0 < v" "v < 2 ^ 31" "buf \<noteq> 0"
  then have "uint (word_of_int v :: u32) = v" by (simp add: uint_word_of_int)
  then have "(word_of_int v :: u32) \<noteq> 0" using v(1) by auto
  then have "itoa_loop 1 (word_of_int v) buf m = None" using itoa_loop_base_one [of 1 "word_of_int v" buf m] by (cases "itoa_loop 1 (word_of_int v) buf m") auto
  then show ?thesis using v by (simp add: itoa_base_def)
qed

end
