(* ===== verification/Printf.thy ===== *)
theory Printf
  imports Libc_String
begin

text \<open>
  Formatted output: \<^verbatim>\<open>libc/stdio.c\<close>. The variable arguments are a list. The format is the list of its bytes
  without the terminating zero; reading beyond that zero is a fault, and so is an argument of the wrong type or a
  missing one. The local array \<^verbatim>\<open>itoa_buf\<close> is a memory of its own. The state of the loop is a record.
\<close>

section \<open>The code\<close>

datatype varg = Arg_int u32 | Arg_str "u8 list"

record pf =
  pf_i :: nat
  pf_pos :: u32
  pf_pad_char :: u8
  pf_pad_count :: int
  pf_mem :: bytes
  pf_ap :: "varg list"

definition strcpy :: "addr \<Rightarrow> u8 list \<Rightarrow> bytes \<Rightarrow> bytes" where
  "strcpy dst src m = store_bytes dst (src @ [0]) m"

partial_function (option) cstr :: "bytes \<Rightarrow> addr \<Rightarrow> u8 list option" where
  "cstr m a = (if m a = 0 then Some [] else do { s \<leftarrow> cstr m (a + 1); Some (m a # s) })"

declare cstr.simps [code]

definition fmt_at :: "u8 list \<Rightarrow> nat \<Rightarrow> u8 option" where
  "fmt_at fmt j = (if j < length fmt then Some (fmt ! j) else if j = length fmt then Some 0 else None)"

definition arg_int :: "pf \<Rightarrow> (u32 \<times> pf) option" where
  "arg_int st = (case pf_ap st of Arg_int v # ap \<Rightarrow> Some (v, st\<lparr>pf_ap := ap\<rparr>) | _ \<Rightarrow> None)"

definition arg_str :: "pf \<Rightarrow> (u8 list \<times> pf) option" where
  "arg_str st = (case pf_ap st of Arg_str s # ap \<Rightarrow> Some (s, st\<lparr>pf_ap := ap\<rparr>) | _ \<Rightarrow> None)"

definition itoa_buf :: addr where "itoa_buf = 16"

text \<open>From the label \<^verbatim>\<open>print_dec\<close> or \<^verbatim>\<open>print_hex\<close> to the end of \<^verbatim>\<open>print_num\<close>.\<close>

definition print_num :: "addr \<Rightarrow> int \<Rightarrow> pf \<Rightarrow> pf option" where
  "print_num str base st = do {
     (v, st) \<leftarrow> arg_int st;
     (r, b) \<leftarrow> itoa_base (sint v) itoa_buf base (\<lambda>_. 0);
     s \<leftarrow> cstr b itoa_buf;
     let st = (if pf_pad_count st \<noteq> 0 then
                 let n = pf_pad_count st - int (length s)
                 in st\<lparr>pf_pad_count := n, pf_mem := strpad (pf_mem st) (str + pf_pos st) (pf_pad_char st) n,
                       pf_pos := pf_pos st + word_of_int n\<rparr>
               else st);
     Some (st\<lparr>pf_mem := strcpy (str + pf_pos st) s (pf_mem st), pf_pos := pf_pos st + of_nat (length s)\<rparr>) }"

definition put_char :: "addr \<Rightarrow> u8 \<Rightarrow> pf \<Rightarrow> pf" where
  "put_char str c st = st\<lparr>pf_mem := (pf_mem st)(str + pf_pos st := c), pf_pos := pf_pos st + 1\<rparr>"

definition skip_fmt :: "nat \<Rightarrow> pf \<Rightarrow> pf" where
  "skip_fmt n st = st\<lparr>pf_i := pf_i st + n\<rparr>"

text \<open>The switch on the conversion character, after the padding was parsed.\<close>

definition conversion :: "u8 list \<Rightarrow> addr \<Rightarrow> pf \<Rightarrow> pf option" where
  "conversion fmt str st = do {
     c \<leftarrow> fmt_at fmt (pf_i st + 1);
     if c = chr (CHR ''p'') then do {
       st \<leftarrow> print_num str 16 (st\<lparr>pf_mem := strcpy (str + pf_pos st) (map chr ''0x'') (pf_mem st),
         pf_pos := pf_pos st + 2, pf_pad_char := chr (CHR ''0''), pf_pad_count := 8\<rparr>);
       Some (skip_fmt 2 st) }
     else if c = chr (CHR ''d'') then do { st \<leftarrow> print_num str 10 st; Some (skip_fmt 2 st) }
     else if c = chr (CHR ''x'') then do { st \<leftarrow> print_num str 16 st; Some (skip_fmt 2 st) }
     else if c = chr (CHR ''s'') then do {
       (s, st) \<leftarrow> arg_str st;
       Some (skip_fmt 2 (st\<lparr>pf_mem := strcpy (str + pf_pos st) s (pf_mem st), pf_pos := pf_pos st + of_nat (length s)\<rparr>)) }
     else do { c \<leftarrow> fmt_at fmt (pf_i st); Some (skip_fmt 1 (put_char str c st)) } }"

text \<open>One iteration of the loop, with its \<^verbatim>\<open>i++\<close>.\<close>

definition vsnprintf_step :: "u8 list \<Rightarrow> addr \<Rightarrow> pf \<Rightarrow> pf option" where
  "vsnprintf_step fmt str st = do {
     let i = pf_i st;
     if fmt ! i = chr (CHR ''%'') then do {
       c1 \<leftarrow> fmt_at fmt (i + 1);
       if c1 = chr (CHR ''%'') then Some (skip_fmt 2 (put_char str (chr (CHR ''%'')) st))
       else if chr (CHR ''0'') \<le> c1 \<and> c1 \<le> chr (CHR ''9'') \<and> fmt_at fmt (i + 2) = Some (chr (CHR ''d'')) then do {
         st \<leftarrow> print_num str 10 (st\<lparr>pf_pad_char := chr (CHR '' ''), pf_pad_count := uint c1 - 48\<rparr>);
         Some (skip_fmt 3 st) }
       else if c1 = chr (CHR '' '') \<or> c1 = chr (CHR ''0'') then do {
         c2 \<leftarrow> fmt_at fmt (i + 2);
         conversion fmt str (skip_fmt 2 (st\<lparr>pf_pad_char := c1, pf_pad_count := uint c2 - 48\<rparr>)) }
       else conversion fmt str st }
     else Some (skip_fmt 1 (put_char str (fmt ! i) st)) }"

lemma skip_fmt_i [simp]: "pf_i (skip_fmt n st) = pf_i st + n" "pf_i (put_char str c st) = pf_i st"
  by (simp_all add: skip_fmt_def put_char_def)

lemma print_num_i: "print_num str base st = Some st' \<Longrightarrow> pf_i st' = pf_i st"
  by (auto simp: print_num_def arg_int_def Let_def split: Option.bind_splits list.splits varg.splits if_splits)

lemma conversion_i: "conversion fmt str st = Some st' \<Longrightarrow> pf_i st < pf_i st'"
  by (auto simp: conversion_def arg_str_def dest!: print_num_i
      split: Option.bind_splits list.splits varg.splits if_splits)

lemma vsnprintf_step_i: "vsnprintf_step fmt str st = Some st' \<Longrightarrow> pf_i st < pf_i st'"
  by (auto simp: vsnprintf_step_def Let_def dest!: print_num_i conversion_i split: Option.bind_splits if_splits)

function vsnprintf_loop :: "u8 list \<Rightarrow> addr \<Rightarrow> u32 \<Rightarrow> pf \<Rightarrow> pf option" where
  "vsnprintf_loop fmt str sz st =
     (if pf_i st < length fmt \<and> pf_pos st < sz then
        case vsnprintf_step fmt str st of None \<Rightarrow> None | Some st' \<Rightarrow> vsnprintf_loop fmt str sz st'
      else Some st)"
  by pat_completeness auto
termination by (relation "measure (\<lambda>(fmt, str, sz, st). length fmt - pf_i st)") (auto dest: vsnprintf_step_i)

declare vsnprintf_loop.simps [simp del]

text \<open>\<open>c0\<close> is what the uninitialised \<^verbatim>\<open>pad_char\<close> holds.\<close>

definition vsnprintf :: "u8 \<Rightarrow> addr \<Rightarrow> u32 \<Rightarrow> u8 list \<Rightarrow> varg list \<Rightarrow> bytes \<Rightarrow> (u32 \<times> bytes) option" where
  "vsnprintf c0 str sz fmt ap m = do {
     st \<leftarrow> vsnprintf_loop fmt str sz
       \<lparr> pf_i = 0, pf_pos = 0, pf_pad_char = c0, pf_pad_count = 0, pf_mem = m, pf_ap = ap \<rparr>;
     Some (pf_pos st, (pf_mem st)(str + pf_pos st := 0)) }"

definition vsprintf :: "u8 \<Rightarrow> addr \<Rightarrow> u8 list \<Rightarrow> varg list \<Rightarrow> bytes \<Rightarrow> (u32 \<times> bytes) option" where
  "vsprintf c0 str fmt ap m = vsnprintf c0 str 0x7fffffff fmt ap m"

text \<open>\<^verbatim>\<open>sprintf\<close> and \<^verbatim>\<open>snprintf\<close> collect their arguments.\<close>

definition sprintf :: "u8 \<Rightarrow> addr \<Rightarrow> u8 list \<Rightarrow> varg list \<Rightarrow> bytes \<Rightarrow> (u32 \<times> bytes) option" where
  "sprintf c0 str fmt args m = vsprintf c0 str fmt args m"

definition snprintf :: "u8 \<Rightarrow> addr \<Rightarrow> u32 \<Rightarrow> u8 list \<Rightarrow> varg list \<Rightarrow> bytes \<Rightarrow> (u32 \<times> bytes) option" where
  "snprintf c0 str sz fmt args m = vsnprintf c0 str sz fmt args m"

section \<open>What the conversions print\<close>

text \<open>
  A format as the list of its items with their arguments: ordinary characters, \<^verbatim>\<open>%%\<close>, numbers without a
  width, strings, and the numbers with a width: \<^verbatim>\<open>%08x\<close>, \<^verbatim>\<open>%6d\<close>, \<^verbatim>\<open>% 6d\<close> and \<^verbatim>\<open>%p\<close>.
\<close>

datatype item = Lit u8 | Percent | Dec u32 | Hex u32 | Str "u8 list" | Zhex u32 | Wdec nat u32 | Bdec nat u32 | Ptr u32

fun item_fmt :: "item \<Rightarrow> u8 list" where
  "item_fmt (Lit c) = [c]"
| "item_fmt Percent = map chr ''%%''"
| "item_fmt (Dec v) = map chr ''%d''"
| "item_fmt (Hex v) = map chr ''%x''"
| "item_fmt (Str s) = map chr ''%s''"
| "item_fmt (Zhex v) = map chr ''%08x''"
| "item_fmt (Wdec w v) = [37, 48 + of_nat w, 100]"
| "item_fmt (Bdec w v) = [37, 32, 48 + of_nat w, 100]"
| "item_fmt (Ptr v) = map chr ''%p''"

fun item_args :: "item \<Rightarrow> varg list" where
  "item_args (Lit c) = []"
| "item_args Percent = []"
| "item_args (Dec v) = [Arg_int v]"
| "item_args (Hex v) = [Arg_int v]"
| "item_args (Str s) = [Arg_str s]"
| "item_args (Zhex v) = [Arg_int v]"
| "item_args (Wdec w v) = [Arg_int v]"
| "item_args (Bdec w v) = [Arg_int v]"
| "item_args (Ptr v) = [Arg_int v]"

definition pad_left :: "u8 \<Rightarrow> nat \<Rightarrow> u8 list \<Rightarrow> u8 list" where
  "pad_left c w s = replicate (w - length s) c @ s"

fun item_out :: "item \<Rightarrow> u8 list" where
  "item_out (Lit c) = [c]"
| "item_out Percent = [chr (CHR ''%'')]"
| "item_out (Dec v) = num_str 10 (sint v)"
| "item_out (Hex v) = num_str 16 (sint v)"
| "item_out (Str s) = s"
| "item_out (Zhex v) = pad_left 48 8 (num_str 16 (sint v))"
| "item_out (Wdec w v) = pad_left 32 w (num_str 10 (sint v))"
| "item_out (Bdec w v) = pad_left 32 w (num_str 10 (sint v))"
| "item_out (Ptr v) = map chr ''0x'' @ pad_left 48 8 (num_str 16 (sint v))"

text \<open>A number with a width has to fit into it.\<close>

fun item_ok :: "item \<Rightarrow> bool" where
  "item_ok (Lit c) \<longleftrightarrow> c \<noteq> 0 \<and> c \<noteq> chr (CHR ''%'')"
| "item_ok (Str s) \<longleftrightarrow> 0 \<notin> set s"
| "item_ok (Wdec w v) \<longleftrightarrow> 0 < w \<and> w \<le> 9 \<and> length (num_str 10 (sint v)) \<le> w"
| "item_ok (Bdec w v) \<longleftrightarrow> 0 < w \<and> w \<le> 9 \<and> length (num_str 10 (sint v)) \<le> w"
| "item_ok _ \<longleftrightarrow> True"

text \<open>
  The code does not reset the width: what is left of it after a number would widen the next one that has
  none. So no number without a width may follow one with a width.
\<close>

definition plain_num :: "item \<Rightarrow> bool" where
  "plain_num it \<longleftrightarrow> (case it of Dec _ \<Rightarrow> True | Hex _ \<Rightarrow> True | _ \<Rightarrow> False)"

definition wide_num :: "item \<Rightarrow> bool" where
  "wide_num it \<longleftrightarrow> (case it of Zhex _ \<Rightarrow> True | Wdec _ _ \<Rightarrow> True | Bdec _ _ \<Rightarrow> True | Ptr _ \<Rightarrow> True | _ \<Rightarrow> False)"

fun items_ok :: "bool \<Rightarrow> item list \<Rightarrow> bool" where
  "items_ok p [] \<longleftrightarrow> True"
| "items_ok p (it # its) \<longleftrightarrow> item_ok it \<and> (plain_num it \<longrightarrow> \<not> p) \<and> items_ok (p \<or> wide_num it) its"

lemma items_ok_mono: "items_ok True its \<Longrightarrow> items_ok p its"
  by (induction its arbitrary: p) auto

lemma items_ok_append: "items_ok p xs \<Longrightarrow> items_ok True ys \<Longrightarrow> items_ok p (xs @ ys)"
  by (induction xs arbitrary: p) (auto intro: items_ok_mono)

lemma cstr_str: "bytes_at m a (s @ [0]) \<Longrightarrow> 0 \<notin> set s \<Longrightarrow> cstr m a = Some s"
  by (induction s arbitrary: a) (subst cstr.simps, auto)+

text \<open>The effect of an item on the output.\<close>

definition emits :: "addr \<Rightarrow> u8 list \<Rightarrow> pf \<Rightarrow> pf \<Rightarrow> bool" where
  "emits str out st st' \<longleftrightarrow> pf_pos st' = pf_pos st + of_nat (length out) \<and>
     bytes_at (pf_mem st') (str + pf_pos st) out \<and>
     same_outside (region (str + pf_pos st) (Suc (length out))) (pf_mem st) (pf_mem st')"

lemma emits_strcpy:
  assumes "unat (str + pf_pos st) + length s < 2 ^ 32"
  shows "emits str s st (st\<lparr>pf_mem := strcpy (str + pf_pos st) s (pf_mem st), pf_pos := pf_pos st + of_nat (length s)\<rparr>)"
  using store_bytes_at [of "str + pf_pos st" "s @ [0]"] store_bytes_off [of _ "str + pf_pos st" "s @ [0]"] assms
  by (auto simp: emits_def strcpy_def bytes_at_append same_outside_def)

lemma emits_put_char: "emits str [c] st (put_char str c st)"
proof -
  have "str + pf_pos st \<in> region (str + pf_pos st) 2" unfolding region_def by (rule image_eqI [of _ _ 0]) simp_all
  then show ?thesis by (auto simp: emits_def put_char_def same_outside_def numeral_2_eq_2)
qed

lemma emits_append:
  assumes "emits str o1 st s" "emits str o2 s s'" "unat (str + pf_pos st) + length (o1 @ o2) < 2 ^ 32"
  shows "emits str (o1 @ o2) st s'"
proof -
  let ?p = "str + pf_pos st" and ?q = "str + pf_pos s"
  have pos: "?q = ?p + of_nat (length o1)" using assms(1) by (simp add: emits_def ac_simps)
  have q: "unat ?q = unat ?p + length o1" unfolding pos using assms(3) addr_offset [of ?p "length o1"] by simp
  note reg = in_region [of ?q "Suc (length o2)", unfolded q] in_region [of ?p]
  have "region ?q (Suc (length o2)) \<inter> region ?p (length o1) = {}" using reg assms(3) by auto
  then have "bytes_at (pf_mem s') ?p o1"
    using bytes_at_same [of "region ?q (Suc (length o2))" "pf_mem s" "pf_mem s'"] assms(1,2) by (simp add: emits_def)
  then have "bytes_at (pf_mem s') ?p (o1 @ o2)" using assms(2) pos by (simp add: bytes_at_append emits_def)
  moreover have sub: "region ?q (Suc (length o2)) \<subseteq> region ?p (Suc (length (o1 @ o2)))"
    "region ?p (Suc (length o1)) \<subseteq> region ?p (Suc (length (o1 @ o2)))"
    using reg assms(3) by auto
  have so: "same_outside (region ?p (Suc (length o1))) (pf_mem st) (pf_mem s)"
    "same_outside (region ?q (Suc (length o2))) (pf_mem s) (pf_mem s')" using assms(1,2) by (simp_all add: emits_def)
  have "same_outside (region ?p (Suc (length (o1 @ o2)))) (pf_mem st) (pf_mem s')"
    using same_outside_trans [OF same_outside_mono [OF so(1) sub(2)] same_outside_mono [OF so(2) sub(1)]] by simp
  ultimately show ?thesis using assms(1,2) by (simp add: emits_def)
qed

lemma num_cstr:
  assumes "base = 10 \<or> base = 16"
  obtains b where "itoa_base (sint (v :: u32)) itoa_buf base (\<lambda>_. 0) = Some (Some itoa_buf, b)"
    "cstr b itoa_buf = Some (num_str base (sint v))"
proof -
  have "- (2 ^ 31) \<le> sint v" "sint v < 2 ^ 31" using sint_range_size [of v] by (simp_all add: word_size)
  then obtain b where b: "itoa_base (sint v) itoa_buf base (\<lambda>_. 0) = Some (Some itoa_buf, b)"
    "str_at b itoa_buf (num_str base (sint v))"
    using itoa_base_run [of base "sint v" itoa_buf "\<lambda>_. 0"] assms by (auto simp: itoa_buf_def)
  have "cstr b itoa_buf = Some (num_str base (sint v))" using b(2) by (auto simp: str_at_def intro: cstr_str)
  with b(1) that show thesis by blast
qed

lemma print_num_emits:
  assumes "pf_ap st = Arg_int v # ap" "pf_pad_count st = 0" "base = 10 \<or> base = 16"
    and "unat (str + pf_pos st) + length (num_str base (sint v)) < 2 ^ 32"
  shows "\<exists>st'. print_num str base st = Some st' \<and> emits str (num_str base (sint v)) st st' \<and>
    pf_i st' = pf_i st \<and> pf_pad_count st' = 0 \<and> pf_ap st' = ap"
proof -
  obtain b where "itoa_base (sint v) itoa_buf base (\<lambda>_. 0) = Some (Some itoa_buf, b)"
    "cstr b itoa_buf = Some (num_str base (sint v))" using assms(3) by (rule num_cstr)
  then show ?thesis using emits_strcpy [of str "st\<lparr>pf_ap := ap\<rparr>" "num_str base (sint v)"] assms(1,2,4)
    by (simp add: print_num_def arg_int_def emits_def)
qed

lemma print_num_pads:
  assumes "pf_ap st = Arg_int v # ap" "pf_pad_count st = int w" "0 < w" "base = 10 \<or> base = 16"
    and fit: "length (num_str base (sint v)) \<le> w" and room: "unat (str + pf_pos st) + w < 2 ^ 32"
  shows "\<exists>st'. print_num str base st = Some st' \<and>
    emits str (pad_left (pf_pad_char st) w (num_str base (sint v))) st st' \<and> pf_i st' = pf_i st \<and> pf_ap st' = ap"
proof -
  let ?s = "num_str base (sint v)"
  obtain n where w: "w = n + length ?s" using fit by (metis add.commute le_Suc_ex)
  have pc: "pf_pad_count st \<noteq> 0" "pf_pad_count st - int (length ?s) = int n" using assms(2,3) w by linarith+
  let ?st = "st\<lparr>pf_ap := ap, pf_pad_count := int n, pf_mem := strpad (pf_mem st) (str + pf_pos st) (pf_pad_char st) (int n),
    pf_pos := pf_pos st + of_nat n\<rparr>"
  obtain b where b: "itoa_base (sint v) itoa_buf base (\<lambda>_. 0) = Some (Some itoa_buf, b)" "cstr b itoa_buf = Some ?s"
    using assms(4) by (rule num_cstr)
  have one: "emits str (replicate n (pf_pad_char st)) st ?st"
    using strpad_at [of "str + pf_pos st" n] room w by (simp add: emits_def)
  have p: "str + pf_pos ?st = str + pf_pos st + of_nat n" by (simp add: ac_simps)
  have "unat (str + pf_pos ?st) + length ?s < 2 ^ 32"
    unfolding p using addr_offset [of "str + pf_pos st" n] room w by simp
  from emits_append [OF one emits_strcpy [OF this]]
  have "emits str (replicate n (pf_pad_char st) @ ?s) st
      (?st\<lparr>pf_mem := strcpy (str + pf_pos ?st) ?s (pf_mem ?st), pf_pos := pf_pos ?st + of_nat (length ?s)\<rparr>)"
    using room w by simp
  moreover have "print_num str base st =
      Some (?st\<lparr>pf_mem := strcpy (str + pf_pos ?st) ?s (pf_mem ?st), pf_pos := pf_pos ?st + of_nat (length ?s)\<rparr>)"
    using b assms(1) pc by (simp add: print_num_def arg_int_def Let_def)
  moreover have "pad_left (pf_pad_char st) w ?s = replicate n (pf_pad_char st) @ ?s" by (simp add: pad_left_def w)
  ultimately show ?thesis by simp
qed

lemma fmt_at_middle:
  "fmt_at (pre @ xs @ post) (length pre + j) = (if j < length xs then Some (xs ! j) else fmt_at (xs @ post) j)"
  by (auto simp: fmt_at_def nth_append)

text \<open>The conversion characters as bytes.\<close>

lemma chr_codes:
  "chr (CHR ''%'') = 37" "chr (CHR ''0'') = 48" "chr (CHR ''9'') = 57" "chr (CHR '' '') = 32"
  "chr (CHR ''p'') = 112" "chr (CHR ''d'') = 100" "chr (CHR ''x'') = 120" "chr (CHR ''s'') = 115"
  by (simp_all add: chr_def)

lemma conversion_step:
  assumes "fmt = pre @ [37, c] @ post" "pf_i st = length pre" "c = 100 \<or> c = 120 \<or> c = 115"
  shows "vsnprintf_step fmt str st = conversion fmt str st" "fmt_at fmt (Suc (pf_i st)) = Some c"
  using assms by (auto simp: vsnprintf_step_def nth_append fmt_at_def chr_codes)

lemma pad_left_length [simp]: "length s \<le> w \<Longrightarrow> length (pad_left c w s) = w"
  by (simp add: pad_left_def)

text \<open>An item without a width.\<close>

lemma plain_item_step:
  assumes fmt: "fmt = pre @ item_fmt it @ post" "pf_i st = length pre"
    and st: "plain_num it \<Longrightarrow> pf_pad_count st = 0" "pf_ap st = item_args it @ ap"
    and ok: "item_ok it" "\<not> wide_num it" and room: "unat (str + pf_pos st) + length (item_out it) < 2 ^ 32"
  shows "\<exists>st'. vsnprintf_step fmt str st = Some st' \<and> emits str (item_out it) st st' \<and>
    pf_i st' = length (pre @ item_fmt it) \<and> pf_pad_count st' = pf_pad_count st \<and> pf_ap st' = ap"
proof (cases it)
  case (Lit c)
  then show ?thesis using assms emits_put_char [of str c st]
    by (auto simp: vsnprintf_step_def Let_def nth_append emits_def skip_fmt_def put_char_def)
next
  case Percent
  then show ?thesis using assms emits_put_char [of str "chr (CHR ''%'')" st]
    by (auto simp: vsnprintf_step_def Let_def nth_append fmt_at_def emits_def skip_fmt_def put_char_def)
next
  case (Dec v)
  then have "fmt = pre @ [37, 100] @ post" using fmt by (simp add: chr_codes)
  note c = conversion_step [OF this fmt(2)]
  show ?thesis using Dec assms print_num_emits [of st v ap 10 str] c
    by (auto simp: conversion_def chr_codes emits_def skip_fmt_def plain_num_def)
next
  case (Hex v)
  then have "fmt = pre @ [37, 120] @ post" using fmt by (simp add: chr_codes)
  note c = conversion_step [OF this fmt(2)]
  show ?thesis using Hex assms print_num_emits [of st v ap 16 str] c
    by (auto simp: conversion_def chr_codes emits_def skip_fmt_def plain_num_def)
next
  case (Str s)
  then have "fmt = pre @ [37, 115] @ post" using fmt by (simp add: chr_codes)
  note c = conversion_step [OF this fmt(2)]
  show ?thesis using Str assms emits_strcpy [of str "st\<lparr>pf_ap := ap\<rparr>" s] c
    by (auto simp: conversion_def chr_codes emits_def skip_fmt_def arg_str_def)
qed (use ok(2) in \<open>simp_all add: wide_num_def\<close>)

text \<open>A digit as a character.\<close>

lemma digit_char:
  assumes "w \<le> 9"
  shows "uint (48 + of_nat w :: u8) = 48 + int w" "48 \<le> (48 + of_nat w :: u8)" "(48 + of_nat w :: u8) \<le> 57"
    and "(48 + of_nat w :: u8) \<noteq> 37" "(48 + of_nat w :: u8) \<noteq> 100"
proof -
  have "w \<in> {0, 1, 2, 3, 4, 5, 6, 7, 8, 9}" using assms by auto
  then show "uint (48 + of_nat w :: u8) = 48 + int w" "48 \<le> (48 + of_nat w :: u8)" "(48 + of_nat w :: u8) \<le> 57"
    "(48 + of_nat w :: u8) \<noteq> 37" "(48 + of_nat w :: u8) \<noteq> 100"
    by (elim insertE; simp)+
qed

lemma wide_dec_step:
  assumes "fmt = pre @ [37, 48 + of_nat w, 100] @ post" "pf_i st = length pre" "w \<le> 9"
  shows "vsnprintf_step fmt str st =
    Option.bind (print_num str 10 (st\<lparr>pf_pad_char := 32, pf_pad_count := int w\<rparr>)) (\<lambda>st. Some (skip_fmt 3 st))"
  using assms digit_char [OF assms(3)]
  by (simp add: vsnprintf_step_def Let_def nth_append fmt_at_def chr_codes)

lemma wide_conversion_step:
  assumes "fmt = pre @ [37, c, 48 + of_nat w, k] @ post" "pf_i st = length pre" "w \<le> 9"
    and "c = 32 \<or> c = 48" "k = 100 \<and> base = 10 \<or> k = 120 \<and> base = 16"
  shows "vsnprintf_step fmt str st =
    Option.bind (print_num str base (skip_fmt 2 (st\<lparr>pf_pad_char := c, pf_pad_count := int w\<rparr>))) (\<lambda>st. Some (skip_fmt 2 st))"
  using assms(1,2,4,5) digit_char [OF assms(3)]
  by (auto simp: vsnprintf_step_def Let_def nth_append fmt_at_def chr_codes conversion_def skip_fmt_def)

lemma ptr_step:
  assumes "fmt = pre @ [37, 112] @ post" "pf_i st = length pre"
  shows "vsnprintf_step fmt str st =
    Option.bind (print_num str 16 (st\<lparr>pf_mem := strcpy (str + pf_pos st) [48, 120] (pf_mem st),
      pf_pos := pf_pos st + 2, pf_pad_char := 48, pf_pad_count := 8\<rparr>)) (\<lambda>st. Some (skip_fmt 2 st))"
  using assms by (simp add: vsnprintf_step_def Let_def nth_append fmt_at_def chr_codes conversion_def)

lemma emits_skip [simp]: "emits str out st (skip_fmt n st') \<longleftrightarrow> emits str out st st'"
  by (simp add: emits_def skip_fmt_def)

text \<open>A number with a width.\<close>

lemma wide_item_step:
  assumes fmt: "fmt = pre @ item_fmt it @ post" "pf_i st = length pre" and st: "pf_ap st = item_args it @ ap"
    and ok: "item_ok it" "wide_num it" and room: "unat (str + pf_pos st) + length (item_out it) < 2 ^ 32"
  shows "\<exists>st'. vsnprintf_step fmt str st = Some st' \<and> emits str (item_out it) st st' \<and>
    pf_i st' = length (pre @ item_fmt it) \<and> pf_ap st' = ap"
proof (cases it)
  case (Zhex v)
  then have f: "fmt = pre @ [37, 48, 48 + of_nat 8, 120] @ post" using fmt by (simp add: chr_def)
  note len = num_str_hex_length [of v]
  show ?thesis
    using wide_conversion_step [OF f fmt(2), of 16 str] Zhex st room len
      print_num_pads [of "skip_fmt 2 (st\<lparr>pf_pad_char := 48, pf_pad_count := 8\<rparr>)" v ap 8 16 str] fmt(2)
    by (auto simp: emits_def skip_fmt_def)
next
  case (Wdec w v)
  then have f: "fmt = pre @ [37, 48 + of_nat w, 100] @ post" "w \<le> 9" using fmt ok(1) by simp_all
  show ?thesis
    using wide_dec_step [OF f(1) fmt(2) f(2), of str] Wdec st room ok(1)
      print_num_pads [of "st\<lparr>pf_pad_char := 32, pf_pad_count := int w\<rparr>" v ap w 10 str] fmt(2)
    by (auto simp: emits_def skip_fmt_def)
next
  case (Bdec w v)
  then have f: "fmt = pre @ [37, 32, 48 + of_nat w, 100] @ post" "w \<le> 9" using fmt ok(1) by simp_all
  show ?thesis
    using wide_conversion_step [OF f(1) fmt(2) f(2), of 10 str] Bdec st room ok(1)
      print_num_pads [of "skip_fmt 2 (st\<lparr>pf_pad_char := 32, pf_pad_count := int w\<rparr>)" v ap w 10 str] fmt(2)
    by (auto simp: emits_def skip_fmt_def)
next
  case (Ptr v)
  let ?s0 = "st\<lparr>pf_mem := strcpy (str + pf_pos st) [48, 120] (pf_mem st), pf_pos := pf_pos st + 2\<rparr>"
  let ?s = "?s0\<lparr>pf_pad_char := 48, pf_pad_count := 8\<rparr>"
  have f: "fmt = pre @ [37, 112] @ post" using fmt Ptr by (simp add: chr_codes)
  note len = num_str_hex_length [of v]
  have out: "item_out it = [48, 120] @ pad_left 48 8 (num_str 16 (sint v))" using Ptr by (simp add: chr_def)
  have r: "unat (str + pf_pos st) + 10 < 2 ^ 32" using room len by (simp add: out)
  have one: "emits str [48, 120] st ?s" using emits_strcpy [of str st "[48, 120]"] r by (simp add: emits_def)
  have p: "str + pf_pos ?s = str + pf_pos st + of_nat 2" by (simp add: ac_simps)
  have "unat (str + pf_pos ?s) + 8 < 2 ^ 32" unfolding p using addr_offset [of "str + pf_pos st" 2] r by simp
  then obtain s' where s': "print_num str 16 ?s = Some s'" "emits str (pad_left 48 8 (num_str 16 (sint v))) ?s s'"
      "pf_i s' = pf_i st" "pf_ap s' = ap"
    using print_num_pads [of ?s v ap 8 16 str] st Ptr len by auto
  have "emits str (item_out it) st s'" unfolding out using emits_append [OF one s'(2)] r len by simp
  then show ?thesis using ptr_step [OF f fmt(2), of str] s' fmt(2) Ptr by (simp add: skip_fmt_def emits_def)
qed (use ok(2) in \<open>simp_all add: wide_num_def\<close>)

lemma item_step:
  assumes fmt: "fmt = pre @ item_fmt it @ post" "pf_i st = length pre"
    and st: "plain_num it \<Longrightarrow> pf_pad_count st = 0" "pf_ap st = item_args it @ ap"
    and ok: "item_ok it" and room: "unat (str + pf_pos st) + length (item_out it) < 2 ^ 32"
  shows "\<exists>st'. vsnprintf_step fmt str st = Some st' \<and> emits str (item_out it) st st' \<and>
    pf_i st' = length (pre @ item_fmt it) \<and> (\<not> wide_num it \<longrightarrow> pf_pad_count st' = pf_pad_count st) \<and> pf_ap st' = ap"
  using plain_item_step [OF fmt st ok _ room] wide_item_step [OF fmt st(2) ok _ room] by blast

lemma items_loop:
  assumes "fmt = pre @ concat (map item_fmt its)" "pf_i st = length pre" "p \<or> pf_pad_count st = 0"
    "pf_ap st = concat (map item_args its)" "items_ok p its" "out = concat (map item_out its)"
    and room: "unat (pf_pos st) + length out < unat sz" "unat str + unat (pf_pos st) + length out < 2 ^ 32"
  shows "\<exists>st'. vsnprintf_loop fmt str sz st = Some st' \<and> emits str out st st'"
  using assms
proof (induction its arbitrary: pre st out p)
  case Nil
  then have "vsnprintf_loop fmt str sz st = Some st" by (subst vsnprintf_loop.simps) simp
  then show ?case using Nil by (simp add: same_outside_def emits_def)
next
  case (Cons it its)
  let ?o = "item_out it" and ?os = "concat (map item_out its)" and ?p = "str + pf_pos st"
  have out: "out = ?o @ ?os" using Cons by simp
  have p: "unat ?p = unat str + unat (pf_pos st)" using Cons.prems(8) by (intro unat_add_no_wrap) simp
  obtain s where s: "vsnprintf_step fmt str st = Some s" "emits str ?o st s" "pf_i s = length (pre @ item_fmt it)"
    "\<not> wide_num it \<longrightarrow> pf_pad_count s = pf_pad_count st" "pf_ap s = concat (map item_args its)"
    using item_step [of fmt pre it "concat (map item_fmt its)" st "concat (map item_args its)" str] Cons.prems out p by auto
  have q: "unat (pf_pos s) = unat (pf_pos st) + length ?o"
    using s(2) addr_offset [of "pf_pos st" "length ?o"] Cons.prems(8) out by (simp add: emits_def)
  obtain s' where s': "vsnprintf_loop fmt str sz s = Some s'" "emits str ?os s s'"
    using Cons.IH [of "pre @ item_fmt it" s "p \<or> wide_num it" ?os] s Cons.prems q out by auto
  have "item_fmt it \<noteq> []" by (cases it) auto
  then have "pf_i st < length fmt" using Cons.prems(1,2) by simp
  moreover have "pf_pos st < sz" using Cons.prems(7) unfolding word_less_nat_alt by simp
  ultimately have "vsnprintf_loop fmt str sz st = Some s'" using s(1) s'(1) by (subst vsnprintf_loop.simps) simp
  moreover have "emits str out st s'"
    unfolding out using s(2) s'(2) by (rule emits_append) (use p Cons.prems(8) out in simp)
  ultimately show ?case by blast
qed

lemma vsnprintf_items:
  assumes "items_ok False its" "out = concat (map item_out its)" "length out < unat sz" "unat str + length out < 2 ^ 32"
  shows "\<exists>m'. vsnprintf c0 str sz (concat (map item_fmt its)) (concat (map item_args its)) m = Some (of_nat (length out), m') \<and>
    bytes_at m' str (out @ [0]) \<and> same_outside (region str (Suc (length out))) m m'"
proof -
  let ?st = "\<lparr> pf_i = 0, pf_pos = 0, pf_pad_char = c0, pf_pad_count = 0, pf_mem = m, pf_ap = concat (map item_args its) \<rparr>"
  let ?q = "str + of_nat (length out)"
  obtain s where s: "vsnprintf_loop (concat (map item_fmt its)) str sz ?st = Some s" "pf_pos s = of_nat (length out)"
    "bytes_at (pf_mem s) str out" "same_outside (region str (Suc (length out))) m (pf_mem s)"
    using items_loop [of "concat (map item_fmt its)" "[]" its ?st False out sz str] assms by (auto simp: emits_def)
  have q: "?q \<notin> region str (length out)" "?q \<in> region str (Suc (length out))"
    using in_region [of str "length out" ?q] addr_offset [OF assms(4)] assms(4) by (auto simp: region_def)
  have "bytes_at ((pf_mem s)(?q := 0)) str out"
    by (rule bytes_at_same [OF _ s(3), of "{?q}"]) (use q in \<open>auto simp: same_outside_def\<close>)
  moreover have "same_outside (region str (Suc (length out))) m ((pf_mem s)(?q := 0))"
    using s(4) q(2) by (auto simp: same_outside_def)
  ultimately show ?thesis using s(1,2) by (simp add: vsnprintf_def bytes_at_append)
qed

text \<open>The string that printing such items leaves.\<close>

lemma pad_left_set: "set (pad_left c w s) \<subseteq> insert c (set s)"
  by (auto simp: pad_left_def)

lemma item_out_nonzero: "items_ok p its \<Longrightarrow> 0 \<notin> set (concat (map item_out its))"
proof (induction its arbitrary: p)
  case (Cons it its)
  have n: "0 \<notin> set (num_str 10 v)" "0 \<notin> set (num_str 16 v)" for v
    using num_str_nonzero [of 10] num_str_nonzero [of 16] by auto
  then have "0 \<notin> set (pad_left 32 w (num_str 10 v))" "0 \<notin> set (pad_left 48 w (num_str 16 v))" for v w
    using pad_left_set [of 32 w "num_str 10 v"] pad_left_set [of 48 w "num_str 16 v"] by auto
  with n have "0 \<notin> set (item_out it)" using Cons.prems by (cases it) (auto simp: chr_def)
  then show ?case using Cons by auto
qed simp

lemma vsnprintf_cstr:
  assumes "items_ok False its" "out = concat (map item_out its)" "length out < unat sz" "unat str + length out < 2 ^ 32"
  shows "\<exists>m'. vsnprintf c0 str sz (concat (map item_fmt its)) (concat (map item_args its)) m = Some (of_nat (length out), m') \<and>
    cstr m' str = Some out"
  using vsnprintf_items [OF assms, of c0 m] item_out_nonzero [OF assms(1)] assms(2) cstr_str by blast

section \<open>Properties\<close>

text \<open>
  C27. \<^verbatim>\<open>snprintf\<close> of a format whose output fits the buffer returns the length of the output and leaves there the
  concatenation of the ordinary characters, the strings, the pointers and the numbers in decimal or hexadecimal,
  padded with zeros or blanks to their widths, terminated by a zero; nothing outside the buffer is written. A number
  has to fit its width, and no number without a width follows one with a width.
\<close>

theorem snprintf_correct:
  assumes "items_ok False its" "out = concat (map item_out its)" "length out < unat sz" "unat str + length out < 2 ^ 32"
  shows "\<exists>m'. snprintf c0 str sz (concat (map item_fmt its)) (concat (map item_args its)) m = Some (of_nat (length out), m') \<and>
    bytes_at m' str (out @ [0]) \<and> same_outside (region str (Suc (length out))) m m'"
  using vsnprintf_items [OF assms, of c0 m] by (simp add: snprintf_def)

theorem snprintf_correct_witness:
  "\<exists>m'. snprintf 0 0x1000 16 (map chr ''a%s%08x'') [Arg_str (map chr ''bc''), Arg_int 0x1f] (\<lambda>_. 0) = Some (11, m') \<and>
    bytes_at m' 0x1000 (map chr ''abc0000001f'' @ [0])"
proof -
  have "digits 16 31 = [15, 1]" by (simp add: digits.simps [of 16 31] digits.simps [of 16 "Suc 0"])
  then have n: "num_str 16 31 = map chr ''1f''" by (simp add: num_str_def magnitude_def base36_def chr_def)
  have replicate6: "replicate 6 x = [x, x, x, x, x, x]" for x :: u8 by (simp add: numeral_eq_Suc)
  show ?thesis
    using snprintf_correct [of "[Lit (chr (CHR ''a'')), Str (map chr ''bc''), Zhex 0x1f]" _ 16 "0x1000" 0 "\<lambda>_. 0"]
    by (auto simp: n pad_left_def chr_def plain_num_def replicate6)
qed

section \<open>What the checks do not cover\<close>

text \<open>
  The size is compared with the position only before an item: a string argument is copied whole, whatever the size.
\<close>

lemma snprintf_ignores_size_inside_item:
  assumes "0 < sz"
  shows "\<exists>m'. snprintf c0 str sz (map chr ''%s'') [Arg_str s] m = Some (of_nat (length s), m') \<and>
    m' = (strcpy str s m)(str + of_nat (length s) := 0)"
proof -
  let ?st = "\<lparr> pf_i = 0, pf_pos = 0, pf_pad_char = c0, pf_pad_count = 0, pf_mem = m, pf_ap = [Arg_str s] \<rparr>"
  let ?st' = "\<lparr> pf_i = 2, pf_pos = of_nat (length s), pf_pad_char = c0, pf_pad_count = 0, pf_mem = strcpy str s m, pf_ap = [] \<rparr>"
  have f: "map chr ''%s'' = [] @ [37, 115] @ []" by (simp add: chr_codes)
  have "vsnprintf_step (map chr ''%s'') str ?st = Some ?st'"
    using conversion_step(1) [OF f, of ?st str] conversion_step(2) [OF f, of ?st] by (simp add: conversion_def chr_codes arg_str_def skip_fmt_def)
  moreover have "vsnprintf_loop (map chr ''%s'') str sz ?st' = Some ?st'" by (subst vsnprintf_loop.simps) simp
  ultimately have "vsnprintf_loop (map chr ''%s'') str sz ?st = Some ?st'"
    using assms by (subst vsnprintf_loop.simps) (simp add: word_gt_0)
  then show ?thesis by (simp add: snprintf_def vsnprintf_def)
qed

text \<open>
  With a field width the position advances by the width, even when the number is longer, and the rest of
  the width is kept as the width of the next number.
\<close>

lemma print_num_width:
  assumes "pf_ap st = Arg_int v # ap" "pf_pad_count st \<noteq> 0" "base = 10 \<or> base = 16"
  shows "\<exists>st'. print_num str base st = Some st' \<and> pf_pos st' = pf_pos st + word_of_int (pf_pad_count st) \<and>
    pf_pad_count st' = pf_pad_count st - int (length (num_str base (sint v)))"
proof -
  obtain b where "itoa_base (sint v) itoa_buf base (\<lambda>_. 0) = Some (Some itoa_buf, b)"
    "cstr b itoa_buf = Some (num_str base (sint v))" using assms(3) by (rule num_cstr)
  then show ?thesis using assms(1,2) by (simp add: print_num_def arg_int_def Let_def)
qed

end
