(* ===== verification/Cbuf.thy ===== *)
theory Cbuf
  imports Prelude "HOL-Library.Monad_Syntax"
begin

text \<open>
  The character buffer between the serial drivers and their readers: \<^verbatim>\<open>include/kernel/cbuf.h\<close>. The structure
  refines a bounded queue; the remainder by a length of zero is a fault. Nothing tells a full buffer from an empty
  one: the character that would fill the last place makes the buffer empty.
\<close>

section \<open>The code\<close>

record cbuf_info =
  cb_len :: u32
  pos_begin :: int
  pos_end :: int
  cb_buf :: "int \<Rightarrow> u8"

definition cbuf_init :: "(int \<Rightarrow> u8) \<Rightarrow> u32 \<Rightarrow> cbuf_info" where
  "cbuf_init b len = \<lparr> cb_len = len, pos_begin = 0, pos_end = 0, cb_buf = b \<rparr>"

text \<open>\<^verbatim>\<open>(pos + 1) % len\<close>: the position is converted to unsigned, and the result back to \<^verbatim>\<open>int\<close>.\<close>

definition advance :: "int \<Rightarrow> u32 \<Rightarrow> int option" where
  "advance pos len = (if len = 0 then None else Some (sint (word_of_int (pos + 1) mod len :: u32)))"

definition cbuf_getc :: "cbuf_info \<Rightarrow> (int \<times> u8 option \<times> cbuf_info) option" where
  "cbuf_getc cbuf =
     (if pos_begin cbuf = pos_end cbuf then Some (0, None, cbuf)
      else do {
        let c = cb_buf cbuf (pos_begin cbuf);
        p \<leftarrow> advance (pos_begin cbuf) (cb_len cbuf);
        Some (1, Some c, cbuf\<lparr>pos_begin := p\<rparr>) })"

definition cbuf_putc :: "u8 \<Rightarrow> cbuf_info \<Rightarrow> (int \<times> cbuf_info) option" where
  "cbuf_putc c cbuf = do {
     let b = (cb_buf cbuf)(pos_end cbuf := c);
     p \<leftarrow> advance (pos_end cbuf) (cb_len cbuf);
     Some (0, cbuf\<lparr>cb_buf := b, pos_end := p\<rparr>) }"

section \<open>The queue it holds\<close>

definition cbuf_rep :: "cbuf_info \<Rightarrow> u8 list \<Rightarrow> bool" where
  "cbuf_rep c q \<longleftrightarrow> (\<exists>n b. unat (cb_len c) = n \<and> 0 < n \<and> n < 2 ^ 31 \<and> b < n \<and> length q < n \<and>
     pos_begin c = int b \<and> pos_end c = int ((b + length q) mod n) \<and>
     (\<forall>i<length q. cb_buf c (int ((b + i) mod n)) = q ! i))"

lemma advance_mod:
  assumes "unat len = n" "0 < n" "n < 2 ^ 31" "p < n"
  shows "advance (int p) len = Some (int ((p + 1) mod n))"
proof -
  have "len \<noteq> 0" using assms by auto
  moreover have "unat (word_of_int (int p + 1) mod len) = (p + 1) mod n"
  proof -
    have "word_of_int (int p + 1) = (of_nat (p + 1) :: u32)" by simp
    moreover have "unat (of_nat (p + 1) :: u32) = p + 1" using assms by (intro unat_of_nat_small) simp
    ultimately show ?thesis using assms(1) by (simp only: unat_mod)
  qed
  then have u: "uint (word_of_int (int p + 1) mod len) = int ((p + 1) mod n)" by (metis uint_nat)
  have "(p + 1) mod n < 2 ^ 31" using assms by (meson mod_less_divisor order_less_trans)
  then have "sint (word_of_int (int p + 1) mod len) = int ((p + 1) mod n)"
    using u by (simp add: sint_uint signed_take_bit_int_eq_self)
  ultimately show ?thesis by (simp add: advance_def)
qed

lemma mod_wrap_eq:
  fixes b n i j :: nat
  assumes "i < n" "j < n"
  shows "(b + i) mod n = (b + j) mod n \<longleftrightarrow> i = j"
proof -
  have "i = j" if "(b + i) mod n = (b + j) mod n" "i \<le> j" "j < n" for i j
  proof -
    have "n dvd j - i" using that mod_eq_dvd_iff_nat [of "b + i" "b + j" n] by simp
    then show ?thesis using that by (auto dest: dvd_imp_le)
  qed
  then show ?thesis using assms by (metis nle_le)
qed

lemma cbuf_repE:
  assumes "cbuf_rep c q"
  obtains n b where "unat (cb_len c) = n" "0 < n" "n < 2 ^ 31" "b < n" "length q < n"
    "pos_begin c = int b" "pos_end c = int ((b + length q) mod n)" "\<forall>i<length q. cb_buf c (int ((b + i) mod n)) = q ! i"
  using assms by (auto simp: cbuf_rep_def)

lemma cbuf_rep_empty: "cbuf_rep c q \<Longrightarrow> pos_begin c = pos_end c \<longleftrightarrow> q = []"
proof (elim cbuf_repE)
  fix n b
  assume "b < n" "length q < n" "pos_begin c = int b" "pos_end c = int ((b + length q) mod n)"
  then show ?thesis using mod_wrap_eq [of 0 n "length q" b] by auto
qed

lemma cbuf_getc_rep:
  assumes "cbuf_rep c (x # xs)"
  shows "\<exists>c'. cbuf_getc c = Some (1, Some x, c') \<and> cbuf_rep c' xs \<and> cb_len c' = cb_len c"
proof -
  from assms obtain n b where c: "unat (cb_len c) = n" "0 < n" "n < 2 ^ 31" "b < n" "length (x # xs) < n"
    "pos_begin c = int b" "pos_end c = int ((b + length (x # xs)) mod n)"
    "\<forall>i<length (x # xs). cb_buf c (int ((b + i) mod n)) = (x # xs) ! i"
    by (rule cbuf_repE)
  have "cb_buf c (int b) = x" using c(4,8) by (auto dest: spec [of _ 0])
  moreover have "advance (int b) (cb_len c) = Some (int ((b + 1) mod n))" by (rule advance_mod [OF c(1-4)])
  moreover have "((b + 1) mod n + i) mod n = (b + Suc i) mod n" for i by (simp add: mod_add_left_eq)
  then have "cbuf_rep (c\<lparr>pos_begin := int ((b + 1) mod n)\<rparr>) xs"
    using c unfolding cbuf_rep_def by (intro exI [of _ n] exI [of _ "(b + 1) mod n"]) (auto dest: spec [of _ "Suc _"])
  ultimately show ?thesis using cbuf_rep_empty [OF assms] c(6) by (simp add: cbuf_getc_def)
qed

lemma cbuf_putc_rep:
  assumes "cbuf_rep c q"
  shows "\<exists>c'. cbuf_putc x c = Some (0, c') \<and> cb_len c' = cb_len c \<and>
    cbuf_rep c' (if Suc (length q) < unat (cb_len c) then q @ [x] else [])"
proof -
  from assms obtain n b where c: "unat (cb_len c) = n" "0 < n" "n < 2 ^ 31" "b < n" "length q < n"
    "pos_begin c = int b" "pos_end c = int ((b + length q) mod n)" "\<forall>i<length q. cb_buf c (int ((b + i) mod n)) = q ! i"
    by (rule cbuf_repE)
  let ?e = "(b + length q) mod n"
  have e: "?e < n" using c(2) by simp
  have adv: "advance (pos_end c) (cb_len c) = Some (int ((?e + 1) mod n))"
    using advance_mod [OF c(1-3) e] c(7) by simp
  let ?c = "c\<lparr>cb_buf := (cb_buf c)(pos_end c := x), pos_end := int ((?e + 1) mod n)\<rparr>"
  have sum: "(?e + 1) mod n = (b + Suc (length q)) mod n" by (simp add: mod_add_left_eq mod_Suc_eq)
  have "cbuf_rep ?c (if Suc (length q) < n then q @ [x] else [])"
  proof (cases "Suc (length q) < n")
    case True
    have "int ((b + i) mod n) \<noteq> pos_end c" if "i < length q" for i
      using that c(5,7) mod_wrap_eq [of i n "length q" b] by simp
    then show ?thesis using True c sum unfolding cbuf_rep_def
      by (intro exI [of _ n] exI [of _ b]) (auto simp: nth_append less_Suc_eq)
  next
    case False
    then have "Suc (length q) = n" using c(5) by simp
    then have "(?e + 1) mod n = b" using sum c(4) by simp
    then show ?thesis using False c unfolding cbuf_rep_def by (intro exI [of _ n] exI [of _ b]) auto
  qed
  then show ?thesis using adv c(1) by (auto simp: cbuf_putc_def)
qed

section \<open>Properties\<close>

text \<open>
  The buffer refines a queue of fewer characters than its length: \<^verbatim>\<open>cbuf_getc\<close> of an empty queue returns 0, and
  otherwise 1 and the oldest character; \<^verbatim>\<open>cbuf_putc\<close> appends the character while there is room, and
  empties the queue when it would become full.
\<close>

lemma cbuf_refines:
  assumes "cbuf_rep c q"
  shows "(case q of [] \<Rightarrow> cbuf_getc c = Some (0, None, c)
      | x # xs \<Rightarrow> \<exists>c'. cbuf_getc c = Some (1, Some x, c') \<and> cbuf_rep c' xs) \<and>
    (\<exists>c'. cbuf_putc x c = Some (0, c') \<and> cbuf_rep c' (if Suc (length q) < unat (cb_len c) then q @ [x] else []))"
proof (cases q)
  case Nil
  then show ?thesis using cbuf_rep_empty [OF assms] cbuf_putc_rep [OF assms, of x] by (auto simp: cbuf_getc_def)
next
  case (Cons y ys)
  then show ?thesis using cbuf_getc_rep [of c y ys] cbuf_putc_rep [OF assms, of x] assms by auto
qed

lemma cbuf_refines_witness:
  "cbuf_getc (cbuf_init (\<lambda>_. 0) 4) = Some (0, None, cbuf_init (\<lambda>_. 0) 4) \<and>
    (\<exists>c'. cbuf_putc 65 (cbuf_init (\<lambda>_. 0) 4) = Some (0, c') \<and> cbuf_rep c' [65])"
proof -
  have "cbuf_rep (cbuf_init (\<lambda>_. 0) 4) []" by (simp add: cbuf_rep_def cbuf_init_def)
  from cbuf_refines [OF this, of 65] show ?thesis by (simp add: cbuf_init_def)
qed

end
