(* ===== verification/Mtd.thy ===== *)
theory Mtd
  imports Libc_String
begin

text \<open>
  Memory devices: \<^verbatim>\<open>drivers/mtd/mtdcore.c\<close> and \<^verbatim>\<open>drivers/mtd/mtdram.c\<close>. A device is an \<^verbatim>\<open>mtd_info\<close>; its function
  pointers are set together by the only driver, so they are one field, which says whether they are set. Calling
  a pointer that is not set is a fault. What the callback of an erase request does is a parameter.
\<close>

section \<open>Data\<close>

datatype mtd_driver = Mtdram

record mtd_info =
  mtd_flags :: u32
  mtd_size :: u32
  mtd_erasesize :: u32
  mtd_name :: "u8 list"
  mtd_driver :: "mtd_driver option"
  mtd_priv :: addr

record erase_info =
  ei_addr :: u32
  ei_len :: u32
  ei_fail_addr :: u32
  ei_callback :: u32
  ei_state :: u8

definition MTD_ERASE_DONE :: u8 where "MTD_ERASE_DONE = push_bit 3 1"
definition MTD_FAIL_ADDR_UNKNOWN :: u32 where "MTD_FAIL_ADDR_UNKNOWN = - 1"
definition MTD_WRITEABLE :: u32 where "MTD_WRITEABLE = 0x400"
definition SIZE_1KB :: u32 where "SIZE_1KB = 1024"


section \<open>The RAM device\<close>

definition mtd_erase_callback :: "(u32 \<Rightarrow> erase_info \<Rightarrow> erase_info) \<Rightarrow> erase_info \<Rightarrow> erase_info" where
  "mtd_erase_callback cb instr = (if ei_callback instr \<noteq> 0 then cb (ei_callback instr) instr else instr)"

definition mtdram_erase ::
    "(u32 \<Rightarrow> erase_info \<Rightarrow> erase_info) \<Rightarrow> mtd_info \<Rightarrow> erase_info \<Rightarrow> bytes \<Rightarrow> int \<times> erase_info \<times> bytes" where
  "mtdram_erase cb mtd instr m =
     (let m = store_bytes (mtd_priv mtd + ei_addr instr) (replicate (unat (ei_len instr)) 0xff) m;
          instr = instr\<lparr>ei_state := MTD_ERASE_DONE\<rparr>
      in (0, mtd_erase_callback cb instr, m))"

text \<open>The results are the return value, the length and the address.\<close>

definition mtdram_point :: "mtd_info \<Rightarrow> int \<Rightarrow> u32 \<Rightarrow> int \<times> u32 \<times> addr" where
  "mtdram_point mtd from len = (0, len, mtd_priv mtd + word_of_int from)"

definition mtdram_unpoint :: "mtd_info \<Rightarrow> int \<Rightarrow> u32 \<Rightarrow> int" where
  "mtdram_unpoint mtd from len = 0"

definition mtdram_write :: "mtd_info \<Rightarrow> int \<Rightarrow> u32 \<Rightarrow> addr \<Rightarrow> bytes \<Rightarrow> int \<times> u32 \<times> bytes" where
  "mtdram_write mtd to len buf m =
     (0, len, store_bytes (mtd_priv mtd + word_of_int to) (load_bytes buf (unat len) m) m)"

definition mtdram_read :: "mtd_info \<Rightarrow> int \<Rightarrow> u32 \<Rightarrow> addr \<Rightarrow> bytes \<Rightarrow> int \<times> u32 \<times> bytes" where
  "mtdram_read mtd from len buf m =
     (0, len, store_bytes buf (load_bytes (mtd_priv mtd + word_of_int from) (unat len) m) m)"

definition mtdram_init_device :: "mtd_info \<Rightarrow> addr \<Rightarrow> u32 \<Rightarrow> u8 list \<Rightarrow> int \<times> mtd_info" where
  "mtdram_init_device mtd mapped_address sz name =
     (if sz mod SIZE_1KB \<noteq> 0 then (- 1, mtd)
      else (0, mtd\<lparr>mtd_name := name, mtd_size := sz, mtd_erasesize := SIZE_1KB, mtd_priv := mapped_address,
                   mtd_driver := Some Mtdram\<rparr>))"

section \<open>The core\<close>

definition mtd_erase ::
    "(u32 \<Rightarrow> erase_info \<Rightarrow> erase_info) \<Rightarrow> mtd_info \<Rightarrow> erase_info \<Rightarrow> bytes \<Rightarrow> (int \<times> erase_info \<times> bytes) option" where
  "mtd_erase cb mtd instr m =
     (if ei_addr instr \<ge> mtd_size mtd \<or> ei_len instr > mtd_size mtd - ei_addr instr then Some (- EINVAL, instr, m)
      else if mtd_flags mtd AND MTD_WRITEABLE = 0 then Some (- EROFS, instr, m)
      else let instr = instr\<lparr>ei_fail_addr := MTD_FAIL_ADDR_UNKNOWN\<rparr>
           in if ei_len instr = 0 then Some (0, mtd_erase_callback cb (instr\<lparr>ei_state := MTD_ERASE_DONE\<rparr>), m)
              else do { d \<leftarrow> mtd_driver mtd; Some (mtdram_erase cb mtd instr m) })"

text \<open>The range check the other operations share: a negative offset, or a range that does not fit.\<close>

definition bad_range :: "mtd_info \<Rightarrow> int \<Rightarrow> u32 \<Rightarrow> bool" where
  "bad_range mtd from len \<longleftrightarrow> from < 0 \<or> word_of_int from \<ge> mtd_size mtd \<or> len > mtd_size mtd - word_of_int from"

definition mtd_point :: "mtd_info \<Rightarrow> int \<Rightarrow> u32 \<Rightarrow> int \<times> u32 \<times> addr" where
  "mtd_point mtd from len =
     (if mtd_driver mtd = None then (- 1, 0, 0)
      else if bad_range mtd from len then (- EINVAL, 0, 0)
      else if len = 0 then (0, 0, 0)
      else mtdram_point mtd from len)"

definition mtd_read :: "mtd_info \<Rightarrow> int \<Rightarrow> u32 \<Rightarrow> addr \<Rightarrow> bytes \<Rightarrow> (int \<times> u32 \<times> bytes) option" where
  "mtd_read mtd from len buf m =
     (if bad_range mtd from len then Some (- EINVAL, 0, m)
      else if len = 0 then Some (0, 0, m)
      else do { d \<leftarrow> mtd_driver mtd; Some (mtdram_read mtd from len buf m) })"

definition mtd_write :: "mtd_info \<Rightarrow> int \<Rightarrow> u32 \<Rightarrow> addr \<Rightarrow> bytes \<Rightarrow> (int \<times> u32 \<times> bytes) option" where
  "mtd_write mtd to len buf m =
     (if bad_range mtd to len then Some (- EINVAL, 0, m)
      else if len = 0 then Some (0, 0, m)
      else do { d \<leftarrow> mtd_driver mtd; Some (mtdram_write mtd to len buf m) })"

section \<open>Ranges\<close>

text \<open>A device that is set up and lies inside the address space.\<close>

definition mtd_ok :: "mtd_info \<Rightarrow> bool" where
  "mtd_ok mtd \<longleftrightarrow> mtd_driver mtd = Some Mtdram \<and> unat (mtd_priv mtd) + unat (mtd_size mtd) \<le> 2 ^ 32"

definition mtd_region :: "mtd_info \<Rightarrow> addr set" where
  "mtd_region mtd = region (mtd_priv mtd) (unat (mtd_size mtd))"

lemma bad_range_iff:
  assumes "- (2 ^ 31) \<le> from" "from < 2 ^ 31"
  shows "bad_range mtd from len \<longleftrightarrow> \<not> (0 \<le> from \<and> nat from < unat (mtd_size mtd) \<and> nat from + unat len \<le> unat (mtd_size mtd))"
proof (cases "from < 0")
  case False
  define f where "f = nat from"
  have f: "from = int f" "f < 2 ^ 31" using False assms by (auto simp: f_def)
  have u: "unat (word_of_int from :: u32) = f" using f by (simp add: unat_of_nat_small)
  have "len > mtd_size mtd - word_of_int from \<longleftrightarrow> unat (mtd_size mtd) - f < unat len" if "f < unat (mtd_size mtd)"
    using that u by (simp add: word_less_nat_alt unat_sub word_le_nat_alt)
  moreover have "word_of_int from \<ge> mtd_size mtd \<longleftrightarrow> unat (mtd_size mtd) \<le> f" using u by (simp add: word_le_nat_alt)
  ultimately have "bad_range mtd from len \<longleftrightarrow> unat (mtd_size mtd) \<le> f \<or> unat (mtd_size mtd) - f < unat len"
    using f(1) by (cases "f < unat (mtd_size mtd)") (auto simp: bad_range_def)
  then show ?thesis using f(1) by auto
qed (simp add: bad_range_def)

lemma device_range:
  assumes ok: "mtd_ok mtd" and r: "\<not> bad_range mtd to len" "to < 2 ^ 31"
  shows "unat (mtd_priv mtd + word_of_int to) = unat (mtd_priv mtd) + nat to"
    "unat (mtd_priv mtd) + nat to + unat len \<le> unat (mtd_priv mtd) + unat (mtd_size mtd)"
    "region (mtd_priv mtd + word_of_int to) (unat len) \<subseteq> mtd_region mtd"
proof -
  have to: "0 \<le> to" using r by (simp add: bad_range_def)
  then have b: "nat to < unat (mtd_size mtd)" "nat to + unat len \<le> unat (mtd_size mtd)"
    using bad_range_iff [of to mtd len] r by auto
  have "to = int (nat to)" using to by simp
  then have w: "word_of_int to = (of_nat (nat to) :: u32)" by (metis of_int_of_nat_eq)
  show a: "unat (mtd_priv mtd + word_of_int to) = unat (mtd_priv mtd) + nat to"
    unfolding w using ok b by (intro addr_offset) (simp add: mtd_ok_def)
  show e: "unat (mtd_priv mtd) + nat to + unat len \<le> unat (mtd_priv mtd) + unat (mtd_size mtd)" using b by simp
  show "region (mtd_priv mtd + word_of_int to) (unat len) \<subseteq> mtd_region mtd"
  proof
    fix x assume "x \<in> region (mtd_priv mtd + word_of_int to) (unat len)"
    then have "unat (mtd_priv mtd) + nat to \<le> unat x" "unat x < unat (mtd_priv mtd) + nat to + unat len"
      using in_region [of "mtd_priv mtd + word_of_int to" "unat len"] a e ok by (auto simp: mtd_ok_def)
    then show "x \<in> mtd_region mtd" using in_region [of "mtd_priv mtd" "unat (mtd_size mtd)" x] e ok
      by (auto simp: mtd_region_def mtd_ok_def)
  qed
qed

section \<open>Properties\<close>


definition demo_mtd :: mtd_info where
  "demo_mtd = snd (mtdram_init_device \<lparr> mtd_flags = 0, mtd_size = 0, mtd_erasesize = 0, mtd_name = [], mtd_driver = None,
     mtd_priv = 0 \<rparr> 0x20000000 2048 [])"

lemma demo_mtd_fields [simp]:
  "mtd_priv demo_mtd = 0x20000000" "mtd_size demo_mtd = 2048" "mtd_ok demo_mtd"
  by (simp_all add: demo_mtd_def mtdram_init_device_def SIZE_1KB_def mtd_ok_def)


text \<open>
  What was written to a device is read back: after writing from one buffer and reading the same range into
  another one, both outside the device, the second buffer holds the bytes of the first; no other byte has changed
  apart from the range on the device.
\<close>

lemma mtd_write_read:
  assumes ok: "mtd_ok mtd" and to: "0 \<le> to" "nat to < unat (mtd_size mtd)" "nat to + unat len \<le> unat (mtd_size mtd)" "to < 2 ^ 31"
    and buf: "unat b2 + unat len \<le> 2 ^ 32" "region b2 (unat len) \<inter> mtd_region mtd = {}"
      "region b1 (unat len) \<inter> mtd_region mtd = {}"
  shows "\<exists>m1 m2. mtd_write mtd to len b1 m = Some (0, len, m1) \<and> mtd_read mtd to len b2 m1 = Some (0, len, m2) \<and>
    load_bytes b2 (unat len) m2 = load_bytes b1 (unat len) m \<and>
    same_outside (region (mtd_priv mtd + word_of_int to) (unat len) \<union> region b2 (unat len)) m m2"
proof (cases "len = 0")
  case True
  then show ?thesis using bad_range_iff [of to mtd 0] to
    by (auto simp: mtd_write_def mtd_read_def same_outside_def load_bytes_def)
next
  case False
  let ?d = "mtd_priv mtd + word_of_int to" and ?xs = "load_bytes b1 (unat len) m"
  have r: "\<not> bad_range mtd to len" using bad_range_iff [of to mtd len] to by auto
  note dr = device_range [OF ok r to(4)]
  let ?m1 = "store_bytes ?d ?xs m"
  let ?ys = "load_bytes ?d (unat len) ?m1"
  let ?m2 = "store_bytes b2 ?ys ?m1"
  have "mtd_write mtd to len b1 m = Some (0, len, ?m1)" "mtd_read mtd to len b2 ?m1 = Some (0, len, ?m2)"
    using r False ok by (simp_all add: mtd_write_def mtd_read_def mtdram_write_def mtdram_read_def mtd_ok_def)
  moreover have "?ys = ?xs" using load_store_same [of ?d ?xs m] dr(1,2) ok by (simp add: mtd_ok_def)
  then have "load_bytes b2 (unat len) ?m2 = ?xs" using load_store_same [of b2 ?ys ?m1] buf(1) by simp
  moreover have "same_outside (region ?d (unat len) \<union> region b2 (unat len)) m ?m2"
    using same_outside_trans [OF store_bytes_same [of ?d ?xs m] store_bytes_same [of b2 ?ys ?m1]] by simp
  ultimately show ?thesis by blast
qed

lemma mtd_write_read_witness:
  "\<exists>m1 m2. mtd_write demo_mtd 16 4 0x1000 (\<lambda>a. if a = 0x1000 then 65 else 0) = Some (0, 4, m1) \<and>
    mtd_read demo_mtd 16 4 0x2000 m1 = Some (0, 4, m2) \<and>
    load_bytes 0x2000 4 m2 = load_bytes 0x1000 4 (\<lambda>a. if a = 0x1000 then 65 else 0)"
proof -
  have "region a 4 \<inter> mtd_region demo_mtd = {}" if "unat a + 4 \<le> 0x20000000" for a
    using that in_region [of a 4] in_region [of "0x20000000" 2048] by (auto simp: mtd_region_def)
  from this [of "0x1000"] this [of "0x2000"] show ?thesis
    using mtd_write_read [of demo_mtd 16 4 "0x2000" "0x1000" "\<lambda>a. if a = 0x1000 then 65 else 0"] by auto
qed

text \<open>
  A device set up by \<^verbatim>\<open>mtdram_init_device\<close> from a cleared structure, as \<^verbatim>\<open>mtdram_init\<close> does, is never writeable for an
  erase, although it can be written.
\<close>

lemma mtdram_never_erases:
  assumes "mtd_flags mtd = 0" "mtdram_init_device mtd a sz nm = (0, mtd')" "ei_addr instr < sz" "ei_len instr \<le> sz - ei_addr instr"
  shows "mtd_erase cb mtd' instr m = Some (- EROFS, instr, m)"
  using assms by (auto simp: mtdram_init_device_def mtd_erase_def split: if_splits)

end
