(* ===== verification/Fs_State.thy ===== *)
theory Fs_State
  imports Task Printf Mtd
begin

text \<open>
  The data of the file system: \<^verbatim>\<open>include/kernel/fs.h\<close> and the structures of the file systems and drivers behind it.
  A table of operations is a value of a datatype, and calling through it is a case distinction. Structures are named
  by their addresses; the bytes of user buffers and of memory devices are one memory. The addresses the linker and the
  compiler choose are the record \<open>fsyms\<close>: static inodes, the root dentry, the version text, and the local variable
  \<^verbatim>\<open>offset\<close> of \<^verbatim>\<open>sys_write\<close>, whose address is passed to the drivers.

  Strings are lists of bytes without the terminating zero. Writing outside an array, an index outside
  the table of open files, and a call through a NULL pointer are faults.
\<close>

datatype iops = Tmpfs_iops | Romfs_iops

datatype fops = Tmpfs_fops | Romfs_fops | Mtdchar_fops | Mem_fops | Null_fops | Zero_fops | Random_fops
  | Version_fops | Meminfo_fops

datatype dops = Tmpfs_dops | Romfs_dops

record inode =
  i_mode :: u16
  i_ino :: u32
  i_size :: int
  i_op :: iops
  i_fop :: "fops option"
  i_sb :: addr
  i_private :: u32

record dentry =
  d_count :: int
  d_inode :: addr
  d_op :: dops
  d_parent :: addr
  d_name :: "u8 list"

record fdesc =
  f_dentry :: addr
  f_op :: "fops option"
  f_pos :: int
  f_private :: u32

record dirlist =
  dl_inode :: addr
  dl_name :: "u8 list"

record super_block =
  s_private :: addr
  s_iroot :: addr

text \<open>The state of the random device: the generator's words and index, the last word and its unused bytes.\<close>

record random_state =
  rnd_s :: "u64 list"
  rnd_p :: nat
  rnd_m :: u64
  rnd_remaining :: int

datatype fnode = DirHead addr | DirEnt addr

record fsyms =
  root_inode :: addr
  dev_inode :: addr
  proc_inode :: addr
  root_dentry :: addr
  version_ptr :: addr
  version_len :: int
  write_offset :: addr

record fstate =
  fps :: pstate
  inodes :: "addr \<Rightarrow> inode"
  dentries :: "addr \<Rightarrow> dentry"
  files :: "addr \<Rightarrow> nat \<Rightarrow> fdesc"
  dirents :: "addr \<Rightarrow> dirlist"
  sblocks :: "addr \<Rightarrow> super_block"
  mtds :: "addr \<Rightarrow> mtd_info"
  flinks :: "fnode links"
  fmem :: bytes
  ferrno :: int
  tmpfs_ino :: u32
  romfs_ino :: u32
  rnd :: random_state

definition NAME_MAX :: nat where "NAME_MAX = 32"
definition FILE_MAX :: nat where "FILE_MAX = 8"
definition O_DIRECTORY :: u32 where "O_DIRECTORY = 1"

definition S_IFMT :: u16 where "S_IFMT = 0xf000"
definition S_IFDIR :: u16 where "S_IFDIR = 0x4000"
definition S_IFREG :: u16 where "S_IFREG = 0x8000"
definition S_IFLNK :: u16 where "S_IFLNK = 0xa000"
definition S_IFBLK :: u16 where "S_IFBLK = 0x6000"
definition S_IFCHR :: u16 where "S_IFCHR = 0x2000"
definition S_IFIFO :: u16 where "S_IFIFO = 0x1000"

definition S_ISDIR :: "u16 \<Rightarrow> bool" where "S_ISDIR m \<longleftrightarrow> m AND S_IFMT = S_IFDIR"

definition sizeof_inode :: u32 where "sizeof_inode = 40"
definition sizeof_dentry :: u32 where "sizeof_dentry = 48"
definition sizeof_dirlist :: u32 where "sizeof_dirlist = 44"
definition sizeof_super_block :: u32 where "sizeof_super_block = 8"

definition fs_malloc :: "u32 \<Rightarrow> fstate \<Rightarrow> (addr option \<times> fstate) option" where
  "fs_malloc n st = do {
     (p, h) \<leftarrow> malloc n (kheap (fps st));
     Some (p, st\<lparr>fps := (fps st)\<lparr>kheap := h\<rparr>\<rparr>) }"

definition fs_free :: "addr \<Rightarrow> fstate \<Rightarrow> fstate option" where
  "fs_free p st = do { h \<leftarrow> free p (kheap (fps st)); Some (st\<lparr>fps := (fps st)\<lparr>kheap := h\<rparr>\<rparr>) }"

definition fs_task :: "fstate \<Rightarrow> addr" where
  "fs_task st = current_task_info (fps st)"

end
