(* ===== verification/Tmpfs.thy ===== *)
theory Tmpfs
  imports Fs_State
begin

text \<open>
  The file system in memory: \<^verbatim>\<open>fs/tmpfs.c\<close>. A directory is an inode whose private pointer is the head of the list
  of its entries. Reading a directory with \<^verbatim>\<open>tmpfs_iterate\<close> passes an entry to the function that fills the caller's
  structure; the entry is a result of the definition. A lookup returns the inode and the operations it stores in
  the target dentry.
\<close>

section \<open>The code\<close>

definition tmpfs_mkdir :: "addr \<Rightarrow> addr \<Rightarrow> u16 \<Rightarrow> fstate \<Rightarrow> (int \<times> fstate) option" where
  "tmpfs_mkdir dir dentry mode st = do {
     let st = st\<lparr>inodes := (inodes st)(dir := (inodes st dir)\<lparr>i_mode := mode OR S_IFDIR\<rparr>),
                 dentries := (dentries st)(dentry := (dentries st dentry)\<lparr>d_inode := dir\<rparr>)\<rparr>;
     l \<leftarrow> INIT_LIST_HEAD (flinks st) (Node (DirHead (i_private (inodes st dir))));
     Some (0, st\<lparr>flinks := l\<rparr>) }"

definition tmpfs_link :: "addr \<Rightarrow> addr \<Rightarrow> u8 list \<Rightarrow> fstate \<Rightarrow> (int \<times> fstate) option" where
  "tmpfs_link dir target_inode name st = do {
     (new, st) \<leftarrow> fs_malloc sizeof_dirlist st;
     (case new of
        None \<Rightarrow> Some (- 1, st)
      | Some new \<Rightarrow> do {
          let st = st\<lparr>dirents := (dirents st)(new := \<lparr>dl_inode = target_inode, dl_name = take NAME_MAX name\<rparr>)\<rparr>;
          l \<leftarrow> list_add_tail (flinks st) (Node (DirEnt new)) (Node (DirHead (i_private (inodes st dir))));
          Some (0, st\<lparr>flinks := l, inodes := (inodes st)(dir := (inodes st dir)\<lparr>i_size := i_size (inodes st dir) + 1\<rparr>)\<rparr>) }) }"

text \<open>The walk over the entries, counting from \<open>i\<close>, to the one at position \<open>pos\<close>.\<close>

partial_function (option) dir_walk :: "fnode links \<Rightarrow> fnode link \<Rightarrow> int \<Rightarrow> int \<Rightarrow> fnode link \<Rightarrow> addr option option" where
  "dir_walk h head i pos p =
     (if p = head then Some None
      else case p of
        Node (DirEnt e) \<Rightarrow> if i = pos then Some (Some e) else do { n \<leftarrow> rd_next h p; dir_walk h head (i + 1) pos n }
      | _ \<Rightarrow> None)"

definition set_f_pos :: "addr \<Rightarrow> nat \<Rightarrow> int \<Rightarrow> fstate \<Rightarrow> fstate" where
  "set_f_pos task fd v st = st\<lparr>files := (files st)(task := (files st task)(fd := (files st task fd)\<lparr>f_pos := v\<rparr>))\<rparr>"

text \<open>What the function behind \<^verbatim>\<open>ctx->actor\<close> receives: the inode number and the name.\<close>

definition dir_emit :: "u8 list \<Rightarrow> u32 \<Rightarrow> u32 \<times> u8 list" where
  "dir_emit name ino = (ino, name)"

definition dir_emit_dot :: "fdesc \<Rightarrow> fstate \<Rightarrow> u32 \<times> u8 list" where
  "dir_emit_dot fl st = (i_ino (inodes st (d_inode (dentries st (f_dentry fl)))), map chr ''.'')"

definition dir_emit_dotdot :: "fdesc \<Rightarrow> fstate \<Rightarrow> u32 \<times> u8 list" where
  "dir_emit_dotdot fl st = (i_ino (inodes st (d_inode (dentries st (d_parent (dentries st (f_dentry fl)))))), map chr ''..'')"

definition tmpfs_iterate :: "addr \<Rightarrow> nat \<Rightarrow> fstate \<Rightarrow> (int \<times> (u32 \<times> u8 list) option \<times> fstate) option" where
  "tmpfs_iterate task fd st = do {
     let fl = files st task fd;
     let ino = inodes st (d_inode (dentries st (f_dentry fl)));
     if f_pos fl = i_size ino + 2 then Some (- 1, None, st)
     else do {
       r \<leftarrow> (if f_pos fl = 0 then Some (Some (dir_emit_dot fl st))
             else if f_pos fl = 1 then Some (Some (dir_emit_dotdot fl st))
             else do {
               first \<leftarrow> rd_next (flinks st) (Node (DirHead (i_private ino)));
               e \<leftarrow> dir_walk (flinks st) (Node (DirHead (i_private ino))) 2 (f_pos fl) first;
               Some (map_option (\<lambda>e. dir_emit (dl_name (dirents st e)) (i_ino (inodes st (dl_inode (dirents st e))))) e) });
       Some (if r = None then - 1 else 0, r, set_f_pos task fd (f_pos fl + 1) st) } }"

definition has_name :: "fstate \<Rightarrow> u8 list \<Rightarrow> fnode \<Rightarrow> bool" where
  "has_name st name n = (case n of DirEnt e \<Rightarrow> dl_name (dirents st e) = name | DirHead _ \<Rightarrow> False)"

definition tmpfs_lookup :: "addr \<Rightarrow> u8 list \<Rightarrow> fstate \<Rightarrow> (addr \<times> dops) option option" where
  "tmpfs_lookup dir name st = do {
     r \<leftarrow> list_for_each_entry_find (flinks st) (has_name st name) (Node (DirHead (i_private (inodes st dir))));
     (case r of
        Some (DirEnt e) \<Rightarrow> Some (Some (dl_inode (dirents st e), Tmpfs_dops))
      | Some (DirHead _) \<Rightarrow> None
      | None \<Rightarrow> Some None) }"

definition tmpfs_delete :: "addr \<Rightarrow> fstate \<Rightarrow> (int \<times> fstate) option" where
  "tmpfs_delete dentry st = do { st \<leftarrow> fs_free dentry st; Some (0, st) }"

definition tmpfs_inodes :: "nat \<Rightarrow> addr \<Rightarrow> inode" where
  "tmpfs_inodes i priv = \<lparr> i_mode = S_IFDIR, i_ino = of_nat i + 1, i_size = (if i = 0 then 2 else 0), i_op = Tmpfs_iops,
     i_fop = Some Tmpfs_fops, i_sb = 0, i_private = priv \<rparr>"

definition root_dentry_init :: "fsyms \<Rightarrow> dentry" where
  "root_dentry_init sy = \<lparr> d_count = 0, d_inode = root_inode sy, d_op = Tmpfs_dops, d_parent = root_dentry sy,
     d_name = map chr ''/'' \<rparr>"

definition init_tmpfs_inode :: "addr \<Rightarrow> fstate \<Rightarrow> fstate" where
  "init_tmpfs_inode ino st =
     st\<lparr>inodes := (inodes st)(ino := (inodes st ino)\<lparr>i_ino := tmpfs_ino st, i_op := Tmpfs_iops\<rparr>),
        tmpfs_ino := tmpfs_ino st + 1\<rparr>"

text \<open>\<open>e0\<close> and \<open>e1\<close> are the addresses of the two static entries of the root directory.\<close>

definition tmpfs_init :: "fsyms \<Rightarrow> addr \<Rightarrow> addr \<Rightarrow> fstate \<Rightarrow> fstate option" where
  "tmpfs_init sy e0 e1 st = do {
     let st = st\<lparr>dirents := (dirents st)(e0 := \<lparr>dl_inode = dev_inode sy, dl_name = map chr ''dev''\<rparr>,
                                         e1 := \<lparr>dl_inode = proc_inode sy, dl_name = map chr ''proc''\<rparr>)\<rparr>;
     let rootdir = Node (DirHead (i_private (inodes st (root_inode sy))));
     l \<leftarrow> INIT_LIST_HEAD (flinks st) rootdir;
     l \<leftarrow> list_add_tail l (Node (DirEnt e0)) rootdir;
     l \<leftarrow> list_add_tail l (Node (DirEnt e1)) rootdir;
     l \<leftarrow> INIT_LIST_HEAD l (Node (DirHead (i_private (inodes st (dev_inode sy)))));
     l \<leftarrow> INIT_LIST_HEAD l (Node (DirHead (i_private (inodes st (proc_inode sy)))));
     Some (st\<lparr>flinks := l\<rparr>) }"

section \<open>Directories\<close>

text \<open>The entries of a directory, in order, as pairs of a name and an inode; the rings of the directories are \<open>Q\<close>.\<close>

definition dir_entries :: "fstate \<Rightarrow> addr list \<Rightarrow> (u8 list \<times> addr) list" where
  "dir_entries st es = map (\<lambda>e. (dl_name (dirents st e), dl_inode (dirents st e))) es"

definition dir_rep :: "fstate \<Rightarrow> (fnode \<Rightarrow> fnode list option) \<Rightarrow> addr \<Rightarrow> addr list \<Rightarrow> bool" where
  "dir_rep st Q dir es \<longleftrightarrow> lists (flinks st) Q \<and> Q (DirHead (i_private (inodes st dir))) = Some (map DirEnt es)"

lemma tmpfs_lookup_rep:
  assumes "dir_rep st Q dir es"
  shows "tmpfs_lookup dir name st = Some (map_option (\<lambda>i. (i, Tmpfs_dops)) (map_of (dir_entries st es) name))"
proof -
  have ls: "lists (flinks st) Q" "Q (DirHead (i_private (inodes st dir))) = Some (map DirEnt es)"
    using assms by (auto simp: dir_rep_def)
  have "find (has_name st name) (map DirEnt es) = map_option DirEnt (find (\<lambda>e. dl_name (dirents st e) = name) es)"
    by (induction es) (auto simp: has_name_def)
  moreover have "map_of (dir_entries st es) name =
      map_option (\<lambda>e. dl_inode (dirents st e)) (find (\<lambda>e. dl_name (dirents st e) = name) es)"
    by (induction es) (auto simp: dir_entries_def)
  ultimately show ?thesis unfolding tmpfs_lookup_def by (simp add: lists_search [OF ls] split: option.split)
qed

lemma dir_walk_chain:
  assumes "linked h (map DirEnt es @ [hn])" "hn \<notin> set (map DirEnt es)" "i \<le> pos"
  shows "dir_walk h (Node hn) i pos (Node (gap_next hn (map DirEnt es))) =
    Some (if nat (pos - i) < length es then Some (es ! nat (pos - i)) else None)"
  using assms
proof (induction es arbitrary: i)
  case Nil
  then show ?case by (subst dir_walk.simps) (simp add: gap_next_def)
next
  case (Cons e es)
  have n: "lnext h (DirEnt e) = Node (gap_next hn (map DirEnt es))"
    using Cons.prems(1) by (cases es) (auto simp: gap_next_def)
  have l: "linked h (map DirEnt es @ [hn])" using Cons.prems(1) by (cases es) auto
  have "DirEnt e \<noteq> hn" using Cons.prems(2) by auto
  then have step: "dir_walk h (Node hn) i pos (Node (DirEnt e)) =
      (if i = pos then Some (Some e) else dir_walk h (Node hn) (i + 1) pos (Node (gap_next hn (map DirEnt es))))"
    by (subst dir_walk.simps) (simp add: n)
  show ?case
  proof (cases "i = pos")
    case True
    then show ?thesis using step by (simp add: gap_next_def)
  next
    case False
    then have "nat (pos - i) = Suc (nat (pos - (i + 1)))" using Cons.prems(3) by simp
    then show ?thesis using Cons.IH [of "i + 1"] l False Cons.prems step by (simp add: gap_next_def)
  qed
qed

text \<open>The two cases of \<^verbatim>\<open>tmpfs_link\<close>: no memory, or a new entry at the end of the directory.\<close>

lemma tmpfs_link_cases:
  assumes d: "lists (flinks st) Q" "Q (DirHead (i_private (inodes st dir))) = Some (map DirEnt es)"
    and heap: "heap_ok s e (kheap (fps st), live)"
    and mem: "\<And>p. DirEnt p \<in> ring_nodes Q \<Longrightarrow> p \<in> fst ` set live \<or> unat p < s \<or> e \<le> unat p"
    and name: "length name \<le> NAME_MAX"
  obtains (full) "malloc sizeof_dirlist (kheap (fps st)) = Some (None, kheap (fps st))" "tmpfs_link dir ino name st = Some (- 1, st)"
  | (linked) p h' l' where "malloc sizeof_dirlist (kheap (fps st)) = Some (Some p, h')"
      "heap_ok s e (h', (p, sizeof_dirlist) # live)" "DirEnt p \<notin> ring_nodes Q"
      "lists l' (Q(DirHead (i_private (inodes st dir)) \<mapsto> map DirEnt (es @ [p])))"
      "tmpfs_link dir ino name st = Some (0, st\<lparr>fps := (fps st)\<lparr>kheap := h'\<rparr>,
        dirents := (dirents st)(p := \<lparr>dl_inode = ino, dl_name = name\<rparr>), flinks := l',
        inodes := (inodes st)(dir := (inodes st dir)\<lparr>i_size := i_size (inodes st dir) + 1\<rparr>)\<rparr>)"
proof -
  let ?hn = "DirHead (i_private (inodes st dir))"
  have sz: "0 < sizeof_dirlist" "unat sizeof_dirlist \<le> 2 ^ 32 - 16" by (simp_all add: sizeof_dirlist_def)
  show ?thesis
  proof (rule libc.alloc_back [OF heap sz d, where mk = DirEnt])
    show "p \<in> fst ` set live \<or> unat p < s \<or> e \<le> unat p" if "DirEnt p \<in> ring_nodes Q" for p by (rule mem [OF that])
  next
    assume m: "malloc sizeof_dirlist (kheap (fps st)) = Some (None, kheap (fps st))"
    then show ?thesis by (intro full) (simp_all add: tmpfs_link_def fs_malloc_def)
  next
    fix p h' l' assume p: "malloc sizeof_dirlist (kheap (fps st)) = Some (Some p, h')"
      "heap_ok s e (h', (p, sizeof_dirlist) # live)" "DirEnt p \<notin> ring_nodes Q"
      "list_add_tail (flinks st) (Node (DirEnt p)) (Node ?hn) = Some l'" "lists l' (Q(?hn \<mapsto> map DirEnt es @ [DirEnt p]))"
    then show ?thesis using name by (intro linked [OF p(1-3)]) (simp_all add: tmpfs_link_def fs_malloc_def)
  qed
qed

section \<open>Properties\<close>


definition demo_fstate :: "heap \<Rightarrow> fstate" where
  "demo_fstate h = \<lparr> fps = demo_pstate\<lparr>kheap := h\<rparr>, inodes = (\<lambda>a. tmpfs_inodes 0 (a + 1)),
     dentries = (\<lambda>_. root_dentry_init \<lparr>root_inode = 0x40, dev_inode = 0x80, proc_inode = 0xc0, root_dentry = 0x10,
       version_ptr = 0, version_len = 0, write_offset = 0x20\<rparr>),
     files = (\<lambda>_ _. \<lparr>f_dentry = 0x10, f_op = Some Tmpfs_fops, f_pos = 0, f_private = 0\<rparr>),
     dirents = (\<lambda>_. \<lparr>dl_inode = 0, dl_name = []\<rparr>), sblocks = (\<lambda>_. \<lparr>s_private = 0, s_iroot = 0\<rparr>), mtds = (\<lambda>_. demo_mtd),
     flinks = \<lparr>lnext = Node, lprev = Node\<rparr>, fmem = (\<lambda>_. 0), ferrno = 0, tmpfs_ino = 9000, romfs_ino = 0xbeef,
     rnd = \<lparr>rnd_s = replicate 16 1, rnd_p = 0, rnd_m = 0, rnd_remaining = 0\<rparr> \<rparr>"

lemma demo_fstate_rep: "dir_rep (demo_fstate h) [DirHead 0x41 \<mapsto> []] 0x40 []"
  by (auto simp: dir_rep_def demo_fstate_def tmpfs_inodes_def lists_def ring_def split: if_splits)


end
