(* ===== verification/Romfs.thy ===== *)
theory Romfs
  imports Tmpfs
begin

text \<open>
  The read-only file system: \<^verbatim>\<open>fs/romfs.c\<close> and \<^verbatim>\<open>include/fs/romfs.h\<close>, on the bytes of a memory device. A file is a
  header of four big-endian words, a name padded to 16 bytes, and the data. \<^verbatim>\<open>romfs_mount\<close> is modelled with the system
  calls, because it resolves a path. A chain of headers with a cycle never ends the search; that is the result \<open>None\<close>.
\<close>

section \<open>The image\<close>

definition ROMFS_FILETYPE_MASK :: u32 where "ROMFS_FILETYPE_MASK = 7"

definition load32 :: "bytes \<Rightarrow> addr \<Rightarrow> u32" where
  "load32 m a = ucast (m a) OR push_bit 8 (ucast (m (a + 1))) OR push_bit 16 (ucast (m (a + 2))) OR
     push_bit 24 (ucast (m (a + 3)))"

definition ntohl :: "u32 \<Rightarrow> u32" where
  "ntohl w = push_bit 24 w OR push_bit 8 (w AND 0xff00) OR (drop_bit 8 w AND 0xff00) OR drop_bit 24 w"

definition rs_full_size :: "bytes \<Rightarrow> addr \<Rightarrow> u32" where "rs_full_size m rs = load32 m (rs + 8)"
definition rs_volume_name :: "addr \<Rightarrow> addr" where "rs_volume_name rs = rs + 16"

definition ri_next_filehdr :: "bytes \<Rightarrow> addr \<Rightarrow> u32" where "ri_next_filehdr m ri = load32 m ri"
definition ri_spec_info :: "bytes \<Rightarrow> addr \<Rightarrow> u32" where "ri_spec_info m ri = load32 m (ri + 4)"
definition ri_size :: "bytes \<Rightarrow> addr \<Rightarrow> u32" where "ri_size m ri = load32 m (ri + 8)"
definition ri_file_name :: "addr \<Rightarrow> addr" where "ri_file_name ri = ri + 16"

definition ROMFS_SUPER_BLOCK :: "fstate \<Rightarrow> addr \<Rightarrow> addr" where
  "ROMFS_SUPER_BLOCK st sb = mtd_priv (mtds st (s_private (sblocks st sb)))"

definition ROMFS_INODE :: "addr \<Rightarrow> u32 \<Rightarrow> addr" where
  "ROMFS_INODE rs offset = rs + offset"

section \<open>The code\<close>

text \<open>The part of a path after its last slash.\<close>

definition basename :: "u8 list \<Rightarrow> u8 list" where
  "basename filename = rev (takeWhile (\<lambda>c. c \<noteq> chr (CHR ''/'')) (rev filename))"

definition offsetof_device_inode :: "addr \<Rightarrow> addr \<Rightarrow> u32" where
  "offsetof_device_inode rinode super = rinode - super"

definition offsetof_first_device_inode :: "bytes \<Rightarrow> addr \<Rightarrow> u32 option" where
  "offsetof_first_device_inode m super = do {
     name \<leftarrow> cstr m (rs_volume_name super);
     Some (16 + align_next (of_nat (length name) + 1) 16) }"

definition romfs_mode :: "u32 \<Rightarrow> u16" where
  "romfs_mode type =
     (if type = 1 then S_IFDIR else if type = 2 then S_IFREG else if type = 3 then S_IFLNK else if type = 4 then S_IFBLK
      else if type = 5 then S_IFCHR else if type = 7 then S_IFIFO else 0)"

definition alloc_inode :: "addr \<Rightarrow> addr \<Rightarrow> fstate \<Rightarrow> (addr option \<times> fstate) option" where
  "alloc_inode ri sb st = do {
     (ino, st) \<leftarrow> fs_malloc sizeof_inode st;
     (case ino of
        None \<Rightarrow> Some (None, st)
      | Some ino \<Rightarrow> Some (Some ino, st\<lparr>inodes := (inodes st)(ino :=
            \<lparr> i_mode = romfs_mode (ntohl (ri_next_filehdr (fmem st) ri) AND ROMFS_FILETYPE_MASK), i_ino = romfs_ino st,
              i_size = sint (ntohl (ri_size (fmem st) ri)), i_op = Romfs_iops, i_fop = Some Romfs_fops, i_sb = sb,
              i_private = offsetof_device_inode ri (ROMFS_SUPER_BLOCK st sb) \<rparr>),
          romfs_ino := romfs_ino st + 1\<rparr>)) }"

definition strcmp_eq :: "bytes \<Rightarrow> addr \<Rightarrow> u8 list \<Rightarrow> bool" where
  "strcmp_eq m a name \<longleftrightarrow> load_bytes a (length name + 1) m = name @ [0]"

partial_function (option) romfs_walk :: "bytes \<Rightarrow> addr \<Rightarrow> u8 list \<Rightarrow> u32 \<Rightarrow> addr option option" where
  "romfs_walk m rs name next_filehdr =
     (if next_filehdr < rs_full_size m rs then
        let ri = ROMFS_INODE rs next_filehdr
        in if strcmp_eq m (ri_file_name ri) name then Some (Some ri)
           else let next_filehdr = align (ntohl (ri_next_filehdr m ri)) 16
                in if next_filehdr = 0 then Some None else romfs_walk m rs name next_filehdr
      else Some None)"

declare romfs_walk.simps [code]

definition romfs_lookup :: "addr \<Rightarrow> u8 list \<Rightarrow> fstate \<Rightarrow> ((addr \<times> dops) option \<times> fstate) option" where
  "romfs_lookup dir name st = do {
     let rs = ROMFS_SUPER_BLOCK st (i_sb (inodes st dir));
     let ri = ROMFS_INODE rs (i_private (inodes st dir));
     r \<leftarrow> romfs_walk (fmem st) rs name (align (ntohl (ri_spec_info (fmem st) ri)) 16);
     (case r of
        None \<Rightarrow> Some (None, st)
      | Some ri \<Rightarrow> do {
          (ino, st) \<leftarrow> alloc_inode ri (i_sb (inodes st dir)) st;
          Some (map_option (\<lambda>i. (i, Romfs_dops)) ino, st) }) }"

definition set_f_private :: "addr \<Rightarrow> nat \<Rightarrow> u32 \<Rightarrow> fstate \<Rightarrow> fstate" where
  "set_f_private task fd v st = st\<lparr>files := (files st)(task := (files st task)(fd := (files st task fd)\<lparr>f_private := v\<rparr>))\<rparr>"

definition romfs_open :: "addr \<Rightarrow> addr \<Rightarrow> nat \<Rightarrow> fstate \<Rightarrow> int \<times> fstate" where
  "romfs_open ino task fd st = (0, set_f_private task fd (i_private (inodes st ino)) st)"

text \<open>The length of the header of a file and its padded name.\<close>

definition romfs_header_len :: "bytes \<Rightarrow> addr \<Rightarrow> u32 option" where
  "romfs_header_len m ri = do { name \<leftarrow> cstr m (ri_file_name ri); Some (16 + align_next (of_nat (length name) + 1) 16) }"

definition romfs_read :: "fdesc \<Rightarrow> addr \<Rightarrow> u32 \<Rightarrow> int \<Rightarrow> fstate \<Rightarrow> (int \<times> fstate) option" where
  "romfs_read fl buf cnt offset st = do {
     let ino = inodes st (d_inode (dentries st (f_dentry fl)));
     let filesize = (word_of_int (i_size ino) :: u32);
     let mtd = mtds st (s_private (sblocks st (i_sb ino)));
     len \<leftarrow> romfs_header_len (fmem st) (ROMFS_INODE (ROMFS_SUPER_BLOCK st (i_sb ino)) (i_private ino));
     let cnt = (if word_of_int (f_pos fl) + cnt > filesize then filesize - word_of_int offset else cnt);
     (_, retlen, m) \<leftarrow> mtd_read mtd (sint (i_private ino + len + word_of_int offset)) cnt buf (fmem st);
     Some (sint retlen, st\<lparr>fmem := m\<rparr>) }"

text \<open>The results are the return value and the address.\<close>

definition romfs_mmap :: "fdesc \<Rightarrow> int \<Rightarrow> fstate \<Rightarrow> (int \<times> addr) option" where
  "romfs_mmap fl offset st = do {
     let ino = inodes st (d_inode (dentries st (f_dentry fl)));
     let mtd = mtds st (s_private (sblocks st (i_sb ino)));
     len \<leftarrow> romfs_header_len (fmem st) (ROMFS_INODE (ROMFS_SUPER_BLOCK st (i_sb ino)) (i_private ino));
     let (r, _, a) = mtd_point mtd (sint (i_private ino + len + word_of_int offset)) (word_of_int (i_size ino));
     Some (r, a) }"

definition romfs_delete :: "addr \<Rightarrow> fstate \<Rightarrow> (int \<times> fstate) option" where
  "romfs_delete dentry st = do {
     let ino = d_inode (dentries st dentry);
     st \<leftarrow> (if ino \<noteq> s_iroot (sblocks st (i_sb (inodes st ino))) then fs_free ino st else Some st);
     st \<leftarrow> fs_free dentry st;
     Some (0, st) }"

section \<open>Directories of an image\<close>

text \<open>The files chained from a header: their offsets and names.\<close>

fun romfs_files :: "bytes \<Rightarrow> addr \<Rightarrow> u32 \<Rightarrow> (u32 \<times> u8 list) list \<Rightarrow> bool" where
  "romfs_files m rs off [] \<longleftrightarrow> off \<ge> rs_full_size m rs"
| "romfs_files m rs off ((o', name) # es) \<longleftrightarrow>
     o' = off \<and> off < rs_full_size m rs \<and> str_at m (ri_file_name (ROMFS_INODE rs off)) name \<and>
     (let n = align (ntohl (ri_next_filehdr m (ROMFS_INODE rs off))) 16
      in if n = 0 then es = [] else romfs_files m rs n es)"

lemma load_bytes_eq: "load_bytes a (length xs) m = xs \<longleftrightarrow> bytes_at m a xs"
  unfolding load_bytes_def bytes_at_def by (subst list_eq_iff_nth_eq) simp

lemma strings_unique:
  assumes "bytes_at m a (s @ [0])" "0 \<notin> set s" "bytes_at m a (t @ [0])" "0 \<notin> set t"
  shows "s = t"
  using cstr_str [OF assms(1,2)] cstr_str [OF assms(3,4)] by simp

lemma strcmp_str:
  assumes "str_at m a s" "0 \<notin> set name"
  shows "strcmp_eq m a name \<longleftrightarrow> s = name"
  using assms strings_unique [of m a s name] load_bytes_eq [of a "name @ [0]" m] by (auto simp: strcmp_eq_def str_at_def)

lemma romfs_walk_files:
  assumes "romfs_files m rs off es" "0 \<notin> set name"
  shows "romfs_walk m rs name off =
    Some (map_option (\<lambda>e. ROMFS_INODE rs (fst e)) (find (\<lambda>e. snd e = name) es))"
  using assms(1)
proof (induction es arbitrary: off)
  case Nil
  then show ?case by (subst romfs_walk.simps) (simp add: leD)
next
  case (Cons e es)
  obtain nm where e: "e = (off, nm)" using Cons.prems by (cases e) simp
  then show ?case using Cons strcmp_str [OF _ assms(2), of m "ri_file_name (ROMFS_INODE rs off)" nm]
    by (subst romfs_walk.simps) (auto simp: Let_def split: if_splits)
qed

section \<open>Properties\<close>

text \<open>
  \<^verbatim>\<open>romfs_lookup\<close> in a directory whose chain of files ends returns a new inode for the first file with the name, and
  NULL when there is none or the heap is full.
\<close>

lemma romfs_lookup_correct:
  assumes heap: "heap_ok s e (kheap (fps st), live)" and n0: "0 \<notin> set name"
    and dir: "romfs_files (fmem st) (ROMFS_SUPER_BLOCK st (i_sb (inodes st dir)))
      (align (ntohl (ri_spec_info (fmem st) (ROMFS_INODE (ROMFS_SUPER_BLOCK st (i_sb (inodes st dir))) (i_private (inodes st dir))))) 16) es"
  shows "case map_of (map prod.swap es) name of
      None \<Rightarrow> romfs_lookup dir name st = Some (None, st)
    | Some off \<Rightarrow> romfs_lookup dir name st = Some (None, st) \<or>
        (\<exists>p st'. romfs_lookup dir name st = Some (Some (p, Romfs_dops), st') \<and>
          heap_ok s e (kheap (fps st'), (p, sizeof_inode) # live) \<and>
          i_private (inodes st' p) = off \<and> i_sb (inodes st' p) = i_sb (inodes st dir) \<and> fmem st' = fmem st \<and>
          i_size (inodes st' p) = sint (ntohl (ri_size (fmem st) (ROMFS_INODE (ROMFS_SUPER_BLOCK st (i_sb (inodes st dir))) off))) \<and>
          (\<forall>q. q \<noteq> p \<longrightarrow> inodes st' q = inodes st q))"
proof -
  let ?rs = "ROMFS_SUPER_BLOCK st (i_sb (inodes st dir))"
  have f: "map_of (map prod.swap es) name = map_option fst (find (\<lambda>e. snd e = name) es)"
    by (induction es) auto
  have sz: "0 < sizeof_inode" "unat sizeof_inode \<le> 2 ^ 32 - 16" by (simp_all add: sizeof_inode_def)
  show ?thesis
  proof (cases "find (\<lambda>e. snd e = name) es")
    case None
    then show ?thesis using romfs_walk_files [OF dir n0] f by (simp add: romfs_lookup_def)
  next
    case (Some x)
    have w: "ROMFS_INODE ?rs (fst x) - ?rs = fst x" by (simp add: ROMFS_INODE_def)
    show ?thesis
    proof (rule libc.alloc_fresh [OF heap sz, where Q = Map.empty and mk = DirEnt])
      show "p \<in> fst ` set live \<or> unat p < s \<or> e \<le> unat p" if "DirEnt p \<in> ring_nodes Map.empty" for p
        using that unfolding ring_nodes_iff by simp
    next
      assume "malloc sizeof_inode (kheap (fps st)) = Some (None, kheap (fps st))"
      then show ?thesis using Some romfs_walk_files [OF dir n0] f
        by (simp add: romfs_lookup_def alloc_inode_def fs_malloc_def)
    next
      fix p h' assume p: "malloc sizeof_inode (kheap (fps st)) = Some (Some p, h')" "heap_ok s e (h', (p, sizeof_inode) # live)"
      then show ?thesis using Some romfs_walk_files [OF dir n0] f w
        unfolding romfs_lookup_def Let_def alloc_inode_def
        by (simp add: fs_malloc_def ROMFS_SUPER_BLOCK_def offsetof_device_inode_def)
    qed
  qed
qed

text \<open>Arithmetic of the offsets and of the clipped length.\<close>

lemma sint_small:
  assumes "unat (w :: u32) < 2 ^ 31"
  shows "sint w = int (unat w)"
proof -
  have "int (unat w) < int (2 ^ 31)" using assms by (simp only: of_nat_less_iff)
  then have "uint w < 2 ^ 31" by simp
  moreover have "- (2 ^ 31) \<le> uint w" by (rule order_trans [OF _ unsigned_greater_eq]) simp
  ultimately have "signed_take_bit 31 (uint w) = uint w" by (rule signed_take_bit_int_eq_self [rotated])
  then show ?thesis by (simp add: sint_uint)
qed

lemma unat_of_nat_small_32: "n < 2 ^ 32 \<Longrightarrow> unat (of_nat n :: u32) = n"
  by (rule unat_of_nat_small) simp

lemma romfs_data_offset:
  assumes "start = unat p + 16 + (length name + 16) div 16 * 16" "len = (16 + align_next (of_nat (length name) + 1) 16 :: u32)"
    "start + pos < 2 ^ 31"
  shows "sint (p + len + word_of_int (int pos)) = int (start + pos)"
proof -
  let ?l = "length name"
  have l: "?l + 16 < 2 ^ 31" using assms(1,3) by simp
  have "(of_nat ?l + 1 :: u32) = of_nat (?l + 1)" by simp
  then have u: "unat (of_nat ?l + 1 :: u32) = ?l + 1" using unat_of_nat_small_32 [of "?l + 1"] l by (simp add: add.commute)
  have "unat (align_next (of_nat ?l + 1) (2 ^ 4)) = (?l + 16) div 16 * 16"
    using unat_align_next [of 4 "of_nat ?l + 1"] u l by simp
  from arg_cong [OF this, of "of_nat :: nat \<Rightarrow> u32"]
  have "align_next (of_nat ?l + 1) 16 = of_nat ((?l + 16) div 16 * 16)" by simp
  then have e: "p + len + word_of_int (int pos) = p + of_nat (16 + (?l + 16) div 16 * 16 + pos)" by (simp add: assms(2))
  have "unat (p + of_nat (16 + (?l + 16) div 16 * 16 + pos)) = start + pos"
    using assms(1,3) by (subst addr_offset) simp_all
  then show ?thesis using assms(3) e sint_small by metis
qed

lemma romfs_count:
  fixes cnt c :: u32
  assumes "i_size ino = int fsize" "f_pos fl = int pos" "pos + unat cnt < 2 ^ 32" "n = min (unat cnt) (fsize - pos)" "n < 2 ^ 31"
    and c: "c = (if word_of_int (f_pos fl) + cnt > word_of_int (i_size ino) then word_of_int (i_size ino) - word_of_int (f_pos fl) else cnt)"
    and "fsize < 2 ^ 32" "pos < 2 ^ 31"
  shows "unat c = n \<or> n = 0 \<and> fsize < pos \<and> unat c = 2 ^ 32 + fsize - pos"
proof -
  have u: "unat (of_nat fsize :: u32) = fsize" "unat (of_nat pos :: u32) = pos"
    using assms by (simp_all add: unat_of_nat_small_32)
  then have "unat (of_nat pos + cnt) = pos + unat cnt" using assms(3) unat_add_no_wrap [of "of_nat pos" cnt] by simp
  then have t: "(of_nat pos + cnt > of_nat fsize) = (pos + unat cnt > fsize)" using u by (simp add: word_less_nat_alt)
  show ?thesis using assms t u by (auto simp: unat_sub_if' min_def)
qed

text \<open>
  C30. \<^verbatim>\<open>romfs_read\<close> at the file position returns the bytes of the file from there on, as many as were asked for and
  remain, and writes nothing else; at or behind the end it returns 0. The file lies inside the device, and the buffer
  outside of it.
\<close>

theorem romfs_read_correct:
  assumes ino_def: "ino = inodes st (d_inode (dentries st (f_dentry fl)))"
    and mtd_def: "mtd = mtds st (s_private (sblocks st (i_sb ino)))" and dev: "mtd_ok mtd"
    and start_def: "start = unat (i_private ino) + 16 + (length name + 16) div 16 * 16"
    and name: "str_at (fmem st) (ri_file_name (mtd_priv mtd + i_private ino)) name"
    and size: "i_size ino = int fsize" "start + fsize \<le> unat (mtd_size mtd)"
    and pos: "f_pos fl = int pos" "start + pos < 2 ^ 31" "pos + unat cnt < 2 ^ 32"
    and n: "n = min (unat cnt) (fsize - pos)" "n < 2 ^ 31"
    and buf: "unat buf + n \<le> 2 ^ 32" "region buf n \<inter> mtd_region mtd = {}"
  shows "\<exists>st'. romfs_read fl buf cnt (f_pos fl) st = Some (int n, st') \<and>
    load_bytes buf n (fmem st') = load_bytes (mtd_priv mtd + of_nat (start + pos)) n (fmem st) \<and>
    same_outside (region buf n) (fmem st) (fmem st')"
proof -
  let ?ri = "ROMFS_INODE (ROMFS_SUPER_BLOCK st (i_sb ino)) (i_private ino)"
  define len where "len = (16 + align_next (of_nat (length name) + 1) 16 :: u32)"
  define c where "c = (if word_of_int (f_pos fl) + cnt > word_of_int (i_size ino) then word_of_int (i_size ino) - word_of_int (f_pos fl) else cnt)"
  have hl: "romfs_header_len (fmem st) ?ri = Some len"
    using cstr_str [of "fmem st" "ri_file_name ?ri" name] name
    by (simp add: romfs_header_len_def len_def str_at_def ROMFS_INODE_def ROMFS_SUPER_BLOCK_def mtd_def)
  have src: "sint (i_private ino + len + word_of_int (f_pos fl)) = int (start + pos)"
    using romfs_data_offset [OF start_def len_def, of pos] pos by simp
  have c: "unat c = n \<or> n = 0 \<and> bad_range mtd (int (start + pos)) c"
  proof -
    have b: "fsize < 2 ^ 32" "pos < 2 ^ 31" "unat (mtd_size mtd) < 2 ^ 32"
      using size(2) pos(2) unsigned_less [of "mtd_size mtd", where ?'a = nat] by auto
    show ?thesis using romfs_count [OF size(1) pos(1,3) n c_def b(1,2)] b pos(2) bad_range_iff [of "int (start + pos)" mtd c] by auto
  qed
  have run: "romfs_read fl buf cnt (f_pos fl) st = do {
      (_, retlen, m) \<leftarrow> mtd_read mtd (int (start + pos)) c buf (fmem st); Some (sint retlen, st\<lparr>fmem := m\<rparr>) }"
    unfolding romfs_read_def Let_def ino_def [symmetric] mtd_def [symmetric] hl by (simp add: src c_def)
  show ?thesis
  proof (cases "n = 0")
    case True
    then have "bad_range mtd (int (start + pos)) c \<or> c = 0" using c by (auto simp: unat_eq_zero)
    then have "romfs_read fl buf cnt (f_pos fl) st = Some (0, st\<lparr>fmem := fmem st\<rparr>)"
      unfolding run by (auto simp: mtd_read_def)
    then show ?thesis using True by (auto simp: same_outside_def load_bytes_def)
  next
    case False
    then have cn: "unat c = n" "c \<noteq> 0" using c by auto
    have p: "pos + n \<le> fsize" using False n(1) by (simp add: min_def split: if_splits)
    then have r: "\<not> bad_range mtd (int (start + pos)) c"
      using bad_range_iff [of "int (start + pos)" mtd c] size(2) pos(2) cn(1) False by (simp del: of_nat_add)
    let ?xs = "load_bytes (mtd_priv mtd + of_nat (start + pos)) n (fmem st)"
    have "romfs_read fl buf cnt (f_pos fl) st = Some (int n, st\<lparr>fmem := store_bytes buf ?xs (fmem st)\<rparr>)"
      unfolding run using r cn dev n(2) sint_small [of c] by (simp add: mtd_read_def mtdram_read_def mtd_ok_def)
    then show ?thesis using load_store_same [of buf ?xs "fmem st"] store_bytes_same [of buf ?xs "fmem st"] buf(1) by auto
  qed
qed

definition demo_romfs :: fstate where
  "demo_romfs = (demo_fstate demo_heap)\<lparr>inodes := (\<lambda>_. \<lparr> i_mode = S_IFREG, i_ino = 0xbeef, i_size = 3, i_op = Romfs_iops,
     i_fop = Some Romfs_fops, i_sb = 0, i_private = 32 \<rparr>),
     fmem := (\<lambda>a. if a = 0x20000030 then 97 else if a = 0x20000042 then 65 else 0)\<rparr>"

theorem romfs_read_correct_witness:
  "\<exists>st'. romfs_read \<lparr>f_dentry = 0, f_op = Some Romfs_fops, f_pos = 1, f_private = 32\<rparr> 0x1000 10 1 demo_romfs = Some (2, st') \<and>
    load_bytes 0x1000 2 (fmem st') = [0, 65]"
proof -
  let ?fl = "\<lparr>f_dentry = 0, f_op = Some Romfs_fops, f_pos = 1, f_private = 32\<rparr>"
  let ?ino = "\<lparr> i_mode = S_IFREG, i_ino = 0xbeef, i_size = 3, i_op = Romfs_iops, i_fop = Some Romfs_fops, i_sb = 0, i_private = 32 \<rparr>"
  have str: "str_at (fmem demo_romfs) (ri_file_name (0x20000000 + 32)) [97]"
    by (simp add: str_at_def demo_romfs_def ri_file_name_def)
  have disj: "region 0x1000 2 \<inter> mtd_region demo_mtd = {}"
    using in_region [of "0x1000" 2] in_region [of "0x20000000" 2048] by (auto simp: mtd_region_def)
  have data: "load_bytes 0x20000041 2 (fmem demo_romfs) = [0, 65]" by (simp add: load_bytes_def demo_romfs_def upt_rec)
  have f: "inodes demo_romfs a = ?ino" "mtds demo_romfs a = demo_mtd" for a by (simp_all add: demo_romfs_def demo_fstate_def)
  have "\<exists>st'. romfs_read ?fl 0x1000 10 (f_pos ?fl) demo_romfs = Some (int 2, st') \<and>
      load_bytes 0x1000 2 (fmem st') = load_bytes (mtd_priv demo_mtd + of_nat (64 + 1)) 2 (fmem demo_romfs) \<and>
      same_outside (region 0x1000 2) (fmem demo_romfs) (fmem st')"
    by (rule romfs_read_correct [where ino = ?ino and mtd = demo_mtd and name = "[97]" and fsize = 3 and pos = 1])
      (use str disj in \<open>simp_all add: f\<close>)
  then show ?thesis using data by auto
qed

end
