(* ===== verification/Devices.thy ===== *)
theory Devices
  imports Romfs
begin

text \<open>
  The character devices and the files of \<^verbatim>\<open>/proc\<close>: \<^verbatim>\<open>drivers/mtd/mtdchar.c\<close>, \<^verbatim>\<open>drivers/char/mem.c\<close>,
  \<^verbatim>\<open>drivers/char/random.c\<close> and \<^verbatim>\<open>fs/proc.c\<close>. A copy is of bytes of the one memory; \<open>None\<close> is a read outside an
  object. The open functions of all devices but \<^verbatim>\<open>mtdchar\<close> only return 0.
\<close>

section \<open>Memory devices\<close>

definition mtdchar_open :: "addr \<Rightarrow> addr \<Rightarrow> nat \<Rightarrow> fstate \<Rightarrow> int \<times> fstate" where
  "mtdchar_open ino task fd st = (0, set_f_private task fd (i_private (inodes st ino)) st)"

definition mtdchar_read :: "fdesc \<Rightarrow> addr \<Rightarrow> u32 \<Rightarrow> int \<Rightarrow> fstate \<Rightarrow> (int \<times> fstate) option" where
  "mtdchar_read fl buf cnt offset st = do {
     (r, retlen, m) \<leftarrow> mtd_read (mtds st (f_private fl)) offset cnt buf (fmem st);
     Some (if r < 0 then - 1 else sint retlen, st\<lparr>fmem := m\<rparr>) }"

definition mtdchar_write :: "fdesc \<Rightarrow> addr \<Rightarrow> u32 \<Rightarrow> int \<Rightarrow> fstate \<Rightarrow> (int \<times> fstate) option" where
  "mtdchar_write fl buf cnt offset st = do {
     (r, retlen, m) \<leftarrow> mtd_write (mtds st (f_private fl)) offset cnt buf (fmem st);
     Some (if r < 0 then - 1 else sint retlen, st\<lparr>fmem := m\<rparr>) }"

section \<open>mem, null and zero\<close>

definition memcpy :: "addr \<Rightarrow> addr \<Rightarrow> u32 \<Rightarrow> fstate \<Rightarrow> fstate" where
  "memcpy dst src n st = st\<lparr>fmem := store_bytes dst (load_bytes src (unat n) (fmem st)) (fmem st)\<rparr>"

text \<open>The destination of a write is the caller's offset variable itself, at the address \<open>offset\<close>.\<close>

definition write_mem :: "addr \<Rightarrow> u32 \<Rightarrow> addr \<Rightarrow> fstate \<Rightarrow> int \<times> fstate" where
  "write_mem buf cnt offset st = (sint cnt, memcpy offset buf cnt st)"

definition read_mem :: "addr \<Rightarrow> u32 \<Rightarrow> int \<Rightarrow> fstate \<Rightarrow> int \<times> fstate" where
  "read_mem buf cnt offset st = (sint cnt, memcpy buf (word_of_int offset) cnt st)"

definition write_null :: "u32 \<Rightarrow> fstate \<Rightarrow> int \<times> fstate" where
  "write_null cnt st = (sint cnt, st)"

definition read_null :: "fstate \<Rightarrow> int \<times> fstate" where
  "read_null st = (0, st)"

definition read_zero :: "addr \<Rightarrow> u32 \<Rightarrow> fstate \<Rightarrow> int \<times> fstate" where
  "read_zero buf cnt st = (sint cnt, st\<lparr>fmem := store_bytes buf (replicate (unat cnt) 0) (fmem st)\<rparr>)"

text \<open>The inodes of the four devices, in the order they are created.\<close>

definition memdev_inodes :: "inode list" where
  "memdev_inodes = map (\<lambda>(n, op). \<lparr> i_mode = 0, i_ino = n, i_size = 0, i_op = Tmpfs_iops, i_fop = Some op, i_sb = 0, i_private = 0 \<rparr>)
     [(101, Mem_fops), (102, Null_fops), (103, Zero_fops), (104, Random_fops)]"

definition memdev_names :: "string list" where
  "memdev_names = [''mem'', ''null'', ''zero'', ''random'']"

section \<open>The generator of random bytes\<close>

definition random_seed :: "u64 list" where
  "random_seed =
     [0x84242f96eca9c41d, 0xa3c65b8776f96855, 0x5b34a39f070b5837, 0x4489affce4f31a1e,
      0x2ffeeb0a48316f40, 0xdc2d9891fe68c022, 0x3659132bb12fea70, 0xaac17d8efa43cab8,
      0xc4cb815590989b13, 0x5ee975283d71c93b, 0x691548c86c1bd540, 0x7910c41d10a1e6a5,
      0x0b5fc64563b3e2a8, 0x047f7684e9fc949d, 0xb99181f2d8f685ca, 0x284600e3f30e38c3]"

definition random_init :: random_state where
  "random_init = \<lparr> rnd_s = random_seed, rnd_p = 0, rnd_m = 0, rnd_remaining = 0 \<rparr>"

definition next_random :: "random_state \<Rightarrow> u64 \<times> random_state" where
  "next_random r =
     (let s0 = rnd_s r ! rnd_p r;
          p = (rnd_p r + 1) AND 15;
          s1 = rnd_s r ! p;
          s1 = s1 XOR push_bit 31 s1;
          v = s1 XOR s0 XOR drop_bit 11 s1 XOR drop_bit 30 s0
      in (v * 1181783497276652981, r\<lparr>rnd_s := (rnd_s r)[p := v], rnd_p := p\<rparr>))"

definition le_bytes :: "u64 \<Rightarrow> u8 list" where
  "le_bytes w = map (\<lambda>i. ucast (drop_bit (8 * i) w)) [0..<8]"

function random_fill :: "addr \<Rightarrow> nat \<Rightarrow> random_state \<Rightarrow> bytes \<Rightarrow> random_state \<times> bytes" where
  "random_fill buf i r m =
     (if i > 0 then
        let (v, r) = next_random r
        in random_fill (buf + 8) (i - 8) (r\<lparr>rnd_m := v, rnd_remaining := 8 - int (min i 8)\<rparr>)
             (store_bytes buf (take (min i 8) (le_bytes v)) m)
      else (r, m))"
  by pat_completeness auto
termination by (relation "measure (\<lambda>(buf, i, r, m). i)") auto

declare random_fill.simps [simp del]

text \<open>A length that is negative as a signed number copies from behind the last word.\<close>

definition read_random :: "addr \<Rightarrow> u32 \<Rightarrow> fstate \<Rightarrow> (int \<times> fstate) option" where
  "read_random buf cnt st =
     (let r = rnd st
      in if sint cnt \<le> rnd_remaining r then
           if int (unat cnt) > rnd_remaining r then None
           else Some (sint cnt, st\<lparr>
             fmem := store_bytes buf (take (unat cnt) (drop (nat (8 - rnd_remaining r)) (le_bytes (rnd_m r)))) (fmem st),
             rnd := r\<lparr>rnd_remaining := rnd_remaining r - sint cnt\<rparr>\<rparr>)
         else let (r, m) = random_fill buf (nat (sint cnt)) r (fmem st)
              in Some (sint cnt, st\<lparr>fmem := m, rnd := r\<rparr>))"

section \<open>The files of proc\<close>

definition strncpy_bytes :: "addr \<Rightarrow> addr \<Rightarrow> nat \<Rightarrow> bytes \<Rightarrow> bytes" where
  "strncpy_bytes dst src n m =
     (let s = takeWhile (\<lambda>c. c \<noteq> 0) (load_bytes src n m) in store_bytes dst (s @ replicate (n - length s) 0) m)"

definition read_version :: "fsyms \<Rightarrow> addr \<Rightarrow> u32 \<Rightarrow> int \<Rightarrow> fstate \<Rightarrow> int \<times> fstate" where
  "read_version sy buf cnt offset st =
     (let n = min cnt (word_of_int (version_len sy - offset))
      in (sint n, st\<lparr>fmem := strncpy_bytes buf (version_ptr sy + word_of_int offset) (unat n) (fmem st)\<rparr>))"

definition read_meminfo :: "addr \<Rightarrow> u32 \<Rightarrow> int \<Rightarrow> fstate \<Rightarrow> int \<times> fstate" where
  "read_meminfo buf cnt offset st = (sint cnt, memcpy buf (word_of_int offset) cnt st)"

definition proc_inodes :: "inode list" where
  "proc_inodes = map (\<lambda>(n, op). \<lparr> i_mode = 0, i_ino = n, i_size = 0, i_op = Tmpfs_iops, i_fop = Some op, i_sb = 0, i_private = 0 \<rparr>)
     [(1001, Version_fops), (1002, Meminfo_fops)]"

definition proc_names :: "string list" where
  "proc_names = [''version'', ''meminfo'']"

section \<open>The invariant of the generator\<close>

definition random_ok :: "random_state \<Rightarrow> bool" where
  "random_ok r \<longleftrightarrow> length (rnd_s r) = 16 \<and> rnd_p r < 16 \<and> 0 \<le> rnd_remaining r \<and> rnd_remaining r \<le> 7"

lemma random_init_ok: "random_ok random_init"
  by (simp add: random_ok_def random_init_def random_seed_def)

lemma and_15: "n AND 15 < (16 :: nat)"
  using take_bit_eq_mask [of 4 n] by (simp add: take_bit_eq_mod mask_eq_exp_minus_1 flip: take_bit_eq_mask)

lemma next_random_ok: "random_ok r \<Longrightarrow> random_ok (snd (next_random r))"
  using and_15 by (auto simp: random_ok_def next_random_def Let_def)

lemma length_le_bytes [simp]: "length (le_bytes w) = 8"
  by (simp add: le_bytes_def)

text \<open>Filling a buffer keeps the invariant and writes nothing outside the buffer.\<close>

lemma region_shift: "region (a + of_nat k) (n - k) \<subseteq> region a n"
proof
  fix x assume "x \<in> region (a + of_nat k) (n - k)"
  then obtain j where "j < n - k" "x = a + of_nat (k + j)" by (auto simp: region_def ac_simps)
  then show "x \<in> region a n" unfolding region_def by (intro image_eqI [of _ _ "k + j"]) auto
qed

lemma region_mono: "k \<le> n \<Longrightarrow> region a k \<subseteq> region a n"
  by (auto simp: region_def)

lemma random_fill_ok:
  assumes "random_ok r" "random_fill buf n r m = (r', m')"
  shows "random_ok r' \<and> same_outside (region buf n) m m'"
  using assms
proof (induction buf n r m rule: random_fill.induct)
  case (1 buf i r m)
  show ?case
  proof (cases "i > 0")
    case False
    then show ?thesis using 1 by (simp add: random_fill.simps same_outside_def)
  next
    case True
    obtain v r1 where v: "next_random r = (v, r1)" by fastforce
    define r2 where "r2 = r1\<lparr>rnd_m := v, rnd_remaining := 8 - int (min i 8)\<rparr>"
    define m1 where "m1 = store_bytes buf (take (min i 8) (le_bytes v)) m"
    have "random_ok r1" using next_random_ok [OF 1(2)] v by simp
    then have "random_ok r2" using True by (auto simp: random_ok_def r2_def)
    moreover have "random_fill (buf + 8) (i - 8) r2 m1 = (r', m')"
      using 1(3) True v by (simp add: random_fill.simps [of buf i] r2_def m1_def)
    ultimately have ih: "random_ok r'" "same_outside (region (buf + 8) (i - 8)) m1 m'"
      using 1(1) [OF True v [symmetric] refl] unfolding r2_def m1_def by blast+
    have "same_outside (region buf (min i 8)) m m1"
      using store_bytes_same [of buf "take (min i 8) (le_bytes v)" m] by (simp add: m1_def)
    then have "same_outside (region buf (min i 8) \<union> region (buf + 8) (i - 8)) m m'"
      using same_outside_trans ih(2) by blast
    then show ?thesis using ih(1) region_mono [of "min i 8" i buf] region_shift [of buf 8 i] by (auto simp: same_outside_def)
  qed
qed

text \<open>
  Reading from the random device with a length that is not negative returns the length, keeps the invariant and
  writes nothing outside the buffer.
\<close>

lemma read_random_ok:
  assumes "random_ok (rnd st)" "unat cnt < 2 ^ 31"
  shows "\<exists>st'. read_random buf cnt st = Some (int (unat cnt), st') \<and> random_ok (rnd st') \<and>
    same_outside (region buf (unat cnt)) (fmem st) (fmem st')"
proof (cases "int (unat cnt) \<le> rnd_remaining (rnd st)")
  case True
  let ?xs = "take (unat cnt) (drop (nat (8 - rnd_remaining (rnd st))) (le_bytes (rnd_m (rnd st))))"
  have "unat cnt \<le> nat (rnd_remaining (rnd st))" using True by linarith
  moreover have "8 - nat (8 - rnd_remaining (rnd st)) = nat (rnd_remaining (rnd st))"
    using assms(1) by (auto simp: random_ok_def)
  ultimately have "length ?xs = unat cnt" by simp
  then have "same_outside (region buf (unat cnt)) (fmem st) (store_bytes buf ?xs (fmem st))"
    using store_bytes_same [of buf ?xs "fmem st"] by simp
  moreover have "rnd_remaining (rnd st) - int (unat cnt) \<le> 7" using assms(1) unfolding random_ok_def by linarith
  ultimately show ?thesis using True sint_small [OF assms(2)] assms(1) unfolding read_random_def Let_def
    by (auto simp: random_ok_def)
next
  case False
  obtain r m where "random_fill buf (unat cnt) (rnd st) (fmem st) = (r, m)" by fastforce
  then show ?thesis using False sint_small [OF assms(2)] random_fill_ok [OF assms(1)] by (auto simp: read_random_def)
qed

end
