(* ===== verification/Vfs.thy ===== *)
theory Vfs
  imports Devices Bitops "HOL-Library.Signed_Division"
begin

text \<open>
  The system calls on files: \<^verbatim>\<open>kernel/fs/fs.c\<close>, \<^verbatim>\<open>kernel/fs/vfs.c\<close>, \<^verbatim>\<open>kernel/fs/readdir.c\<close>, \<^verbatim>\<open>romfs_mount\<close> and the
  creation of the device files. \<open>None\<close> is a fault (a call through a NULL table, an index outside the file table,
  a write past the end of a name, a division by zero) or a loop that never ends. The code checks neither
  descriptors nor the first byte of a path.
\<close>

section \<open>Dispatch\<close>

definition vfs_iterate :: "addr \<Rightarrow> nat \<Rightarrow> fstate \<Rightarrow> (int \<times> (u32 \<times> u8 list) option \<times> fstate) option" where
  "vfs_iterate task fd st = do {
     op \<leftarrow> f_op (files st task fd);
     (if op = Tmpfs_fops then tmpfs_iterate task fd st else Some (- 1, None, st)) }"

definition vfs_lookup :: "addr \<Rightarrow> u8 list \<Rightarrow> fstate \<Rightarrow> ((addr \<times> dops) option \<times> fstate) option" where
  "vfs_lookup dir name st =
     (if \<not> S_ISDIR (i_mode (inodes st dir)) then Some (None, st)
      else case i_op (inodes st dir) of
        Tmpfs_iops \<Rightarrow> do { r \<leftarrow> tmpfs_lookup dir name st; Some (r, st) }
      | Romfs_iops \<Rightarrow> romfs_lookup dir name st)"

definition vfs_link :: "addr \<Rightarrow> addr \<Rightarrow> u8 list \<Rightarrow> fstate \<Rightarrow> (int \<times> fstate) option" where
  "vfs_link dir ino name st =
     (case i_op (inodes st dir) of Tmpfs_iops \<Rightarrow> tmpfs_link dir ino name st | Romfs_iops \<Rightarrow> Some (- 1, st))"

definition vfs_delete :: "addr \<Rightarrow> fstate \<Rightarrow> (int \<times> fstate) option" where
  "vfs_delete dentry st =
     (case d_op (dentries st dentry) of Tmpfs_dops \<Rightarrow> tmpfs_delete dentry st | Romfs_dops \<Rightarrow> romfs_delete dentry st)"

text \<open>No table of operations has a release function.\<close>

definition vfs_release :: "addr \<Rightarrow> fstate \<Rightarrow> fstate" where
  "vfs_release dentry st = (case d_op (dentries st dentry) of Tmpfs_dops \<Rightarrow> st | Romfs_dops \<Rightarrow> st)"

definition vfs_mmap :: "fdesc \<Rightarrow> int \<Rightarrow> fstate \<Rightarrow> (int \<times> addr) option" where
  "vfs_mmap fl offset st = do {
     op \<leftarrow> f_op fl;
     (if op = Romfs_fops then romfs_mmap fl offset st else Some (- 1, 0)) }"

text \<open>The open, read and write functions of the tables of operations. A table without an open function is skipped.\<close>

definition fop_open :: "fops \<Rightarrow> addr \<Rightarrow> addr \<Rightarrow> nat \<Rightarrow> fstate \<Rightarrow> int \<times> fstate" where
  "fop_open op ino task fd st =
     (case op of Romfs_fops \<Rightarrow> romfs_open ino task fd st | Mtdchar_fops \<Rightarrow> mtdchar_open ino task fd st | _ \<Rightarrow> (0, st))"

definition fop_read :: "fsyms \<Rightarrow> fops \<Rightarrow> fdesc \<Rightarrow> addr \<Rightarrow> u32 \<Rightarrow> int \<Rightarrow> fstate \<Rightarrow> (int \<times> fstate) option" where
  "fop_read sy op fl buf cnt offset st =
     (case op of
        Tmpfs_fops \<Rightarrow> None
      | Romfs_fops \<Rightarrow> romfs_read fl buf cnt offset st
      | Mtdchar_fops \<Rightarrow> mtdchar_read fl buf cnt offset st
      | Mem_fops \<Rightarrow> Some (read_mem buf cnt offset st)
      | Null_fops \<Rightarrow> Some (read_null st)
      | Zero_fops \<Rightarrow> Some (read_zero buf cnt st)
      | Random_fops \<Rightarrow> read_random buf cnt st
      | Version_fops \<Rightarrow> Some (read_version sy buf cnt offset st)
      | Meminfo_fops \<Rightarrow> Some (read_meminfo buf cnt offset st))"

definition fop_write :: "fsyms \<Rightarrow> fops \<Rightarrow> fdesc \<Rightarrow> addr \<Rightarrow> u32 \<Rightarrow> int \<Rightarrow> fstate \<Rightarrow> (int \<times> fstate) option" where
  "fop_write sy op fl buf cnt offset st =
     (case op of
        Mtdchar_fops \<Rightarrow> mtdchar_write fl buf cnt offset st
      | Mem_fops \<Rightarrow> Some (write_mem buf cnt (write_offset sy) st)
      | Null_fops \<Rightarrow> Some (write_null cnt st)
      | Zero_fops \<Rightarrow> Some (write_null cnt st)
      | _ \<Rightarrow> None)"

section \<open>Descriptors\<close>

definition fd_to_file :: "int \<Rightarrow> nat option" where
  "fd_to_file fd = (if 0 \<le> fd \<and> fd < int FILE_MAX then Some (nat fd) else None)"

definition set_filemap :: "u32 \<Rightarrow> fstate \<Rightarrow> fstate" where
  "set_filemap w st = st\<lparr>fps := (fps st)\<lparr>tasks := (tasks (fps st))(fs_task st := (tasks (fps st) (fs_task st))\<lparr>filemap := w\<rparr>)\<rparr>\<rparr>"

definition fs_filemap :: "fstate \<Rightarrow> u32" where
  "fs_filemap st = filemap (tasks (fps st) (fs_task st))"

definition getfd :: "fstate \<Rightarrow> int \<times> fstate" where
  "getfd st =
     (let fd = find_first_zero_bit (\<lambda>_. fs_filemap st) FILE_MAX
      in if fd = FILE_MAX then (- 1, st) else (int fd, set_filemap (bitmap_set_bit (\<lambda>_. fs_filemap st) fd 0) st))"

definition releasefd :: "nat \<Rightarrow> fstate \<Rightarrow> fstate" where
  "releasefd fd st = set_filemap (bitmap_clear_bit (\<lambda>_. fs_filemap st) fd 0) st"

section \<open>Paths\<close>

definition set_d_count :: "addr \<Rightarrow> int \<Rightarrow> fstate \<Rightarrow> fstate" where
  "set_d_count d n st = st\<lparr>dentries := (dentries st)(d := (dentries st d)\<lparr>d_count := n\<rparr>)\<rparr>"

partial_function (option) release_dentries :: "fsyms \<Rightarrow> addr \<Rightarrow> fstate \<Rightarrow> (int \<times> fstate) option" where
  "release_dentries sy dentry st =
     (if dentry = root_dentry sy then Some (0, st)
      else if d_count (dentries st dentry) = 0 then Some (- 1, st)
      else let n = d_count (dentries st dentry) - 1; st = set_d_count dentry n st
           in if n \<noteq> 0 then Some (0, st)
              else let parent = d_parent (dentries st dentry); st = vfs_release dentry st
                   in Option.bind (if d_count (dentries st dentry) = 0 then vfs_delete dentry st else Some (0, st))
                        (\<lambda>r. release_dentries sy parent (snd r)))"

text \<open>
  The first name of a path. The buffer holds \<open>NAME_MAX\<close> bytes, so a name of that length has no room for the
  terminating zero: the store is a fault.
\<close>

definition slash :: u8 where "slash = chr (CHR ''/'')"

definition path_head :: "u8 list \<Rightarrow> u8 list \<Rightarrow> (int \<times> u8 list) option" where
  "path_head buf pathname =
     (if pathname = [] then Some (- 1, buf)
      else let i0 = (if hd pathname = slash then 1 else 0);
               name = takeWhile (\<lambda>c. c \<noteq> slash) (take (NAME_MAX - i0) (drop i0 pathname))
           in if length name \<ge> NAME_MAX then None else Some (int (i0 + length name), name))"

partial_function (option) inode_walk :: "u8 list \<Rightarrow> nat \<Rightarrow> addr \<Rightarrow> fstate \<Rightarrow> (addr option \<times> fstate) option" where
  "inode_walk pathname i ino st =
     (if i < length pathname then
        Option.bind (path_head [] (drop i pathname)) (\<lambda>h.
        Option.bind (vfs_lookup ino (snd h) st) (\<lambda>r.
          case fst r of
            None \<Rightarrow> Some (None, snd r)
          | Some d \<Rightarrow> inode_walk pathname (nat (int i + fst h)) (fst d) (snd r)))
      else Some (Some ino, st))"

definition inode_from_pathname :: "fsyms \<Rightarrow> u8 list \<Rightarrow> fstate \<Rightarrow> (addr option \<times> fstate) option" where
  "inode_from_pathname sy pathname st =
     (case pathname of [] \<Rightarrow> None | _ # p \<Rightarrow> inode_walk p 0 (root_inode sy) st)"

section \<open>The system calls\<close>

text \<open>
  The walk of \<^verbatim>\<open>sys_open\<close> allocates a dentry for every name. Its result is the state with the error number when the
  call returns early, or the inode, its dentry and the state.
\<close>

definition new_dentry :: "addr \<Rightarrow> addr \<Rightarrow> u8 list \<Rightarrow> fstate \<Rightarrow> fstate" where
  "new_dentry target parent name st = st\<lparr>dentries := (dentries st)(target :=
     (dentries st target)\<lparr>d_count := 1, d_parent := parent, d_name := name\<rparr>)\<rparr>"

definition bind_dentry :: "addr \<Rightarrow> addr \<times> dops \<Rightarrow> fstate \<Rightarrow> fstate" where
  "bind_dentry target r st = st\<lparr>dentries := (dentries st)(target :=
     (dentries st target)\<lparr>d_inode := fst r, d_op := snd r\<rparr>)\<rparr>"

partial_function (option) open_walk ::
    "fsyms \<Rightarrow> u8 list \<Rightarrow> nat \<Rightarrow> addr \<Rightarrow> addr \<Rightarrow> fstate \<Rightarrow> (fstate + addr \<times> addr \<times> fstate) option" where
  "open_walk sy pathname i ino dentry st =
     (if i < length pathname then
        Option.bind (fs_malloc sizeof_dentry st) (\<lambda>a.
          case fst a of
            None \<Rightarrow> Some (Inl ((snd a)\<lparr>ferrno := ENOMEM\<rparr>))
          | Some target \<Rightarrow>
              Option.bind (path_head [] (drop i pathname)) (\<lambda>h.
              Option.bind (vfs_lookup ino (snd h) (new_dentry target dentry (snd h) (snd a))) (\<lambda>r.
                case fst r of
                  None \<Rightarrow> Option.bind (release_dentries sy dentry ((snd r)\<lparr>ferrno := ENOENT\<rparr>)) (\<lambda>x. Some (Inl (snd x)))
                | Some d \<Rightarrow> open_walk sy pathname (nat (int i + fst h)) (fst d) target (bind_dentry target d (snd r)))))
      else Some (Inr (ino, dentry, st)))"

definition sys_open :: "fsyms \<Rightarrow> u8 list \<Rightarrow> u32 \<Rightarrow> fstate \<Rightarrow> (int \<times> fstate) option" where
  "sys_open sy pathname flags st = (case pathname of [] \<Rightarrow> None | _ # p \<Rightarrow> do {
     r \<leftarrow> open_walk sy p 0 (root_inode sy) (root_dentry sy) st;
     (case r of
        Inl st \<Rightarrow> Some (0, st)
      | Inr (ino, dentry, st) \<Rightarrow>
          if flags AND O_DIRECTORY \<noteq> 0 \<and> \<not> S_ISDIR (i_mode (inodes st ino)) then Some (0, st\<lparr>ferrno := ENOTDIR\<rparr>)
          else let (fd, st) = getfd st
               in if fd < 0 then Some (0, st\<lparr>ferrno := EBADF\<rparr>)
                  else do {
                    n \<leftarrow> fd_to_file fd;
                    let op = i_fop (inodes st (d_inode (dentries st dentry)));
                    let st = st\<lparr>files := (files st)(fs_task st := (files st (fs_task st))(n :=
                      (files st (fs_task st) n)\<lparr>f_dentry := dentry, f_op := op, f_pos := 0\<rparr>))\<rparr>;
                    op \<leftarrow> op;
                    Some (fd, snd (fop_open op ino (fs_task st) n st)) }) })"

text \<open>The position is advanced by the result, also by a result of -1.\<close>

definition sys_read :: "fsyms \<Rightarrow> int \<Rightarrow> addr \<Rightarrow> u32 \<Rightarrow> fstate \<Rightarrow> (int \<times> fstate) option" where
  "sys_read sy fd buf cnt st = do {
     n \<leftarrow> fd_to_file fd;
     let fl = files st (fs_task st) n;
     (cnt, st) \<leftarrow> (if cnt \<noteq> 0 then do {
         op \<leftarrow> f_op fl;
         (r, st) \<leftarrow> fop_read sy op fl buf cnt (f_pos fl) st;
         Some (word_of_int r :: u32, st) }
       else Some (cnt, st));
     Some (sint cnt, set_f_pos (fs_task st) n (sint (word_of_int (f_pos fl) + cnt)) st) }"

definition sys_write :: "fsyms \<Rightarrow> int \<Rightarrow> addr \<Rightarrow> u32 \<Rightarrow> fstate \<Rightarrow> (int \<times> fstate) option" where
  "sys_write sy fd buf cnt st = do {
     n \<leftarrow> fd_to_file fd;
     let fl = files st (fs_task st) n;
     op \<leftarrow> f_op fl;
     (r, st) \<leftarrow> fop_write sy op fl buf cnt (f_pos fl) st;
     let cnt = (word_of_int r :: u32);
     Some (sint cnt, set_f_pos (fs_task st) n (sint (word_of_int (f_pos fl) + cnt)) st) }"

text \<open>No table of operations has a seek function.\<close>

definition c_rem :: "int \<Rightarrow> int \<Rightarrow> int option" where
  "c_rem a b = (if b = 0 then None else Some (a smod b))"

definition sys_lseek :: "int \<Rightarrow> int \<Rightarrow> int \<Rightarrow> fstate \<Rightarrow> (int \<times> fstate) option" where
  "sys_lseek fd offset whence st = do {
     n \<leftarrow> fd_to_file fd;
     let fl = files st (fs_task st) n;
     let size = i_size (inodes st (d_inode (dentries st (f_dentry fl))));
     op \<leftarrow> f_op fl;
     (if whence = 0 then do {
        p \<leftarrow> (if offset \<noteq> 0 then c_rem size offset else Some offset);
        Some (0, set_f_pos (fs_task st) n p st) }
      else if whence = 1 then do {
        p \<leftarrow> c_rem (f_pos fl + offset) size;
        Some (0, set_f_pos (fs_task st) n p st) }
      else if whence = 2 then do {
        p \<leftarrow> c_rem (size + offset) size;
        Some (0, set_f_pos (fs_task st) n p st) }
      else Some (- 1, st)) }"

definition sys_close :: "fsyms \<Rightarrow> int \<Rightarrow> fstate \<Rightarrow> (int \<times> fstate) option" where
  "sys_close sy fd st = do {
     n \<leftarrow> fd_to_file fd;
     (_, st) \<leftarrow> release_dentries sy (f_dentry (files st (fs_task st) n)) st;
     Some (0, releasefd n st) }"

definition sys_stat :: "fsyms \<Rightarrow> u8 list \<Rightarrow> fstate \<Rightarrow> (int \<times> (u32 \<times> u16 \<times> int) option \<times> fstate) option" where
  "sys_stat sy pathname st = do {
     (ino, st) \<leftarrow> inode_from_pathname sy pathname st;
     (case ino of
        None \<Rightarrow> Some (- 1, None, st\<lparr>ferrno := ENOENT\<rparr>)
      | Some i \<Rightarrow> Some (0, Some (i_ino (inodes st i), i_mode (inodes st i), i_size (inodes st i)), st)) }"

definition romfs_mount :: "fsyms \<Rightarrow> u8 list \<Rightarrow> u8 list \<Rightarrow> fstate \<Rightarrow> (int \<times> fstate) option" where
  "romfs_mount sy source target st = do {
     (s_inode, st) \<leftarrow> inode_from_pathname sy source st;
     (case s_inode of
        None \<Rightarrow> Some (- 1, st)
      | Some s_inode \<Rightarrow> do {
          (ino, st) \<leftarrow> fs_malloc sizeof_inode st;
          (case ino of
             None \<Rightarrow> Some (- 1, st)
           | Some ino \<Rightarrow>
               if length (basename target) \<ge> NAME_MAX then None
               else do {
                 let st = init_tmpfs_inode ino st;
                 let st = st\<lparr>inodes := (inodes st)(ino := (inodes st ino)\<lparr>i_op := Romfs_iops, i_mode := S_IFDIR, i_size := 0\<rparr>)\<rparr>;
                 (_, st) \<leftarrow> vfs_link (dev_inode sy) ino (basename target) st;
                 (sb, st) \<leftarrow> fs_malloc sizeof_super_block st;
                 (case sb of
                    None \<Rightarrow> Some (- 1, st)
                  | Some sb \<Rightarrow> do {
                      let mtd = i_private (inodes st s_inode);
                      off \<leftarrow> offsetof_first_device_inode (fmem st) (mtd_priv (mtds st mtd));
                      Some (0, st\<lparr>sblocks := (sblocks st)(sb := \<lparr>s_private = mtd, s_iroot = ino\<rparr>),
                        inodes := (inodes st)(ino := (inodes st ino)\<lparr>i_sb := sb, i_private := off\<rparr>)\<rparr>) }) }) }) }"

definition sys_mount :: "fsyms \<Rightarrow> u8 list \<Rightarrow> u8 list \<Rightarrow> u8 list \<Rightarrow> fstate \<Rightarrow> (int \<times> fstate) option" where
  "sys_mount sy source target filesystemtype st =
     (if filesystemtype = map chr ''romfs'' then romfs_mount sy source target st else Some (- 1, st))"

text \<open>The entry of the caller is the inode number and the name.\<close>

definition fillonedir :: "u32 \<times> u8 list \<Rightarrow> (u32 \<times> u8 list) option" where
  "fillonedir e = (if length (snd e) \<ge> NAME_MAX then None else Some e)"

definition sys_readdir_r :: "int \<Rightarrow> fstate \<Rightarrow> (int \<times> (u32 \<times> u8 list) option \<times> fstate) option" where
  "sys_readdir_r dirp st = do {
     n \<leftarrow> fd_to_file dirp;
     (r, e, st) \<leftarrow> vfs_iterate (fs_task st) n st;
     e \<leftarrow> (case e of None \<Rightarrow> Some None | Some e \<Rightarrow> do { e \<leftarrow> fillonedir e; Some (Some e) });
     Some (0, if r \<noteq> 0 then None else e, st) }"

section \<open>The device files\<close>

fun link_all :: "addr \<Rightarrow> (addr \<times> string) list \<Rightarrow> fstate \<Rightarrow> fstate option" where
  "link_all dir [] st = Some st"
| "link_all dir ((ino, name) # xs) st = do { (_, st) \<leftarrow> vfs_link dir ino (map chr name) st; link_all dir xs st }"

text \<open>\<open>a\<close> is the list of the addresses of the static inodes.\<close>

definition proc_init :: "fsyms \<Rightarrow> addr list \<Rightarrow> fstate \<Rightarrow> fstate option" where
  "proc_init sy a st = link_all (proc_inode sy) (zip (take 2 a) proc_names) st"

definition memdev_init :: "fsyms \<Rightarrow> addr list \<Rightarrow> fstate \<Rightarrow> fstate option" where
  "memdev_init sy a st = link_all (dev_inode sy) (zip (take 4 a) memdev_names) st"

definition mtd0_inode :: "addr \<Rightarrow> inode" where
  "mtd0_inode mtdram = \<lparr> i_mode = 0, i_ino = 0, i_size = 0, i_op = Tmpfs_iops, i_fop = Some Mtdchar_fops, i_sb = 0, i_private = mtdram \<rparr>"

definition mtdram_init :: "fsyms \<Rightarrow> addr \<Rightarrow> addr \<Rightarrow> addr \<Rightarrow> u32 \<Rightarrow> fstate \<Rightarrow> fstate option" where
  "mtdram_init sy mtd0 mtdram start sz st = do {
     let st = st\<lparr>mtds := (mtds st)(mtdram := snd (mtdram_init_device (mtds st mtdram) start sz (map chr ''mtd0'')))\<rparr>;
     let st = init_tmpfs_inode mtd0 st;
     (_, st) \<leftarrow> vfs_link (dev_inode sy) mtd0 (map chr ''mtd0'') st;
     Some st }"

section \<open>Names and paths\<close>

definition valid_name :: "u8 list \<Rightarrow> bool" where
  "valid_name n \<longleftrightarrow> n \<noteq> [] \<and> length n < NAME_MAX \<and> slash \<notin> set n"

definition path_of :: "u8 list list \<Rightarrow> u8 list" where
  "path_of names = (if names = [] then [slash] else concat (map (\<lambda>n. slash # n) names))"

text \<open>The calls of \<^verbatim>\<open>path_head\<close> from a position on return these names, and reach the end of the path.\<close>

fun path_splits :: "u8 list \<Rightarrow> nat \<Rightarrow> u8 list list \<Rightarrow> bool" where
  "path_splits p i [] \<longleftrightarrow> length p \<le> i"
| "path_splits p i (n # ns) \<longleftrightarrow> i < length p \<and> (\<exists>k. path_head [] (drop i p) = Some (k, n) \<and> path_splits p (nat (int i + k)) ns)"

lemma takeWhile_name:
  assumes "slash \<notin> set n" "rest = [] \<or> hd rest = slash" "length n \<le> k"
  shows "takeWhile (\<lambda>c. c \<noteq> slash) (take k (n @ rest)) = n"
proof -
  have "takeWhile (\<lambda>c. c \<noteq> slash) (take (k - length n) rest) = []"
    using assms(2) by (cases rest) (auto simp: take_Cons split: nat.split)
  moreover have "c \<noteq> slash" if "c \<in> set n" for c using that assms(1) by blast
  ultimately show ?thesis using assms(3) by (simp add: takeWhile_append2)
qed

lemma path_head_name:
  assumes "valid_name n" "rest = [] \<or> hd rest = slash"
  shows "path_head b (slash # n @ rest) = Some (1 + int (length n), n)" "path_head b (n @ rest) = Some (int (length n), n)"
proof -
  have n: "n \<noteq> []" "slash \<notin> set n" "length n < NAME_MAX" using assms(1) by (auto simp: valid_name_def)
  then show "path_head b (slash # n @ rest) = Some (1 + int (length n), n)"
    using takeWhile_name [OF n(2) assms(2), of "NAME_MAX - 1"] by (simp add: path_head_def)
  have "hd (n @ rest) \<noteq> slash" using n by (cases n) auto
  then show "path_head b (n @ rest) = Some (int (length n), n)"
    using takeWhile_name [OF n(2) assms(2), of NAME_MAX] n by (simp add: path_head_def)
qed

lemma names_split:
  assumes "\<forall>n\<in>set names. valid_name n"
  shows "path_splits (pre @ concat (map (\<lambda>n. slash # n) names)) (length pre) names"
  using assms
proof (induction names arbitrary: pre)
  case (Cons n ns)
  let ?rest = "concat (map (\<lambda>n. slash # n) ns)"
  have "?rest = [] \<or> hd ?rest = slash" by (cases ns) auto
  then have "path_head [] (slash # n @ ?rest) = Some (1 + int (length n), n)"
    using path_head_name(1) Cons.prems by simp
  moreover have "path_splits ((pre @ slash # n) @ ?rest) (length (pre @ slash # n)) ns" using Cons by (intro Cons.IH) simp
  moreover have "nat (int (length pre) + (1 + int (length n))) = length (pre @ slash # n)" by simp
  ultimately show ?case by (intro path_splits.simps(2) [THEN iffD2]) (auto simp del: length_append, simp)
qed simp

lemma path_of_splits:
  assumes "\<forall>n\<in>set names. valid_name n"
  obtains p where "path_of names = slash # p" "path_splits p 0 names"
proof (cases names)
  case Nil
  then show ?thesis using that by (simp add: path_of_def)
next
  case (Cons n ns)
  let ?rest = "concat (map (\<lambda>n. slash # n) ns)"
  have "?rest = [] \<or> hd ?rest = slash" by (cases ns) auto
  then have "path_head [] (n @ ?rest) = Some (int (length n), n)" using path_head_name(2) Cons assms by simp
  moreover have "path_splits (n @ ?rest) (length n) ns" using names_split [of ns n] Cons assms by simp
  moreover have "0 < length n" using Cons assms by (simp add: valid_name_def)
  ultimately show ?thesis using that [of "n @ ?rest"] Cons by (simp add: path_of_def)
qed

text \<open>A path as a sequence of lookups, each in the directory the previous one found.\<close>

fun vfs_walk :: "u8 list list \<Rightarrow> addr \<Rightarrow> fstate \<Rightarrow> (addr option \<times> fstate) option" where
  "vfs_walk [] ino st = Some (Some ino, st)"
| "vfs_walk (n # ns) ino st = do {
     (r, st) \<leftarrow> vfs_lookup ino n st;
     (case r of None \<Rightarrow> Some (None, st) | Some d \<Rightarrow> vfs_walk ns (fst d) st) }"

lemma inode_walk_names: "path_splits p i names \<Longrightarrow> inode_walk p i ino st = vfs_walk names ino st"
proof (induction names arbitrary: i ino st)
  case Nil
  then show ?case by (subst inode_walk.simps) simp
next
  case (Cons n ns)
  then show ?case by (subst inode_walk.simps) (auto simp: bind_eq_Some_conv split: option.splits Option.bind_splits prod.splits)
qed

text \<open>
  C31. For a path of names with fewer than 32 bytes, \<^verbatim>\<open>inode_from_pathname\<close> equals the sequence of lookups that starts in
  the root directory: the first name that is not found gives NULL, and nothing after it is looked up. The file
  systems on the way may be any.
\<close>

theorem inode_from_pathname_walk:
  assumes "\<forall>n\<in>set names. valid_name n"
  shows "inode_from_pathname sy (path_of names) st = vfs_walk names (root_inode sy) st"
proof -
  obtain p where p: "path_of names = slash # p" "path_splits p 0 names" using path_of_splits [OF assms] .
  then show ?thesis by (simp add: inode_from_pathname_def inode_walk_names)
qed

definition demo_syms :: fsyms where
  "demo_syms = \<lparr>root_inode = 0x40, dev_inode = 0x80, proc_inode = 0xc0, root_dentry = 0x10, version_ptr = 0, version_len = 0,
     write_offset = 0x20\<rparr>"

theorem inode_from_pathname_walk_witness:
  "inode_from_pathname demo_syms (map chr ''/dev/mem'') (demo_fstate demo_heap) = Some (None, demo_fstate demo_heap)"
proof -
  let ?names = "[map chr ''dev'', map chr ''mem'']" and ?st = "demo_fstate demo_heap"
  have "path_of ?names = map chr ''/dev/mem''" by (simp add: path_of_def slash_def)
  moreover have "\<forall>n\<in>set ?names. valid_name n" by (simp add: valid_name_def NAME_MAX_def slash_def chr_def)
  moreover have "S_ISDIR (i_mode (inodes ?st 0x40))" "i_op (inodes ?st 0x40) = Tmpfs_iops"
    by (simp_all add: demo_fstate_def tmpfs_inodes_def S_ISDIR_def S_IFDIR_def S_IFMT_def)
  then have "vfs_lookup 0x40 (map chr ''dev'') ?st = Some (None, ?st)"
    using tmpfs_lookup_rep [OF demo_fstate_rep] by (simp add: vfs_lookup_def dir_entries_def)
  ultimately show ?thesis using inode_from_pathname_walk [of ?names demo_syms ?st] by (simp add: demo_syms_def)
qed

text \<open>A first name of 32 bytes or more: the terminating zero is stored behind the buffer.\<close>

lemma path_head_overlong:
  assumes "slash \<notin> set n" "NAME_MAX \<le> length n"
  shows "inode_from_pathname sy (slash # n @ rest) st = None"
proof -
  have tw: "takeWhile (\<lambda>c. c \<noteq> slash) (take NAME_MAX n) = take NAME_MAX n"
    using assms(1) in_set_takeD [of slash NAME_MAX n] by (auto simp: takeWhile_eq_all_conv)
  have "n \<noteq> []" "hd (n @ rest) \<noteq> slash" using assms by (cases n; auto simp: NAME_MAX_def)+
  then have "path_head [] (n @ rest) = None" using assms(2) unfolding path_head_def Let_def by (simp add: tw)
  then show ?thesis using \<open>n \<noteq> []\<close> by (simp add: inode_from_pathname_def inode_walk.simps [of "n @ rest"])
qed

end
