(* ===== verification/Files.thy ===== *)
theory Files
  imports Vfs
begin

text \<open>
  Open files: what \<^verbatim>\<open>sys_open\<close> and \<^verbatim>\<open>sys_close\<close> do to the descriptors, to the dentries and to the heap they are allocated
  from.
\<close>

section \<open>Descriptors\<close>

definition fd_used :: "fstate \<Rightarrow> nat \<Rightarrow> bool" where
  "fd_used st fd \<longleftrightarrow> bit (fs_filemap st) fd"

lemma fs_filemap_set [simp]: "fs_filemap (set_filemap w st) = w" "fs_task (set_filemap w st) = fs_task st"
  by (simp_all add: set_filemap_def fs_filemap_def fs_task_def current_task_info_def)

lemma bm_bit_word0: "b < 32 \<Longrightarrow> bm_bit m b = bit (m 0) b"
  by (simp add: bm_bit_def BITS_PER_LONG_def)

lemma getfd_cases:
  obtains (full) "\<forall>fd<FILE_MAX. fd_used st fd" "getfd st = (- 1, st)"
  | (free) fd w where "fd < FILE_MAX" "\<not> fd_used st fd" "\<forall>j<fd. fd_used st j" "getfd st = (int fd, set_filemap w st)"
      "\<And>j. bit w j \<longleftrightarrow> j = fd \<or> fd_used st j"
proof -
  let ?m = "\<lambda>_ :: nat. fs_filemap st"
  define fd where "fd = find_first_zero_bit ?m FILE_MAX"
  have l: "least_below (\<lambda>b. \<not> bm_bit ?m b) FILE_MAX fd" unfolding fd_def by (rule find_first_zero_bit_least)
  have b: "bm_bit ?m j = fd_used st j" if "j < 32" for j using that by (simp add: fd_used_def bm_bit_word0)
  show thesis
  proof (cases "fd = FILE_MAX")
    case True
    then have "\<forall>j<FILE_MAX. fd_used st j" using l b by (auto simp: least_below_def FILE_MAX_def)
    then show ?thesis using full True by (simp add: getfd_def fd_def)
  next
    case False
    define w where "w = bitmap_set_bit ?m fd 0"
    have f: "fd < FILE_MAX" "\<not> fd_used st fd" "\<forall>j<fd. fd_used st j"
      using l False b by (auto simp: least_below_def FILE_MAX_def)
    have "bit w j \<longleftrightarrow> j = fd \<or> fd_used st j" for j
    proof (cases "j < 32")
      case True
      then show ?thesis using bm_bit_word0 [of j "bitmap_set_bit ?m fd"] b by (auto simp: w_def bm_bit_set)
    next
      case False
      then show ?thesis using f(1) by (auto simp: fd_used_def FILE_MAX_def dest: bit_imp_le_length)
    qed
    then show ?thesis using free [of fd w] f False by (simp add: getfd_def fd_def [symmetric] w_def)
  qed
qed

lemma releasefd_used:
  assumes "fd < FILE_MAX"
  shows "fd_used (releasefd fd st) j \<longleftrightarrow> j \<noteq> fd \<and> fd_used st j"
proof (cases "j < 32")
  case True
  then show ?thesis using bm_bit_word0 [of j "bitmap_clear_bit (\<lambda>_. fs_filemap st) fd"] bm_bit_word0 [of j "\<lambda>_. fs_filemap st"]
    by (simp add: releasefd_def fd_used_def bm_bit_clear)
next
  case False
  then show ?thesis using assms by (auto simp: fd_used_def FILE_MAX_def dest: bit_imp_le_length)
qed

section \<open>Chains of dentries\<close>

text \<open>What the calls leave alone: everything but the heap, the dentries and the error number.\<close>

definition frame :: "fstate \<Rightarrow> fstate \<Rightarrow> bool" where
  "frame st st' \<longleftrightarrow> (\<exists>h D n. st' = st\<lparr>fps := (fps st)\<lparr>kheap := h\<rparr>, dentries := D, ferrno := n\<rparr>)"

lemma frameI: "st' = st\<lparr>fps := (fps st)\<lparr>kheap := h\<rparr>, dentries := D, ferrno := n\<rparr> \<Longrightarrow> frame st st'"
  unfolding frame_def by blast

lemma frame_refl [simp]: "frame st st"
  by (rule frameI [where h = "kheap (fps st)" and D = "dentries st" and n = "ferrno st"]) simp

lemma frame_trans: "frame a b \<Longrightarrow> frame b c \<Longrightarrow> frame a c"
  unfolding frame_def by clarify (simp, blast)

lemma frameD:
  assumes "frame st st'"
  shows "inodes st' = inodes st" "files st' = files st" "dirents st' = dirents st" "flinks st' = flinks st"
    "fs_task st' = fs_task st" "fs_filemap st' = fs_filemap st"
  using assms by (auto simp: frame_def fs_task_def fs_filemap_def current_task_info_def)

fun dentry_chain :: "fsyms \<Rightarrow> fstate \<Rightarrow> addr list \<Rightarrow> addr \<Rightarrow> bool" where
  "dentry_chain sy st [] d \<longleftrightarrow> d = root_dentry sy"
| "dentry_chain sy st (x # ds) d \<longleftrightarrow> d = x \<and> x \<noteq> root_dentry sy \<and> d_count (dentries st x) = 1 \<and>
     d_op (dentries st x) = Tmpfs_dops \<and> dentry_chain sy st ds (d_parent (dentries st x))"

lemma dentry_chain_cong:
  "(\<And>x. x \<in> set ds \<Longrightarrow> dentries st' x = dentries st x) \<Longrightarrow> dentry_chain sy st' ds d = dentry_chain sy st ds d"
  by (induction ds arbitrary: d) auto

definition dentry_blocks :: "addr list \<Rightarrow> (addr \<times> u32) list" where
  "dentry_blocks ds = map (\<lambda>d. (d, sizeof_dentry)) ds"

definition chain_ok :: "fsyms \<Rightarrow> nat \<Rightarrow> nat \<Rightarrow> (addr \<times> u32) list \<Rightarrow> fstate \<Rightarrow> addr list \<Rightarrow> addr \<Rightarrow> bool" where
  "chain_ok sy s e live st ds d \<longleftrightarrow> dentry_chain sy st ds d \<and> distinct ds \<and> set ds \<inter> fst ` set live = {} \<and>
     heap_ok s e (kheap (fps st), dentry_blocks ds @ live)"

text \<open>Releasing the last dentry of a chain frees all of it.\<close>

lemma release_chain:
  assumes "chain_ok sy s e live st ds d"
  shows "\<exists>st'. release_dentries sy d st = Some (0, st') \<and> heap_ok s e (kheap (fps st'), live) \<and> frame st st'"
  using assms
proof (induction ds arbitrary: st d)
  case Nil
  then show ?case by (subst release_dentries.simps) (simp add: chain_ok_def dentry_blocks_def)
next
  case (Cons x ds)
  have c: "d = x" "x \<noteq> root_dentry sy" "d_count (dentries st x) = 1" "d_op (dentries st x) = Tmpfs_dops"
      "dentry_chain sy st ds (d_parent (dentries st x))" "distinct ds" "x \<notin> set ds" "set (x # ds) \<inter> fst ` set live = {}"
      "heap_ok s e (kheap (fps st), dentry_blocks (x # ds) @ live)"
    using Cons.prems by (auto simp: chain_ok_def)
  have "x \<in> fst ` set (dentry_blocks (x # ds) @ live)" by (simp add: dentry_blocks_def)
  then obtain h where h: "free x (kheap (fps st)) = Some h"
      "heap_ok s e (h, filter (\<lambda>b. fst b \<noteq> x) (dentry_blocks (x # ds) @ live))"
    using libc.release_ok [OF c(9)] by blast
  have "filter (\<lambda>b. fst b \<noteq> x) (dentry_blocks ds @ live) = dentry_blocks ds @ live"
    using c(7,8) by (subst filter_id_conv) (force simp: dentry_blocks_def)
  then have "filter (\<lambda>b. fst b \<noteq> x) (dentry_blocks (x # ds) @ live) = dentry_blocks ds @ live"
    by (simp add: dentry_blocks_def)
  with h(2) have h2: "heap_ok s e (h, dentry_blocks ds @ live)" by simp
  define st1 where "st1 = (set_d_count x 0 st)\<lparr>fps := (fps st)\<lparr>kheap := h\<rparr>\<rparr>"
  have run: "release_dentries sy d st = release_dentries sy (d_parent (dentries st x)) st1"
    using c(1-4) h(1)
    by (subst release_dentries.simps) (simp add: set_d_count_def vfs_release_def vfs_delete_def tmpfs_delete_def fs_free_def st1_def Let_def)
  have "dentry_chain sy st1 ds (d_parent (dentries st x))"
    using c(5,7) by (subst dentry_chain_cong [of ds _ st]) (auto simp: st1_def set_d_count_def)
  then have "chain_ok sy s e live st1 ds (d_parent (dentries st x))"
    using c(6,8) h2 by (auto simp: chain_ok_def st1_def)
  then obtain st' where st': "release_dentries sy (d_parent (dentries st x)) st1 = Some (0, st')"
      "heap_ok s e (kheap (fps st'), live)" "frame st1 st'"
    using Cons.IH by blast
  have "frame st st1" by (rule frameI [where h = h and D = "dentries st1" and n = "ferrno st"]) (simp add: st1_def set_d_count_def)
  then show ?case using run st' frame_trans by auto
qed

section \<open>Opening\<close>

text \<open>The inode a path names, when all directories on the way are in memory.\<close>

fun tmpfs_path :: "fstate \<Rightarrow> addr \<Rightarrow> u8 list list \<Rightarrow> addr option" where
  "tmpfs_path st ino [] = Some ino"
| "tmpfs_path st ino (n # ns) =
     (if S_ISDIR (i_mode (inodes st ino)) \<and> i_op (inodes st ino) = Tmpfs_iops
      then case tmpfs_lookup ino n st of Some (Some (i, _)) \<Rightarrow> tmpfs_path st i ns | _ \<Rightarrow> None
      else None)"

lemma tmpfs_lookup_cong:
  assumes "inodes st' = inodes st" "flinks st' = flinks st" "dirents st' = dirents st"
  shows "tmpfs_lookup d n st' = tmpfs_lookup d n st"
  unfolding tmpfs_lookup_def has_name_def [abs_def] assms ..

lemma tmpfs_path_cong: "frame st st' \<Longrightarrow> tmpfs_path st' ino ns = tmpfs_path st ino ns"
  using frameD [of st st'] tmpfs_lookup_cong [of st' st]
  by (induction ns arbitrary: ino) (auto split: option.splits)

lemma tmpfs_lookup_dops: "tmpfs_lookup d n st = Some (Some (i, op)) \<Longrightarrow> op = Tmpfs_dops"
  unfolding tmpfs_lookup_def bind_eq_Some_conv by clarify (simp split: option.splits fnode.splits)

text \<open>One step of the walk: the heap is full, or the chain is one dentry longer.\<close>

lemma open_step:
  assumes c: "chain_ok sy s e live st ds d" and root: "unat (root_dentry sy) < s \<or> e \<le> unat (root_dentry sy)"
    and p: "i < length p" "path_head [] (drop i p) = Some (k, n)"
    and l: "S_ISDIR (i_mode (inodes st ino))" "i_op (inodes st ino) = Tmpfs_iops" "tmpfs_lookup ino n st = Some (Some (i', dop))"
  shows "(\<exists>st'. open_walk sy p i ino d st = Some (Inl st') \<and> ferrno st' = ENOMEM) \<or>
    (\<exists>x st'. open_walk sy p i ino d st = open_walk sy p (nat (int i + k)) i' x st' \<and> chain_ok sy s e live st' (x # ds) x \<and>
      frame st st' \<and> d_inode (dentries st' x) = i')"
proof -
  have h: "heap_ok s e (kheap (fps st), dentry_blocks ds @ live)" using c by (simp add: chain_ok_def)
  have sz: "0 < sizeof_dentry" "unat sizeof_dentry \<le> 2 ^ 32 - 16" by (simp_all add: sizeof_dentry_def)
  show ?thesis
  proof (rule libc.alloc_fresh [OF h sz, where Q = Map.empty and mk = DirEnt])
    show "q \<in> fst ` set (dentry_blocks ds @ live) \<or> unat q < s \<or> e \<le> unat q" if "DirEnt q \<in> ring_nodes Map.empty" for q
      using that unfolding ring_nodes_iff by simp
  next
    assume "malloc sizeof_dentry (kheap (fps st)) = Some (None, kheap (fps st))"
    then show ?thesis using p(1) by (subst (1) open_walk.simps) (simp add: fs_malloc_def)
  next
    fix x h' assume x: "malloc sizeof_dentry (kheap (fps st)) = Some (Some x, h')"
      "heap_ok s e (h', (x, sizeof_dentry) # dentry_blocks ds @ live)" "x \<notin> fst ` set (dentry_blocks ds @ live)"
      "\<not> (unat x < s \<or> e \<le> unat x)"
    let ?st1 = "new_dentry x d n (st\<lparr>fps := (fps st)\<lparr>kheap := h'\<rparr>\<rparr>)"
    define st' where "st' = bind_dentry x (i', dop) ?st1"
    have look: "vfs_lookup ino n ?st1 = Some (Some (i', dop), ?st1)"
      using l tmpfs_lookup_cong [of ?st1 st] by (simp add: vfs_lookup_def new_dentry_def)
    then have run: "open_walk sy p i ino d st = open_walk sy p (nat (int i + k)) i' x st'"
      using p x(1) by (subst (1) open_walk.simps) (simp add: fs_malloc_def st'_def)
    have new: "x \<noteq> root_dentry sy" "x \<notin> set ds" "x \<notin> fst ` set live" using x(3,4) root by (auto simp: dentry_blocks_def image_Un image_image)
    have "dentry_chain sy st' ds d"
      using c new(2) by (subst dentry_chain_cong [of ds _ st]) (auto simp: chain_ok_def st'_def bind_dentry_def new_dentry_def)
    then have "chain_ok sy s e live st' (x # ds) x"
      using c new x(2) tmpfs_lookup_dops [OF l(3)] by (auto simp: chain_ok_def dentry_blocks_def st'_def bind_dentry_def new_dentry_def)
    moreover have "frame st st'"
      by (rule frameI [where h = h' and D = "dentries st'" and n = "ferrno st"]) (simp add: st'_def bind_dentry_def new_dentry_def)
    moreover have "d_inode (dentries st' x) = i'" by (simp add: st'_def bind_dentry_def)
    ultimately show ?thesis using run by blast
  qed
qed

lemma open_walk_chain:
  assumes "chain_ok sy s e live st ds d" "unat (root_dentry sy) < s \<or> e \<le> unat (root_dentry sy)"
    "path_splits p i names" "tmpfs_path st ino names = Some t" "d_inode (dentries st d) = ino"
  shows "(\<exists>st'. open_walk sy p i ino d st = Some (Inl st') \<and> ferrno st' = ENOMEM) \<or>
    (\<exists>ds' d' st'. open_walk sy p i ino d st = Some (Inr (t, d', st')) \<and> chain_ok sy s e live st' (ds' @ ds) d' \<and>
      length ds' = length names \<and> frame st st' \<and> d_inode (dentries st' d') = t)"
  using assms
proof (induction names arbitrary: i ino d st ds)
  case Nil
  then show ?case by (subst open_walk.simps) (force intro: exI [of _ "[]"])
next
  case (Cons n ns)
  obtain k where k: "i < length p" "path_head [] (drop i p) = Some (k, n)" "path_splits p (nat (int i + k)) ns"
    using Cons.prems(3) by auto
  obtain i' dop where l: "S_ISDIR (i_mode (inodes st ino))" "i_op (inodes st ino) = Tmpfs_iops"
      "tmpfs_lookup ino n st = Some (Some (i', dop))" "tmpfs_path st i' ns = Some t"
    using Cons.prems(4) by (auto split: if_splits option.splits)
  from open_step [OF Cons.prems(1,2) k(1,2) l(1-3)] show ?case
  proof (elim disjE exE conjE)
    fix x st1 assume x: "open_walk sy p i ino d st = open_walk sy p (nat (int i + k)) i' x st1"
      "chain_ok sy s e live st1 (x # ds) x" "frame st st1" "d_inode (dentries st1 x) = i'"
    have "tmpfs_path st1 i' ns = Some t" using tmpfs_path_cong [OF x(3)] l(4) by simp
    from Cons.IH [OF x(2) Cons.prems(2) k(3) this x(4)] show ?case
    proof (elim disjE exE conjE)
      fix ds' d' st' assume y: "open_walk sy p (nat (int i + k)) i' x st1 = Some (Inr (t, d', st'))"
        "chain_ok sy s e live st' (ds' @ x # ds) d'" "length ds' = length ns" "frame st1 st'" "d_inode (dentries st' d') = t"
      then show ?thesis using x(1) frame_trans [OF x(3) y(4)]
        by (intro disjI2 exI [of _ "ds' @ [x]"] exI [of _ d'] exI [of _ st']) simp
    qed (use x(1) in auto)
  qed blast
qed

section \<open>Properties\<close>

lemma set_filemap_keeps [simp]:
  "inodes (set_filemap w st) = inodes st" "dentries (set_filemap w st) = dentries st" "files (set_filemap w st) = files st"
  "fs_task (st\<lparr>files := x\<rparr>) = fs_task st"
  by (simp_all add: set_filemap_def fs_task_def)

lemma fop_open_keeps:
  assumes "st' = snd (fop_open op ino t n st)"
  shows "dentries st' = dentries st" "fps st' = fps st" "inodes st' = inodes st" "fs_task st' = fs_task st" "fs_filemap st' = fs_filemap st"
    "f_dentry (files st' t n) = f_dentry (files st t n)" "f_op (files st' t n) = f_op (files st t n)" "f_pos (files st' t n) = f_pos (files st t n)"
    "fmem st' = fmem st" "flinks st' = flinks st" "dirents st' = dirents st"
  unfolding assms
  by (cases op; simp add: fop_open_def romfs_open_def mtdchar_open_def set_f_private_def fs_task_def fs_filemap_def)+

lemma chain_ok_cong:
  "dentries st' = dentries st \<Longrightarrow> kheap (fps st') = kheap (fps st) \<Longrightarrow> chain_ok sy s e live st' ds d = chain_ok sy s e live st ds d"
  using dentry_chain_cong [of ds st' st sy d] by (simp add: chain_ok_def)

text \<open>Opening a path and closing a descriptor, each for itself.\<close>

lemma sys_open_path:
  assumes heap: "heap_ok s e (kheap (fps st), live)" and root: "unat (root_dentry sy) < s \<or> e \<le> unat (root_dentry sy)"
      "d_inode (dentries st (root_dentry sy)) = root_inode sy"
    and names: "\<forall>n\<in>set names. valid_name n" "tmpfs_path st (root_inode sy) names = Some ino" "i_fop (inodes st ino) = Some op"
    and flags: "flags AND O_DIRECTORY = 0 \<or> S_ISDIR (i_mode (inodes st ino))"
  shows "(\<exists>st'. sys_open sy (path_of names) flags st = Some (0, st') \<and>
      (ferrno st' = ENOMEM \<or> ferrno st' = EBADF \<and> (\<forall>fd<FILE_MAX. fd_used st fd))) \<or>
    (\<exists>fd st1 ds d. sys_open sy (path_of names) flags st = Some (int fd, st1) \<and>
      fd < FILE_MAX \<and> \<not> fd_used st fd \<and> (\<forall>j<fd. fd_used st j) \<and> (\<forall>j. fd_used st1 j \<longleftrightarrow> j = fd \<or> fd_used st j) \<and>
      f_dentry (files st1 (fs_task st) fd) = d \<and> f_op (files st1 (fs_task st) fd) = Some op \<and> f_pos (files st1 (fs_task st) fd) = 0 \<and>
      d_inode (dentries st1 d) = ino \<and> chain_ok sy s e live st1 ds d \<and> length ds = length names \<and> fs_task st1 = fs_task st \<and>
      fmem st1 = fmem st \<and> inodes st1 = inodes st \<and> flinks st1 = flinks st \<and> dirents st1 = dirents st)"
proof -
  obtain p where p: "path_of names = slash # p" "path_splits p 0 names" using path_of_splits [OF names(1)] .
  have "chain_ok sy s e live st [] (root_dentry sy)" using heap by (simp add: chain_ok_def dentry_blocks_def)
  from open_walk_chain [OF this root(1) p(2) names(2) root(2)] show ?thesis
  proof (elim disjE exE conjE)
    fix st' assume "open_walk sy p 0 (root_inode sy) (root_dentry sy) st = Some (Inl st')" "ferrno st' = ENOMEM"
    then show ?thesis using p(1) by (simp add: sys_open_def)
  next
    fix ds d w assume w: "open_walk sy p 0 (root_inode sy) (root_dentry sy) st = Some (Inr (ino, d, w))"
      "chain_ok sy s e live w (ds @ []) d" "length ds = length names" "frame st w" "d_inode (dentries w d) = ino"
    note f = frameD [OF w(4)]
    have fm: "fmem w = fmem st" using w(4) by (auto simp: frame_def)
    have dir: "\<not> (flags AND O_DIRECTORY \<noteq> 0 \<and> \<not> S_ISDIR (i_mode (inodes w ino)))" using flags f(1) by auto
    have used: "fd_used w j = fd_used st j" for j using f(6) by (simp add: fd_used_def)
    show ?thesis
    proof (cases rule: getfd_cases [of w])
      case full
      then show ?thesis using p(1) w(1) dir used by (auto simp: sys_open_def)
    next
      case (free fd m)
      let ?w = "set_filemap m w"
      define a where "a = ?w\<lparr>files := (files ?w)(fs_task w := (files ?w (fs_task w))(fd := (files ?w (fs_task w) fd)\<lparr>f_dentry := d, f_op := Some op, f_pos := 0\<rparr>))\<rparr>"
      define b where "b = snd (fop_open op ino (fs_task w) fd a)"
      note k = fop_open_keeps [OF b_def]
      have a: "dentries a = dentries w" "kheap (fps a) = kheap (fps w)" "fs_filemap a = m" "fs_task a = fs_task w"
          "fmem a = fmem st" "inodes a = inodes st" "flinks a = flinks st" "dirents a = dirents st"
        using fm f by (simp_all add: a_def set_filemap_def fs_filemap_def fs_task_def current_task_info_def)
      have n: "fd_to_file (int fd) = Some fd" using free(1) by (simp add: fd_to_file_def)
      have op: "i_fop (inodes w (d_inode (dentries w d))) = Some op" using w(5) names(3) f(1) by simp
      have "sys_open sy (path_of names) flags st = Some (int fd, b)"
        using p(1) w(1) dir free(4) n op a(4)
        unfolding sys_open_def Let_def by (auto simp: a_def b_def)
      moreover have "fd_used b j \<longleftrightarrow> j = fd \<or> fd_used st j" for j using k(5) a(3) free(5) used by (simp add: fd_used_def)
      moreover have "f_dentry (files b (fs_task w) fd) = d" "f_op (files b (fs_task w) fd) = Some op" "f_pos (files b (fs_task w) fd) = 0"
        using k(6-8) by (simp_all add: a_def)
      moreover have "chain_ok sy s e live b ds d" using w(2) k(1,2) a(1,2) chain_ok_cong [of b w] by simp
      ultimately show ?thesis
        using free(1-3) used w(3,5) k(1,3,4,9-11) a f(5)
        by (intro disjI2 exI [of _ fd] exI [of _ b] exI [of _ ds] exI [of _ d]) simp
    qed
  qed
qed

lemma sys_close_chain:
  assumes "chain_ok sy s e live st ds (f_dentry (files st (fs_task st) fd))" "fd < FILE_MAX"
  shows "\<exists>st'. sys_close sy (int fd) st = Some (0, st') \<and> heap_ok s e (kheap (fps st'), live) \<and>
    (\<forall>j. fd_used st' j \<longleftrightarrow> j \<noteq> fd \<and> fd_used st j)"
proof -
  obtain b where b: "release_dentries sy (f_dentry (files st (fs_task st) fd)) st = Some (0, b)"
      "heap_ok s e (kheap (fps b), live)" "frame st b"
    using release_chain [OF assms(1)] by blast
  have "fd_to_file (int fd) = Some fd" using assms(2) by (simp add: fd_to_file_def)
  then have "sys_close sy (int fd) st = Some (0, releasefd fd b)" using b(1) by (simp add: sys_close_def)
  moreover have "heap_ok s e (kheap (fps (releasefd fd b)), live)" using b(2) by (simp add: releasefd_def set_filemap_def)
  moreover have "fd_used (releasefd fd b) j \<longleftrightarrow> j \<noteq> fd \<and> fd_used st j" for j
    using releasefd_used [OF assms(2)] frameD(6) [OF b(3)] by (simp add: fd_used_def)
  ultimately show ?thesis by blast
qed

text \<open>
  C32. Opening a path through directories in memory fails with ENOMEM, or with EBADF when all eight descriptors are in
  use; otherwise it returns the lowest free descriptor, whose file has the inode the path names, its operations and
  position 0, and it has allocated one dentry for every name. Closing that descriptor gives all of them back to the
  heap and frees the descriptor and no other one.
\<close>

theorem sys_open_close:
  assumes heap: "heap_ok s e (kheap (fps st), live)" and root: "unat (root_dentry sy) < s \<or> e \<le> unat (root_dentry sy)"
      "d_inode (dentries st (root_dentry sy)) = root_inode sy"
    and names: "\<forall>n\<in>set names. valid_name n" "tmpfs_path st (root_inode sy) names = Some ino" "i_fop (inodes st ino) = Some op"
    and flags: "flags AND O_DIRECTORY = 0 \<or> S_ISDIR (i_mode (inodes st ino))"
  shows "(\<exists>st'. sys_open sy (path_of names) flags st = Some (0, st') \<and>
      (ferrno st' = ENOMEM \<or> ferrno st' = EBADF \<and> (\<forall>fd<FILE_MAX. fd_used st fd))) \<or>
    (\<exists>fd st1 ds st2. sys_open sy (path_of names) flags st = Some (int fd, st1) \<and>
      fd < FILE_MAX \<and> \<not> fd_used st fd \<and> (\<forall>j<fd. fd_used st j) \<and> (\<forall>j. fd_used st1 j \<longleftrightarrow> j = fd \<or> fd_used st j) \<and>
      (let fl = files st1 (fs_task st) fd in d_inode (dentries st1 (f_dentry fl)) = ino \<and> f_op fl = Some op \<and> f_pos fl = 0) \<and>
      heap_ok s e (kheap (fps st1), dentry_blocks ds @ live) \<and> length ds = length names \<and>
      sys_close sy (int fd) st1 = Some (0, st2) \<and> heap_ok s e (kheap (fps st2), live) \<and> (\<forall>j. fd_used st2 j = fd_used st j))"
  using sys_open_path [OF assms]
proof (elim disjE)
  assume "\<exists>fd st1 ds d. sys_open sy (path_of names) flags st = Some (int fd, st1) \<and>
      fd < FILE_MAX \<and> \<not> fd_used st fd \<and> (\<forall>j<fd. fd_used st j) \<and> (\<forall>j. fd_used st1 j \<longleftrightarrow> j = fd \<or> fd_used st j) \<and>
      f_dentry (files st1 (fs_task st) fd) = d \<and> f_op (files st1 (fs_task st) fd) = Some op \<and> f_pos (files st1 (fs_task st) fd) = 0 \<and>
      d_inode (dentries st1 d) = ino \<and> chain_ok sy s e live st1 ds d \<and> length ds = length names \<and> fs_task st1 = fs_task st \<and>
      fmem st1 = fmem st \<and> inodes st1 = inodes st \<and> flinks st1 = flinks st \<and> dirents st1 = dirents st"
  then obtain fd st1 ds where o: "sys_open sy (path_of names) flags st = Some (int fd, st1)"
      "fd < FILE_MAX" "\<not> fd_used st fd" "\<forall>j<fd. fd_used st j" "\<And>j. fd_used st1 j \<longleftrightarrow> j = fd \<or> fd_used st j"
      "f_op (files st1 (fs_task st) fd) = Some op" "f_pos (files st1 (fs_task st) fd) = 0"
      "d_inode (dentries st1 (f_dentry (files st1 (fs_task st) fd))) = ino"
      "chain_ok sy s e live st1 ds (f_dentry (files st1 (fs_task st) fd))" "length ds = length names" "fs_task st1 = fs_task st"
    by blast
  obtain st2 where st2: "sys_close sy (int fd) st1 = Some (0, st2)" "heap_ok s e (kheap (fps st2), live)"
      "\<And>j. fd_used st2 j \<longleftrightarrow> j \<noteq> fd \<and> fd_used st1 j"
    using sys_close_chain [of sy s e live st1 ds fd] o(2,9,11) by auto
  have "fd_used st2 j = fd_used st j" for j using st2(3) o(3,5) by auto
  then show ?thesis
    using o st2(1,2) by (intro disjI2 exI [of _ fd] exI [of _ st1] exI [of _ ds] exI [of _ st2]) (simp add: chain_ok_def Let_def)
qed blast

definition demo_dir :: "heap \<Rightarrow> fstate" where
  "demo_dir h = (demo_fstate h)\<lparr>
     flinks := \<lparr>lnext = (\<lambda>n. Node (if n = DirHead 0x41 then DirEnt 0x60 else DirHead 0x41)),
       lprev = (\<lambda>n. Node (if n = DirHead 0x41 then DirEnt 0x60 else DirHead 0x41))\<rparr>,
     dirents := (\<lambda>_. \<lparr>dl_inode = 0x80, dl_name = map chr ''dev''\<rparr>)\<rparr>"

lemma demo_dir_rep: "dir_rep (demo_dir h) [DirHead 0x41 \<mapsto> [DirEnt 0x60]] 0x40 [0x60]"
  by (auto simp: dir_rep_def demo_dir_def demo_fstate_def tmpfs_inodes_def lists_def ring_def split: if_splits)

lemma bit_7: "j < 32 \<and> bit (7 :: int) j \<longleftrightarrow> j < 3"
proof -
  have s: "(7 :: int) = mask 3" by (simp add: mask_eq_exp_minus_1)
  show ?thesis unfolding s bit_mask_iff by auto
qed

theorem sys_open_close_witness:
  "\<exists>h st1 st2. sys_open demo_syms (map chr ''/dev'') 0 (demo_dir h) = Some (3, st1) \<and> sys_close demo_syms 3 st1 = Some (0, st2)"
proof -
  obtain h where h: "malloc_rep 0x1000 0x1100 h [(0x1000, 256, True)]" using demo_heap_rep .
  let ?st = "demo_dir h" and ?names = "[map chr ''dev'']"
  have i: "inodes ?st a = tmpfs_inodes 0 (a + 1)" for a by (simp add: demo_dir_def demo_fstate_def)
  have ok: "heap_ok 0x1000 0x1100 (kheap (fps ?st), [])" using h by (auto simp: heap_ok_def demo_dir_def demo_fstate_def)
  have pth: "path_of ?names = map chr ''/dev''" by (simp add: path_of_def slash_def)
  have v: "\<forall>n\<in>set ?names. valid_name n" by (simp add: valid_name_def NAME_MAX_def slash_def chr_def)
  have t: "tmpfs_path ?st (root_inode demo_syms) ?names = Some 0x80"
    using tmpfs_lookup_rep [OF demo_dir_rep]
    by (simp add: demo_syms_def i tmpfs_inodes_def S_ISDIR_def S_IFDIR_def S_IFMT_def dir_entries_def) (simp add: demo_dir_def)
  have u: "fd_used ?st j \<longleftrightarrow> j < 3" for j
    by (simp add: bit_7 fd_used_def fs_filemap_def fs_task_def demo_dir_def demo_fstate_def demo_pstate_def)
  obtain h' p where "malloc 48 h = Some (Some p, h')"
    using malloc_rep_malloc [OF h, of 48] request_unat [of 48] by (auto simp: request_def)
  note m = this
  let ?st1 = "new_dentry p 0x10 (map chr ''dev'') (?st\<lparr>fps := (fps ?st)\<lparr>kheap := h'\<rparr>\<rparr>)"
  have ph: "path_head [] (map chr ''dev'') = Some (3, map chr ''dev'')"
    using path_head_name(2) [of "map chr ''dev''" "[]" "[]"] v by simp
  have "tmpfs_lookup 0x40 (map chr ''dev'') ?st1 = Some (Some (0x80, Tmpfs_dops))"
    using tmpfs_lookup_rep [OF demo_dir_rep, of "map chr ''dev''"] tmpfs_lookup_cong [of ?st1 ?st]
    by (simp add: new_dentry_def dir_entries_def) (simp add: demo_dir_def)
  then have l: "vfs_lookup 0x40 (map chr ''dev'') ?st1 = Some (Some (0x80, Tmpfs_dops), ?st1)"
    by (simp add: vfs_lookup_def new_dentry_def i tmpfs_inodes_def S_ISDIR_def S_IFDIR_def S_IFMT_def)
  have w: "open_walk demo_syms (map chr ''dev'') 0 0x40 0x10 ?st = Some (Inr (0x80, p, bind_dentry p (0x80, Tmpfs_dops) ?st1))"
    using m ph l by (subst open_walk.simps, subst open_walk.simps)
      (simp add: fs_malloc_def sizeof_dentry_def demo_dir_def demo_fstate_def)
  let ?w = "bind_dentry p (0x80, Tmpfs_dops) ?st1"
  have "fd_used ?w j = fd_used ?st j" for j
    by (simp add: fd_used_def fs_filemap_def fs_task_def current_task_info_def bind_dentry_def new_dentry_def)
  then have "0 < fst (getfd ?w)" using u by (cases rule: getfd_cases [of ?w]) (auto simp: FILE_MAX_def dest: spec [of _ 3])
  then have "sys_open demo_syms (map chr ''/dev'') 0 ?st \<noteq> Some (0, st')" if "ferrno st' = ENOMEM" for st'
    using w by (auto simp: sys_open_def demo_syms_def Let_def split: prod.splits Option.bind_splits)
  note no = this
  have r: "unat (root_dentry demo_syms) < 0x1000 \<or> 0x1100 \<le> unat (root_dentry demo_syms)" by (simp add: demo_syms_def)
  have d: "d_inode (dentries ?st (root_dentry demo_syms)) = root_inode demo_syms"
    by (simp add: demo_syms_def demo_dir_def demo_fstate_def root_dentry_init_def)
  have op: "i_fop (inodes ?st 0x80) = Some Tmpfs_fops" by (simp add: i tmpfs_inodes_def)
  have "\<not> fd_used ?st 3" "3 < FILE_MAX" using u by (simp_all add: FILE_MAX_def)
  then have full: "\<not> (\<forall>fd<FILE_MAX. fd_used ?st fd)" by blast
  have three: "fd = 3" if "\<not> fd_used ?st fd" "\<forall>j<fd. fd_used ?st j" for fd
    using that u [of fd] u [of "fd - 1"] by (cases fd) auto
  have "0 AND O_DIRECTORY = 0 \<or> S_ISDIR (i_mode (inodes ?st 0x80))" by simp
  from sys_open_close [OF ok r d v t op this, unfolded pth] show ?thesis
  proof (elim disjE exE conjE)
    fix st' assume "sys_open demo_syms (map chr ''/dev'') 0 ?st = Some (0, st')" "ferrno st' = ENOMEM"
    then show ?thesis using no by blast
  next
    fix st' assume "\<forall>fd<FILE_MAX. fd_used ?st fd"
    then show ?thesis using full by blast
  next
    fix fd st1 st2 assume o: "sys_open demo_syms (map chr ''/dev'') 0 ?st = Some (int fd, st1)" "\<not> fd_used ?st fd"
      "\<forall>j<fd. fd_used ?st j" "sys_close demo_syms (int fd) st1 = Some (0, st2)"
    then have "fd = 3" using three by blast
    then show ?thesis using o(1,4) by (intro exI conjI) simp_all
  qed
qed

section \<open>The table of descriptors\<close>

definition same_tasks :: "fstate \<Rightarrow> fstate \<Rightarrow> bool" where
  "same_tasks st st' \<longleftrightarrow> ts (fps st') = ts (fps st) \<and> tasks (fps st') = tasks (fps st)"

lemma same_tasks_refl [simp]: "same_tasks st st" by (simp add: same_tasks_def)

lemma same_tasks_trans: "same_tasks a b \<Longrightarrow> same_tasks b c \<Longrightarrow> same_tasks a c" by (simp add: same_tasks_def)

lemma same_tasks_used: "same_tasks st st' \<Longrightarrow> fd_used st' j = fd_used st j" "same_tasks st st' \<Longrightarrow> fs_task st' = fs_task st"
  by (simp_all add: same_tasks_def fd_used_def fs_filemap_def fs_task_def current_task_info_def)

lemma fs_malloc_tasks: "fs_malloc n st = Some (r, st') \<Longrightarrow> same_tasks st st'"
  by (auto simp: fs_malloc_def same_tasks_def bind_eq_Some_conv)

lemma fs_free_tasks: "fs_free p st = Some st' \<Longrightarrow> same_tasks st st'"
  by (auto simp: fs_free_def same_tasks_def bind_eq_Some_conv)

lemma alloc_inode_tasks: "alloc_inode ri sb st = Some (r, st') \<Longrightarrow> same_tasks st st'"
  unfolding alloc_inode_def bind_eq_Some_conv
  by (auto simp: same_tasks_def split: option.splits dest!: fs_malloc_tasks)

lemma vfs_lookup_tasks: "vfs_lookup d n st = Some (r, st') \<Longrightarrow> same_tasks st st'"
  unfolding vfs_lookup_def romfs_lookup_def Let_def bind_eq_Some_conv
  by (auto simp: bind_eq_Some_conv split: if_splits iops.splits option.splits dest: alloc_inode_tasks)

lemma vfs_delete_tasks: "vfs_delete d st = Some (r, st') \<Longrightarrow> same_tasks st st'"
  by (auto simp: vfs_delete_def tmpfs_delete_def romfs_delete_def bind_eq_Some_conv Let_def
      split: if_splits dops.splits dest!: fs_free_tasks intro: same_tasks_trans)

lemma release_dentries_tasks: "release_dentries sy d st = Some x \<Longrightarrow> same_tasks st (snd x)"
proof (erule release_dentries.raw_induct [rotated])
  fix f :: "fsyms \<Rightarrow> addr \<Rightarrow> fstate \<Rightarrow> (int \<times> fstate) option" and sy d and st x :: "int \<times> fstate"
  assume IH: "\<And>sy d st x. f sy d st = Some x \<Longrightarrow> same_tasks st (snd x)"
  have c: "same_tasks st (set_d_count d n st)" "same_tasks st (vfs_release d (set_d_count d n st))" for d n st
    by (simp_all add: same_tasks_def set_d_count_def vfs_release_def split: dops.split)
  fix st assume "(if d = root_dentry sy then Some (0, st)
      else if d_count (dentries st d) = 0 then Some (- 1, st)
      else let n = d_count (dentries st d) - 1; st = set_d_count d n st
           in if n \<noteq> 0 then Some (0, st)
              else let parent = d_parent (dentries st d); st = vfs_release d st
                   in Option.bind (if d_count (dentries st d) = 0 then vfs_delete d st else Some (0, st))
                        (\<lambda>r. f sy parent (snd r))) = Some x"
  then show "same_tasks st (snd x)" using c
    by (auto simp: Let_def bind_eq_Some_conv split: if_splits dest!: IH vfs_delete_tasks) (meson c same_tasks_trans)+
qed

lemma open_walk_tasks: "open_walk sy p i ino d st = Some x \<Longrightarrow> same_tasks st (case x of Inl st' \<Rightarrow> st' | Inr (_, _, st') \<Rightarrow> st')"
proof (erule open_walk.raw_induct [rotated])
  let ?P = "\<lambda>st x. same_tasks st (case x of Inl st' \<Rightarrow> st' | Inr (_, _, st') \<Rightarrow> st')"
  fix f :: "fsyms \<Rightarrow> u8 list \<Rightarrow> nat \<Rightarrow> addr \<Rightarrow> addr \<Rightarrow> fstate \<Rightarrow> (fstate + addr \<times> addr \<times> fstate) option" and sy p i ino d st x
  assume IH: "\<And>sy p i ino d st x. f sy p i ino d st = Some x \<Longrightarrow> ?P st x"
  have c: "same_tasks st (new_dentry a b n st)" "same_tasks st (bind_dentry a r st)" "same_tasks st (st\<lparr>ferrno := v\<rparr>)" for st a b n r v
    by (simp_all add: same_tasks_def new_dentry_def bind_dentry_def)
  assume "(if i < length p then
        Option.bind (fs_malloc sizeof_dentry st) (\<lambda>a.
          case fst a of
            None \<Rightarrow> Some (Inl ((snd a)\<lparr>ferrno := ENOMEM\<rparr>))
          | Some target \<Rightarrow>
              Option.bind (path_head [] (drop i p)) (\<lambda>h.
              Option.bind (vfs_lookup ino (snd h) (new_dentry target d (snd h) (snd a))) (\<lambda>r.
                case fst r of
                  None \<Rightarrow> Option.bind (release_dentries sy d ((snd r)\<lparr>ferrno := ENOENT\<rparr>)) (\<lambda>x. Some (Inl (snd x)))
                | Some e \<Rightarrow> f sy p (nat (int i + fst h)) (fst e) target (bind_dentry target e (snd r)))))
      else Some (Inr (ino, d, st))) = Some x"
  note run = this
  show "?P st x"
  proof (cases "i < length p")
    case True
    obtain a where a: "fs_malloc sizeof_dentry st = Some a" using run True by (auto simp: bind_eq_Some_conv)
    have t: "same_tasks st (snd a)" using fs_malloc_tasks a by (cases a) simp
    show ?thesis
    proof (cases "fst a")
      case None
      then show ?thesis using run True a t same_tasks_trans [OF t c(3)] by auto
    next
      case (Some y)
      then obtain h r where r: "path_head [] (drop i p) = Some h" "vfs_lookup ino (snd h) (new_dentry y d (snd h) (snd a)) = Some r"
        using run True a by (auto simp: bind_eq_Some_conv)
      have "same_tasks (new_dentry y d (snd h) (snd a)) (snd r)" using vfs_lookup_tasks r(2) by (cases r) simp
      then have t2: "same_tasks st (snd r)" using same_tasks_trans [OF same_tasks_trans [OF t c(1)]] by blast
      show ?thesis
      proof (cases "fst r")
        case None
        then obtain z where "release_dentries sy d ((snd r)\<lparr>ferrno := ENOENT\<rparr>) = Some z" "x = Inl (snd z)"
          using run True a Some r by (auto simp: bind_eq_Some_conv)
        moreover from this(1) have "same_tasks ((snd r)\<lparr>ferrno := ENOENT\<rparr>) (snd z)" by (rule release_dentries_tasks)
        ultimately show ?thesis using same_tasks_trans [OF same_tasks_trans [OF t2 c(3)]] by simp
      next
        case (Some e)
        then have "f sy p (nat (int i + fst h)) (fst e) y (bind_dentry y e (snd r)) = Some x"
          using run True a \<open>fst a = Some y\<close> r by simp
        from IH [OF this] show ?thesis using same_tasks_trans [OF same_tasks_trans [OF t2 c(2)]] by blast
      qed
    qed
  qed (use run in auto)
qed

lemma fop_read_tasks: "fop_read sy op fl buf n off st = Some (r, st') \<Longrightarrow> same_tasks st st'"
  unfolding fop_read_def romfs_read_def mtdchar_read_def Let_def bind_eq_Some_conv
  by (cases op) (auto simp: same_tasks_def read_mem_def memcpy_def read_null_def read_zero_def read_random_def read_version_def
    read_meminfo_def Let_def bind_eq_Some_conv split: if_splits prod.splits)

lemma fop_write_tasks: "fop_write sy op fl buf n off st = Some (r, st') \<Longrightarrow> same_tasks st st'"
  by (cases op) (auto simp: fop_write_def mtdchar_write_def same_tasks_def write_mem_def memcpy_def write_null_def bind_eq_Some_conv)

definition fds_ok :: "fstate \<Rightarrow> bool" where
  "fds_ok st \<longleftrightarrow> (\<forall>j. fd_used st j \<longrightarrow> j < FILE_MAX)"

lemma same_tasks_fds: "same_tasks st st' \<Longrightarrow> fds_ok st \<Longrightarrow> fds_ok st'"
  by (simp add: fds_ok_def same_tasks_used)

lemma fd_to_file_Some: "fd_to_file fd = Some k \<longleftrightarrow> 0 \<le> fd \<and> fd < int FILE_MAX \<and> k = nat fd"
  by (auto simp: fd_to_file_def)

lemma set_f_pos_tasks: "same_tasks st (set_f_pos t k v st)"
  by (simp add: same_tasks_def set_f_pos_def)

lemma sys_read_fds:
  assumes "fds_ok st" "sys_read sy fd buf n st = Some (r, st')"
  shows "fds_ok st' \<and> 0 \<le> fd \<and> fd < int FILE_MAX"
  using assms(2) same_tasks_fds [OF fop_read_tasks assms(1)] same_tasks_fds [OF set_f_pos_tasks] assms(1)
  by (auto simp: sys_read_def Let_def bind_eq_Some_conv fd_to_file_Some split: if_splits)

lemma sys_write_fds:
  assumes "fds_ok st" "sys_write sy fd buf n st = Some (r, st')"
  shows "fds_ok st' \<and> 0 \<le> fd \<and> fd < int FILE_MAX"
  using assms(2) same_tasks_fds [OF fop_write_tasks assms(1)] same_tasks_fds [OF set_f_pos_tasks]
  by (auto simp: sys_write_def Let_def bind_eq_Some_conv fd_to_file_Some)

lemma sys_close_fds:
  assumes "fds_ok st" "sys_close sy fd st = Some (r, st')"
  shows "fds_ok st' \<and> 0 \<le> fd \<and> fd < int FILE_MAX"
proof -
  obtain k x w where x: "fd_to_file fd = Some k" "release_dentries sy (f_dentry (files st (fs_task st) k)) st = Some (x, w)" "st' = releasefd k w"
    using assms(2) by (auto simp: sys_close_def bind_eq_Some_conv)
  then have "fds_ok w" using release_dentries_tasks [OF x(2)] same_tasks_fds assms(1) by auto
  then show ?thesis using x(1,3) releasefd_used [of k w] by (auto simp: fds_ok_def fd_to_file_Some)
qed

lemma fs_filemap_files: "fs_filemap (st\<lparr>files := x\<rparr>) = fs_filemap st"
  by (simp add: fs_filemap_def)

lemma sys_open_fds:
  assumes "fds_ok st" "sys_open sy p flags st = Some (r, st')"
  shows "fds_ok st' \<and> 0 \<le> r \<and> r < int FILE_MAX"
proof -
  obtain c q x where x: "p = c # q" "open_walk sy q 0 (root_inode sy) (root_dentry sy) st = Some x"
    using assms(2) by (cases p) (auto simp: sys_open_def bind_eq_Some_conv)
  note ok = same_tasks_fds [OF open_walk_tasks [OF x(2)] assms(1)]
  have e: "fds_ok (w\<lparr>ferrno := v\<rparr>) = fds_ok w" for w v by (simp add: fds_ok_def fd_used_def fs_filemap_def fs_task_def)
  show ?thesis
  proof (cases x)
    case (Inl w)
    then show ?thesis using assms(2) x ok by (simp add: sys_open_def FILE_MAX_def)
  next
    case (Inr y)
    obtain ino d w where y: "y = (ino, d, w)" by (cases y)
    have w: "fds_ok w" using ok Inr y by simp
    show ?thesis
    proof (cases rule: getfd_cases [of w])
      case full
      then show ?thesis using assms(2) x Inr y w e by (auto simp: sys_open_def FILE_MAX_def split: if_splits)
    next
      case (free k m)
      have "st' = w\<lparr>ferrno := ENOTDIR\<rparr> \<and> r = 0 \<or> fs_filemap st' = m \<and> r = int k"
        using assms(2) x Inr y free(4) fop_open_keeps(5) [OF refl]
        by (auto simp: sys_open_def Let_def bind_eq_Some_conv fs_filemap_files split: if_splits)
      then show ?thesis using w e free by (auto simp: fds_ok_def fd_used_def FILE_MAX_def)
    qed
  qed
qed



end
