(* ===== verification/List_Splice.thy ===== *)
theory List_Splice
  imports Linux_List
begin

text \<open>
  The routines of \<^verbatim>\<open>include/linux/list.h\<close> that work on two rings at once or exchange an
  entry: \<^verbatim>\<open>list_splice\<close> and its three variants, \<^verbatim>\<open>list_cut_position\<close>, \<^verbatim>\<open>list_replace\<close>,
  \<^verbatim>\<open>list_replace_init\<close> and \<^verbatim>\<open>list_del_init\<close>. Their definitions stand with the others in
  \<^verbatim>\<open>Linux_List\<close>; here each is shown to succeed and to do to the family of rings what its
  comment says. The last section shows that cutting a list and splicing the part back is
  the identity.
\<close>

section \<open>Concatenation of chains\<close>

lemma linked_concat:
  assumes "xs \<noteq> []" "ys \<noteq> []"
  shows "linked h (xs @ ys) \<longleftrightarrow> linked h xs \<and> linked h ys \<and>
    lnext h (last xs) = Node (hd ys) \<and> lprev h (hd ys) = Node (last xs)"
proof -
  obtain as p where xs: "xs = as @ [p]" using assms(1) by (cases xs rule: rev_cases) auto
  obtain b bs where ys: "ys = b # bs" using assms(2) by (cases ys) auto
  show ?thesis
    using linked_append [of h as p "b # bs"] by (auto simp: xs ys)
qed

text \<open>A chain survives every change but of the fields between its nodes.\<close>

lemma linked_inner:
  assumes "distinct xs"
    and "\<And>n. n \<in> set xs \<Longrightarrow> n \<noteq> last xs \<Longrightarrow> lnext h' n = lnext h n"
    and "\<And>n. n \<in> set xs \<Longrightarrow> n \<noteq> hd xs \<Longrightarrow> lprev h' n = lprev h n"
  shows "linked h' xs \<longleftrightarrow> linked h xs"
proof (rule linked_cong)
  show "lnext h' n = lnext h n" if "n \<in> set (butlast xs)" for n
    using that assms(1,2) by (cases xs rule: rev_cases) auto
  show "lprev h' n = lprev h n" if "n \<in> set (tl xs)" for n
    using that assms(1,3) by (cases xs) auto
qed

lemma ring_parts:
  assumes "xs \<noteq> []"
  shows "ring h hn xs \<longleftrightarrow> distinct (hn # xs) \<and> linked h xs \<and>
    lnext h hn = Node (hd xs) \<and> lprev h (hd xs) = Node hn \<and>
    lnext h (last xs) = Node hn \<and> lprev h hn = Node (last xs)"
  using assms linked_concat [of "[hn]" "xs @ [hn]" h] linked_concat [of xs "[hn]" h]
  by (auto simp: ring_def)

lemma ring_Nil: "ring h hn [] \<longleftrightarrow> lnext h hn = Node hn \<and> lprev h hn = Node hn"
  by (auto simp: ring_def)

section \<open>Changing several rings of a family\<close>

text \<open>
  The rings at the heads of \<open>D\<close> are exchanged for others; all the nodes involved lie in
  \<open>N\<close>, which no other ring meets.
\<close>

lemma lists_change:
  assumes "lists h Q" "same_off S h h'" "S \<subseteq> N"
    and keep: "\<And>b. b \<notin> D \<Longrightarrow> Q' b = Q b"
    and new: "\<And>b ys. b \<in> D \<Longrightarrow> Q' b = Some ys \<Longrightarrow> ring h' b ys \<and> set (b # ys) \<subseteq> N"
    and off: "\<And>b ys. b \<notin> D \<Longrightarrow> Q b = Some ys \<Longrightarrow> N \<inter> set (b # ys) = {}"
    and dis: "\<And>a b xs ys. a \<in> D \<Longrightarrow> b \<in> D \<Longrightarrow> a \<noteq> b \<Longrightarrow> Q' a = Some xs \<Longrightarrow> Q' b = Some ys \<Longrightarrow>
      set (a # xs) \<inter> set (b # ys) = {}"
  shows "lists h' Q'"
  unfolding lists_def
proof (intro conjI allI impI)
  fix b ys assume b: "Q' b = Some ys"
  show "ring h' b ys"
  proof (cases "b \<in> D")
    case False
    then have "Q b = Some ys" using keep b by simp
    with listsD [OF assms(1)] off False assms(2,3) show ?thesis
      by (blast intro: ring_frame)
  qed (use new b in blast)
next
  fix a xs b ys assume ab: "Q' a = Some xs" "Q' b = Some ys" "a \<noteq> b"
  consider "a \<in> D" "b \<in> D" | "a \<in> D" "b \<notin> D" | "a \<notin> D" "b \<in> D" | "a \<notin> D" "b \<notin> D" by blast
  then show "set (a # xs) \<inter> set (b # ys) = {}"
  proof cases
    case 1 then show ?thesis using dis ab by blast
  next
    case 2
    then have "set (a # xs) \<subseteq> N" "N \<inter> set (b # ys) = {}" using new off keep ab by metis+
    then show ?thesis by blast
  next
    case 3
    then have "set (b # ys) \<subseteq> N" "N \<inter> set (a # xs) = {}" using new off keep ab by metis+
    then show ?thesis by blast
  next
    case 4
    then show ?thesis using lists_disjoint [OF assms(1)] keep ab by metis
  qed
qed

lemma lists_pair_off:
  assumes "lists h Q" "Q a = Some xs" "Q b = Some ys" "c \<notin> {a, b}" "Q c = Some zs"
  shows "(set (a # xs) \<union> set (b # ys)) \<inter> set (c # zs) = {}"
  using lists_disjoint [OF assms(1,2,5)] lists_disjoint [OF assms(1,3,5)] assms(4) by blast

section \<open>Splicing\<close>

text \<open>The ring that results, and the fields that change.\<close>

lemma ring_splice_between:
  assumes "ring h a xs" "ring h hn (ys @ zs)" "xs \<noteq> []" "set (a # xs) \<inter> set (hn # ys @ zs) = {}"
  shows "\<exists>h'. list_splice_between h (Node a) (Node (gap_prev hn ys)) (Node (gap_next hn zs)) = Some h' \<and>
    ring h' hn (ys @ xs @ zs) \<and> same_off (set xs \<union> set (hn # ys @ zs)) h h'"
proof -
  let ?p = "gap_prev hn ys" and ?q = "gap_next hn zs"
  let ?h = "h\<lparr>lprev := (lprev h)(hd xs := Node ?p, ?q := Node (last xs)),
              lnext := (lnext h)(?p := Node (hd xs), last xs := Node ?q)\<rparr>"
  have ends: "?p = last (hn # ys)" "?q = hd (zs @ [hn])"
    by (auto simp: gap_prev_def gap_next_def split: list.splits)
  have ne: "xs \<noteq> []" "hd xs \<in> set xs" "last xs \<in> set xs" using assms(3) by auto
  have pq: "?p \<in> set (hn # ys)" "?q \<in> set (hn # zs)" by (rule gap_in)+
  have d: "distinct (hn # ys @ zs)" "distinct (a # xs)"
    using assms(1,2) by (simp_all add: ring_def)
  have out: "n \<noteq> hd xs \<and> n \<noteq> last xs" if "n \<in> set (hn # ys @ zs)" for n
    using that ne(2,3) assms(4) by (metis disjoint_iff list.set_intros(2))
  have out': "n \<noteq> ?p \<and> n \<noteq> ?q" if "n \<in> set xs" for n
    using that pq assms(4) by auto
  have l: "linked h (hn # ys)" "linked h (zs @ [hn])"
    using assms(2) linked_concat [of "hn # ys" "zs @ [hn]" h] by (simp_all add: ring_def)
  have lx: "linked h xs" using assms(1) ring_parts [OF assms(3)] by metis
  have "linked ?h (hn # ys)"
    by (subst linked_inner [of _ _ h]) (use d(1) l out pq(2) in \<open>auto simp: ends(1)\<close>)
  moreover have "linked ?h (zs @ [hn])"
    by (subst linked_inner [of _ _ h]) (use d(1) l out pq(1) in \<open>auto simp: ends(2)\<close>)
  moreover have "linked ?h xs"
    by (subst linked_inner [of _ _ h]) (use d(2) lx out' in auto)
  moreover have "hd xs \<noteq> ?q" "last xs \<noteq> ?p" using out' ne(2,3) by blast+
  ultimately have "linked ?h ((hn # ys) @ xs @ zs @ [hn])"
    using ne(1) by (subst linked_concat, simp, simp, subst linked_concat) (simp_all add: ends)
  then have "ring ?h hn (ys @ xs @ zs)"
    using d assms(4) by (auto simp: ring_def)
  moreover have "list_splice_between h (Node a) (Node ?p) (Node ?q) = Some ?h"
    using assms(1) ne(1) by (simp add: list_splice_between_def ring_parts)
  moreover have "same_off (set xs \<union> set (hn # ys @ zs)) h ?h"
    using ne pq by (auto simp: same_off_def)
  ultimately show ?thesis by blast
qed

lemma lists_splice_between:
  assumes "lists h Q" "Q a = Some xs" "Q hn = Some (ys @ zs)" "a \<noteq> hn" "xs \<noteq> []"
  shows "\<exists>h'. list_splice_between h (Node a) (Node (gap_prev hn ys)) (Node (gap_next hn zs)) = Some h' \<and>
    lists h' (Q(a := None, hn \<mapsto> ys @ xs @ zs)) \<and>
    a \<notin> ring_nodes (Q(a := None, hn \<mapsto> ys @ xs @ zs))"
proof -
  let ?N = "set (a # xs) \<union> set (hn # ys @ zs)"
  have dis: "set (a # xs) \<inter> set (hn # ys @ zs) = {}"
    using lists_disjoint [OF assms(1-4)] .
  obtain h' where h':
      "list_splice_between h (Node a) (Node (gap_prev hn ys)) (Node (gap_next hn zs)) = Some h'"
      "ring h' hn (ys @ xs @ zs)" "same_off (set xs \<union> set (hn # ys @ zs)) h h'"
    using ring_splice_between [OF listsD [OF assms(1,2)] listsD [OF assms(1,3)] assms(5) dis] by blast
  have "lists h' (Q(a := None, hn \<mapsto> ys @ xs @ zs))"
  proof (rule lists_change [OF assms(1) h'(3), of ?N "{a, hn}"])
    show "ring h' b us \<and> set (b # us) \<subseteq> ?N"
      if "b \<in> {a, hn}" "(Q(a := None, hn \<mapsto> ys @ xs @ zs)) b = Some us" for b us
      using that h'(2) assms(4) by (auto split: if_splits)
    show "?N \<inter> set (b # us) = {}" if "b \<notin> {a, hn}" "Q b = Some us" for b us
      using lists_pair_off [OF assms(1-3) that] .
  qed (auto split: if_splits)
  moreover have "a \<notin> ring_nodes (Q(a := None, hn \<mapsto> ys @ xs @ zs))"
    using dis lists_disjoint [OF assms(1,2)] listsD [OF assms(1,2)] assms(4)
    by (auto simp: ring_nodes_iff ring_def split: if_splits)
  ultimately show ?thesis using h'(1) by blast
qed

text \<open>
  \<^verbatim>\<open>list_splice\<close> and \<^verbatim>\<open>list_splice_tail\<close> leave the emptied head pointing into the ring it
  was joined to; the \<^verbatim>\<open>_init\<close> variants make it an empty ring again.
\<close>

lemma lists_list_splice:
  assumes "lists h Q" "Q a = Some xs" "Q hn = Some ys" "a \<noteq> hn"
  shows "\<exists>h'. list_splice h (Node a) (Node hn) = Some h' \<and>
    lists h' (Q(a := if xs = [] then Some [] else None, hn \<mapsto> xs @ ys))"
proof (cases "xs = []")
  case True
  then have "Q(a := Some [], hn \<mapsto> ys) = Q" using assms(2,3) by auto
  with True assms show ?thesis by (simp add: list_splice_def lists_list_empty)
next
  case False
  with lists_splice_between [of h Q a xs hn "[]" ys] assms ring_next [OF listsD [OF assms(1,3)]]
  show ?thesis by (auto simp: list_splice_def lists_list_empty gap_prev_def gap_next_def)
qed

lemma lists_list_splice_tail:
  assumes "lists h Q" "Q a = Some xs" "Q hn = Some ys" "a \<noteq> hn"
  shows "\<exists>h'. list_splice_tail h (Node a) (Node hn) = Some h' \<and>
    lists h' (Q(a := if xs = [] then Some [] else None, hn \<mapsto> ys @ xs))"
proof (cases "xs = []")
  case True
  then have "Q(a := Some [], hn \<mapsto> ys) = Q" using assms(2,3) by auto
  with True assms show ?thesis by (simp add: list_splice_tail_def lists_list_empty)
next
  case False
  with lists_splice_between [of h Q a xs hn ys "[]"] assms ring_prev [OF listsD [OF assms(1,3)]]
  show ?thesis by (auto simp: list_splice_tail_def lists_list_empty gap_prev_def gap_next_def)
qed

lemma lists_splice_init_between:
  assumes "lists h Q" "Q a = Some xs" "Q hn = Some (ys @ zs)" "a \<noteq> hn" "xs \<noteq> []"
  shows "\<exists>h' h''. list_splice_between h (Node a) (Node (gap_prev hn ys)) (Node (gap_next hn zs)) = Some h' \<and>
    INIT_LIST_HEAD h' (Node a) = Some h'' \<and> lists h'' (Q(a \<mapsto> [], hn \<mapsto> ys @ xs @ zs))"
proof -
  obtain h' where h':
      "list_splice_between h (Node a) (Node (gap_prev hn ys)) (Node (gap_next hn zs)) = Some h'"
      "lists h' (Q(a := None, hn \<mapsto> ys @ xs @ zs))"
      "a \<notin> ring_nodes (Q(a := None, hn \<mapsto> ys @ xs @ zs))"
    using lists_splice_between [OF assms] by blast
  moreover have "(Q(a := None, hn \<mapsto> ys @ xs @ zs))(a \<mapsto> []) = Q(a \<mapsto> [], hn \<mapsto> ys @ xs @ zs)"
    using assms(4) by auto
  ultimately show ?thesis
    using lists_INIT_LIST_HEAD [OF h'(2), of a] by force
qed

lemma lists_list_splice_init:
  assumes "lists h Q" "Q a = Some xs" "Q hn = Some ys" "a \<noteq> hn"
  shows "\<exists>h'. list_splice_init h (Node a) (Node hn) = Some h' \<and> lists h' (Q(a \<mapsto> [], hn \<mapsto> xs @ ys))"
proof (cases "xs = []")
  case True
  then have "Q(a \<mapsto> [], hn \<mapsto> ys) = Q" using assms(2,3) by auto
  with True assms show ?thesis by (simp add: list_splice_init_def lists_list_empty)
next
  case False
  with lists_splice_init_between [of h Q a xs hn "[]" ys] assms ring_next [OF listsD [OF assms(1,3)]]
  show ?thesis by (auto simp: list_splice_init_def lists_list_empty gap_prev_def gap_next_def)
qed

lemma lists_list_splice_tail_init:
  assumes "lists h Q" "Q a = Some xs" "Q hn = Some ys" "a \<noteq> hn"
  shows "\<exists>h'. list_splice_tail_init h (Node a) (Node hn) = Some h' \<and>
    lists h' (Q(a \<mapsto> [], hn \<mapsto> ys @ xs))"
proof (cases "xs = []")
  case True
  then have "Q(a \<mapsto> [], hn \<mapsto> ys) = Q" using assms(2,3) by auto
  with True assms show ?thesis by (simp add: list_splice_tail_init_def lists_list_empty)
next
  case False
  with lists_splice_init_between [of h Q a xs hn ys "[]"] assms ring_prev [OF listsD [OF assms(1,3)]]
  show ?thesis by (auto simp: list_splice_tail_init_def lists_list_empty gap_prev_def gap_next_def)
qed

section \<open>Cutting\<close>

lemma ring_cut_at:
  assumes "ring h hn (ys @ zs)" "ys \<noteq> []" "a \<notin> set (hn # ys @ zs)"
  shows "\<exists>h'. list_cut_at h (Node a) (Node hn) (Node (last ys)) = Some h' \<and>
    ring h' a ys \<and> ring h' hn zs \<and> same_off (insert a (set (hn # ys @ zs))) h h'"
proof -
  let ?q = "gap_next hn zs"
  let ?h = "h\<lparr>lnext := (lnext h)(a := Node (hd ys), last ys := Node a, hn := Node ?q),
              lprev := (lprev h)(hd ys := Node a, a := Node (last ys), ?q := Node hn)\<rparr>"
  have q: "?q = hd (zs @ [hn])" "?q \<in> set (hn # zs)"
    by (auto simp: gap_next_def split: list.splits)
  have e: "hd ys \<in> set ys" "last ys \<in> set ys" using assms(2) by auto
  have d: "distinct (hn # ys @ zs)" using assms(1) by (simp add: ring_def)
  have out: "n \<noteq> hd ys \<and> n \<noteq> last ys" if "n \<in> set (hn # a # zs)" for n
  proof -
    have "n \<notin> set ys" using that d assms(3) by auto
    with e show ?thesis by blast
  qed
  have out': "n \<noteq> hn \<and> n \<noteq> ?q \<and> n \<noteq> a" if "n \<in> set ys" for n
    using that q(2) d assms(3) by auto
  have l: "linked h ys" "linked h (zs @ [hn])" "lnext h hn = Node (hd ys)" "lnext h (last ys) = Node ?q"
    using assms(1,2) linked_concat [of "[hn]" "ys @ zs @ [hn]" h] linked_concat [of ys "zs @ [hn]" h]
    by (simp_all add: ring_def q(1))
  have "linked ?h ys"
    by (subst linked_inner [of _ _ h]) (use d l(1) out' in auto)
  moreover have aq: "a \<noteq> ?q" using q(2) assms(3) by auto
  ultimately have "ring ?h a ys"
    using assms(2,3) d e out' by (auto simp: ring_parts)
  moreover have "linked ?h (zs @ [hn])"
    by (subst linked_inner [of _ _ h]) (use d l(2) out assms(3) in \<open>auto simp: q(1)\<close>)
  then have "ring ?h hn zs"
    using d q out [of hn] assms(3) linked_concat [of "[hn]" "zs @ [hn]" ?h] by (auto simp: ring_def)
  moreover have "list_cut_at h (Node a) (Node hn) (Node (last ys)) = Some ?h"
    using l(3,4) out [of a] assms(3) by (simp add: list_cut_at_def fun_upd_twist)
  moreover have "same_off (insert a (set (hn # ys @ zs))) h ?h"
    using e q(2) by (auto simp: same_off_def)
  ultimately show ?thesis by blast
qed

lemma lists_two:
  assumes "lists h Q" "Q hn = Some xs" "a \<noteq> hn" "a \<notin> ring_nodes Q \<or> a \<in> dom Q"
    and "ring h' a us" "ring h' hn vs" "same_off (insert a (set (hn # xs))) h h'"
    and "set us \<subseteq> set xs" "set vs \<subseteq> set xs" "set us \<inter> set vs = {}"
  shows "lists h' (Q(a \<mapsto> us, hn \<mapsto> vs))"
proof -
  have a: "a \<notin> set (hn # xs) \<and> (\<forall>b ws. b \<notin> {a, hn} \<longrightarrow> Q b = Some ws \<longrightarrow> a \<notin> set (b # ws))"
  proof (cases "Q a")
    case None
    then have "a \<notin> ring_nodes Q" using assms(4) by auto
    with assms(2,3) show ?thesis unfolding ring_nodes_iff by blast
  next
    case (Some ws)
    with lists_disjoint [OF assms(1) Some] assms(2,3) show ?thesis by auto
  qed
  have hn: "hn \<notin> set xs" using listsD [OF assms(1,2)] by (simp add: ring_def)
  show ?thesis
  proof (rule lists_change [OF assms(1,7) subset_refl, of "{a, hn}"])
    show "insert a (set (hn # xs)) \<inter> set (b # ws) = {}" if "b \<notin> {a, hn}" "Q b = Some ws" for b ws
      using lists_disjoint [OF assms(1,2) that(2)] that a by auto
  qed (use assms a hn in \<open>auto split: if_splits\<close>)
qed

text \<open>
  \<^verbatim>\<open>list_cut_position\<close> moves the entries up to and including \<open>entry\<close>; an empty list is left
  alone, and cutting at the head itself makes the target empty.
\<close>

lemma lists_list_cut_position:
  assumes "lists h Q" "Q hn = Some (ys @ e # zs)" "a \<noteq> hn" "a \<notin> ring_nodes Q \<or> a \<in> dom Q"
  shows "\<exists>h'. list_cut_position h (Node a) (Node hn) (Node e) = Some h' \<and>
    lists h' (Q(a \<mapsto> ys @ [e], hn \<mapsto> zs))"
proof -
  have r: "ring h hn ((ys @ [e]) @ zs)" using listsD [OF assms(1,2)] by simp
  have a: "a \<notin> set (hn # (ys @ [e]) @ zs)"
    using assms lists_disjoint [OF assms(1) _ assms(2,3)] by (fastforce simp: ring_nodes_iff)
  obtain h' where h': "list_cut_at h (Node a) (Node hn) (Node e) = Some h'"
      "ring h' a (ys @ [e])" "ring h' hn zs" "same_off (insert a (set (hn # ys @ e # zs))) h h'"
    using ring_cut_at [OF r _ a] by auto
  have "lists h' (Q(a \<mapsto> ys @ [e], hn \<mapsto> zs))"
    by (rule lists_two [OF assms h'(2-4)]) (use r in \<open>auto simp: ring_def\<close>)
  moreover have "lnext h hn = Node e" if "length (ys @ e # zs) = 1"
    using that ring_next [OF r] by (cases ys) auto
  moreover have "e \<noteq> hn" using r by (auto simp: ring_def)
  ultimately show ?thesis
    using h'(1)
    by (auto simp: list_cut_position_def lists_list_empty [OF assms(1,2)]
        lists_list_is_singular [OF assms(1,2)])
qed

lemma lists_list_cut_position_head:
  assumes "lists h Q" "Q hn = Some xs" "a \<notin> ring_nodes Q \<or> a \<in> dom Q"
  shows "\<exists>h'. list_cut_position h (Node a) (Node hn) (Node hn) = Some h' \<and>
    lists h' (if xs = [] then Q else Q(a \<mapsto> []))"
  using assms(1) lists_INIT_LIST_HEAD [OF assms(1,3)] ring_next [OF listsD [OF assms(1,2)]]
  by (auto simp: list_cut_position_def lists_list_empty [OF assms(1,2)]
      lists_list_is_singular [OF assms(1,2)])

section \<open>Replacing an entry\<close>

lemma ring_replace:
  assumes "ring h hn (ys @ n # zs)" "m \<notin> set (hn # ys @ n # zs)"
  shows "\<exists>h'. list_replace h (Node n) (Node m) = Some h' \<and>
    ring h' hn (ys @ m # zs) \<and> same_off (insert m (set (hn # ys @ zs))) h h'"
proof -
  let ?p = "gap_prev hn ys" and ?q = "gap_next hn zs"
  let ?h = "h\<lparr>lnext := (lnext h)(m := Node ?q, ?p := Node m),
              lprev := (lprev h)(?q := Node m, m := Node ?p)\<rparr>"
  have ends: "?p = last (hn # ys)" "?q = hd (zs @ [hn])"
    by (auto simp: gap_prev_def gap_next_def split: list.splits)
  have pq: "?p \<in> set (hn # ys)" "?q \<in> set (hn # zs)" by (rule gap_in)+
  have d: "distinct (hn # ys @ n # zs)" using assms(1) by (simp add: ring_def)
  have m: "m \<noteq> ?p" "m \<noteq> ?q" "n \<noteq> ?p" "n \<noteq> ?q" "m \<noteq> n" using pq assms(2) d by auto
  have l: "linked h (hn # ys)" "linked h (zs @ [hn])"
    using assms(1) linked_concat [of "hn # ys" "n # zs @ [hn]" h] linked_concat [of "[n]" "zs @ [hn]" h]
    by (simp_all add: ring_def)
  have n: "lnext h n = Node ?q" "lprev h n = Node ?p"
    using ring_entry [OF assms(1)] by (simp_all add: gap_next_def gap_prev_def)
  have "linked ?h (hn # ys)"
    by (subst linked_inner [of _ _ h]) (use d l pq(2) assms(2) in \<open>auto simp: ends(1)\<close>)
  moreover have "linked ?h (zs @ [hn])"
    by (subst linked_inner [of _ _ h]) (use d l pq(1) assms(2) in \<open>auto simp: ends(2)\<close>)
  ultimately have "linked ?h ((hn # ys) @ [m] @ zs @ [hn])"
    using m by (subst linked_concat, simp, simp, subst linked_concat) (auto simp: ends)
  then have "ring ?h hn (ys @ m # zs)" using d assms(2) by (auto simp: ring_def)
  moreover have "list_replace h (Node n) (Node m) = Some ?h"
    using n m by (simp add: list_replace_def fun_upd_twist)
  moreover have "same_off (insert m (set (hn # ys @ zs))) h ?h"
    using pq by (auto simp: same_off_def)
  ultimately show ?thesis by blast
qed

lemma lists_list_replace:
  assumes "lists h Q" "Q hn = Some (ys @ n # zs)" "m \<notin> ring_nodes Q"
  shows "\<exists>h'. list_replace h (Node n) (Node m) = Some h' \<and> lists h' (Q(hn \<mapsto> ys @ m # zs)) \<and>
    n \<notin> ring_nodes (Q(hn \<mapsto> ys @ m # zs))"
proof -
  have m: "m \<notin> set (hn # ys @ n # zs)" using assms(2,3) unfolding ring_nodes_iff by blast
  obtain h' where h': "list_replace h (Node n) (Node m) = Some h'" "ring h' hn (ys @ m # zs)"
      "same_off (insert m (set (hn # ys @ zs))) h h'"
    using ring_replace [OF listsD [OF assms(1,2)] m] by blast
  have "lists h' (Q(hn \<mapsto> ys @ m # zs))"
    by (rule lists_update [OF assms(1,2) h'(2,3), of "{m}"]) (use assms(3) in auto)
  moreover have "n \<notin> ring_nodes (Q(hn \<mapsto> ys @ m # zs))"
    using lists_disjoint [OF assms(1,2)] listsD [OF assms(1,2)] m
    by (auto simp: ring_nodes_iff ring_def split: if_splits)
  ultimately show ?thesis using h'(1) by blast
qed

text \<open>The replaced entry, and a deleted one, is a ring of its own after the \<^verbatim>\<open>_init\<close> forms.\<close>

lemma lists_list_replace_init:
  assumes "lists h Q" "Q hn = Some (ys @ n # zs)" "m \<notin> ring_nodes Q"
  shows "\<exists>h'. list_replace_init h (Node n) (Node m) = Some h' \<and>
    lists h' (Q(hn \<mapsto> ys @ m # zs, n \<mapsto> []))"
proof -
  obtain h' where h': "list_replace h (Node n) (Node m) = Some h'" "lists h' (Q(hn \<mapsto> ys @ m # zs))"
      "n \<notin> ring_nodes (Q(hn \<mapsto> ys @ m # zs))"
    using lists_list_replace [OF assms] by blast
  then show ?thesis
    using lists_INIT_LIST_HEAD [OF h'(2), of n] by (auto simp: list_replace_init_def)
qed

lemma lists_list_del_init:
  assumes "lists h Q" "Q hn = Some xs" "n \<in> set xs"
  shows "\<exists>h'. list_del_init h (Node n) = Some h' \<and> lists h' (Q(hn \<mapsto> remove1 n xs, n \<mapsto> []))"
proof -
  obtain h' where h': "list_del_entry h (Node n) = Some h'" "lists h' (Q(hn \<mapsto> remove1 n xs))"
      "n \<notin> ring_nodes (Q(hn \<mapsto> remove1 n xs))"
    using lists_list_del_entry [OF assms] by blast
  then show ?thesis
    using lists_INIT_LIST_HEAD [OF h'(2), of n] by (auto simp: list_del_init_def)
qed

section \<open>Cutting and splicing back\<close>

lemma cut_splice_back:
  assumes "lists h Q" "Q hn = Some (ys @ e # zs)" "a \<noteq> hn" "Q a = Some []"
  shows "\<exists>h' h''. list_cut_position h (Node a) (Node hn) (Node e) = Some h' \<and>
    list_splice_init h' (Node a) (Node hn) = Some h'' \<and> lists h'' Q"
proof -
  obtain h' where h': "list_cut_position h (Node a) (Node hn) (Node e) = Some h'"
      "lists h' (Q(a \<mapsto> ys @ [e], hn \<mapsto> zs))"
    using lists_list_cut_position [OF assms(1-3)] assms(4) by blast
  moreover have "(Q(a \<mapsto> ys @ [e], hn \<mapsto> zs))(a \<mapsto> [], hn \<mapsto> (ys @ [e]) @ zs) = Q"
    using assms(2-4) by auto
  ultimately show ?thesis
    using lists_list_splice_init [OF h'(2), of a "ys @ [e]" hn zs] assms(3) by force
qed

end
