(* ===== verification/List_Iter.thy ===== *)
theory List_Iter
  imports List_Splice
begin

text \<open>
  The iteration macros of \<^verbatim>\<open>include/linux/list.h\<close>. A loop body is a function from the cursor
  and the state of the program to the next state, or \<open>None\<close> for a fault; \<open>lk\<close> selects the
  link fields in that state, so that a body may insert and delete entries while the loop
  runs. A macro that works on the containing structures names an entry by its link field,
  as \<^verbatim>\<open>container_of\<close> is a subtraction.

  A loop whose body leaves the links alone is the fold of the body over the entries, in
  the order and from the entry the macro promises. A loop of the \<^verbatim>\<open>_safe\<close> family reads the
  successor before it runs the body; the locale \<open>safe_walk\<close> states what a body may do
  under it, and it is interpreted on the body that deletes the entries it selects.
\<close>

section \<open>The loops\<close>

partial_function (option) list_loop ::
    "('s \<Rightarrow> 'n links) \<Rightarrow> ('n links \<Rightarrow> 'n link \<Rightarrow> 'n link option) \<Rightarrow> ('n link \<Rightarrow> 's \<Rightarrow> 's option) \<Rightarrow>
      'n link \<Rightarrow> 'n link \<Rightarrow> 's \<Rightarrow> 's option" where
  "list_loop lk step body head pos s =
     (if pos = head then Some s
      else Option.bind (body pos s) (\<lambda>s.
           Option.bind (step (lk s) pos) (\<lambda>pos. list_loop lk step body head pos s)))"

partial_function (option) list_loop_safe ::
    "('s \<Rightarrow> 'n links) \<Rightarrow> ('n links \<Rightarrow> 'n link \<Rightarrow> 'n link option) \<Rightarrow> ('n link \<Rightarrow> 's \<Rightarrow> 's option) \<Rightarrow>
      'n link \<Rightarrow> 'n link \<Rightarrow> 'n link \<Rightarrow> 's \<Rightarrow> 's option" where
  "list_loop_safe lk step body head pos n s =
     (if pos = head then Some s
      else Option.bind (body pos s) (\<lambda>s.
           Option.bind (step (lk s) n) (\<lambda>n'. list_loop_safe lk step body head n n' s)))"

declare list_loop.simps [code] list_loop_safe.simps [code]

definition list_for_each :: "('s \<Rightarrow> 'n links) \<Rightarrow> ('n link \<Rightarrow> 's \<Rightarrow> 's option) \<Rightarrow> 'n link \<Rightarrow> 's \<Rightarrow> 's option" where
  "list_for_each lk body head s = do {
     pos \<leftarrow> rd_next (lk s) head; list_loop lk rd_next body head pos s }"

definition list_for_each_prev :: "('s \<Rightarrow> 'n links) \<Rightarrow> ('n link \<Rightarrow> 's \<Rightarrow> 's option) \<Rightarrow> 'n link \<Rightarrow> 's \<Rightarrow> 's option" where
  "list_for_each_prev lk body head s = do {
     pos \<leftarrow> rd_prev (lk s) head; list_loop lk rd_prev body head pos s }"

definition list_for_each_safe :: "('s \<Rightarrow> 'n links) \<Rightarrow> ('n link \<Rightarrow> 's \<Rightarrow> 's option) \<Rightarrow> 'n link \<Rightarrow> 's \<Rightarrow> 's option" where
  "list_for_each_safe lk body head s = do {
     pos \<leftarrow> rd_next (lk s) head;
     n \<leftarrow> rd_next (lk s) pos;
     list_loop_safe lk rd_next body head pos n s }"

definition list_for_each_prev_safe ::
    "('s \<Rightarrow> 'n links) \<Rightarrow> ('n link \<Rightarrow> 's \<Rightarrow> 's option) \<Rightarrow> 'n link \<Rightarrow> 's \<Rightarrow> 's option" where
  "list_for_each_prev_safe lk body head s = do {
     pos \<leftarrow> rd_prev (lk s) head;
     n \<leftarrow> rd_prev (lk s) pos;
     list_loop_safe lk rd_prev body head pos n s }"

definition list_for_each_entry :: "('s \<Rightarrow> 'n links) \<Rightarrow> ('n link \<Rightarrow> 's \<Rightarrow> 's option) \<Rightarrow> 'n link \<Rightarrow> 's \<Rightarrow> 's option" where
  "list_for_each_entry lk body head s = do {
     pos \<leftarrow> list_first_entry (lk s) head; list_loop lk list_next_entry body head pos s }"

definition list_for_each_entry_reverse ::
    "('s \<Rightarrow> 'n links) \<Rightarrow> ('n link \<Rightarrow> 's \<Rightarrow> 's option) \<Rightarrow> 'n link \<Rightarrow> 's \<Rightarrow> 's option" where
  "list_for_each_entry_reverse lk body head s = do {
     pos \<leftarrow> list_last_entry (lk s) head; list_loop lk list_prev_entry body head pos s }"

text \<open>\<open>None\<close> is the null pointer.\<close>

definition list_prepare_entry :: "'n link option \<Rightarrow> 'n link \<Rightarrow> 'n link" where
  "list_prepare_entry pos head = (case pos of Some p \<Rightarrow> p | None \<Rightarrow> head)"

definition list_for_each_entry_continue ::
    "('s \<Rightarrow> 'n links) \<Rightarrow> ('n link \<Rightarrow> 's \<Rightarrow> 's option) \<Rightarrow> 'n link \<Rightarrow> 'n link \<Rightarrow> 's \<Rightarrow> 's option" where
  "list_for_each_entry_continue lk body pos head s = do {
     pos \<leftarrow> list_next_entry (lk s) pos; list_loop lk list_next_entry body head pos s }"

definition list_for_each_entry_continue_reverse ::
    "('s \<Rightarrow> 'n links) \<Rightarrow> ('n link \<Rightarrow> 's \<Rightarrow> 's option) \<Rightarrow> 'n link \<Rightarrow> 'n link \<Rightarrow> 's \<Rightarrow> 's option" where
  "list_for_each_entry_continue_reverse lk body pos head s = do {
     pos \<leftarrow> list_prev_entry (lk s) pos; list_loop lk list_prev_entry body head pos s }"

definition list_for_each_entry_from ::
    "('s \<Rightarrow> 'n links) \<Rightarrow> ('n link \<Rightarrow> 's \<Rightarrow> 's option) \<Rightarrow> 'n link \<Rightarrow> 'n link \<Rightarrow> 's \<Rightarrow> 's option" where
  "list_for_each_entry_from lk body pos head s = list_loop lk list_next_entry body head pos s"

definition list_for_each_entry_safe ::
    "('s \<Rightarrow> 'n links) \<Rightarrow> ('n link \<Rightarrow> 's \<Rightarrow> 's option) \<Rightarrow> 'n link \<Rightarrow> 's \<Rightarrow> 's option" where
  "list_for_each_entry_safe lk body head s = do {
     pos \<leftarrow> list_first_entry (lk s) head;
     n \<leftarrow> list_next_entry (lk s) pos;
     list_loop_safe lk list_next_entry body head pos n s }"

definition list_for_each_entry_safe_continue ::
    "('s \<Rightarrow> 'n links) \<Rightarrow> ('n link \<Rightarrow> 's \<Rightarrow> 's option) \<Rightarrow> 'n link \<Rightarrow> 'n link \<Rightarrow> 's \<Rightarrow> 's option" where
  "list_for_each_entry_safe_continue lk body pos head s = do {
     pos \<leftarrow> list_next_entry (lk s) pos;
     n \<leftarrow> list_next_entry (lk s) pos;
     list_loop_safe lk list_next_entry body head pos n s }"

definition list_for_each_entry_safe_from ::
    "('s \<Rightarrow> 'n links) \<Rightarrow> ('n link \<Rightarrow> 's \<Rightarrow> 's option) \<Rightarrow> 'n link \<Rightarrow> 'n link \<Rightarrow> 's \<Rightarrow> 's option" where
  "list_for_each_entry_safe_from lk body pos head s = do {
     n \<leftarrow> list_next_entry (lk s) pos;
     list_loop_safe lk list_next_entry body head pos n s }"

definition list_for_each_entry_safe_reverse ::
    "('s \<Rightarrow> 'n links) \<Rightarrow> ('n link \<Rightarrow> 's \<Rightarrow> 's option) \<Rightarrow> 'n link \<Rightarrow> 's \<Rightarrow> 's option" where
  "list_for_each_entry_safe_reverse lk body head s = do {
     pos \<leftarrow> list_last_entry (lk s) head;
     n \<leftarrow> list_prev_entry (lk s) pos;
     list_loop_safe lk list_prev_entry body head pos n s }"

definition list_safe_reset_next :: "'n links \<Rightarrow> 'n link \<Rightarrow> 'n link option" where
  "list_safe_reset_next h pos = list_next_entry h pos"

lemma entry_steps:
  "list_next_entry = rd_next" "list_prev_entry = rd_prev"
  "list_first_entry = rd_next" "list_last_entry = rd_prev"
  by (intro ext; simp add: list_next_entry_def list_prev_entry_def list_first_entry_def list_last_entry_def)+

section \<open>Loops that leave the links alone\<close>

text \<open>\<open>chain step h xs hn\<close>: from each entry of \<open>xs\<close> a step leads to the next one, from the last to \<open>hn\<close>.\<close>

fun chain :: "('n links \<Rightarrow> 'n link \<Rightarrow> 'n link option) \<Rightarrow> 'n links \<Rightarrow> 'n list \<Rightarrow> 'n \<Rightarrow> bool" where
  "chain step h [] hn = True"
| "chain step h (x # xs) hn = (step h (Node x) = Some (Node (gap_next hn xs)) \<and> chain step h xs hn)"

fun fold_opt :: "('a \<Rightarrow> 's \<Rightarrow> 's option) \<Rightarrow> 'a list \<Rightarrow> 's \<Rightarrow> 's option" where
  "fold_opt f [] s = Some s"
| "fold_opt f (x # xs) s = Option.bind (f x s) (fold_opt f xs)"

lemma linked_chain: "linked h (xs @ [hn]) \<Longrightarrow> chain rd_next h xs hn"
proof (induction xs)
  case (Cons x xs)
  then show ?case by (cases xs) (auto simp: gap_next_def)
qed simp

lemma linked_chain_prev: "linked h (hn # xs) \<Longrightarrow> chain rd_prev h (rev xs) hn"
proof (induction xs rule: rev_induct)
  case (snoc x xs)
  have "linked h (hn # xs)" "lprev h x = Node (last (hn # xs))"
    using snoc.prems linked_concat [of "hn # xs" "[x]" h] by simp_all
  with snoc.IH show ?case by (cases xs rule: rev_cases) (auto simp: gap_next_def)
qed simp

lemma ring_chain:
  assumes "ring h hn xs"
  shows "chain rd_next h xs hn" "chain rd_prev h (rev xs) hn"
    and "rd_next h (Node hn) = Some (Node (gap_next hn xs))"
    and "rd_prev h (Node hn) = Some (Node (gap_next hn (rev xs)))" "hn \<notin> set xs"
proof -
  have l: "linked h (xs @ [hn])" using assms linked_concat [of "[hn]" "xs @ [hn]" h] by (simp add: ring_def)
  show "chain rd_next h xs hn" using l by (rule linked_chain)
  have "linked h (hn # xs)" using assms linked_concat [of "hn # xs" "[hn]" h] by (simp add: ring_def)
  then show "chain rd_prev h (rev xs) hn" by (rule linked_chain_prev)
  show "rd_next h (Node hn) = Some (Node (gap_next hn xs))"
    using ring_next [OF assms] by (simp add: gap_next_def)
  show "rd_prev h (Node hn) = Some (Node (gap_next hn (rev xs)))"
    using ring_prev [OF assms] by (cases xs rule: rev_cases) (simp_all add: gap_next_def)
  show "hn \<notin> set xs" using assms by (simp add: ring_def)
qed

lemma chain_append: "chain step h (xs @ ys) hn \<Longrightarrow> chain step h ys hn"
  by (induction xs) auto

text \<open>A body that keeps the links.\<close>

definition keeps_links :: "('s \<Rightarrow> 'n links) \<Rightarrow> ('n link \<Rightarrow> 's \<Rightarrow> 's option) \<Rightarrow> bool" where
  "keeps_links lk body \<longleftrightarrow> (\<forall>p s s'. body p s = Some s' \<longrightarrow> lk s' = lk s)"

lemma list_loop_fold:
  assumes "keeps_links lk body" "chain step (lk s) xs hn" "hn \<notin> set xs"
  shows "list_loop lk step body (Node hn) (Node (gap_next hn xs)) s = fold_opt (\<lambda>x. body (Node x)) xs s"
  using assms(2,3)
proof (induction xs arbitrary: s)
  case Nil
  then show ?case by (subst list_loop.simps) (simp add: gap_next_def)
next
  case (Cons x xs)
  show ?case
  proof (cases "body (Node x) s")
    case None
    with Cons.prems show ?thesis by (subst list_loop.simps) (auto simp: gap_next_def)
  next
    case (Some s')
    then have "lk s' = lk s" using assms(1) by (auto simp: keeps_links_def)
    with Cons Some show ?thesis by (subst list_loop.simps) (auto simp: gap_next_def)
  qed
qed

text \<open>The order and the range of each macro.\<close>

lemma for_each_fold:
  assumes "keeps_links lk body" "ring (lk s) hn xs"
  shows "list_for_each lk body (Node hn) s = fold_opt (\<lambda>x. body (Node x)) xs s"
    and "list_for_each_entry lk body (Node hn) s = fold_opt (\<lambda>x. body (Node x)) xs s"
  using list_loop_fold [OF assms(1) ring_chain(1,5) [OF assms(2)]] ring_chain(3) [OF assms(2)]
  by (simp_all add: list_for_each_def list_for_each_entry_def entry_steps del: access_Node)

lemma for_each_prev_fold:
  assumes "keeps_links lk body" "ring (lk s) hn xs"
  shows "list_for_each_prev lk body (Node hn) s = fold_opt (\<lambda>x. body (Node x)) (rev xs) s"
    and "list_for_each_entry_reverse lk body (Node hn) s = fold_opt (\<lambda>x. body (Node x)) (rev xs) s"
  using list_loop_fold [OF assms(1) ring_chain(2) [OF assms(2)]] ring_chain(4,5) [OF assms(2)]
  by (simp_all add: list_for_each_prev_def list_for_each_entry_reverse_def entry_steps del: access_Node)

lemma for_each_from_fold:
  assumes "keeps_links lk body" "ring (lk s) hn (ys @ x # zs)"
  shows "list_for_each_entry_from lk body (Node x) (Node hn) s = fold_opt (\<lambda>x. body (Node x)) (x # zs) s"
    and "list_for_each_entry_continue lk body (Node x) (Node hn) s = fold_opt (\<lambda>x. body (Node x)) zs s"
proof -
  have c: "chain rd_next (lk s) (x # zs) hn" "hn \<notin> set (x # zs)"
    using ring_chain(1,5) [OF assms(2)] chain_append [of rd_next "lk s" ys "x # zs" hn] by auto
  show "list_for_each_entry_from lk body (Node x) (Node hn) s = fold_opt (\<lambda>x. body (Node x)) (x # zs) s"
    using list_loop_fold [OF assms(1) c] by (simp add: list_for_each_entry_from_def entry_steps gap_next_def)
  show "list_for_each_entry_continue lk body (Node x) (Node hn) s = fold_opt (\<lambda>x. body (Node x)) zs s"
    using list_loop_fold [OF assms(1), of rd_next s zs hn] c
    by (simp add: list_for_each_entry_continue_def entry_steps)
qed

lemma for_each_continue_reverse_fold:
  assumes "keeps_links lk body" "ring (lk s) hn (ys @ x # zs)"
  shows "list_for_each_entry_continue_reverse lk body (Node x) (Node hn) s =
    fold_opt (\<lambda>x. body (Node x)) (rev ys) s"
proof -
  have "chain rd_prev (lk s) (x # rev ys) hn" "hn \<notin> set (rev ys)"
    using ring_chain(2,5) [OF assms(2)] chain_append [of rd_prev "lk s" "rev zs" "x # rev ys" hn] by auto
  with list_loop_fold [OF assms(1), of rd_prev s "rev ys" hn] show ?thesis
    by (simp add: list_for_each_entry_continue_reverse_def entry_steps)
qed

text \<open>
  \<^verbatim>\<open>list_prepare_entry\<close> turns the null pointer into the head, from which
  \<^verbatim>\<open>list_for_each_entry_continue\<close> runs over the whole list.
\<close>

lemma for_each_prepare_fold:
  assumes "keeps_links lk body" "ring (lk s) hn xs"
  shows "list_for_each_entry_continue lk body (list_prepare_entry None (Node hn)) (Node hn) s =
    fold_opt (\<lambda>x. body (Node x)) xs s"
  using for_each_fold(2) [where lk = lk, OF assms]
  by (simp add: list_for_each_entry_continue_def list_for_each_entry_def list_prepare_entry_def entry_steps)

section \<open>Loops that are safe against removal\<close>

text \<open>
  The body runs at the entry \<open>x\<close> with the entries \<open>rs\<close> still to come. Whatever it does,
  it has to leave a chain from the first of \<open>rs\<close> to the head; it may take \<open>x\<close> itself out.
\<close>

locale safe_walk =
  fixes lk :: "'s \<Rightarrow> 'n links"
    and step :: "'n links \<Rightarrow> 'n link \<Rightarrow> 'n link option"
    and body :: "'n link \<Rightarrow> 's \<Rightarrow> 's option"
    and hn :: 'n
    and inv :: "'n list \<Rightarrow> 'n list \<Rightarrow> 's \<Rightarrow> bool"
  assumes inv_body: "inv vs (x # rs) s \<Longrightarrow> \<exists>s'. body (Node x) s = Some s' \<and> inv (vs @ [x]) rs s'"
    and inv_chain: "inv vs rs s \<Longrightarrow> chain step (lk s) rs hn \<and> hn \<notin> set rs"
    and inv_head: "inv vs rs s \<Longrightarrow> step (lk s) (Node hn) \<noteq> None"
begin

lemma successor: "inv vs rs s \<Longrightarrow> \<exists>p. step (lk s) (Node (gap_next hn rs)) = Some p"
  using inv_chain [of vs rs s] inv_head [of vs rs s] by (cases rs) (auto simp: gap_next_def)

lemma loop_inv:
  assumes "inv vs rs s" "step (lk s) (Node (gap_next hn rs)) = Some n"
  shows "\<exists>s'. list_loop_safe lk step body (Node hn) (Node (gap_next hn rs)) n s = Some s' \<and>
    inv (vs @ rs) [] s'"
  using assms
proof (induction rs arbitrary: vs s n)
  case Nil
  then show ?case by (subst list_loop_safe.simps) (simp add: gap_next_def)
next
  case (Cons x rs)
  have x: "x \<noteq> hn" "n = Node (gap_next hn rs)"
    using inv_chain [OF Cons.prems(1)] Cons.prems(2) by (auto simp: gap_next_def)
  obtain s1 where s1: "body (Node x) s = Some s1" "inv (vs @ [x]) rs s1"
    using inv_body [OF Cons.prems(1)] by blast
  obtain p where p: "step (lk s1) (Node (gap_next hn rs)) = Some p"
    using successor [OF s1(2)] by blast
  from Cons.IH [OF s1(2) p] s1(1) p x show ?case
    by (subst list_loop_safe.simps) (simp add: gap_next_def)
qed

end

text \<open>
  The body that visits an entry, recorded in the second component of the state, and deletes
  it when it is selected: the deleted entry's links are poison when the loop goes on.
\<close>

definition prune_body ::
    "('n \<Rightarrow> bool) \<Rightarrow> 'n link \<Rightarrow> 'n links \<times> 'n list \<Rightarrow> ('n links \<times> 'n list) option" where
  "prune_body P pos s = (case (pos, s) of
     (Node x, h, vs) \<Rightarrow> do { h \<leftarrow> (if P x then list_del h pos else Some h); Some (h, vs @ [x]) }
   | _ \<Rightarrow> None)"

definition prune_inv ::
    "('n \<rightharpoonup> 'n list) \<Rightarrow> ('n \<Rightarrow> bool) \<Rightarrow> 'n \<Rightarrow> 'n list \<Rightarrow> 'n list \<Rightarrow> 'n list \<Rightarrow> 'n links \<times> 'n list \<Rightarrow> bool" where
  "prune_inv Q P hn pre vs rs s \<longleftrightarrow> snd s = vs \<and> distinct (vs @ rs) \<and>
     lists (fst s) (Q(hn \<mapsto> pre @ filter (\<lambda>x. \<not> P x) vs @ rs))"

definition prune_inv_prev ::
    "('n \<rightharpoonup> 'n list) \<Rightarrow> ('n \<Rightarrow> bool) \<Rightarrow> 'n \<Rightarrow> 'n list \<Rightarrow> 'n list \<Rightarrow> 'n links \<times> 'n list \<Rightarrow> bool" where
  "prune_inv_prev Q P hn vs rs s \<longleftrightarrow> snd s = vs \<and> distinct (vs @ rs) \<and>
     lists (fst s) (Q(hn \<mapsto> rev rs @ filter (\<lambda>x. \<not> P x) (rev vs)))"

lemma prune_step:
  assumes "lists h (Q(hn \<mapsto> ys @ x # zs))"
  shows "\<exists>h'. prune_body P (Node x) (h, vs) = Some (h', vs @ [x]) \<and>
    lists h' (Q(hn \<mapsto> ys @ filter (\<lambda>x. \<not> P x) [x] @ zs))"
proof (cases "P x")
  case True
  have "x \<notin> set ys" using listsD [OF assms, of hn] by (simp add: ring_def)
  then have "remove1 x (ys @ x # zs) = ys @ zs" by (simp add: remove1_append)
  with True lists_list_del [OF assms, of hn _ x] show ?thesis by (auto simp: prune_body_def)
qed (use assms in \<open>auto simp: prune_body_def\<close>)

interpretation prune: safe_walk fst rd_next "prune_body P" hn "prune_inv Q P hn pre" for P hn Q pre
proof
  show "\<exists>s'. prune_body P (Node x) s = Some s' \<and> prune_inv Q P hn pre (vs @ [x]) rs s'"
    if "prune_inv Q P hn pre vs (x # rs) s" for vs x rs s
    using that prune_step [of "fst s" Q hn "pre @ filter (\<lambda>x. \<not> P x) vs" x rs P vs]
    by (cases s) (auto simp: prune_inv_def)
  show "chain rd_next (fst s) rs hn \<and> hn \<notin> set rs" if "prune_inv Q P hn pre vs rs s" for vs rs s
    using that ring_chain(1,5) [OF listsD, of "fst s" "Q(hn \<mapsto> pre @ filter (\<lambda>x. \<not> P x) vs @ rs)" hn]
      chain_append [of rd_next "fst s" "pre @ filter (\<lambda>x. \<not> P x) vs" rs hn]
    by (auto simp: prune_inv_def)
qed simp

interpretation prune_prev: safe_walk fst rd_prev "prune_body P" hn "prune_inv_prev Q P hn" for P hn Q
proof
  show "\<exists>s'. prune_body P (Node x) s = Some s' \<and> prune_inv_prev Q P hn (vs @ [x]) rs s'"
    if "prune_inv_prev Q P hn vs (x # rs) s" for vs x rs s
    using that prune_step [of "fst s" Q hn "rev rs" x "filter (\<lambda>x. \<not> P x) (rev vs)" P vs]
    by (cases s) (auto simp: prune_inv_prev_def)
  show "chain rd_prev (fst s) rs hn \<and> hn \<notin> set rs" if "prune_inv_prev Q P hn vs rs s" for vs rs s
    using that ring_chain(2,5) [OF listsD, of "fst s" "Q(hn \<mapsto> rev rs @ filter (\<lambda>x. \<not> P x) (rev vs))" hn]
      chain_append [of rd_prev "fst s" "rev (filter (\<lambda>x. \<not> P x) (rev vs))" rs hn]
    by (auto simp: prune_inv_prev_def)
qed simp

lemma safe_loop_prune:
  assumes "lists h (Q(hn \<mapsto> pre @ rs))" "distinct rs" "rd_next h (Node (gap_next hn rs)) = Some n"
  shows "\<exists>h'. list_loop_safe fst rd_next (prune_body P) (Node hn) (Node (gap_next hn rs)) n (h, []) =
      Some (h', rs) \<and> lists h' (Q(hn \<mapsto> pre @ filter (\<lambda>x. \<not> P x) rs))"
  using prune.loop_inv [of Q P hn pre "[]" rs "(h, [])" n] assms by (auto simp: prune_inv_def)

lemma for_each_safe_prune:
  assumes "lists h Q" "Q hn = Some xs"
  shows "\<exists>h'. list_for_each_safe fst (prune_body P) (Node hn) (h, []) = Some (h', xs) \<and>
    lists h' (Q(hn \<mapsto> filter (\<lambda>x. \<not> P x) xs))"
proof -
  have q: "Q(hn \<mapsto> xs) = Q" using assms(2) by auto
  have r: "ring h hn xs" using assms by (rule listsD)
  show ?thesis
    using safe_loop_prune [of h Q hn "[]" xs _ P] assms(1) q ring_chain(3) [OF r] r
    by (auto simp: list_for_each_safe_def ring_def)
qed

lemma for_each_safe_reverse_prune:
  assumes "lists h Q" "Q hn = Some xs"
  shows "\<exists>h'. list_for_each_entry_safe_reverse fst (prune_body P) (Node hn) (h, []) = Some (h', rev xs) \<and>
    lists h' (Q(hn \<mapsto> filter (\<lambda>x. \<not> P x) xs))"
    and "list_for_each_prev_safe fst (prune_body P) (Node hn) (h, []) =
      list_for_each_entry_safe_reverse fst (prune_body P) (Node hn) (h, [])"
proof -
  have q: "Q(hn \<mapsto> xs) = Q" using assms(2) by auto
  have r: "ring h hn xs" using assms by (rule listsD)
  show "\<exists>h'. list_for_each_entry_safe_reverse fst (prune_body P) (Node hn) (h, []) = Some (h', rev xs) \<and>
    lists h' (Q(hn \<mapsto> filter (\<lambda>x. \<not> P x) xs))"
    using prune_prev.loop_inv [of Q P hn "[]" "rev xs" "(h, [])"] assms(1) q ring_chain(4) [OF r] r
    by (auto simp: list_for_each_entry_safe_reverse_def entry_steps prune_inv_prev_def ring_def)
qed (simp add: list_for_each_prev_safe_def list_for_each_entry_safe_reverse_def entry_steps)

text \<open>The variants that start in the middle leave the entries before the starting point alone.\<close>

lemma for_each_safe_from_prune:
  assumes "lists h Q" "Q hn = Some (ys @ x # zs)"
  shows "\<exists>h'. list_for_each_entry_safe_from fst (prune_body P) (Node x) (Node hn) (h, []) = Some (h', x # zs) \<and>
    lists h' (Q(hn \<mapsto> ys @ filter (\<lambda>x. \<not> P x) (x # zs)))"
    and "\<exists>h'. list_for_each_entry_safe_continue fst (prune_body P) (Node x) (Node hn) (h, []) = Some (h', zs) \<and>
    lists h' (Q(hn \<mapsto> ys @ x # filter (\<lambda>x. \<not> P x) zs))"
proof -
  have q: "Q(hn \<mapsto> ys @ x # zs) = Q" using assms(2) by auto
  have r: "ring h hn (ys @ x # zs)" using assms by (rule listsD)
  have d: "distinct (x # zs)" "distinct zs" using r by (simp_all add: ring_def)
  have n: "lnext h x = Node (gap_next hn zs)"
    using ring_chain(1) [OF r] chain_append [of rd_next h ys "x # zs" hn] by simp
  show "\<exists>h'. list_for_each_entry_safe_from fst (prune_body P) (Node x) (Node hn) (h, []) = Some (h', x # zs) \<and>
    lists h' (Q(hn \<mapsto> ys @ filter (\<lambda>x. \<not> P x) (x # zs)))"
    using safe_loop_prune [of h Q hn ys "x # zs" _ P] d(1) assms(1) q
    by (simp add: list_for_each_entry_safe_from_def entry_steps gap_next_def)
  show "\<exists>h'. list_for_each_entry_safe_continue fst (prune_body P) (Node x) (Node hn) (h, []) = Some (h', zs) \<and>
    lists h' (Q(hn \<mapsto> ys @ x # filter (\<lambda>x. \<not> P x) zs))"
    using safe_loop_prune [of h Q hn "ys @ [x]" zs _ P] d(2) assms(1) q n
    by (simp add: list_for_each_entry_safe_continue_def entry_steps)
qed

text \<open>
  A loop that is not of the \<^verbatim>\<open>_safe\<close> family reads the poison of the entry its body deleted and
  faults at the next access.
\<close>

lemma for_each_unsafe:
  assumes "lists h Q" "Q hn = Some (x # xs)" "P x"
  shows "list_for_each_entry fst (prune_body P) (Node hn) (h, []) = None"
proof -
  obtain h' where "list_del h (Node x) = Some h'" "lnext h' x = LIST_POISON1"
    using lists_list_del [OF assms(1,2), of x] by auto
  moreover have "lnext h hn = Node x" "x \<noteq> hn"
    using ring_next [OF listsD [OF assms(1,2)]] listsD [OF assms(1,2)] by (auto simp: ring_def)
  ultimately show ?thesis
    using assms(3)
    by (simp add: list_for_each_entry_def entry_steps list_loop.simps prune_body_def)
qed

text \<open>
  C5. A \<^verbatim>\<open>list_for_each_entry_safe\<close> loop whose body deletes the entries it selects, poisoning
  their links, returns: it visits every entry of the list exactly once and in order, and
  leaves exactly the entries that were not selected, in their order, on an intact list. No
  other list is changed.
\<close>

theorem for_each_entry_safe_prune:
  assumes "lists h Q" "Q hn = Some xs"
  shows "\<exists>h'. list_for_each_entry_safe fst (prune_body P) (Node hn) (h, []) = Some (h', xs) \<and>
    lists h' (Q(hn \<mapsto> filter (\<lambda>x. \<not> P x) xs))"
  using for_each_safe_prune [OF assms, of P]
  by (simp add: list_for_each_safe_def list_for_each_entry_safe_def entry_steps)

definition demo_ring :: "nat links" where
  "demo_ring = \<lparr>lnext = (\<lambda>n. Node (if n = 3 then 0 else n + 1)), lprev = (\<lambda>n. Node (if n = 0 then 3 else n - 1))\<rparr>"

theorem for_each_entry_safe_prune_witness:
  "\<exists>h'. list_for_each_entry_safe fst (prune_body (\<lambda>n. n \<le> 2)) (Node 0) (demo_ring, []) = Some (h', [1, 2, 3]) \<and>
    lists h' [0 \<mapsto> [3]]"
  using for_each_entry_safe_prune [of demo_ring "[0 \<mapsto> [1, 2, 3]]" 0 "[1, 2, 3]" "\<lambda>n. n \<le> 2"]
  by (simp add: lists_def ring_def demo_ring_def)

end
