(* ===== verification/Timer.thy ===== *)
theory Timer
  imports Signal Softirq List_Iter "HOL-Library.Signed_Division"
begin

text \<open>
  Timers: \<^verbatim>\<open>kernel/time.c\<close>, \<^verbatim>\<open>drivers/timer/timercore.c\<close> and \<^verbatim>\<open>drivers/timer/systick.c\<close>. A timer is a \<^verbatim>\<open>timer_info\<close> and a
  \<^verbatim>\<open>systick_timer\<close> behind it; armed timers are on the list of the driver, created POSIX timers on the list
  \<^verbatim>\<open>timer_head\<close>. Time is a 32-bit count of milliseconds. Memory from \<^verbatim>\<open>malloc\<close> keeps its old contents, so fields
  the code does not set have their previous values.

  \<^verbatim>\<open>sys_msleep\<close> suspends its caller; the timer it still has to free when it is resumed is in \<open>msleeping\<close>. \<open>None\<close> is a
  fault or a loop that never ends.
\<close>

section \<open>Data\<close>

record timespec =
  tv_sec :: int
  tv_nsec :: int

record itimerspec =
  it_interval :: timespec
  it_value :: timespec

datatype timer_type = ONESHOT_TIMER | INTERVAL_TIMER

datatype timer_cb = Msleep_callback | Timer_callback | Timer_callback_and_link

datatype timer_ops = Systick_tops

record timer_info =
  tm_id :: u32
  tm_disarmed :: bool
  tm_type :: timer_type
  tm_callback :: "timer_cb option"
  tm_owner :: addr
  tm_value :: itimerspec
  tm_sigev :: sigevent
  tm_tops :: "timer_ops option"
  tm_dev :: addr

record systick_timer =
  start_clocktime :: u32
  expire_clocktime :: u32
  sy_timer :: addr

datatype tmnode = TimerHead | TimerList addr | SystickHead | SystickList addr

record tmstate =
  sst :: sstate
  timers :: "addr \<Rightarrow> timer_info"
  systicks :: "addr \<Rightarrow> systick_timer"
  tmlinks :: "tmnode links"
  clocktime_in_msec :: u32
  timer_operations :: "timer_ops option"
  timer_id_bitmap :: u32
  msleeping :: "addr \<Rightarrow> addr option"

definition sizeof_timer_info :: u32 where "sizeof_timer_info = 80"
definition sizeof_systick_timer :: u32 where "sizeof_systick_timer = 20"

definition tm_malloc :: "u32 \<Rightarrow> tmstate \<Rightarrow> (addr option \<times> tmstate) option" where
  "tm_malloc n st = do {
     (p, h) \<leftarrow> malloc n (kheap (ps (sst st)));
     Some (p, st\<lparr>sst := (sst st)\<lparr>ps := (ps (sst st))\<lparr>kheap := h\<rparr>\<rparr>\<rparr>) }"

definition tm_free :: "addr \<Rightarrow> tmstate \<Rightarrow> tmstate option" where
  "tm_free p st = do {
     h \<leftarrow> free p (kheap (ps (sst st)));
     Some (st\<lparr>sst := (sst st)\<lparr>ps := (ps (sst st))\<lparr>kheap := h\<rparr>\<rparr>\<rparr>) }"

definition upd_timer :: "addr \<Rightarrow> (timer_info \<Rightarrow> timer_info) \<Rightarrow> tmstate \<Rightarrow> tmstate" where
  "upd_timer t f st = st\<lparr>timers := (timers st)(t := f (timers st t))\<rparr>"

definition tm_errno :: "int \<Rightarrow> tmstate \<Rightarrow> tmstate" where
  "tm_errno n st = st\<lparr>sst := (sst st)\<lparr>errno := n\<rparr>\<rparr>"

definition tm_kst :: "tmstate \<Rightarrow> kstate" where "tm_kst st = kst (sst st)"

definition set_tm_kst :: "kstate \<Rightarrow> tmstate \<Rightarrow> tmstate" where
  "set_tm_kst k st = st\<lparr>sst := set_kst k (sst st)\<rparr>"

section \<open>The driver\<close>

definition systick_timer_alloc :: "addr \<Rightarrow> tmstate \<Rightarrow> (int \<times> tmstate) option" where
  "systick_timer_alloc t st = do {
     (d, st) \<leftarrow> tm_malloc sizeof_systick_timer st;
     (case d of
        None \<Rightarrow> Some (- 1, tm_errno ENOMEM st)
      | Some d \<Rightarrow> Some (0, (upd_timer t (tm_dev_update (\<lambda>_. d)) st)\<lparr>systicks := (systicks st)(d := (systicks st d)\<lparr>sy_timer := t\<rparr>)\<rparr>)) }"

definition ts_zero :: "timespec \<Rightarrow> bool" where "ts_zero v \<longleftrightarrow> tv_sec v = 0 \<and> tv_nsec v = 0"

definition systick_timer_set :: "addr \<Rightarrow> timespec \<Rightarrow> tmstate \<Rightarrow> (int \<times> tmstate) option" where
  "systick_timer_set t v st = do {
     let d = tm_dev (timers st t);
     st \<leftarrow> (if ts_zero v then do { l \<leftarrow> list_del (tmlinks st) (Node (SystickList d)); Some (st\<lparr>tmlinks := l\<rparr>) } else Some st);
     st \<leftarrow> (if \<not> ts_zero v then do {
              let st = st\<lparr>systicks := (systicks st)(d := (systicks st d)\<lparr>start_clocktime := clocktime_in_msec st,
                expire_clocktime := clocktime_in_msec st + word_of_int (tv_sec v * 1000) + word_of_int (tv_nsec v sdiv 1000000)\<rparr>)\<rparr>;
              l \<leftarrow> list_add (tmlinks st) (Node (SystickList d)) (Node SystickHead);
              Some (st\<lparr>tmlinks := l\<rparr>) }
            else Some st);
     Some (0, st) }"

text \<open>The result is the time since the timer was armed.\<close>

definition systick_timer_get :: "addr \<Rightarrow> tmstate \<Rightarrow> timespec" where
  "systick_timer_get t st =
     (let msecs = clocktime_in_msec st - start_clocktime (systicks st (tm_dev (timers st t)))
      in \<lparr> tv_sec = uint (msecs div 1000), tv_nsec = uint ((msecs mod 1000) * 1000000) \<rparr>)"

definition systick_timer_free :: "addr \<Rightarrow> tmstate \<Rightarrow> tmstate option" where
  "systick_timer_free t st = tm_free (tm_dev (timers st t)) st"

section \<open>The core\<close>

definition config_timer_operations :: "timer_ops option \<Rightarrow> tmstate \<Rightarrow> tmstate" where
  "config_timer_operations tops st = st\<lparr>timer_operations := tops\<rparr>"

definition timer_alloc :: "tmstate \<Rightarrow> (addr option \<times> tmstate) option" where
  "timer_alloc st = do {
     (t, st) \<leftarrow> tm_malloc sizeof_timer_info st;
     (case t of
        None \<Rightarrow> Some (None, tm_errno ENOMEM st)
      | Some t \<Rightarrow> do {
          let st = upd_timer t (tm_tops_update (\<lambda>_. timer_operations st)) st;
          op \<leftarrow> tm_tops (timers st t);
          (r, st) \<leftarrow> systick_timer_alloc t st;
          if r \<noteq> 0 then do { st \<leftarrow> tm_free t st; Some (None, st) } else Some (Some t, st) }) }"

definition timer_set :: "addr \<Rightarrow> timespec \<Rightarrow> tmstate \<Rightarrow> (int \<times> tmstate) option" where
  "timer_set t v st = do { op \<leftarrow> tm_tops (timers st t); systick_timer_set t v st }"

definition timer_get :: "addr \<Rightarrow> tmstate \<Rightarrow> timespec option" where
  "timer_get t st = do { op \<leftarrow> tm_tops (timers st t); Some (systick_timer_get t st) }"

definition timer_free :: "addr \<Rightarrow> tmstate \<Rightarrow> tmstate option" where
  "timer_free t st = do {
     (_, st) \<leftarrow> (if \<not> tm_disarmed (timers st t) then timer_set t \<lparr>tv_sec = 0, tv_nsec = 0\<rparr> st else Some (0, st));
     op \<leftarrow> tm_tops (timers st t);
     st \<leftarrow> systick_timer_free t st;
     tm_free t st }"

section \<open>Sleeping\<close>

definition msleep_callback :: "addr \<Rightarrow> tmstate \<Rightarrow> tmstate option" where
  "msleep_callback t st = do {
     (r, k) \<leftarrow> sched_enqueue (tm_kst st) (tm_owner (timers st t));
     Some (upd_timer t (tm_disarmed_update (\<lambda>_. True)) (set_tm_kst k st)) }"

definition sys_msleep :: "u32 \<Rightarrow> tmstate \<Rightarrow> (outcome \<times> tmstate) option" where
  "sys_msleep msec st = do {
     (t, st) \<leftarrow> timer_alloc st;
     (case t of
        None \<Rightarrow> Some (Returned (- 1), st)
      | Some t \<Rightarrow> do {
          let curr_thread = cur (tm_kst st);
          let st = upd_timer t (\<lambda>ti. ti\<lparr>tm_owner := curr_thread, tm_disarmed := False, tm_type := ONESHOT_TIMER,
            tm_callback := Some Msleep_callback\<rparr>) st;
          (r, st) \<leftarrow> timer_set t \<lparr>tv_sec = uint (msec div 1000), tv_nsec = uint ((msec mod 1000) * 1000000)\<rparr> st;
          (r, k) \<leftarrow> sched_dequeue (tm_kst st) curr_thread;
          (r, k) \<leftarrow> sched_elect SCHED_OPT_NONE k;
          let st = set_tm_kst k st;
          (case r of
             Switched \<Rightarrow> Some (Switched, st\<lparr>msleeping := (msleeping st)(curr_thread := Some t)\<rparr>)
           | Returned _ \<Rightarrow> do { st \<leftarrow> timer_free t st; Some (Returned 0, st) }) }) }"

text \<open>The rest of the call, when the running thread is back from \<^verbatim>\<open>sched_elect\<close>.\<close>

definition sys_msleep_resume :: "tmstate \<Rightarrow> (outcome \<times> tmstate) option" where
  "sys_msleep_resume st = do {
     t \<leftarrow> msleeping st (cur (tm_kst st));
     st \<leftarrow> timer_free t (st\<lparr>msleeping := (msleeping st)(cur (tm_kst st) := None)\<rparr>);
     Some (Returned 0, st) }"

section \<open>POSIX timers\<close>

definition has_timer_id :: "tmstate \<Rightarrow> u32 \<Rightarrow> tmnode \<Rightarrow> bool" where
  "has_timer_id st i n = (case n of TimerList t \<Rightarrow> tm_id (timers st t) = i | _ \<Rightarrow> False)"

definition find_timer_by_id :: "u32 \<Rightarrow> tmstate \<Rightarrow> addr option option" where
  "find_timer_by_id timerid st = do {
     r \<leftarrow> list_for_each_entry_find (tmlinks st) (has_timer_id st timerid) (Node TimerHead);
     (case r of Some (TimerList t) \<Rightarrow> Some (Some t) | Some _ \<Rightarrow> None | None \<Rightarrow> Some None) }"

text \<open>The result is the id, or nothing when all are taken.\<close>

definition reserve_timer_id :: "tmstate \<Rightarrow> u32 option \<times> tmstate" where
  "reserve_timer_id st =
     (let b = find_first_zero_bit (\<lambda>_. timer_id_bitmap st) BITS_PER_LONG
      in if b = BITS_PER_LONG then (None, st)
         else (Some (of_nat b), st\<lparr>timer_id_bitmap := bitmap_set_bit (\<lambda>_. timer_id_bitmap st) b 0\<rparr>))"

definition timer_callback :: "trampolines \<Rightarrow> board \<Rightarrow> addr \<Rightarrow> tmstate \<Rightarrow> tmstate" where
  "timer_callback tr bd t st =
     (let st = (if tm_type (timers st t) = ONESHOT_TIMER then upd_timer t (tm_disarmed_update (\<lambda>_. True)) st else st)
      in st\<lparr>sst := do_sigevent tr bd (tm_sigev (timers st t)) (tm_owner (timers st t)) (sst st)\<rparr>)"

definition timer_callback_and_link :: "trampolines \<Rightarrow> board \<Rightarrow> addr \<Rightarrow> tmstate \<Rightarrow> tmstate option" where
  "timer_callback_and_link tr bd t st = do {
     let st = upd_timer t (\<lambda>ti. ti\<lparr>tm_type := INTERVAL_TIMER, tm_callback := Some Timer_callback\<rparr>) st;
     (r, st) \<leftarrow> timer_set t (it_interval (tm_value (timers st t))) st;
     Some (st\<lparr>sst := do_sigevent tr bd (tm_sigev (timers st t)) (tm_owner (timers st t)) (sst st)\<rparr>) }"

text \<open>The results of the calls are the return value and what they store for the caller.\<close>

definition sys_timer_create :: "sigevent \<Rightarrow> tmstate \<Rightarrow> (int \<times> u32 option \<times> tmstate) option" where
  "sys_timer_create sevp st = do {
     (t, st) \<leftarrow> timer_alloc st;
     (case t of
        None \<Rightarrow> Some (- 1, None, st)
      | Some t \<Rightarrow>
          (case reserve_timer_id st of
             (None, st) \<Rightarrow> do { st \<leftarrow> timer_free t st; Some (EAGAIN, None, st) }
           | (Some i, st) \<Rightarrow> do {
               let st = upd_timer t (\<lambda>ti. ti\<lparr>tm_id := i, tm_disarmed := True, tm_sigev := sevp\<rparr>) st;
               l \<leftarrow> list_add (tmlinks st) (Node (TimerList t)) (Node TimerHead);
               Some (0, Some i, st\<lparr>tmlinks := l\<rparr>) })) }"

definition sys_timer_settime :: "u32 \<Rightarrow> itimerspec \<Rightarrow> tmstate \<Rightarrow> (int \<times> itimerspec option \<times> tmstate) option" where
  "sys_timer_settime timerid new_value st = do {
     r \<leftarrow> find_timer_by_id timerid st;
     (case r of
        None \<Rightarrow> Some (EINVAL, None, st)
      | Some t \<Rightarrow> do {
          let old_value = tm_value (timers st t);
          let st = upd_timer t (tm_value_update (\<lambda>_. new_value)) st;
          if ts_zero (it_value new_value) then do {
            st \<leftarrow> (if \<not> tm_disarmed (timers st t) then do {
                    (r, st) \<leftarrow> timer_set t (it_value new_value) st;
                    Some (upd_timer t (tm_disarmed_update (\<lambda>_. True)) st) }
                  else Some st);
            Some (0, Some old_value, st) }
          else do {
            let st = upd_timer t (\<lambda>ti. ti\<lparr>tm_owner := cur (tm_kst st), tm_disarmed := False\<rparr>) st;
            let (ty, cb, v) =
              (if \<not> ts_zero (it_interval new_value) then
                 if tv_sec (it_value new_value) = tv_sec (it_interval new_value) \<and>
                    tv_nsec (it_value new_value) = tv_nsec (it_interval new_value)
                 then (INTERVAL_TIMER, Timer_callback, it_interval new_value)
                 else (ONESHOT_TIMER, Timer_callback_and_link, it_value new_value)
               else (ONESHOT_TIMER, Timer_callback, it_value new_value));
            let st = upd_timer t (\<lambda>ti. ti\<lparr>tm_type := ty, tm_callback := Some cb\<rparr>) st;
            (r, st) \<leftarrow> timer_set t v st;
            Some (0, Some old_value, st) } }) }"

definition sys_timer_gettime :: "u32 \<Rightarrow> tmstate \<Rightarrow> (int \<times> timespec option) option" where
  "sys_timer_gettime timerid st = do {
     r \<leftarrow> find_timer_by_id timerid st;
     (case r of None \<Rightarrow> Some (EINVAL, None) | Some t \<Rightarrow> do { v \<leftarrow> timer_get t st; Some (0, Some v) }) }"

section \<open>The clock\<close>

definition timer_expire_callback :: "trampolines \<Rightarrow> board \<Rightarrow> addr \<Rightarrow> tmstate \<Rightarrow> tmstate option" where
  "timer_expire_callback tr bd t st =
     (case tm_callback (timers st t) of
        None \<Rightarrow> Some st
      | Some Msleep_callback \<Rightarrow> msleep_callback t st
      | Some Timer_callback \<Rightarrow> Some (timer_callback tr bd t st)
      | Some Timer_callback_and_link \<Rightarrow> timer_callback_and_link tr bd t st)"

definition systick_expire :: "trampolines \<Rightarrow> board \<Rightarrow> addr \<Rightarrow> tmstate \<Rightarrow> tmstate option" where
  "systick_expire tr bd d st =
     (if expire_clocktime (systicks st d) < clocktime_in_msec st then do {
        l \<leftarrow> list_del (tmlinks st) (Node (SystickList d));
        let st = st\<lparr>tmlinks := l\<rparr>;
        let t = sy_timer (systicks st d);
        (_, st) \<leftarrow> (if tm_type (timers st t) = INTERVAL_TIMER then systick_timer_set t (it_interval (tm_value (timers st t))) st
                   else Some (0, st));
        timer_expire_callback tr bd t st }
      else Some st)"

definition systick_entry :: "trampolines \<Rightarrow> board \<Rightarrow> tmnode link \<Rightarrow> tmstate \<Rightarrow> tmstate option" where
  "systick_entry tr bd pos st = (case pos of Node (SystickList d) \<Rightarrow> systick_expire tr bd d st | _ \<Rightarrow> None)"

definition systick_bh :: "trampolines \<Rightarrow> board \<Rightarrow> tmstate \<Rightarrow> tmstate option" where
  "systick_bh tr bd st = list_for_each_entry_safe tmlinks (systick_entry tr bd) (Node SystickHead) st"

definition SYSTICK_PERIOD_IN_MSECS :: u32 where "SYSTICK_PERIOD_IN_MSECS = 1"
definition TIMER_SOFTIRQ_PRIO :: u32 where "TIMER_SOFTIRQ_PRIO = 0"

text \<open>
  The interrupt of the clock: the time, the static tasklet, created by the first tick for the function at the
  address \<open>bh\<close>, and the state of deferred work. Setting the pending bit of the scheduler interrupt is not modelled.
\<close>

definition systick :: "u32 \<Rightarrow> u32 \<times> addr option \<times> 'w softirq \<Rightarrow> (u32 \<times> addr option \<times> 'w softirq) option" where
  "systick bh s = (case s of (clk, tick_tsklet, w) \<Rightarrow> do {
     let clk = clk + SYSTICK_PERIOD_IN_MSECS;
     (tick_tsklet, w) \<leftarrow> (if tick_tsklet = None then tasklet_init bh 0 TIMER_SOFTIRQ_PRIO w else Some (tick_tsklet, w));
     (r, w) \<leftarrow> tasklet_schedule tick_tsklet w;
     Some (clk, tick_tsklet, w) })"

section \<open>Sleeping threads wake up\<close>

lemma tm_access [simp]:
  "tm_kst (set_tm_kst k st) = k" "tm_kst (upd_timer t f st) = tm_kst st" "tmlinks (set_tm_kst k st) = tmlinks st"
  "tmlinks (upd_timer t f st) = tmlinks st" "systicks (set_tm_kst k st) = systicks st" "systicks (upd_timer t f st) = systicks st"
  "clocktime_in_msec (set_tm_kst k st) = clocktime_in_msec st" "clocktime_in_msec (upd_timer t f st) = clocktime_in_msec st"
  "timers (set_tm_kst k st) = timers st" "timers (upd_timer t f st) = (timers st)(t := f (timers st t))"
  "tm_kst (st\<lparr>tmlinks := l\<rparr>) = tm_kst st"
  by (simp_all add: tm_kst_def set_tm_kst_def upd_timer_def kst_def set_kst_def)

text \<open>The threads that sleep behind the armed timers \<open>ds\<close>, none of them on a queue.\<close>

definition sleeper :: "tmstate \<Rightarrow> addr \<Rightarrow> addr" where
  "sleeper st d = tm_owner (timers st (sy_timer (systicks st d)))"

definition sleepers_ok :: "tmstate \<Rightarrow> runqs \<Rightarrow> addr list \<Rightarrow> addr list \<Rightarrow> (knode \<Rightarrow> knode list option) \<Rightarrow> addr list \<Rightarrow> bool" where
  "sleepers_ok st R W V M ds \<longleftrightarrow> distinct (map (sleeper st) ds) \<and>
     (\<forall>d\<in>set ds. tm_type (timers st (sy_timer (systicks st d))) = ONESHOT_TIMER \<and>
        tm_callback (timers st (sy_timer (systicks st d))) = Some Msleep_callback \<and>
        \<not> queued R (wait_rings M W V) (sleeper st d) \<and> sleeper st d \<noteq> thread_idle (tm_kst st) \<and> prio_ok (tm_kst st) (sleeper st d))"

definition expired :: "tmstate \<Rightarrow> addr \<Rightarrow> bool" where
  "expired st d \<longleftrightarrow> expire_clocktime (systicks st d) < clocktime_in_msec st"

definition wake_all :: "tmstate \<Rightarrow> addr list \<Rightarrow> runqs \<Rightarrow> runqs" where
  "wake_all st ds R = fold (\<lambda>d R. append_at R (sched_active (tm_kst st)) (prio_index (tm_kst st) (sleeper st d)) (sleeper st d)) ds R"

text \<open>One expired timer: it leaves the list of the driver and its thread is appended to the run queue.\<close>

lemma systick_expire_wakes:
  assumes ls: "lists (tmlinks st) Q" "Q SystickHead = Some (map SystickList (pre @ d # ds))"
    and q: "queues_inv (tm_kst st) R W V M" and s: "sleepers_ok st R W V M (d # ds)" and e: "expired st d"
  shows "\<exists>st'. systick_expire tr bd d st = Some st' \<and> lists (tmlinks st') (Q(SystickHead \<mapsto> map SystickList (pre @ ds))) \<and>
    queues_inv (tm_kst st') (wake_all st [d] R) W V M \<and> sleepers_ok st' (wake_all st [d] R) W V M ds \<and>
    systicks st' = systicks st \<and> clocktime_in_msec st' = clocktime_in_msec st \<and> cur (tm_kst st') = cur (tm_kst st) \<and>
    (\<forall>t. timers st' t = (timers st t)\<lparr>tm_disarmed := t = sy_timer (systicks st d) \<or> tm_disarmed (timers st t)\<rparr>) \<and>
    (\<forall>x l. wake_all st' l x = wake_all st l x)"
proof -
  let ?t = "sy_timer (systicks st d)" and ?o = "sleeper st d"
  have d: "tm_type (timers st ?t) = ONESHOT_TIMER" "tm_callback (timers st ?t) = Some Msleep_callback"
    "\<not> queued R (wait_rings M W V) ?o" "?o \<noteq> thread_idle (tm_kst st)" "prio_ok (tm_kst st) ?o"
    using s by (auto simp: sleepers_ok_def)
  have dist: "distinct (map SystickList (pre @ d # ds))" using ls unfolding lists_def ring_def by fastforce
  have r: "remove1 (SystickList d) (map SystickList (pre @ d # ds)) = map SystickList (pre @ ds)"
    using dist by (simp add: remove1_append)
  obtain l where l: "list_del (tmlinks st) (Node (SystickList d)) = Some l" "lists l (Q(SystickHead \<mapsto> map SystickList (pre @ ds)))"
    using lists_list_del [OF ls, of "SystickList d"] r by auto
  obtain k where k: "sched_enqueue (tm_kst st) ?o = Some (0, k)"
      "queues_inv k (append_at R (sched_active (tm_kst st)) (prio_index (tm_kst st) ?o) ?o) W V M"
      "frame_eq (tm_kst st) k" "cur k = cur (tm_kst st)" "sched_active k = sched_active (tm_kst st)"
    using queues_enqueue [OF q d(3-5)] by blast
  define st' where "st' = upd_timer ?t (tm_disarmed_update (\<lambda>_. True)) (set_tm_kst k (st\<lparr>tmlinks := l\<rparr>))"
  have run: "systick_expire tr bd d st = Some st'"
    using e l(1) d(1,2) k(1)
    by (simp add: systick_expire_def expired_def timer_expire_callback_def msleep_callback_def st'_def sleeper_def)
  have tm: "timers st' t = (timers st t)\<lparr>tm_disarmed := t = ?t \<or> tm_disarmed (timers st t)\<rparr>" for t
    by (simp add: st'_def)
  have sl: "sleeper st' = sleeper st" by (rule ext) (simp add: sleeper_def st'_def)
  note f = frame_eq_fields [OF k(3)]
  have w: "wake_all st' l x = wake_all st l x" for l x
    unfolding wake_all_def by (simp add: sl) (simp add: st'_def k(5) f(7) prio_index_def)
  have "sleepers_ok st' (wake_all st [d] R) W V M ds"
  proof -
    have p: "prio_index (tm_kst st) ?o < 32" using prio_index_eq(2) [OF d(5)] .
    have ty: "tm_type (timers st' t) = tm_type (timers st t)" "tm_callback (timers st' t) = tm_callback (timers st t)" for t
      by (simp_all add: tm)
    have kk: "tm_kst st' = k" "systicks st' = systicks st" by (simp_all add: st'_def)
    have "sleeper st x \<noteq> ?o" if "x \<in> set ds" for x using s that unfolding sleepers_ok_def by (metis distinct.simps(2) image_eqI list.simps(9) set_map)
    then show ?thesis using s p by (auto simp: sleepers_ok_def sl ty kk f wake_all_def queued_append)
  qed
  then show ?thesis using run l(2) k tm w by (auto simp: st'_def wake_all_def)
qed

text \<open>
  The loop over the armed timers: \<open>vs\<close> have been visited and \<open>rs\<close> are still to come. Those
  visited that had expired are off the list and their threads on the run queues.
\<close>

definition systick_inv ::
    "tmstate \<Rightarrow> (tmnode \<rightharpoonup> tmnode list) \<Rightarrow> runqs \<Rightarrow> addr list \<Rightarrow> addr list \<Rightarrow> (knode \<Rightarrow> knode list option) \<Rightarrow>
      tmnode list \<Rightarrow> tmnode list \<Rightarrow> tmstate \<Rightarrow> bool" where
  "systick_inv st0 Q R W V M vs rs st \<longleftrightarrow> (\<exists>as ds. vs = map SystickList as \<and> rs = map SystickList ds \<and>
     lists (tmlinks st) (Q(SystickHead \<mapsto> map SystickList (filter (\<lambda>d. \<not> expired st0 d) as @ ds))) \<and>
     queues_inv (tm_kst st) (wake_all st0 (filter (expired st0) as) R) W V M \<and>
     sleepers_ok st (wake_all st0 (filter (expired st0) as) R) W V M ds \<and>
     systicks st = systicks st0 \<and> clocktime_in_msec st = clocktime_in_msec st0 \<and> cur (tm_kst st) = cur (tm_kst st0) \<and>
     (\<forall>t. tm_disarmed (timers st t) \<longleftrightarrow> tm_disarmed (timers st0 t) \<or> (\<exists>d\<in>set as. expired st0 d \<and> t = sy_timer (systicks st0 d))) \<and>
     (\<forall>x l. wake_all st l x = wake_all st0 l x))"

lemma wake_all_append: "wake_all st (xs @ ys) R = wake_all st ys (wake_all st xs R)"
  by (simp add: wake_all_def)

lemma expired_cong:
  "systicks st' = systicks st \<Longrightarrow> clocktime_in_msec st' = clocktime_in_msec st \<Longrightarrow> expired st' = expired st"
  by (simp add: expired_def fun_eq_iff)

lemma systick_inv_step:
  assumes "systick_inv st0 Q R W V M vs (x # rs) st"
  shows "\<exists>st'. systick_entry tr bd (Node x) st = Some st' \<and> systick_inv st0 Q R W V M (vs @ [x]) rs st'"
proof -
  let ?live = "\<lambda>as. filter (\<lambda>d. \<not> expired st0 d) as" and ?W = "\<lambda>as. wake_all st0 (filter (expired st0) as) R"
  from assms obtain as d ds where v: "vs = map SystickList as" "x = SystickList d" "rs = map SystickList ds"
      "lists (tmlinks st) (Q(SystickHead \<mapsto> map SystickList (?live as @ d # ds)))"
      "queues_inv (tm_kst st) (?W as) W V M" "sleepers_ok st (?W as) W V M (d # ds)"
      "systicks st = systicks st0" "clocktime_in_msec st = clocktime_in_msec st0" "cur (tm_kst st) = cur (tm_kst st0)"
      "\<forall>t. tm_disarmed (timers st t) \<longleftrightarrow> tm_disarmed (timers st0 t) \<or> (\<exists>d\<in>set as. expired st0 d \<and> t = sy_timer (systicks st0 d))"
      "\<forall>x l. wake_all st l x = wake_all st0 l x"
    unfolding systick_inv_def by (auto simp: Cons_eq_map_conv)
  have ex: "expired st = expired st0" using v(7,8) by (rule expired_cong)
  have vs: "vs @ [x] = map SystickList (as @ [d])" using v(1,2) by simp
  show ?thesis
  proof (cases "expired st0 d")
    case True
    then have fs: "filter (expired st0) (as @ [d]) = filter (expired st0) as @ [d]" "?live (as @ [d]) = ?live as" by auto
    have w: "wake_all st [d] (?W as) = ?W (as @ [d])" using v(11) unfolding fs by (simp only: wake_all_append)
    obtain st1 where s1: "systick_expire tr bd d st = Some st1"
        "lists (tmlinks st1) (Q(SystickHead \<mapsto> map SystickList (?live as @ ds)))"
        "queues_inv (tm_kst st1) (?W (as @ [d])) W V M" "sleepers_ok st1 (?W (as @ [d])) W V M ds"
        "systicks st1 = systicks st" "clocktime_in_msec st1 = clocktime_in_msec st" "cur (tm_kst st1) = cur (tm_kst st)"
        "\<forall>t. timers st1 t = (timers st t)\<lparr>tm_disarmed := t = sy_timer (systicks st d) \<or> tm_disarmed (timers st t)\<rparr>"
        "\<forall>x l. wake_all st1 l x = wake_all st l x"
      using systick_expire_wakes [OF v(4) _ v(5,6), of "?live as" tr bd] True ex w by (simp del: map_append) metis
    have "systick_inv st0 Q R W V M (vs @ [x]) rs st1"
      unfolding systick_inv_def vs
      by (rule exI [of _ "as @ [d]"], rule exI [of _ ds], intro conjI)
        (use s1 v True in \<open>simp_all add: fs disj_ac del: map_append\<close>)
    with s1(1) show ?thesis by (simp add: systick_entry_def v(2))
  next
    case False
    then have "systick_expire tr bd d st = Some st" by (simp add: systick_expire_def ex [unfolded expired_def fun_eq_iff] expired_def v(7,8))
    moreover have "systick_inv st0 Q R W V M (vs @ [x]) rs st"
      unfolding systick_inv_def vs
      by (rule exI [of _ "as @ [d]"], rule exI [of _ ds], intro conjI)
        (use v False in \<open>auto simp: sleepers_ok_def\<close>)
    ultimately show ?thesis by (simp add: systick_entry_def v(2))
  qed
qed

interpretation systick_loop: safe_walk tmlinks rd_next "systick_entry tr bd" SystickHead "systick_inv st0 Q R W V M"
  for tr bd st0 Q R W V M
proof
  show "chain rd_next (tmlinks s) rs SystickHead \<and> SystickHead \<notin> set rs" if "systick_inv st0 Q R W V M vs rs s" for vs rs s
    using that ring_chain(1,5) [OF listsD, of "tmlinks s" _ SystickHead] chain_append
    by (fastforce simp: systick_inv_def)
qed (auto intro: systick_inv_step)

text \<open>
  C34. The deferred part of the clock interrupt, when all armed timers belong to sleeping threads: it returns, takes exactly
  the timers whose time is over off the list, in any number, and appends their threads to the run queue of their
  priorities in the order of the list; the other timers keep their order. The queues stay consistent.
\<close>

theorem systick_bh_wakes:
  assumes "lists (tmlinks st) Q" "Q SystickHead = Some (map SystickList ds)"
    "queues_inv (tm_kst st) R W V M" "sleepers_ok st R W V M ds"
  shows "\<exists>st'. systick_bh tr bd st = Some st' \<and>
    lists (tmlinks st') (Q(SystickHead \<mapsto> map SystickList (filter (\<lambda>d. \<not> expired st d) ds))) \<and>
    queues_inv (tm_kst st') (wake_all st (filter (expired st) ds) R) W V M \<and> cur (tm_kst st') = cur (tm_kst st) \<and>
    (\<forall>t. tm_disarmed (timers st' t) \<longleftrightarrow> tm_disarmed (timers st t) \<or> (\<exists>d\<in>set ds. expired st d \<and> t = sy_timer (systicks st d)))"
proof -
  have n: "rd_next (tmlinks st) (Node SystickHead) = Some (Node (gap_next SystickHead (map SystickList ds)))"
    using ring_chain(3) listsD assms(1,2) by metis
  have "Q(SystickHead \<mapsto> map SystickList ds) = Q" using assms(2) by auto
  then have inv: "systick_inv st Q R W V M [] (map SystickList ds) st"
    unfolding systick_inv_def using assms by (intro exI [of _ "[]"] exI [of _ ds]) (simp add: wake_all_def)
  obtain p where p: "rd_next (tmlinks st) (Node (gap_next SystickHead (map SystickList ds))) = Some p"
    using systick_loop.successor [OF inv] by blast
  obtain st' where "systick_bh tr bd st = Some st'" "systick_inv st Q R W V M (map SystickList ds) [] st'"
    using systick_loop.loop_inv [OF inv p, of tr bd] n p
    by (auto simp: systick_bh_def list_for_each_entry_safe_def entry_steps)
  then show ?thesis unfolding systick_inv_def by (auto simp: inj_map_eq_map inj_def)
qed

definition demo_tmstate :: tmstate where
  "demo_tmstate = \<lparr> sst = demo_sstate,
     timers = (\<lambda>_. \<lparr>tm_id = 0, tm_disarmed = False, tm_type = ONESHOT_TIMER, tm_callback = Some Msleep_callback, tm_owner = 5,
       tm_value = \<lparr>it_interval = \<lparr>tv_sec = 0, tv_nsec = 0\<rparr>, it_value = \<lparr>tv_sec = 0, tv_nsec = 0\<rparr>\<rparr>,
       tm_sigev = \<lparr>sigev_value = 0, sigev_notify_function = 0\<rparr>, tm_tops = Some Systick_tops, tm_dev = 0x60\<rparr>),
     systicks = (\<lambda>_. \<lparr>start_clocktime = 100, expire_clocktime = 110, sy_timer = 0x80\<rparr>),
     tmlinks = \<lparr>lnext = (\<lambda>n. Node (if n = SystickHead then SystickList 0x60 else SystickHead)),
       lprev = (\<lambda>n. Node (if n = SystickHead then SystickList 0x60 else SystickHead))\<rparr>,
     clocktime_in_msec = 111, timer_operations = Some Systick_tops, timer_id_bitmap = 0, msleeping = (\<lambda>_. None) \<rparr>"

theorem systick_bh_wakes_witness:
  "\<exists>st'. systick_bh demo_trampolines demo_board demo_tmstate = Some st' \<and> lists (tmlinks st') [SystickHead \<mapsto> []] \<and>
    queues_inv (tm_kst st') (append_at demo_R False 31 5) [] [] Map.empty \<and> tm_disarmed (timers st' 0x80)"
proof -
  let ?st = "demo_tmstate"
  have k: "tm_kst ?st = demo_state" by (simp add: demo_tmstate_def tm_kst_def kst_def demo_sstate_def demo_pstate_def)
  have "queues_inv demo_state demo_R [] [] Map.empty"
    using demo_kernel_inv [of "mutex_val demo_state"] by (simp add: kernel_inv_def demo_state_def kstate_zero_def)
  note q = this [folded k]
  have p: "prio_ok demo_state 5" "prio_index demo_state 5 = 31"
    by (simp_all add: prio_ok_def prio_index_def demo_state_def kstate_zero_def thread_info_zero_def)
  have s: "sleeper ?st d = 5" "expired ?st d" for d by (simp_all add: sleeper_def expired_def demo_tmstate_def)
  have ls: "lists (tmlinks ?st) [SystickHead \<mapsto> map SystickList [0x60]]"
    by (auto simp: demo_tmstate_def lists_def ring_def split: if_splits)
  have ok: "sleepers_ok ?st demo_R [] [] Map.empty [0x60]"
    using demo_exit_inv(2) p by (simp add: sleepers_ok_def s k) (simp add: demo_tmstate_def)
  have w: "wake_all ?st [0x60] demo_R = append_at demo_R False 31 5" by (simp add: wake_all_def s k p)
  have t: "sy_timer (systicks ?st 0x60) = 0x80" by (simp add: demo_tmstate_def)
  show ?thesis
    using systick_bh_wakes [OF ls _ q ok, of demo_trampolines demo_board] s w t by auto
qed

section \<open>Arming\<close>

lemma sdiv_mult_cancel: "0 \<le> a \<Longrightarrow> 0 < b \<Longrightarrow> (a * b) sdiv b = (a :: int)"
  by (cases "a = 0") (simp_all add: signed_divide_int_def abs_mult sgn_mult)

text \<open>\<^verbatim>\<open>sys_msleep\<close> arms its timer for exactly the number of milliseconds it was given.\<close>

lemma msleep_deadline:
  fixes msec :: u32
  shows "word_of_int (uint (msec div 1000) * 1000) + word_of_int (uint ((msec mod 1000) * 1000000) sdiv 1000000) = msec"
proof -
  let ?u = "uint msec"
  have m: "0 \<le> ?u mod 1000" "?u mod 1000 < 1000" by simp_all
  then have b: "uint ((msec mod 1000) * 1000000) = ?u mod 1000 * 1000000"
    by (simp add: uint_word_ariths uint_mod)
  have "(?u mod 1000 * 1000000) sdiv 1000000 = ?u mod 1000"
    using sdiv_mult_cancel [OF m(1), of 1000000] by simp
  note s = this
  have "word_of_int (?u div 1000 * 1000) + word_of_int (?u mod 1000) = (word_of_int (?u div 1000 * 1000 + ?u mod 1000) :: u32)"
    by (rule of_int_add [symmetric])
  then show ?thesis unfolding b s uint_div div_mult_mod_eq by (simp del: of_int_mult)
qed

text \<open>
  Comparing times does not allow for the wrap-around of the clock: a timer armed shortly before it for a longer time
  has expired at the next tick.
\<close>

lemma systick_wrap_expires_early:
  "systick_timer_set t \<lparr>tv_sec = 1, tv_nsec = 0\<rparr> st = Some (r, st') \<Longrightarrow> clocktime_in_msec st = - 1 \<Longrightarrow>
    expire_clocktime (systicks st' (tm_dev (timers st t))) = 999 \<and> expired st' (tm_dev (timers st t))"
  by (auto simp: systick_timer_set_def ts_zero_def expired_def bind_eq_Some_conv Let_def)

text \<open>
  Arming an armed timer again links its node to itself: the driver's list does not come back to its head. Nothing in
  \<^verbatim>\<open>sys_timer_settime\<close> removes the timer first.
\<close>

lemma timer_rearm_corrupts:
  assumes "lists (tmlinks st) [SystickHead \<mapsto> [SystickList (tm_dev (timers st t))]]" "\<not> ts_zero v"
    "systick_timer_set t v st = Some (r, st')"
  shows "lnext (tmlinks st') (SystickList (tm_dev (timers st t))) = Node (SystickList (tm_dev (timers st t)))"
proof -
  have "ring (tmlinks st) SystickHead [SystickList (tm_dev (timers st t))]" using assms(1) by (simp add: lists_def)
  then have "lnext (tmlinks st) SystickHead = Node (SystickList (tm_dev (timers st t)))" by (simp add: ring_def)
  then show ?thesis using assms(2,3)
    by (auto simp: systick_timer_set_def list_add_def list_add_between_def Let_def bind_eq_Some_conv list_head_simps)
qed

text \<open>Ids of timers: a new id is below 32 and was free; there is none exactly when all are taken.\<close>

lemma reserve_timer_id_correct:
  "case reserve_timer_id st of
     (None, st') \<Rightarrow> st' = st \<and> (\<forall>i<32. bit (timer_id_bitmap st) i)
   | (Some i, st') \<Rightarrow> unat i < 32 \<and> \<not> bit (timer_id_bitmap st) (unat i) \<and>
       (\<forall>j<32. bit (timer_id_bitmap st') j \<longleftrightarrow> j = unat i \<or> bit (timer_id_bitmap st) j)"
proof -
  let ?m = "\<lambda>_ :: nat. timer_id_bitmap st"
  define b where "b = find_first_zero_bit ?m 32"
  have l: "least_below (\<lambda>b. \<not> bm_bit ?m b) 32 b" unfolding b_def by (rule find_first_zero_bit_least)
  have w: "bm_bit m j = bit (m 0) j" if "j < 32" for m j using that by (simp add: bm_bit_def BITS_PER_LONG_def)
  show ?thesis
  proof (cases "b = 32")
    case True
    then show ?thesis using l w by (auto simp: reserve_timer_id_def b_def [symmetric] BITS_PER_LONG_def least_below_def)
  next
    case False
    then have f: "b < 32" "\<not> bit (timer_id_bitmap st) b" using l w by (auto simp: least_below_def)
    then have "unat (of_nat b :: u32) = b" by (intro unat_of_nat_small) simp
    moreover have "bit (bitmap_set_bit ?m b 0) j \<longleftrightarrow> j = b \<or> bit (timer_id_bitmap st) j" if "j < 32" for j
      using w [OF that, of "bitmap_set_bit ?m b"] w [OF that, of ?m] by (auto simp: bm_bit_set)
    ultimately show ?thesis using f False by (simp add: reserve_timer_id_def b_def [symmetric] BITS_PER_LONG_def)
  qed
qed

lemma msleep_arms:
  assumes "systick_timer_set t \<lparr>tv_sec = uint (msec div 1000), tv_nsec = uint ((msec mod 1000) * 1000000)\<rparr> st = Some (r, st')"
    and v: "\<not> ts_zero \<lparr>tv_sec = uint (msec div 1000), tv_nsec = uint ((msec mod 1000) * 1000000)\<rparr>"
  shows "expire_clocktime (systicks st' (tm_dev (timers st t))) = clocktime_in_msec st + msec"
proof -
  have "expire_clocktime (systicks st' (tm_dev (timers st t))) = clocktime_in_msec st + word_of_int (uint (msec div 1000) * 1000) +
      word_of_int (uint ((msec mod 1000) * 1000000) sdiv 1000000)"
    using assms unfolding systick_timer_set_def Let_def by (auto simp: bind_eq_Some_conv simp del: of_int_mult)
  then show ?thesis using msleep_deadline [of msec] by (simp add: add.assoc del: of_int_mult)
qed

end
