(* ===== verification/Mmap.thy ===== *)
theory Mmap
  imports Files
begin

text \<open>
  Mapping memory: \<^verbatim>\<open>kernel/mm/mm.c\<close>. An anonymous mapping is a page of the page allocator; a file can be mapped when
  its file system can name the address of its data. The endless loop after a failed mapping of a file is the
  result \<open>None\<close>. The messages are not modelled.
\<close>

section \<open>The code\<close>

definition PROT_NONE :: u32 where "PROT_NONE = 0"
definition MAP_FAILED :: addr where "MAP_FAILED = - 1"
definition MAP_ANONYMOUS :: u32 where "MAP_ANONYMOUS = 1"
definition MAP_UNINITIALIZED :: u32 where "MAP_UNINITIALIZED = 2"
definition EACCES :: int where "EACCES = 13"

definition M_ISANON :: "u32 \<Rightarrow> bool" where "M_ISANON f \<longleftrightarrow> f AND MAP_ANONYMOUS = MAP_ANONYMOUS"
definition M_ISUNINIT :: "u32 \<Rightarrow> bool" where "M_ISUNINIT f \<longleftrightarrow> f AND MAP_UNINITIALIZED = MAP_UNINITIALIZED"
definition S_ISREG :: "u16 \<Rightarrow> bool" where "S_ISREG m \<longleftrightarrow> m AND S_IFMT = S_IFREG"

definition map_anon :: "board \<Rightarrow> u32 \<Rightarrow> u32 \<Rightarrow> fstate \<Rightarrow> (addr \<times> fstate) option" where
  "map_anon bd len flags st = do {
     (a, B) \<leftarrow> alloc_pages (pgmem bd) (pgs (ts (fps st))) (order_of len);
     let st = st\<lparr>fps := (fps st)\<lparr>ts := (ts (fps st))\<lparr>pgs := B\<rparr>\<rparr>\<rparr>;
     (case a of
        None \<Rightarrow> Some (MAP_FAILED, st\<lparr>ferrno := ENOMEM\<rparr>)
      | Some a \<Rightarrow>
          Some (a, if M_ISUNINIT flags then st else st\<lparr>fmem := store_bytes a (replicate (unat len) 0) (fmem st)\<rparr>)) }"

definition map_file :: "int \<Rightarrow> int \<Rightarrow> fstate \<Rightarrow> (addr \<times> fstate) option" where
  "map_file fd offset st = do {
     n \<leftarrow> fd_to_file fd;
     let fl = files st (fs_task st) n;
     if \<not> S_ISREG (i_mode (inodes st (d_inode (dentries st (f_dentry fl))))) then Some (MAP_FAILED, st\<lparr>ferrno := EACCES\<rparr>)
     else do {
       (r, a) \<leftarrow> vfs_mmap fl offset st;
       if r \<noteq> 0 then None else Some (a, st) } }"

definition sys_mmap :: "board \<Rightarrow> u32 \<Rightarrow> u32 \<Rightarrow> u32 \<Rightarrow> int \<Rightarrow> int \<Rightarrow> fstate \<Rightarrow> (addr \<times> fstate) option" where
  "sys_mmap bd len prot flags fd offset st =
     (if len = 0 then Some (MAP_FAILED, st\<lparr>ferrno := EINVAL\<rparr>)
      else if prot AND PROT_NONE \<noteq> 0 then Some (MAP_FAILED, st\<lparr>ferrno := EACCES\<rparr>)
      else if M_ISANON flags then map_anon bd len flags st
      else map_file fd offset st)"

definition sys_munmap :: "addr \<Rightarrow> u32 \<Rightarrow> int" where
  "sys_munmap a len = 0"

section \<open>Properties\<close>

text \<open>No protection is refused: the test for \<^verbatim>\<open>PROT_NONE\<close>, which is zero, never succeeds.\<close>

lemma sys_mmap_ignores_prot: "sys_mmap bd len prot flags fd off st = sys_mmap bd len prot' flags fd off st"
  by (simp add: sys_mmap_def PROT_NONE_def)

text \<open>
  An anonymous mapping is a page that was free, of the least order that holds the length, and its first \<open>len\<close> bytes are zero
  unless the caller asked not to clear it; nothing outside the page is written. It fails with ENOMEM, changing
  nothing else, exactly when the length is above 2 KB or no such page is free.
\<close>

lemma sys_mmap_anon:
  assumes pg: "pages_rep (pgmem bd) (pgs (ts (fps st))) F" and len: "len \<noteq> 0" and anon: "M_ISANON flags"
  shows "(sys_mmap bd len prot flags fd off st = Some (MAP_FAILED, st\<lparr>ferrno := ENOMEM\<rparr>) \<and>
      (2048 < len \<or> (\<forall>i. \<not> units (order_of len) i \<subseteq> F))) \<or>
    (\<exists>i a st'. sys_mmap bd len prot flags fd off st = Some (a, st') \<and> len \<le> 2048 \<and>
      a = page_idx_to_addr (pgmem bd) i (order_of len) \<and> units (order_of len) i \<subseteq> F \<and>
      pages_rep (pgmem bd) (pgs (ts (fps st'))) (F - units (order_of len) i) \<and>
      same_outside (region a (unat len)) (fmem st) (fmem st') \<and>
      (if M_ISUNINIT flags then fmem st' = fmem st else load_bytes a (unat len) (fmem st') = replicate (unat len) 0))"
proof -
  let ?o = "order_of len"
  have run: "sys_mmap bd len prot flags fd off st = map_anon bd len flags st"
    using len anon by (simp add: sys_mmap_def PROT_NONE_def)
  have big: "\<not> ?o \<le> 3" if "2048 < len"
    using that by (auto simp: order_of_def size_to_page_order_def word_le_nat_alt word_less_nat_alt unsigned_minus_1_eq_mask mask_eq_exp_minus_1)
  show ?thesis
  proof (rule alloc_pages_cases [OF pg, of ?o])
    fix i B assume b: "?o \<le> 3" "units ?o i \<subseteq> F" "page_rep B (F - units ?o i)"
      "alloc_pages (pgmem bd) (pgs (ts (fps st))) ?o = Some (Some (page_idx_to_addr (pgmem bd) i ?o), B)" "i < page_bitmap_sz ?o"
    let ?a = "page_idx_to_addr (pgmem bd) i ?o" and ?z = "replicate (unat len) (0 :: u8)"
    define st1 where "st1 = st\<lparr>fps := (fps st)\<lparr>ts := (ts (fps st))\<lparr>pgs := B\<rparr>\<rparr>\<rparr>"
    define st' where "st' = (if M_ISUNINIT flags then st1 else st1\<lparr>fmem := store_bytes ?a ?z (fmem st)\<rparr>)"
    have "map_anon bd len flags st = Some (?a, st')" using b(4) by (simp add: map_anon_def st'_def st1_def)
    moreover have "len \<le> 2048" using big b(1) by (meson not_less)
    moreover have "pages_rep (pgmem bd) (pgs (ts (fps st'))) (F - units ?o i)"
      using b(3) pg by (simp add: st'_def st1_def pages_rep_def)
    moreover have "same_outside (region ?a (unat len)) (fmem st) (fmem st')"
      using store_bytes_same [of ?a ?z "fmem st"] by (simp add: st'_def st1_def same_outside_def)
    moreover have "unat ?a + unat len \<le> 2 ^ 32"
      using unat_page_addr(1) [OF _ b(1,5), of "pgmem bd"] block_end [OF b(1,5)] order_of_fits(2) [of len] \<open>len \<le> 2048\<close> pg
      by (simp add: pages_rep_def pgmem_ok_def)
    then have "if M_ISUNINIT flags then fmem st' = fmem st else load_bytes ?a (unat len) (fmem st') = ?z"
      using load_store_same [of ?a ?z "fmem st"] by (simp add: st'_def st1_def)
    ultimately show ?thesis using run b(2) by (intro disjI2 exI [of _ i] exI [of _ ?a] exI [of _ st']) simp
  next
    assume "alloc_pages (pgmem bd) (pgs (ts (fps st))) ?o = Some (None, pgs (ts (fps st)))" "\<And>i. ?o \<le> 3 \<Longrightarrow> \<not> units ?o i \<subseteq> F"
    moreover have "2048 < len \<or> ?o \<le> 3" using order_of_fits(1) [of len] not_less by blast
    ultimately show ?thesis using run by (auto simp: map_anon_def)
  qed
qed

end
