(* ===== verification/Irq.thy ===== *)
theory Irq
  imports Alloc
begin

text \<open>
  Interrupts: \<^verbatim>\<open>kernel/irq.c\<close> and \<^verbatim>\<open>include/kernel/irq.h\<close>. Handlers are named by their addresses. The table of handlers is
  what the entry code in assembly reads.
\<close>

section \<open>The code\<close>

definition NR_IRQS :: nat where "NR_IRQS = 64"
definition IRQ_NOREQUEST :: u32 where "IRQ_NOREQUEST = 1"
definition IRQD_IRQ_DISABLED :: u32 where "IRQD_IRQ_DISABLED = 1"
definition sizeof_irqaction :: u32 where "sizeof_irqaction = 8"

record irq_desc =
  irqd_state :: u32
  irq_action :: addr
  irq_status :: u32

record irqaction =
  irqa_handler :: u32
  irqa_irq :: u32

record irq_state =
  irq_descs :: "nat \<Rightarrow> irq_desc"
  irq_handler :: "nat \<Rightarrow> u32"
  irqactions :: "addr \<Rightarrow> irqaction"
  irq_heap :: heap

definition irq_to_desc :: "u32 \<Rightarrow> nat option" where
  "irq_to_desc irq = (if unat irq < NR_IRQS then Some (unat irq) else None)"

definition request_irq :: "u32 \<Rightarrow> u32 \<Rightarrow> irq_state \<Rightarrow> (int \<times> irq_state) option" where
  "request_irq irq hdlr st =
     (case irq_to_desc irq of
        None \<Rightarrow> Some (- 1, st)
      | Some d \<Rightarrow>
          if irq_status (irq_descs st d) AND IRQ_NOREQUEST \<noteq> 0 then do {
            (a, h) \<leftarrow> malloc sizeof_irqaction (irq_heap st);
            let st = st\<lparr>irq_heap := h\<rparr>;
            (case a of
               None \<Rightarrow> Some (- 1, st)
             | Some a \<Rightarrow> Some (0, st\<lparr>irqactions := (irqactions st)(a := \<lparr>irqa_handler = hdlr, irqa_irq = irq\<rparr>),
                 irq_descs := (irq_descs st)(d := (irq_descs st d)\<lparr>irq_action := a\<rparr>),
                 irq_handler := (irq_handler st)(unat irq := hdlr)\<rparr>)) }
          else Some (- 1, st))"

definition free_irq :: "u32 \<Rightarrow> irq_state \<Rightarrow> (int \<times> irq_state) option" where
  "free_irq irq st =
     (case irq_to_desc irq of
        None \<Rightarrow> Some (- 1, st)
      | Some d \<Rightarrow>
          if irq_status (irq_descs st d) AND IRQ_NOREQUEST = 0 then do {
            h \<leftarrow> free (irq_action (irq_descs st d)) (irq_heap st);
            Some (0, st\<lparr>irq_heap := h,
              irq_descs := (irq_descs st)(d := (irq_descs st d)\<lparr>irq_status := irq_status (irq_descs st d) OR IRQ_NOREQUEST\<rparr>),
              irq_handler := (irq_handler st)(unat irq := 0)\<rparr>) }
          else Some (- 1, st))"

fun irq_for_all :: "(irq_desc \<Rightarrow> irq_desc) \<Rightarrow> nat \<Rightarrow> irq_state \<Rightarrow> irq_state" where
  "irq_for_all f 0 st = st"
| "irq_for_all f (Suc n) st = (let st = irq_for_all f n st in st\<lparr>irq_descs := (irq_descs st)(n := f (irq_descs st n))\<rparr>)"

definition early_irq_init :: "irq_state \<Rightarrow> irq_state" where
  "early_irq_init st = irq_for_all (irqd_state_update (\<lambda>_. IRQD_IRQ_DISABLED)) NR_IRQS st"

definition init_IRQ :: "irq_state \<Rightarrow> irq_state" where
  "init_IRQ st = irq_for_all (irq_status_update (\<lambda>_. IRQ_NOREQUEST)) NR_IRQS st"

section \<open>Properties\<close>

lemma irq_for_all_descs: "irq_descs (irq_for_all f n st) i = (if i < n then f (irq_descs st i) else irq_descs st i)"
  by (induction n) (auto simp: Let_def less_Suc_eq)

lemma irq_for_all_rest: "irq_heap (irq_for_all f n st) = irq_heap st" "irq_handler (irq_for_all f n st) = irq_handler st"
  by (induction n) (auto simp: Let_def)

definition irqs_free :: "irq_state \<Rightarrow> bool" where
  "irqs_free st \<longleftrightarrow> (\<forall>i<NR_IRQS. irq_status (irq_descs st i) = IRQ_NOREQUEST)"

lemma init_IRQ_free: "irqs_free (init_IRQ st)"
  by (simp add: irqs_free_def init_IRQ_def irq_for_all_descs)

text \<open>
  A request for an existing interrupt installs the handler, unless the heap is full, and touches no other
  interrupt. It does not clear the flag that says the interrupt can be requested.
\<close>

lemma request_irq_correct:
  assumes "irqs_free st" "heap_ok s e (irq_heap st, live)" "unat irq < NR_IRQS"
  shows "request_irq irq h st = Some (- 1, st) \<or>
    (\<exists>a st'. request_irq irq h st = Some (0, st') \<and> irqs_free st' \<and> irq_handler st' = (irq_handler st)(unat irq := h) \<and>
      heap_ok s e (irq_heap st', (a, sizeof_irqaction) # live) \<and> irqactions st' a = \<lparr>irqa_handler = h, irqa_irq = irq\<rparr> \<and>
      irq_action (irq_descs st' (unat irq)) = a)"
proof -
  have sz: "0 < sizeof_irqaction" "unat sizeof_irqaction \<le> 2 ^ 32 - 16" by (simp_all add: sizeof_irqaction_def)
  have go: "irq_to_desc irq = Some (unat irq)" "irq_status (irq_descs st (unat irq)) AND IRQ_NOREQUEST \<noteq> 0"
    using assms(1,3) by (auto simp: irq_to_desc_def irqs_free_def IRQ_NOREQUEST_def)
  show ?thesis
  proof (rule libc.alloc_fresh [OF assms(2) sz, where Q = Map.empty and mk = Tag])
    show "p \<in> fst ` set live \<or> unat p < s \<or> e \<le> unat p" if "Tag p \<in> ring_nodes Map.empty" for p
      using that unfolding ring_nodes_iff by simp
  next
    assume "malloc sizeof_irqaction (irq_heap st) = Some (None, irq_heap st)"
    then show ?thesis using go by (simp add: request_irq_def)
  next
    fix a h' assume "malloc sizeof_irqaction (irq_heap st) = Some (Some a, h')" "heap_ok s e (h', (a, sizeof_irqaction) # live)"
    then show ?thesis using go assms(1) by (simp add: request_irq_def irqs_free_def)
  qed
qed

text \<open>After the initialisation no interrupt can ever be released, because requests keep them free.\<close>

lemma free_irq_never: "irqs_free st \<Longrightarrow> free_irq irq st = Some (- 1, st)"
  by (auto simp: free_irq_def irq_to_desc_def irqs_free_def IRQ_NOREQUEST_def)

end
