(* ===== verification/Serial.thy ===== *)
theory Serial
  imports Sched Cbuf
begin

text \<open>
  The serial port: \<^verbatim>\<open>drivers/serial/stm32-uart.c\<close>, \<^verbatim>\<open>serialcore.c\<close> and \<^verbatim>\<open>serialchar.c\<close>. The interrupt handler puts
  the received characters into the character buffer and wakes the thread that opened the device last; the
  read operation blocks its caller until enough characters were received.

  The transmit register is always ready when the driver has waited for it; what was sent is \<open>uart_out\<close>. The
  structure has no operation \<^verbatim>\<open>serial_gets\<close>: calling it is a fault, the result \<open>None\<close>. Characters are
  unsigned, as in the ARM procedure call standard, so none is below zero. A reader that was switched away
  continues at the test of its loop, which is the first thing \<^verbatim>\<open>serialchar_read\<close> does: the rest of the
  call is the call again.
\<close>

section \<open>The code\<close>

record serial =
  ser_kst :: kstate
  ser_cbuf :: cbuf_info
  rx_count :: u32
  ser_owner :: "addr option"
  ser_callback :: bool
  uart_out :: "u8 list"

definition stm32_getc :: "serial \<Rightarrow> (int \<times> u8 option \<times> serial) option" where
  "stm32_getc st = do {
     let st = st\<lparr>rx_count := rx_count st - 1\<rparr>;
     (r, c, cb) \<leftarrow> cbuf_getc (ser_cbuf st);
     Some (0, c, st\<lparr>ser_cbuf := cb\<rparr>) }"

definition EOF :: int where "EOF = - 1"

definition stm32_putc :: "u8 \<Rightarrow> serial \<Rightarrow> int \<times> serial" where
  "stm32_putc c st = (uint c, st\<lparr>uart_out := uart_out st @ [c]\<rparr>)"

fun stm32_puts_loop :: "int \<Rightarrow> u8 list \<Rightarrow> serial \<Rightarrow> int \<times> serial" where
  "stm32_puts_loop i [] st = (i, st)"
| "stm32_puts_loop i (c # cs) st =
     (let (r, st) = stm32_putc c st in if r = EOF then (EOF, st) else stm32_puts_loop (i + 1) cs st)"

definition stm32_puts :: "u8 list \<Rightarrow> serial \<Rightarrow> int \<times> serial" where
  "stm32_puts buf st = stm32_puts_loop 0 buf st"

definition serialchar_callback :: "serial \<Rightarrow> serial option" where
  "serialchar_callback st = do {
     t \<leftarrow> ser_owner st;
     (r, k) \<leftarrow> sched_enqueue (ser_kst st) t;
     Some (st\<lparr>ser_kst := k\<rparr>) }"

definition serial_activity_callback :: "serial \<Rightarrow> serial option" where
  "serial_activity_callback st = (if ser_callback st then serialchar_callback st else Some st)"

text \<open>The interrupt handler: \<open>rxne\<close> is the status flag and \<open>dr\<close> the data register.\<close>

definition stm32_uartx_isr :: "bool \<Rightarrow> u8 \<Rightarrow> serial \<Rightarrow> serial option" where
  "stm32_uartx_isr rxne dr st =
     (if rxne then do {
        (r, cb) \<leftarrow> cbuf_putc dr (ser_cbuf st);
        serial_activity_callback (st\<lparr>ser_cbuf := cb, rx_count := rx_count st + 1\<rparr>) }
      else Some st)"

definition serialchar_open :: "serial \<Rightarrow> int \<times> serial" where
  "serialchar_open st = (0, st\<lparr>ser_owner := Some (cur (ser_kst st)), ser_callback := True\<rparr>)"

partial_function (option) serialchar_wait :: "u32 \<Rightarrow> serial \<Rightarrow> (outcome \<times> serial) option" where
  "serialchar_wait n st =
     (if rx_count st < n then do {
        (r, k) \<leftarrow> sched_dequeue (ser_kst st) (cur (ser_kst st));
        (r, k) \<leftarrow> sched_elect SCHED_OPT_NONE k;
        (case r of
           Switched \<Rightarrow> Some (Switched, st\<lparr>ser_kst := k\<rparr>)
         | Returned _ \<Rightarrow> serialchar_wait n (st\<lparr>ser_kst := k\<rparr>)) }
      else Some (Returned 0, st))"

declare serialchar_wait.simps [code]

definition serialchar_read :: "u32 \<Rightarrow> serial \<Rightarrow> (outcome \<times> u8 option \<times> serial) option" where
  "serialchar_read n st = do {
     (r, st) \<leftarrow> serialchar_wait n st;
     (case r of
        Switched \<Rightarrow> Some (Switched, None, st)
      | Returned _ \<Rightarrow>
          if n = 1 then do { (r, c, st) \<leftarrow> stm32_getc st; Some (Returned r, c, st) } else None) }"

definition serialchar_write :: "u8 list \<Rightarrow> serial \<Rightarrow> int \<times> serial" where
  "serialchar_write buf st = stm32_puts buf st"

text \<open>The static variables after \<^verbatim>\<open>stm32_serial_init\<close>: a buffer of 16 characters, and nobody has opened the device.\<close>

definition stm32_info :: "kstate \<Rightarrow> serial" where
  "stm32_info k = \<lparr> ser_kst = k, ser_cbuf = cbuf_init (\<lambda>_. 0) 16, rx_count = 0, ser_owner = None,
     ser_callback = False, uart_out = [] \<rparr>"

section \<open>What the driver holds\<close>

text \<open>The unread characters: at most fifteen, and the count agrees with the buffer.\<close>

definition serial_rep :: "serial \<Rightarrow> u8 list \<Rightarrow> bool" where
  "serial_rep st q \<longleftrightarrow> cbuf_rep (ser_cbuf st) q \<and> cb_len (ser_cbuf st) = 16 \<and> rx_count st = of_nat (length q)"

lemma serial_rep_length: "serial_rep st q \<Longrightarrow> length q < 16"
  by (auto simp: serial_rep_def elim: cbuf_repE)

lemma serial_rep_kst [simp]: "serial_rep (st\<lparr>ser_kst := k\<rparr>) q = serial_rep st q"
  by (simp add: serial_rep_def)

lemma serial_boot_rep: "serial_rep (stm32_info k) []"
  by (simp add: serial_rep_def stm32_info_def cbuf_rep_def cbuf_init_def)

lemma stm32_getc_rep:
  assumes "serial_rep st (x # xs)"
  shows "\<exists>cb. stm32_getc st = Some (0, Some x, st\<lparr>rx_count := of_nat (length xs), ser_cbuf := cb\<rparr>) \<and>
    serial_rep (st\<lparr>rx_count := of_nat (length xs), ser_cbuf := cb\<rparr>) xs"
  using assms cbuf_getc_rep [of "ser_cbuf st" x xs] by (auto simp: serial_rep_def stm32_getc_def)

text \<open>The count is compared as an unsigned number.\<close>

lemma rx_count_less:
  assumes "serial_rep st q"
  shows "rx_count st < n \<longleftrightarrow> length q < unat n"
proof -
  have "unat (of_nat (length q) :: u32) = length q"
    using serial_rep_length [OF assms] by (intro unat_of_nat_small) simp
  then show ?thesis using assms by (simp add: serial_rep_def word_less_nat_alt)
qed

lemma serialchar_wait_done: "serial_rep st q \<Longrightarrow> unat n \<le> length q \<Longrightarrow> serialchar_wait n st = Some (Returned 0, st)"
  by (subst serialchar_wait.simps) (simp add: rx_count_less)

lemma stm32_puts_loop_all: "stm32_puts_loop i cs st = (i + int (length cs), st\<lparr>uart_out := uart_out st @ cs\<rparr>)"
proof (induction cs arbitrary: i st)
  case (Cons c cs)
  have "0 \<le> uint c" by simp
  then have "uint c \<noteq> - 1" by linarith
  then show ?case using Cons.IH by (simp add: stm32_putc_def EOF_def)
qed simp

text \<open>Nothing is removed from a queue for the running thread.\<close>

lemma sched_dequeue_current: "sched st = Some SCHED_CLASS_BITMAP \<Longrightarrow> sched_dequeue st (cur st) = Some (Returned (- 1), st)"
  by (simp add: sched_dequeue_def sched_bitmap_dequeue_def thread_dequeue_def Let_def)

text \<open>A reader with too few characters gives up the processor; the characters stay.\<close>

lemma serialchar_wait_blocks:
  assumes rep: "serial_rep st q" "length q < unat n" and k: "sched_inv (ser_kst st) R M" "sched (ser_kst st) = Some SCHED_CLASS_BITMAP"
    "canary_ok (ser_kst st) (cur (ser_kst st))" "cur (ser_kst st) \<noteq> thread_idle (ser_kst st)"
    and p: "pick (sched_active (ser_kst st)) R (thread_idle (ser_kst st)) = (nxt, b, R')"
  shows "\<exists>k'. serialchar_wait n st = Some (Switched, st\<lparr>ser_kst := k'\<rparr>) \<and> sched_rep k' R' M \<and> cur k' = nxt \<and>
    sched_active k' = b \<and> frame_eq (ser_kst st) k'"
proof -
  let ?k = "ser_kst st"
  have "nxt \<noteq> cur ?k" using queued_picked [OF p, of M] k(1,4) by (auto simp: sched_inv_def)
  moreover have "sched_rep ?k R M" using k(1) by (simp add: sched_inv_def)
  moreover have "SCHED_OPT_NONE \<noteq> SCHED_OPT_TICK" by (simp add: SCHED_OPT_NONE_def SCHED_OPT_TICK_def)
  ultimately obtain k' where k': "sched_elect SCHED_OPT_NONE ?k = Some (Switched, k')" "sched_rep k' R' M" "cur k' = nxt"
      "sched_active k' = b" "frame_eq ?k k'"
    using sched_elect_rep [of ?k R M SCHED_OPT_NONE nxt b R'] k(2,3) p by (auto simp: after_elect_def)
  have "serialchar_wait n st = Some (Switched, st\<lparr>ser_kst := k'\<rparr>)"
    using sched_dequeue_current [OF k(2)] k'(1) rep by (subst serialchar_wait.simps) (simp add: rx_count_less)
  then show ?thesis using k' by blast
qed

text \<open>A received character joins the unread ones, and the thread that opened the device is ready again.\<close>

lemma stm32_uartx_isr_rep:
  assumes rep: "serial_rep st q" "length q < 15" and opened: "ser_callback st" "ser_owner st = Some t"
    and k: "sched_rep (ser_kst st) R M" "\<not> queued R M t" "t \<noteq> thread_idle (ser_kst st)" "prio_ok (ser_kst st) t"
      "sched (ser_kst st) = Some SCHED_CLASS_BITMAP"
  shows "\<exists>st'. stm32_uartx_isr True c st = Some st' \<and> serial_rep st' (q @ [c]) \<and>
    sched_rep (ser_kst st') (append_at R (sched_active (ser_kst st)) (prio_index (ser_kst st) t) t) M \<and>
    cur (ser_kst st') = cur (ser_kst st)"
proof -
  have "Suc (length q) < unat (cb_len (ser_cbuf st))" using rep by (simp add: serial_rep_def)
  then obtain cb where cb: "cbuf_putc c (ser_cbuf st) = Some (0, cb)" "cb_len cb = 16" "cbuf_rep cb (q @ [c])"
    using cbuf_putc_rep [of "ser_cbuf st" q c] rep(1) by (auto simp: serial_rep_def)
  obtain k' where k': "sched_enqueue (ser_kst st) t = Some (0, k')"
    "sched_rep k' (append_at R (sched_active (ser_kst st)) (prio_index (ser_kst st) t) t) M" "cur k' = cur (ser_kst st)"
    using sched_enqueue_rep [OF k] by blast
  then show ?thesis using cb rep(1) opened
    by (simp add: stm32_uartx_isr_def serial_activity_callback_def serialchar_callback_def serial_rep_def)
qed

section \<open>Properties\<close>

text \<open>
  C35. Waiting for a character of the serial port: with nothing received, reading a character switches to
  the next ready thread; the interrupt of a character then makes the reader ready at its priority, and
  when the reader runs again, whatever the scheduler did meanwhile, the call returns the character and the buffer is empty.
\<close>

theorem serial_read_wakes:
  assumes "serial_rep st []" "ser_callback st" "ser_owner st = Some (cur (ser_kst st))"
    and k: "sched_inv (ser_kst st) R M" "sched (ser_kst st) = Some SCHED_CLASS_BITMAP"
      "canary_ok (ser_kst st) (cur (ser_kst st))" "cur (ser_kst st) \<noteq> thread_idle (ser_kst st)"
    and p: "pick (sched_active (ser_kst st)) R (thread_idle (ser_kst st)) = (nxt, b, R')"
  shows "\<exists>st1 st2. serialchar_read 1 st = Some (Switched, None, st1) \<and> cur (ser_kst st1) = nxt \<and>
    stm32_uartx_isr True c st1 = Some st2 \<and> cur (ser_kst st2) = nxt \<and>
    sched_rep (ser_kst st2) (append_at R' b (prio_index (ser_kst st) (cur (ser_kst st))) (cur (ser_kst st))) M \<and>
    (\<forall>k'. \<exists>st3. serialchar_read 1 (st2\<lparr>ser_kst := k'\<rparr>) = Some (Returned 0, Some c, st3) \<and> ser_kst st3 = k' \<and> serial_rep st3 [])"
proof -
  let ?t = "cur (ser_kst st)"
  obtain k1 where k1: "serialchar_wait 1 st = Some (Switched, st\<lparr>ser_kst := k1\<rparr>)" "sched_rep k1 R' M" "cur k1 = nxt"
    "sched_active k1 = b" "frame_eq (ser_kst st) k1"
    using serialchar_wait_blocks [OF assms(1) _ k p, of 1] by auto
  let ?st1 = "st\<lparr>ser_kst := k1\<rparr>"
  have "\<not> queued R M ?t" "prio_ok (ser_kst st) ?t" using k(1,4) by (auto simp: sched_inv_def)
  then have t: "\<not> queued R' M ?t" "prio_ok k1 ?t" "prio_index k1 ?t = prio_index (ser_kst st) ?t"
    using queued_pick [OF p, of M ?t] k1(5) same_threadsD(5,6) by (auto simp: frame_eq_def)
  have fr: "?t \<noteq> thread_idle k1" "sched k1 = Some SCHED_CLASS_BITMAP" using k1(5) k(2,4) by (auto simp: frame_eq_def)
  obtain st2 where st2: "stm32_uartx_isr True c ?st1 = Some st2" "serial_rep st2 [c]"
    "sched_rep (ser_kst st2) (append_at R' b (prio_index (ser_kst st) ?t) ?t) M" "cur (ser_kst st2) = nxt"
    using stm32_uartx_isr_rep [of ?st1 "[]" ?t R' M c] assms(1-3) t fr k1(2-4) by auto
  have "\<exists>st3. serialchar_read 1 (st2\<lparr>ser_kst := k'\<rparr>) = Some (Returned 0, Some c, st3) \<and> ser_kst st3 = k' \<and> serial_rep st3 []" for k'
  proof -
    have rep: "serial_rep (st2\<lparr>ser_kst := k'\<rparr>) [c]" using st2(2) by simp
    then show ?thesis using serialchar_wait_done [OF rep, of 1] stm32_getc_rep [OF rep] by (auto simp: serialchar_read_def)
  qed
  then show ?thesis using k1(1,3) st2 by (auto simp: serialchar_read_def)
qed

theorem serial_read_wakes_witness:
  "\<exists>st1 st2. serialchar_read 1 (snd (serialchar_open (stm32_info demo_state))) = Some (Switched, None, st1) \<and>
    cur (ser_kst st1) = 1 \<and> stm32_uartx_isr True 65 st1 = Some st2 \<and>
    (\<forall>k'. \<exists>st3. serialchar_read 1 (st2\<lparr>ser_kst := k'\<rparr>) = Some (Returned 0, Some 65, st3) \<and> ser_kst st3 = k' \<and> serial_rep st3 [])"
proof -
  let ?st = "snd (serialchar_open (stm32_info demo_state))"
  have st: "ser_kst ?st = demo_state" "ser_callback ?st" "ser_owner ?st = Some (cur (ser_kst ?st))"
    by (simp_all add: serialchar_open_def stm32_info_def)
  have rep: "serial_rep ?st []" using serial_boot_rep [of demo_state] by (simp add: serialchar_open_def serial_rep_def)
  have k: "sched_inv (ser_kst ?st) demo_R demo_M" "sched (ser_kst ?st) = Some SCHED_CLASS_BITMAP"
    "canary_ok (ser_kst ?st) (cur (ser_kst ?st))" "cur (ser_kst ?st) \<noteq> thread_idle (ser_kst ?st)"
    using demo_inv by (simp_all add: st) (simp_all add: demo_state_def kstate_zero_def canary_ok_def thread_info_zero_def)
  have p: "pick (sched_active (ser_kst ?st)) demo_R (thread_idle (ser_kst ?st)) = (1, False, demo_R(False := pop_first (demo_R False)))"
    by (simp add: st pick_def demo_flat)
  from serial_read_wakes [OF rep st(2,3) k p, of 65] show ?thesis by blast
qed

section \<open>What the driver does not guard\<close>

text \<open>Reading any other number of characters ends in a call of the missing operation.\<close>

lemma serialchar_read_many_faults: "serial_rep st q \<Longrightarrow> unat n \<le> length q \<Longrightarrow> n \<noteq> 1 \<Longrightarrow> serialchar_read n st = None"
  by (simp add: serialchar_read_def serialchar_wait_done)

text \<open>
  The sixteenth unread character empties the buffer but not the count: the next reads return at once, without a
  character.
\<close>

lemma stm32_uartx_isr_overrun:
  assumes "serial_rep st q" "length q = 15" "\<not> ser_callback st"
  shows "\<exists>st'. stm32_uartx_isr True c st = Some st' \<and> rx_count st' = 16 \<and> (\<exists>st''. serialchar_read 1 st' = Some (Returned 0, None, st''))"
proof -
  have "\<not> Suc (length q) < unat (cb_len (ser_cbuf st))" using assms by (simp add: serial_rep_def)
  then obtain cb where cb: "cbuf_putc c (ser_cbuf st) = Some (0, cb)" "cbuf_rep cb []"
    using cbuf_putc_rep [of "ser_cbuf st" q c] assms(1) by (auto simp: serial_rep_def)
  let ?st = "st\<lparr>ser_cbuf := cb, rx_count := 16\<rparr>"
  have "stm32_uartx_isr True c st = Some ?st"
    using cb(1) assms by (simp add: stm32_uartx_isr_def serial_activity_callback_def serial_rep_def)
  moreover have "serialchar_wait 1 ?st = Some (Returned 0, ?st)" by (subst serialchar_wait.simps) simp
  then have "\<exists>st''. serialchar_read 1 ?st = Some (Returned 0, None, st'')"
    using cbuf_rep_empty [OF cb(2)] by (simp add: serialchar_read_def stm32_getc_def cbuf_getc_def)
  ultimately show ?thesis by auto
qed

text \<open>
  The handler does not ask whether the thread is waiting. A second character, before the thread has run, puts it
  into its run queue again, which links the thread to itself.
\<close>

lemma stm32_uartx_isr_twice:
  assumes "serial_rep st q" "ser_callback st" "ser_owner st = Some t" "sched (ser_kst st) = Some SCHED_CLASS_BITMAP"
    and k: "sched_rep (ser_kst st) R M" "prio_ok (ser_kst st) t"
      "R (sched_active (ser_kst st)) (prio_index (ser_kst st) t) = ts @ [t]"
  shows "\<exists>st'. stm32_uartx_isr True c st = Some st' \<and> lnext (klinks (ser_kst st')) (TiQ t) = Node (TiQ t)"
proof -
  let ?k = "ser_kst st" and ?k1 = "set_ti_state t (map_actived (sched_map (ser_kst st))) (ser_kst st)"
  let ?b = "sched_active (ser_kst st)"
  obtain cb where cb: "cbuf_putc c (ser_cbuf st) = Some (0, cb)"
    using cbuf_putc_rep [of "ser_cbuf st" q c] assms(1) by (auto simp: serial_rep_def)
  have p: "prio_index ?k t < 32" "prio_index ?k1 t = prio_index ?k t"
    using prio_index_eq(2) [OF k(2)] same_threadsD(6) [OF same_threads_set] by auto
  have "lists (klinks ?k) (run_rings R M)" "bm_queue (banks ?k ?b) = RunQ ?b" using k(1) by (auto simp: sched_rep_def)
  then have "ring (klinks ?k) (RunQ ?b (prio_index ?k t)) (map TiQ ts @ [TiQ t])"
    using k(3) p(1) by (auto simp: lists_def)
  from list_add_tail_twice [OF this] obtain h where
    "list_add_tail (klinks ?k) (Node (TiQ t)) (Node (RunQ ?b (prio_index ?k t))) = Some h" "lnext h (TiQ t) = Node (TiQ t)" by blast
  then show ?thesis using cb assms(2-4) p \<open>bm_queue (banks ?k ?b) = RunQ ?b\<close>
    by (simp add: stm32_uartx_isr_def serial_activity_callback_def serialchar_callback_def sched_enqueue_def
        sched_bitmap_enqueue_def thread_enqueue_def bitmap_enqueue_def bitmap_queue_add_def queue_head_def Let_def)
qed

end
