(* ===== verification/Printk.thy ===== *)
theory Printk
  imports Printf
begin

text \<open>
  Kernel messages: \<^verbatim>\<open>kernel/printk.c\<close>. The text is formatted into a static buffer and sent to the serial port,
  with a carriage return before each newline. The buffer is kept at an address of its own in the memory \<open>con_mem\<close>,
  and \<open>con_out\<close> is what the port has sent. The second stack that the formatting runs on, and the masking of
  the interrupts, do not change the result and are not modelled.
\<close>

record console =
  con_pad :: u8
  con_mem :: bytes
  con_out :: "u8 list"

definition VSNPRINTF_BUF_SIZE :: u32 where "VSNPRINTF_BUF_SIZE = 256"

definition vsnprintf_buf :: addr where "vsnprintf_buf = 0x1000"

definition printk_putchar :: "u8 \<Rightarrow> u8 list" where
  "printk_putchar c = (if c = 10 then [13] else []) @ [c]"

definition printk :: "u8 list \<Rightarrow> varg list \<Rightarrow> console \<Rightarrow> (u32 \<times> console) option" where
  "printk fmt args con = do {
     (retval, m) \<leftarrow> vsnprintf (con_pad con) vsnprintf_buf VSNPRINTF_BUF_SIZE fmt args (con_mem con);
     s \<leftarrow> cstr m vsnprintf_buf;
     Some (retval, con\<lparr>con_mem := m, con_out := con_out con @ concat (map printk_putchar s)\<rparr>) }"

lemma printk_items:
  assumes "items_ok False its" "out = concat (map item_out its)" "length out < 256"
    and "fmt = concat (map item_fmt its)" "args = concat (map item_args its)"
  shows "\<exists>con'. printk fmt args con = Some (of_nat (length out), con') \<and> con_pad con' = con_pad con \<and>
    con_out con' = con_out con @ concat (map printk_putchar out)"
  using vsnprintf_cstr [OF assms(1,2), of 256 vsnprintf_buf "con_pad con" "con_mem con"] assms(3-5)
  by (auto simp: printk_def VSNPRINTF_BUF_SIZE_def vsnprintf_buf_def)

section \<open>Printing always returns\<close>

text \<open>
  Whatever widths and lengths a format has: if its arguments are of the types it names, the text is formatted and sent.
  In particular a width that is left over from an earlier number, or a string longer than the buffer, does not stop it.
\<close>

fun item_typed :: "item \<Rightarrow> bool" where
  "item_typed (Lit c) \<longleftrightarrow> c \<noteq> 0 \<and> c \<noteq> 37"
| "item_typed (Wdec w v) \<longleftrightarrow> w \<le> 9"
| "item_typed (Bdec w v) \<longleftrightarrow> w \<le> 9"
| "item_typed _ \<longleftrightarrow> True"

lemma print_num_returns:
  assumes "pf_ap st = Arg_int v # ap" "base = 10 \<or> base = 16"
  shows "\<exists>st'. print_num str base st = Some st' \<and> pf_i st' = pf_i st \<and> pf_ap st' = ap"
proof -
  obtain b where "itoa_base (sint v) itoa_buf base (\<lambda>_. 0) = Some (Some itoa_buf, b)"
    "cstr b itoa_buf = Some (num_str base (sint v))" using assms(2) by (rule num_cstr)
  then show ?thesis using assms(1) by (simp add: print_num_def arg_int_def Let_def)
qed

lemma item_step_returns:
  assumes fmt: "fmt = pre @ item_fmt it @ post" "pf_i st = length pre" and ap: "pf_ap st = item_args it @ ap"
    and ok: "item_typed it"
  shows "\<exists>st'. vsnprintf_step fmt str st = Some st' \<and> pf_i st' = length (pre @ item_fmt it) \<and> pf_ap st' = ap"
proof (cases it)
  case (Lit c)
  then show ?thesis using assms by (auto simp: vsnprintf_step_def Let_def nth_append chr_codes skip_fmt_def put_char_def)
next
  case Percent
  then show ?thesis using assms
    by (auto simp: vsnprintf_step_def Let_def nth_append fmt_at_def skip_fmt_def put_char_def)
next
  case (Dec v)
  then have "fmt = pre @ [37, 100] @ post" using fmt by (simp add: chr_codes)
  note c = conversion_step [OF this fmt(2)]
  show ?thesis using Dec fmt(2) ap print_num_returns [of st v ap 10 str] c
    by (auto simp: conversion_def chr_codes skip_fmt_def)
next
  case (Hex v)
  then have "fmt = pre @ [37, 120] @ post" using fmt by (simp add: chr_codes)
  note c = conversion_step [OF this fmt(2)]
  show ?thesis using Hex fmt(2) ap print_num_returns [of st v ap 16 str] c
    by (auto simp: conversion_def chr_codes skip_fmt_def)
next
  case (Str s)
  then have "fmt = pre @ [37, 115] @ post" using fmt by (simp add: chr_codes)
  note c = conversion_step [OF this fmt(2)]
  show ?thesis using Str fmt(2) ap c by (auto simp: conversion_def chr_codes skip_fmt_def arg_str_def)
next
  case (Zhex v)
  then have f: "fmt = pre @ [37, 48, 48 + of_nat 8, 120] @ post" using fmt by (simp add: chr_def)
  show ?thesis
    using wide_conversion_step [OF f fmt(2), of 16 str] Zhex fmt(2) ap
      print_num_returns [of "skip_fmt 2 (st\<lparr>pf_pad_char := 48, pf_pad_count := 8\<rparr>)" v ap 16 str]
    by (auto simp: skip_fmt_def)
next
  case (Wdec w v)
  then have f: "fmt = pre @ [37, 48 + of_nat w, 100] @ post" "w \<le> 9" using fmt ok by simp_all
  show ?thesis
    using wide_dec_step [OF f(1) fmt(2) f(2), of str] Wdec fmt(2) ap
      print_num_returns [of "st\<lparr>pf_pad_char := 32, pf_pad_count := int w\<rparr>" v ap 10 str]
    by (auto simp: skip_fmt_def)
next
  case (Bdec w v)
  then have f: "fmt = pre @ [37, 32, 48 + of_nat w, 100] @ post" "w \<le> 9" using fmt ok by simp_all
  show ?thesis
    using wide_conversion_step [OF f(1) fmt(2) f(2), of 10 str] Bdec fmt(2) ap
      print_num_returns [of "skip_fmt 2 (st\<lparr>pf_pad_char := 32, pf_pad_count := int w\<rparr>)" v ap 10 str]
    by (auto simp: skip_fmt_def)
next
  case (Ptr v)
  have f: "fmt = pre @ [37, 112] @ post" using fmt Ptr by (simp add: chr_codes)
  show ?thesis
    using ptr_step [OF f fmt(2), of str] Ptr fmt(2) ap
      print_num_returns [of "st\<lparr>pf_mem := strcpy (str + pf_pos st) [48, 120] (pf_mem st),
        pf_pos := pf_pos st + 2, pf_pad_char := 48, pf_pad_count := 8\<rparr>" v ap 16 str]
    by (auto simp: skip_fmt_def)
qed

lemma vsnprintf_loop_returns:
  assumes "fmt = pre @ concat (map item_fmt its)" "pf_i st = length pre" "pf_ap st = concat (map item_args its)"
    and "\<forall>it\<in>set its. item_typed it"
  shows "\<exists>st'. vsnprintf_loop fmt str sz st = Some st'"
  using assms
proof (induction its arbitrary: pre st)
  case (Cons it its)
  obtain s where s: "vsnprintf_step fmt str st = Some s" "pf_i s = length (pre @ item_fmt it)"
    "pf_ap s = concat (map item_args its)"
    using item_step_returns [of fmt pre it "concat (map item_fmt its)" st "concat (map item_args its)" str] Cons.prems by auto
  have "\<exists>st'. vsnprintf_loop fmt str sz s = Some st'"
    using Cons.prems s by (intro Cons.IH [of "pre @ item_fmt it"]) auto
  then show ?case using s(1) by (subst vsnprintf_loop.simps) auto
qed (simp add: vsnprintf_loop.simps)

lemma cstr_returns:
  assumes "m z = 0"
  shows "\<exists>s. cstr m a = Some s"
proof (induction "unat (z - a)" arbitrary: a)
  case 0
  then have "a = z" by (simp add: unat_eq_0)
  then show ?case using assms by (subst cstr.simps) simp
next
  case (Suc n)
  have "z - a \<noteq> 0" using Suc.hyps(2) by auto
  then have "unat (z - a - 1) = unat (z - a) - 1" by (rule unat_minus_one)
  moreover have "z - a - 1 = z - (a + 1)" by (simp add: algebra_simps)
  ultimately have "n = unat (z - (a + 1))" using Suc.hyps(2) by (metis diff_Suc_1)
  from Suc.hyps(1) [OF this] obtain s where "cstr m (a + 1) = Some s" by blast
  then show ?case by (subst cstr.simps) auto
qed

lemma printk_returns:
  assumes "fmt = concat (map item_fmt its)" "args = concat (map item_args its)" "\<forall>it\<in>set its. item_typed it"
  shows "\<exists>r con'. printk fmt args con = Some (r, con')"
proof -
  obtain st where st: "vsnprintf_loop fmt vsnprintf_buf VSNPRINTF_BUF_SIZE \<lparr> pf_i = 0, pf_pos = 0, pf_pad_char = con_pad con,
      pf_pad_count = 0, pf_mem = con_mem con, pf_ap = args \<rparr> = Some st"
    using vsnprintf_loop_returns [of fmt "[]" its] assms by fastforce
  obtain s where "cstr ((pf_mem st)(vsnprintf_buf + pf_pos st := 0)) vsnprintf_buf = Some s"
    using cstr_returns [of "(pf_mem st)(vsnprintf_buf + pf_pos st := 0)" "vsnprintf_buf + pf_pos st"] by auto
  with st show ?thesis by (simp add: printk_def vsnprintf_def)
qed

end
