(* ===== verification/Shell.thy ===== *)
theory Shell
  imports Printk
begin

text \<open>
  The shell: \<^verbatim>\<open>user/sh.c\<close>, \<^verbatim>\<open>user/sh.h\<close> and the command \<^verbatim>\<open>user/echo.c\<close>. The characters the terminal sends are the
  sequence \<open>sh_tty\<close>, of which \<open>sh_rd\<close> have been read; what the shell writes to the port follows what \<^verbatim>\<open>printk\<close>
  sent. The table of commands, which the linker collects, is the argument \<open>cmds\<close>: a name and a function of the
  state and of the places in the line where the arguments start.

  Accesses outside the line buffer, the array of arguments or the buffer of the cursor sequence are the
  result \<open>None\<close>. A terminal that cannot be opened is not modelled: the shell then works on
  uninitialised characters.
\<close>

section \<open>The code\<close>

definition ARG_COUNT_MAX :: nat where "ARG_COUNT_MAX = 8"
definition BUF_LINE_LEN :: nat where "BUF_LINE_LEN = 128"

definition ASCII_NULL :: u8 where "ASCII_NULL = 0"
definition ASCII_BACKSPACE :: u8 where "ASCII_BACKSPACE = 8"
definition ASCII_CARRIAGE_RETURN :: u8 where "ASCII_CARRIAGE_RETURN = 13"
definition ASCII_ESCAPE :: u8 where "ASCII_ESCAPE = 27"
definition ASCII_DELETE :: u8 where "ASCII_DELETE = 127"

lemmas ascii_defs = ASCII_NULL_def ASCII_BACKSPACE_def ASCII_CARRIAGE_RETURN_def ASCII_ESCAPE_def ASCII_DELETE_def

definition ESC_SEQ_ERASE_LINE :: "u8 list" where "ESC_SEQ_ERASE_LINE = 27 # map chr ''[K''"
definition TERM_PROMPT :: "u8 list" where "TERM_PROMPT = map chr ''$ ''"
definition TERM_CMD_NOT_FOUND :: "u8 list" where "TERM_CMD_NOT_FOUND = map chr ''command not found: ''"
definition TERM_CRLF :: "u8 list" where "TERM_CRLF = [13, 10]"

record shell =
  sh_cur :: int
  sh_eol :: int
  buf_line :: "u8 list"
  sh_tty :: "nat \<Rightarrow> u8"
  sh_rd :: nat
  sh_con :: console

type_synonym shell_cmd = "u8 list \<times> (nat list \<Rightarrow> shell \<Rightarrow> shell option)"

definition line_get :: "int \<Rightarrow> u8 list \<Rightarrow> u8 option" where
  "line_get i l = (if 0 \<le> i \<and> nat i < length l then Some (l ! nat i) else None)"

definition line_set :: "int \<Rightarrow> u8 \<Rightarrow> u8 list \<Rightarrow> u8 list option" where
  "line_set i c l = (if 0 \<le> i \<and> nat i < length l then Some (l[nat i := c]) else None)"

text \<open>The string at a place of the buffer, as \<^verbatim>\<open>strlen\<close>, \<^verbatim>\<open>strcmp\<close> and \<^verbatim>\<open>%s\<close> read it.\<close>

definition line_str :: "nat \<Rightarrow> u8 list \<Rightarrow> u8 list option" where
  "line_str i l =
     (let s = takeWhile ((\<noteq>) 0) (drop i l) in if i + length s < length l then Some s else None)"

definition tty_read :: "shell \<Rightarrow> u8 \<times> shell" where
  "tty_read s = (sh_tty s (sh_rd s), s\<lparr>sh_rd := Suc (sh_rd s)\<rparr>)"

definition tty_write :: "u8 list \<Rightarrow> shell \<Rightarrow> shell" where
  "tty_write bs s = s\<lparr>sh_con := (sh_con s)\<lparr>con_out := con_out (sh_con s) @ bs\<rparr>\<rparr>"

function skip_spaces :: "nat \<Rightarrow> u8 list \<Rightarrow> nat option" where
  "skip_spaces i l =
     (if i < length l then if l ! i = 32 then skip_spaces (Suc i) l else Some i else None)"
  by pat_completeness auto
termination by (relation "measure (\<lambda>(i, l). length l - i)") auto

declare skip_spaces.simps [simp del]

lemma skip_spaces_le: "skip_spaces i l = Some j \<Longrightarrow> i \<le> j"
  by (induction i l rule: skip_spaces.induct) (subst (asm) skip_spaces.simps, auto split: if_splits)

function parse_loop :: "nat \<Rightarrow> nat \<Rightarrow> nat list \<Rightarrow> u8 list \<Rightarrow> (nat list \<times> u8 list) option" where
  "parse_loop i buflen argv l =
     (if i < buflen then
        if i < length l \<and> l ! i = 32 then
          (case skip_spaces (Suc i) (l[i := ASCII_NULL]) of
             None \<Rightarrow> None
           | Some j \<Rightarrow>
               if length argv < ARG_COUNT_MAX then parse_loop (Suc j) buflen (argv @ [j]) (l[i := ASCII_NULL]) else None)
        else parse_loop (Suc i) buflen argv l
      else Some (argv, l))"
  by pat_completeness auto
termination
  by (relation "measure (\<lambda>(i, n, argv, l). n - i)") (auto dest: skip_spaces_le)

declare parse_loop.simps [simp del]

definition parse_command_line :: "u8 list \<Rightarrow> (nat list \<times> u8 list) option" where
  "parse_command_line l = do {
     s \<leftarrow> line_str 0 l;
     parse_loop 0 (length s) [0] l }"

definition exec_command :: "shell_cmd list \<Rightarrow> shell \<Rightarrow> shell option" where
  "exec_command cmds s = do {
     (argv, l) \<leftarrow> parse_command_line (buf_line s);
     let s = s\<lparr>buf_line := l\<rparr>;
     name \<leftarrow> line_str (argv ! 0) l;
     (case find (\<lambda>(n, f). n = name) cmds of
        Some (n, f) \<Rightarrow> f argv s
      | None \<Rightarrow> do {
          let s = tty_write TERM_CMD_NOT_FOUND s;
          t \<leftarrow> line_str 0 l;
          Some (tty_write TERM_CRLF (tty_write t s)) }) }"

definition ebuf :: addr where "ebuf = 0x100"

definition cursor_backward :: "int \<Rightarrow> shell \<Rightarrow> shell option" where
  "cursor_backward n s =
     (if n > 0 then do {
        (r, m) \<leftarrow> sprintf (con_pad (sh_con s)) ebuf (27 # map chr ''[%dD'') [Arg_int (word_of_int n)] (\<lambda>_. 0);
        t \<leftarrow> cstr m ebuf;
        if length t < 8 then Some (tty_write t s) else None }
      else Some s)"

text \<open>The two loops that make room for a character and that close the gap of a deleted one.\<close>

function shift_right :: "int \<Rightarrow> int \<Rightarrow> u8 list \<Rightarrow> u8 list option" where
  "shift_right i c l =
     (if i \<ge> c then
        (case line_get i l of None \<Rightarrow> None | Some x \<Rightarrow>
           (case line_set (i + 1) x l of None \<Rightarrow> None | Some l \<Rightarrow> shift_right (i - 1) c l))
      else Some l)"
  by pat_completeness auto
termination by (relation "measure (\<lambda>(i, c, l). nat (i - c + 1))") auto

function shift_left :: "int \<Rightarrow> int \<Rightarrow> u8 list \<Rightarrow> u8 list option" where
  "shift_left i e l =
     (if i \<le> e then
        (case line_get i l of None \<Rightarrow> None | Some x \<Rightarrow>
           (case line_set (i - 1) x l of None \<Rightarrow> None | Some l \<Rightarrow> shift_left (i + 1) e l))
      else Some l)"
  by pat_completeness auto
termination by (relation "measure (\<lambda>(i, e, l). nat (e - i + 1))") auto

declare shift_right.simps [simp del] shift_left.simps [simp del]

text \<open>The branches of \<^verbatim>\<open>readline\<close>.\<close>

definition readline_enter :: "shell_cmd list \<Rightarrow> shell \<Rightarrow> shell option" where
  "readline_enter cmds s = do {
     let s = tty_write TERM_CRLF s;
     s \<leftarrow> (if sh_eol s > 0 then do {
             s \<leftarrow> exec_command cmds s;
             Some (s\<lparr>sh_cur := 0, sh_eol := 0\<rparr>) }
           else Some s);
     Some (tty_write TERM_PROMPT s) }"

definition readline_erase :: "shell \<Rightarrow> shell option" where
  "readline_erase s =
     (if sh_cur s > 0 then do {
        l \<leftarrow> (if sh_cur s < sh_eol s then shift_left (sh_cur s) (sh_eol s) (buf_line s) else Some (buf_line s));
        l \<leftarrow> line_set (sh_eol s - 1) ASCII_NULL l;
        let s = s\<lparr>buf_line := l, sh_eol := sh_eol s - 1, sh_cur := sh_cur s - 1\<rparr>;
        s \<leftarrow> cursor_backward 1 s;
        let s = tty_write ESC_SEQ_ERASE_LINE s;
        t \<leftarrow> line_str (nat (sh_cur s)) (buf_line s);
        cursor_backward (sh_eol s - sh_cur s) (tty_write t s) }
      else Some s)"

definition readline_insert :: "u8 \<Rightarrow> shell \<Rightarrow> shell option" where
  "readline_insert c s = do {
     l \<leftarrow> (if sh_cur s < sh_eol s then shift_right (sh_eol s) (sh_cur s) (buf_line s) else Some (buf_line s));
     l \<leftarrow> line_set (sh_cur s) c l;
     l \<leftarrow> line_set (sh_eol s + 1) ASCII_NULL l;
     let s = s\<lparr>buf_line := l, sh_cur := sh_cur s + 1, sh_eol := sh_eol s + 1\<rparr>;
     t \<leftarrow> line_str (nat (sh_cur s - 1)) (buf_line s);
     cursor_backward (sh_eol s - sh_cur s) (tty_write t s) }"

definition readline_escape :: "shell \<Rightarrow> shell option" where
  "readline_escape s =
     (let (c, s) = tty_read s in
      if c \<noteq> chr (CHR ''['') then Some s
      else
        let (c, s) = tty_read s in
        if c = chr (CHR ''C'') then
          Some (if sh_cur s < sh_eol s then tty_write (27 # map chr ''[C'') (s\<lparr>sh_cur := sh_cur s + 1\<rparr>) else s)
        else if c = chr (CHR ''D'') then
          Some (if sh_cur s > 0 then tty_write (27 # map chr ''[D'') (s\<lparr>sh_cur := sh_cur s - 1\<rparr>) else s)
        else do {
          (r, con) \<leftarrow> printk (map chr ''Unhandled escape sequence!'' @ [10]) [] (sh_con s);
          Some (s\<lparr>sh_con := con\<rparr>) })"

definition readline :: "shell_cmd list \<Rightarrow> shell \<Rightarrow> shell option" where
  "readline cmds s =
     (let (c, s) = tty_read s in
      if c = ASCII_CARRIAGE_RETURN then readline_enter cmds s
      else if c = ASCII_BACKSPACE \<or> c = ASCII_DELETE then readline_erase s
      else if 32 \<le> c \<and> c \<le> 126 then readline_insert c s
      else if c = ASCII_ESCAPE then readline_escape s
      else Some s)"

text \<open>\<open>n\<close> turns of the loop of \<^verbatim>\<open>minishell\<close>, which does not end, after the first prompt.\<close>

primrec minishell_loop :: "shell_cmd list \<Rightarrow> nat \<Rightarrow> shell \<Rightarrow> shell option" where
  "minishell_loop cmds 0 s = Some s"
| "minishell_loop cmds (Suc n) s = do { s \<leftarrow> readline cmds s; minishell_loop cmds n s }"

definition minishell :: "shell_cmd list \<Rightarrow> nat \<Rightarrow> shell \<Rightarrow> shell option" where
  "minishell cmds n s = minishell_loop cmds n (tty_write TERM_PROMPT s)"

text \<open>The static variables at the start.\<close>

definition sh_boot :: "(nat \<Rightarrow> u8) \<Rightarrow> console \<Rightarrow> shell" where
  "sh_boot tty con = \<lparr> sh_cur = 0, sh_eol = 0, buf_line = replicate BUF_LINE_LEN 0, sh_tty = tty, sh_rd = 0, sh_con = con \<rparr>"

text \<open>\<^verbatim>\<open>user/echo.c\<close>: the arguments after the first, with a space before each but the first.\<close>

fun echo_loop :: "u8 list \<Rightarrow> nat list \<Rightarrow> u8 list \<Rightarrow> console \<Rightarrow> console option" where
  "echo_loop fmt [] l con = Some con"
| "echo_loop fmt (a # as) l con = do {
     t \<leftarrow> line_str a l;
     (r, con) \<leftarrow> printk fmt [Arg_str t] con;
     echo_loop (map chr '' %s'') as l con }"

definition echo :: "nat list \<Rightarrow> shell \<Rightarrow> shell option" where
  "echo argv s =
     (if length argv = 1 then Some s
      else do {
        con \<leftarrow> echo_loop (map chr ''%s'') (tl argv) (buf_line s) (sh_con s);
        (r, con) \<leftarrow> printk [10] [] con;
        Some (s\<lparr>sh_con := con\<rparr>) })"

section \<open>The line editor\<close>

text \<open>
  The line is the text before and the text after the cursor. Before the first character is typed the buffer holds
  what the last command left there.
\<close>

definition line_rep :: "shell \<Rightarrow> u8 list \<Rightarrow> u8 list \<Rightarrow> bool" where
  "line_rep s l r \<longleftrightarrow> sh_cur s = int (length l) \<and> sh_eol s = int (length l + length r) \<and>
     length (buf_line s) = BUF_LINE_LEN \<and> 0 \<notin> set (l @ r) \<and>
     (\<exists>t. buf_line s = l @ r @ t \<and> (l @ r \<noteq> [] \<longrightarrow> t \<noteq> [] \<and> hd t = 0))"

datatype key = Key_char u8 | Key_backspace | Key_delete | Key_right | Key_left

fun key_bytes :: "key \<Rightarrow> u8 list" where
  "key_bytes (Key_char c) = [c]"
| "key_bytes Key_backspace = [8]"
| "key_bytes Key_delete = [127]"
| "key_bytes Key_right = 27 # map chr ''[C''"
| "key_bytes Key_left = 27 # map chr ''[D''"

fun key_ok :: "key \<Rightarrow> u8 list \<times> u8 list \<Rightarrow> bool" where
  "key_ok (Key_char c) (l, r) \<longleftrightarrow> 32 \<le> c \<and> c \<le> 126 \<and> length l + length r < 127"
| "key_ok _ _ \<longleftrightarrow> True"

fun edit :: "key \<Rightarrow> u8 list \<times> u8 list \<Rightarrow> u8 list \<times> u8 list" where
  "edit (Key_char c) (l, r) = (l @ [c], r)"
| "edit Key_right (l, r) = (case r of [] \<Rightarrow> (l, r) | x # xs \<Rightarrow> (l @ [x], xs))"
| "edit Key_left (l, r) = (if l = [] then (l, r) else (butlast l, last l # r))"
| "edit _ (l, r) = (butlast l, r)"

definition cur_back :: "nat \<Rightarrow> u8 list" where
  "cur_back n = (if n = 0 then [] else 27 # map chr ''['' @ num_str 10 (int n) @ map chr ''D'')"

definition erase_out :: "u8 list \<Rightarrow> u8 list \<Rightarrow> u8 list" where
  "erase_out l r = (if l = [] then [] else cur_back 1 @ ESC_SEQ_ERASE_LINE @ r @ cur_back (length r))"

fun key_out :: "key \<Rightarrow> u8 list \<times> u8 list \<Rightarrow> u8 list" where
  "key_out (Key_char c) (l, r) = c # r @ cur_back (length r)"
| "key_out Key_right (l, r) = (if r = [] then [] else 27 # map chr ''[C'')"
| "key_out Key_left (l, r) = (if l = [] then [] else 27 # map chr ''[D'')"
| "key_out _ (l, r) = erase_out l r"

text \<open>Reading and writing the buffer at a place given by what stands before it.\<close>

lemma line_get_middle: "i = int (length p) \<Longrightarrow> line_get i (p @ x # q) = Some x"
  by (simp add: line_get_def)

lemma line_set_middle: "i = int (length p) \<Longrightarrow> line_set i c (p @ x # q) = Some (p @ c # q)"
  by (simp add: line_set_def)

lemma line_str_middle: "0 \<notin> set u \<Longrightarrow> i = length p \<Longrightarrow> line_str i (p @ u @ 0 # q) = Some u"
proof -
  assume "0 \<notin> set u" "i = length p"
  moreover from this have "takeWhile ((\<noteq>) 0) (u @ 0 # q) = u" by (induction u arbitrary: p i) auto
  ultimately show ?thesis by (simp add: line_str_def)
qed

lemma shift_right_middle:
  "i = int (length p + length r) - 1 \<Longrightarrow> c = int (length p) \<Longrightarrow>
    shift_right i c (p @ r @ y # q) = Some (p @ hd (r @ [y]) # r @ q)"
proof (induction r arbitrary: y q i rule: rev_induct)
  case Nil
  then show ?case by (simp add: shift_right.simps)
next
  case (snoc z r)
  have "line_get i (p @ (r @ [z]) @ y # q) = Some z" "line_set (i + 1) z (p @ (r @ [z]) @ y # q) = Some (p @ r @ z # z # q)"
    using snoc.prems line_get_middle [of i "p @ r" z "y # q"] line_set_middle [of "i + 1" "p @ r @ [z]" z y q] by auto
  then show ?case using snoc.prems snoc.IH [of "i - 1" z "z # q"] by (subst shift_right.simps) (cases r, auto)
qed

lemma shift_left_middle:
  "i = int (length p) + 1 \<Longrightarrow> e = int (length p + length r) \<Longrightarrow>
    shift_left i e (p @ x # r @ q) = Some (p @ r @ last (x # r) # q)"
proof (induction r arbitrary: p x i)
  case Nil
  then show ?case by (simp add: shift_left.simps)
next
  case (Cons z r)
  have "line_get i (p @ x # (z # r) @ q) = Some z" "line_set (i - 1) z (p @ x # (z # r) @ q) = Some (p @ z # z # r @ q)"
    using Cons.prems line_get_middle [of i "p @ [x]" z "r @ q"] line_set_middle [of "i - 1" p z x "z # r @ q"] by auto
  then show ?case using Cons.prems Cons.IH [of "i + 1" "p @ [z]" z] by (subst shift_left.simps) auto
qed

lemma tty_write_simps [simp]:
  "sh_cur (tty_write t s) = sh_cur s" "sh_eol (tty_write t s) = sh_eol s" "buf_line (tty_write t s) = buf_line s"
  "sh_tty (tty_write t s) = sh_tty s" "sh_rd (tty_write t s) = sh_rd s"
  "con_out (sh_con (tty_write t s)) = con_out (sh_con s) @ t"
  "tty_write t (tty_write u s) = tty_write (u @ t) s" "tty_write [] s = s"
  by (simp_all add: tty_write_def)

lemma cur_back_correct:
  assumes "n < 1000"
  shows "cursor_backward (int n) s = Some (tty_write (cur_back n) s)"
proof (cases "n = 0")
  case False
  let ?its = "[Lit 27, Lit (chr (CHR ''['')), Dec (word_of_int (int n)), Lit (chr (CHR ''D''))]"
  let ?c = "con_pad (sh_con s)"
  have n: "sint (word_of_int (int n) :: u32) = int n"
    using assms by (simp add: signed_of_nat signed_take_bit_int_eq_self)
  have "length (digits 10 n) \<le> 3" using assms by (intro digits_length) simp_all
  then have len: "length (cur_back n) < 8" using False assms by (simp add: cur_back_def num_str_def magnitude_def)
  have out: "cur_back n = concat (map item_out ?its)" using False n by (simp add: cur_back_def)
  have "unat ebuf = 256" by (simp add: ebuf_def)
  then obtain m where "vsnprintf ?c ebuf 0x7fffffff (concat (map item_fmt ?its)) (concat (map item_args ?its)) (\<lambda>_. 0) =
      Some (of_nat (length (cur_back n)), m)" "cstr m ebuf = Some (cur_back n)"
    using vsnprintf_cstr [OF _ out, of "0x7fffffff" ebuf ?c "\<lambda>_. 0"] len by (auto simp: chr_def wide_num_def)
  then show ?thesis using False len by (simp add: cursor_backward_def sprintf_def vsprintf_def)
qed (simp add: cursor_backward_def cur_back_def)

text \<open>\<open>n\<close> characters were read and \<open>out\<close> was written.\<close>

definition tty_step :: "nat \<Rightarrow> u8 list \<Rightarrow> shell \<Rightarrow> shell \<Rightarrow> bool" where
  "tty_step n out s s' \<longleftrightarrow> sh_tty s' = sh_tty s \<and> sh_rd s' = sh_rd s + n \<and>
     con_out (sh_con s') = con_out (sh_con s) @ out"

lemma tty_step_trans:
  "tty_step n out s s' \<Longrightarrow> tty_step n' out' s' s'' \<Longrightarrow> tty_step (n + n') (out @ out') s s''"
  by (simp add: tty_step_def)

lemma line_rep_length: "line_rep s l r \<Longrightarrow> length l + length r \<le> 127"
  by (cases "l @ r = []") (auto simp: line_rep_def BUF_LINE_LEN_def Suc_le_eq neq_Nil_conv)

lemma readline_insert_rep:
  assumes rep: "line_rep s l r" and "length l + length r < 127" "c \<noteq> 0"
  shows "\<exists>s'. readline_insert c s = Some s' \<and> line_rep s' (l @ [c]) r \<and> tty_step 0 (c # r @ cur_back (length r)) s s'"
proof -
  obtain t where t: "buf_line s = l @ r @ t" "l @ r \<noteq> [] \<longrightarrow> t \<noteq> [] \<and> hd t = 0" using rep by (auto simp: line_rep_def)
  have len: "length (buf_line s) = 128" using rep by (simp add: line_rep_def BUF_LINE_LEN_def)
  then obtain t0 t1 q where q: "t = t0 # t1 # q" using t(1) assms(2) by (cases t; cases "tl t") auto
  have pos: "sh_cur s = int (length l)" "sh_eol s = int (length l + length r)" using rep by (auto simp: line_rep_def)
  let ?sh = "if sh_cur s < sh_eol s then shift_right (sh_eol s) (sh_cur s) (buf_line s) else Some (buf_line s)"
  have "\<exists>x. ?sh = Some (l @ x # r @ (if r = [] then t1 else 0) # q)"
    using shift_right_middle [of "sh_eol s" l "r @ [t0]" "sh_cur s" t1 q] t q pos by auto
  then obtain x where x: "?sh = Some (l @ x # r @ (if r = [] then t1 else 0) # q)" by blast
  have c: "line_set (sh_cur s) c (l @ x # r @ y # q) = Some (l @ c # r @ y # q)" for y
    by (rule line_set_middle [OF pos(1)])
  have e: "line_set (sh_eol s + 1) ASCII_NULL (l @ c # r @ y # q) = Some (l @ c # r @ 0 # q)" for y
    using line_set_middle [of "sh_eol s + 1" "l @ c # r" 0 y q] pos by (simp add: ascii_defs)
  have str: "line_str (nat (sh_cur s + 1 - 1)) (l @ c # r @ 0 # q) = Some (c # r)"
    using line_str_middle [of "c # r" _ l q] rep assms(3) pos by (auto simp: line_rep_def)
  let ?s = "s\<lparr>buf_line := l @ c # r @ 0 # q, sh_cur := sh_cur s + 1, sh_eol := sh_eol s + 1\<rparr>"
  have "readline_insert c s = Some (tty_write (c # r @ cur_back (length r)) ?s)"
    unfolding readline_insert_def x using c e str cur_back_correct [of "length r"] pos assms(2) by simp
  moreover have "line_rep (tty_write (c # r @ cur_back (length r)) ?s) (l @ [c]) r"
    using rep assms(3) len q t(1) by (auto simp: line_rep_def BUF_LINE_LEN_def)
  ultimately show ?thesis by (simp add: tty_step_def)
qed

lemma readline_erase_rep:
  assumes rep: "line_rep s l r"
  shows "\<exists>s'. readline_erase s = Some s' \<and> line_rep s' (butlast l) r \<and> tty_step 0 (erase_out l r) s s'"
proof (cases l rule: rev_cases)
  case Nil
  then show ?thesis using rep by (simp add: readline_erase_def line_rep_def erase_out_def tty_step_def)
next
  case (snoc k x)
  then obtain q where q: "buf_line s = k @ x # r @ 0 # q" using rep by (auto simp: line_rep_def neq_Nil_conv)
  have pos: "sh_cur s = int (length k) + 1" "sh_eol s = int (length k + length r) + 1" using rep snoc by (auto simp: line_rep_def)
  let ?sh = "if sh_cur s < sh_eol s then shift_left (sh_cur s) (sh_eol s) (buf_line s) else Some (buf_line s)"
  have "\<exists>y z. ?sh = Some (k @ r @ y # z # q)"
    using shift_left_middle [of "sh_cur s" k "sh_eol s" "r @ [0]" x q] q pos by (cases "r = []") (auto simp: Suc_le_eq)
  then obtain y z where y: "?sh = Some (k @ r @ y # z # q)" by blast
  have e: "line_set (sh_eol s - 1) ASCII_NULL (k @ r @ y # z # q) = Some (k @ r @ 0 # z # q)"
    using line_set_middle [of "sh_eol s - 1" "k @ r" 0 y "z # q"] pos by (simp add: ascii_defs)
  have str: "line_str (nat (sh_cur s - 1)) (k @ r @ 0 # z # q) = Some r"
    by (rule line_str_middle) (use rep pos in \<open>auto simp: line_rep_def\<close>)
  let ?s = "s\<lparr>buf_line := k @ r @ 0 # z # q, sh_eol := sh_eol s - 1, sh_cur := sh_cur s - 1\<rparr>"
  have "length r < 1000" using line_rep_length [OF rep] by simp
  then have "readline_erase s = Some (tty_write (erase_out l r) ?s)"
    unfolding readline_erase_def y using e str cur_back_correct [of 1] cur_back_correct [of "length r"] pos snoc
    by (simp add: erase_out_def)
  moreover have "line_rep (tty_write (erase_out l r) ?s) (butlast l) r"
    using rep snoc q by (auto simp: line_rep_def BUF_LINE_LEN_def)
  ultimately show ?thesis by (simp add: tty_step_def)
qed

text \<open>What the terminal sends next.\<close>

definition typed :: "u8 list \<Rightarrow> shell \<Rightarrow> bool" where
  "typed bs s \<longleftrightarrow> (\<forall>i<length bs. sh_tty s (sh_rd s + i) = bs ! i)"

lemma typed_simps [simp]:
  "typed [] s" "typed (b # bs) s \<longleftrightarrow> sh_tty s (sh_rd s) = b \<and> typed bs (s\<lparr>sh_rd := Suc (sh_rd s)\<rparr>)"
  by (auto simp: typed_def nth_Cons' less_Suc_eq_0_disj dest: spec [of _ "Suc _"])

lemma typed_append: "typed (as @ bs) s \<longleftrightarrow> typed as s \<and> typed bs (s\<lparr>sh_rd := sh_rd s + length as\<rparr>)"
  by (induction as arbitrary: s) auto

lemma typed_step: "tty_step n out s s' \<Longrightarrow> typed bs (s\<lparr>sh_rd := sh_rd s + n\<rparr>) = typed bs s'"
  by (simp add: typed_def tty_step_def)

lemma line_rep_read [simp]: "line_rep (s\<lparr>sh_rd := n\<rparr>) l r = line_rep s l r"
  by (simp add: line_rep_def)

lemma tty_step_read: "tty_step 0 out (s\<lparr>sh_rd := Suc (sh_rd s)\<rparr>) s' \<Longrightarrow> tty_step 1 out s s'"
  by (simp add: tty_step_def)

lemma readline_key:
  assumes rep: "line_rep s l r" and "typed (key_bytes k) s" "key_ok k (l, r)"
  shows "\<exists>s'. readline cmds s = Some s' \<and> (\<exists>l' r'. edit k (l, r) = (l', r') \<and> line_rep s' l' r') \<and>
    tty_step (length (key_bytes k)) (key_out k (l, r)) s s'"
proof -
  let ?s = "s\<lparr>sh_rd := Suc (sh_rd s)\<rparr>"
  have rep1: "line_rep ?s l r" using rep by simp
  note erase = readline_erase_rep [OF rep1]
  show ?thesis
  proof (cases k)
    case (Key_char c)
    then have "readline cmds s = readline_insert c ?s" "c \<noteq> 0"
      using assms by (auto simp: readline_def tty_read_def ascii_defs)
    then show ?thesis using readline_insert_rep [OF rep1, of c] assms(3) Key_char by (auto dest: tty_step_read)
  next
    case Key_right
    have "\<exists>l' r'. edit k (l, r) = (l', r') \<and>
        line_rep (s\<lparr>sh_cur := sh_cur s + (if sh_cur s < sh_eol s then 1 else 0)\<rparr>) l' r'"
      using rep Key_right by (cases r) (auto simp: line_rep_def)
    then show ?thesis using assms Key_right
      by (cases r) (auto simp: readline_def readline_escape_def tty_read_def ascii_defs tty_step_def line_rep_def chr_def)
  next
    case Key_left
    have "\<exists>l' r'. edit k (l, r) = (l', r') \<and>
        line_rep (s\<lparr>sh_cur := sh_cur s - (if sh_cur s > 0 then 1 else 0)\<rparr>) l' r'"
      using rep Key_left by (cases l rule: rev_cases) (auto simp: line_rep_def)
    then show ?thesis using assms Key_left
      by (cases l rule: rev_cases)
        (auto simp: readline_def readline_escape_def tty_read_def ascii_defs tty_step_def line_rep_def chr_def)
  qed (use assms erase in \<open>auto simp: readline_def tty_read_def ascii_defs dest: tty_step_read\<close>)
qed

section \<open>The command line\<close>

text \<open>The words of a line, separated by runs of spaces: spaces at the end make an empty last word.\<close>

function words_of :: "u8 list \<Rightarrow> u8 list list" where
  "words_of w =
     (case dropWhile (\<lambda>c. c \<noteq> 32) w of
        [] \<Rightarrow> [w]
      | x # v \<Rightarrow> takeWhile (\<lambda>c. c \<noteq> 32) w # words_of (dropWhile (\<lambda>c. c = 32) v))"
  by pat_completeness auto
termination
proof (relation "measure length")
  fix w x v :: "u8 list" and y
  assume "dropWhile (\<lambda>c. c \<noteq> 32) w = y # v"
  then have "Suc (length v) \<le> length w" using length_dropWhile_le [of "\<lambda>c. c \<noteq> 32" w] by simp
  then show "(dropWhile (\<lambda>c. c = 32) v, w) \<in> measure length" using length_dropWhile_le [of "\<lambda>c. c = 32" v] by simp
qed simp

declare words_of.simps [simp del]

lemma words_of_last: "32 \<notin> set w \<Longrightarrow> words_of w = [w]"
proof -
  assume "32 \<notin> set w"
  then have "dropWhile (\<lambda>c. c \<noteq> 32) w = []" by (auto simp: dropWhile_eq_Nil_conv)
  then show ?thesis by (subst words_of.simps) (simp only: list.case)
qed

lemma words_of_space:
  assumes "32 \<notin> set u" "set sp \<subseteq> {32}" "v = [] \<or> hd v \<noteq> 32"
  shows "words_of (u @ 32 # sp @ v) = u # words_of v"
proof -
  have "dropWhile (\<lambda>c. c \<noteq> 32) (u @ 32 # sp @ v) = 32 # sp @ v" "takeWhile (\<lambda>c. c \<noteq> 32) (u @ 32 # sp @ v) = u"
    using assms(1) by (induction u) auto
  moreover have "dropWhile (\<lambda>c. c = 32) v = v" using assms(3) by (cases v) auto
  then have "dropWhile (\<lambda>c. c = 32) (sp @ v) = v" using assms(2) by (induction sp) auto
  ultimately show ?thesis by (subst words_of.simps) simp
qed

lemma words_of_nonempty [simp]: "words_of w \<noteq> []"
  by (subst words_of.simps) (simp split: list.split)

lemma split_spaces:
  fixes w :: "u8 list"
  obtains (last) "32 \<notin> set w"
  | (space) u sp v where "w = u @ 32 # sp @ v" "32 \<notin> set u" "set sp \<subseteq> {32}" "v = [] \<or> hd v \<noteq> 32"
proof (cases "32 \<in> set w")
  case True
  then obtain u z where u: "w = u @ 32 # z" "32 \<notin> set u" by (meson split_list_first)
  let ?sp = "takeWhile (\<lambda>c. c = 32) z" and ?v = "dropWhile (\<lambda>c. c = 32) z"
  have "set ?sp \<subseteq> {32}" by (auto dest: set_takeWhileD)
  moreover have "?v = [] \<or> hd ?v \<noteq> 32" using hd_dropWhile [of "\<lambda>c. c = 32" z] by blast
  ultimately show ?thesis using space [of u ?sp ?v] u by simp
qed (rule last)

lemma words_of_Cons: "x \<noteq> 32 \<Longrightarrow> words_of (x # w) = (x # hd (words_of w)) # tl (words_of w)"
proof (cases w rule: split_spaces)
  case (space u sp v)
  then show "x \<noteq> 32 \<Longrightarrow> ?thesis" using words_of_space [of "x # u" sp v] words_of_space [of u sp v] by simp
qed (simp add: words_of_last)

text \<open>The loops on a word and on the spaces after it.\<close>

lemma skip_spaces_run:
  assumes "set sp \<subseteq> {32}" "x \<noteq> 32" "i = length p"
  shows "skip_spaces i (p @ sp @ x # q) = Some (i + length sp)"
  using assms
proof (induction sp arbitrary: p i)
  case Nil
  then show ?case by (subst skip_spaces.simps) simp
next
  case (Cons y sp)
  then show ?case using Cons.IH [of "Suc i" "p @ [y]"] by (subst skip_spaces.simps) (simp add: nth_append)
qed

lemma parse_loop_word:
  assumes "32 \<notin> set u" "i = length p" "i + length u \<le> n" "n < length (p @ u @ q)"
  shows "parse_loop i n argv (p @ u @ q) = parse_loop (i + length u) n argv (p @ u @ q)"
  using assms
proof (induction u arbitrary: p i)
  case (Cons x u)
  then have "parse_loop i n argv (p @ (x # u) @ q) = parse_loop (Suc i) n argv (p @ (x # u) @ q)"
    by (subst parse_loop.simps) (simp add: nth_append)
  then show ?case using Cons.IH [of "Suc i" "p @ [x]"] Cons.prems by simp
qed simp

lemma parse_loop_space:
  assumes "set sp \<subseteq> {32}" "x \<noteq> 32" "i = length p" "i < n"
  shows "parse_loop i n argv (p @ 32 # sp @ x # q) =
    (let j = Suc i + length sp in
     if length argv < ARG_COUNT_MAX then parse_loop (Suc j) n (argv @ [j]) (p @ 0 # sp @ x # q) else None)"
  using assms skip_spaces_run [of sp x "Suc i" "p @ [0]" q]
  by (subst parse_loop.simps) (simp add: ASCII_NULL_def nth_append)

lemma line_str_Cons: "x \<noteq> 0 \<Longrightarrow> line_str (length (p @ [x])) (p @ [x] @ q) = Some u \<Longrightarrow> line_str (length p) (p @ [x] @ q) = Some (x # u)"
  by (auto simp: line_str_def Let_def split: if_splits)

text \<open>The rest of the loop from a place inside a word: \<open>w\<close> is what is left of the line.\<close>

definition parses :: "nat list \<Rightarrow> u8 list \<Rightarrow> u8 list \<Rightarrow> nat \<Rightarrow> (nat list \<times> u8 list) option \<Rightarrow> bool" where
  "parses argv p w n r \<longleftrightarrow>
     (if length argv + length (tl (words_of w)) \<le> ARG_COUNT_MAX then
        \<exists>idx u. r = Some (argv @ idx, p @ u) \<and> length u = n \<and> line_str (length p) (p @ u) = Some (hd (words_of w)) \<and>
          list_all2 (\<lambda>j x. line_str j (p @ u) = Some x) idx (tl (words_of w))
      else r = None)"

lemma parsesI:
  assumes "length argv + length (tl (words_of w)) \<le> ARG_COUNT_MAX" "r = Some (argv @ idx, p @ u)" "length u = n"
    "line_str (length p) (p @ u) = Some (hd (words_of w))" "list_all2 (\<lambda>j x. line_str j (p @ u) = Some x) idx (tl (words_of w))"
  shows "parses argv p w n r"
  using assms by (auto simp: parses_def)

lemma parses_word:
  assumes w: "w = a @ 32 # sp @ x # v" "32 \<notin> set a" "set sp \<subseteq> {32}" "x \<noteq> 32" "0 \<notin> set w"
    and ps: "parses (argv @ [j]) p' v n r" and p': "p' = p @ a @ 0 # sp @ [x]" "j = length (p @ a @ 0 # sp)"
  shows "parses argv p w (length (a @ 0 # sp @ [x]) + n) r"
proof -
  have ws: "words_of w = a # (x # hd (words_of v)) # tl (words_of v)"
    unfolding w(1) using words_of_space [OF w(2,3), of "x # v"] words_of_Cons [OF w(4)] w(4) by simp
  have len: "length (argv @ [j]) + length (tl (words_of v)) = length argv + length (tl (words_of w))" using ws by simp
  show ?thesis
  proof (cases "length argv + length (tl (words_of w)) \<le> ARG_COUNT_MAX")
    case True
    then obtain idx u where u: "r = Some ((argv @ [j]) @ idx, p' @ u)" "length u = n"
      "line_str (length p') (p' @ u) = Some (hd (words_of v))" "list_all2 (\<lambda>j x. line_str j (p' @ u) = Some x) idx (tl (words_of v))"
      using ps unfolding parses_def len by auto
    have j: "line_str j (p' @ u) = Some (x # hd (words_of v))"
      using line_str_Cons [of x "p @ a @ 0 # sp" u] u(3) p' w(1,5) by simp
    have "0 \<notin> set a" using w(1,5) by simp
    then have "line_str (length p) (p' @ u) = Some a" unfolding p'(1) using line_str_middle [of a "length p" p] by simp
    then show ?thesis using True u j ws p'(1)
      by (intro parsesI [of _ _ _ "j # idx" _ "a @ 0 # sp @ x # u"]) simp_all
  next
    case False
    then show ?thesis using ps unfolding parses_def len by auto
  qed
qed

lemma parses_trailing:
  assumes "w = a @ 32 # sp" "32 \<notin> set a" "set sp \<subseteq> {32}" "0 \<notin> set w" "length argv < ARG_COUNT_MAX" "j = length (p @ a @ 0 # sp)"
  shows "parses argv p w (length (w @ 0 # q)) (Some (argv @ [j], p @ a @ 0 # sp @ 0 # q))"
proof -
  have ws: "words_of w = [a, []]" using words_of_space [OF assms(2,3), of "[]"] assms(1) by (simp add: words_of_last)
  have "0 \<notin> set a" using assms(1,4) by simp
  then have str: "line_str (length p) (p @ a @ 0 # sp @ 0 # q) = Some a" "line_str j (p @ a @ 0 # sp @ 0 # q) = Some []"
    using line_str_middle [of a "length p" p] line_str_middle [of "[]" j "p @ a @ 0 # sp" q] assms(6) by simp_all
  then show ?thesis using ws assms(1,5) by (intro parsesI [where idx = "[j]" and u = "a @ 0 # sp @ 0 # q"]) simp_all
qed

lemma parse_loop_words:
  assumes "i = length p" "0 \<notin> set w" "length argv \<le> ARG_COUNT_MAX"
  shows "parses argv p w (length (w @ 0 # q)) (parse_loop i (i + length w) argv (p @ w @ 0 # q))"
  using assms
proof (induction w arbitrary: i p argv rule: length_induct)
  case (1 w)
  let ?n = "i + length w"
  show ?case
  proof (cases w rule: split_spaces)
    case last
    have "parse_loop i ?n argv (p @ w @ 0 # q) = parse_loop ?n ?n argv (p @ w @ 0 # q)"
      using last 1(2) by (intro parse_loop_word) simp_all
    also have "\<dots> = Some (argv, p @ w @ 0 # q)" by (subst parse_loop.simps) simp
    finally show ?thesis using 1 last line_str_middle [of w "length p" p]
      by (intro parsesI [where idx = "[]" and u = "w @ 0 # q"]) (auto simp: words_of_last)
  next
    case (space a sp v)
    let ?j = "length (p @ a @ 0 # sp)"
    define y where "y = hd (v @ [0])"
    define z where "z = tl (v @ [0]) @ q"
    have yz: "v @ 0 # q = y # z" by (cases v) (auto simp: y_def z_def)
    have z: "length z = length v + length q" by (simp add: z_def)
    have y: "y \<noteq> 32" using space(4) by (cases v) (auto simp: y_def)
    have "parse_loop i ?n argv (p @ w @ 0 # q) = parse_loop (i + length a) ?n argv (p @ a @ 32 # sp @ y # z)"
      using parse_loop_word [of a i p ?n "32 # sp @ y # z" argv] space 1(2) yz z by simp
    also have "\<dots> = (if length argv < ARG_COUNT_MAX then parse_loop (Suc ?j) ?n (argv @ [?j]) (p @ a @ 0 # sp @ y # z) else None)"
      using parse_loop_space [OF space(3) y, of "i + length a" "p @ a" ?n argv z] 1(2) space(1)
      by (cases "length argv < ARG_COUNT_MAX") (simp_all add: add.assoc)
    finally have run: "parse_loop i ?n argv (p @ w @ 0 # q) = \<dots>" .
    show ?thesis
    proof (cases v)
      case Nil
      have "parse_loop (Suc ?j) ?n (argv @ [?j]) (p @ a @ 0 # sp @ 0 # q) = Some (argv @ [?j], p @ a @ 0 # sp @ 0 # q)"
        using Nil space(1) 1(2) by (subst parse_loop.simps) simp
      moreover have "length (tl (words_of w)) = 1"
        using words_of_space [OF space(2,3), of v] space(1) Nil by (simp add: words_of_last)
      ultimately show ?thesis using run yz Nil space(1) 1(4) parses_trailing [OF _ space(2,3) 1(3), of argv ?j p q]
        by (cases "length argv < ARG_COUNT_MAX") (simp_all add: parses_def)
    next
      case (Cons x v')
      then have x: "y = x" "z = v' @ 0 # q" "x \<noteq> 32" using y by (simp_all add: y_def z_def)
      have w: "w = a @ 32 # sp @ x # v'" using space(1) Cons by simp
      have "parses argv p w (length (a @ 0 # sp @ [x]) + length (v' @ 0 # q))
          (parse_loop (Suc ?j) ?n (argv @ [?j]) (p @ a @ 0 # sp @ y # z))" if "length argv < ARG_COUNT_MAX"
        using 1(1)[rule_format, of v' "Suc ?j" "p @ a @ 0 # sp @ [x]" "argv @ [?j]"] that w x 1(2,3)
        by (intro parses_word [OF w space(2,3) x(3) 1(3)]) (simp_all add: add.assoc)
      moreover have "1 \<le> length (tl (words_of w))"
        using words_of_space [OF space(2,3), of v] space by (simp add: Suc_le_eq)
      ultimately show ?thesis using run 1(4) w by (auto simp: parses_def)
    qed
  qed
qed

lemma parse_command_line_words:
  assumes "l = w @ 0 # q" "0 \<notin> set w"
  shows "if length (words_of w) \<le> ARG_COUNT_MAX then
      \<exists>argv l'. parse_command_line l = Some (argv, l') \<and> argv \<noteq> [] \<and> hd argv = 0 \<and> length l' = length l \<and>
        list_all2 (\<lambda>j x. line_str j l' = Some x) argv (words_of w)
    else parse_command_line l = None"
proof -
  have "parse_command_line l = parse_loop 0 (0 + length w) [0] ([] @ w @ 0 # q)"
    using assms line_str_middle [of w 0 "[]" q] by (simp add: parse_command_line_def)
  then have p: "parses [0] [] w (length l) (parse_command_line l)"
    using parse_loop_words [of 0 "[]" w "[0]" q] assms by (simp add: ARG_COUNT_MAX_def)
  obtain x xs where x: "words_of w = x # xs" by (cases "words_of w") auto
  show ?thesis using p x unfolding parses_def by (auto simp: ARG_COUNT_MAX_def)
qed

text \<open>A command line with its words in the buffer.\<close>

definition args_at :: "shell \<Rightarrow> nat list \<Rightarrow> u8 list list \<Rightarrow> bool" where
  "args_at s argv ws \<longleftrightarrow> list_all2 (\<lambda>j x. line_str j (buf_line s) = Some x) argv ws"

definition run_line :: "shell_cmd list \<Rightarrow> nat list \<Rightarrow> u8 list \<Rightarrow> shell \<Rightarrow> shell option" where
  "run_line cmds argv name s =
     (case find (\<lambda>(n, f). n = name) cmds of
        Some (n, f) \<Rightarrow> f argv s
      | None \<Rightarrow> Some (tty_write (TERM_CMD_NOT_FOUND @ name @ TERM_CRLF) s))"

lemma exec_command_words:
  assumes "buf_line s = w @ 0 # q" "0 \<notin> set w"
  shows "if length (words_of w) \<le> ARG_COUNT_MAX then
      \<exists>argv l'. length l' = length (buf_line s) \<and> args_at (s\<lparr>buf_line := l'\<rparr>) argv (words_of w) \<and>
        exec_command cmds s = run_line cmds argv (hd (words_of w)) (s\<lparr>buf_line := l'\<rparr>)
    else exec_command cmds s = None"
proof (cases "length (words_of w) \<le> ARG_COUNT_MAX")
  case True
  then obtain argv l' where p: "parse_command_line (buf_line s) = Some (argv, l')" "argv \<noteq> []" "hd argv = 0"
    "length l' = length (buf_line s)" "list_all2 (\<lambda>j x. line_str j l' = Some x) argv (words_of w)"
    using parse_command_line_words [OF assms] by auto
  have "argv ! 0 = 0" "line_str 0 l' = Some (hd (words_of w))"
    using p(2,3,5) by (cases argv; cases "words_of w"; simp)+
  then have "exec_command cmds s = run_line cmds argv (hd (words_of w)) (s\<lparr>buf_line := l'\<rparr>)"
    using p(1) by (simp add: exec_command_def run_line_def split: option.split)
  then show ?thesis using True p(4,5) by (auto simp: args_at_def)
next
  case False
  then show ?thesis using parse_command_line_words [OF assms] by (simp add: exec_command_def)
qed

fun keys_ok :: "key list \<Rightarrow> u8 list \<times> u8 list \<Rightarrow> bool" where
  "keys_ok [] lr \<longleftrightarrow> True"
| "keys_ok (k # ks) lr \<longleftrightarrow> key_ok k lr \<and> keys_ok ks (edit k lr)"

fun keys_out :: "key list \<Rightarrow> u8 list \<times> u8 list \<Rightarrow> u8 list" where
  "keys_out [] lr = []"
| "keys_out (k # ks) lr = key_out k lr @ keys_out ks (edit k lr)"

lemma minishell_loop_keys:
  assumes "line_rep s l r" "typed (concat (map key_bytes ks)) s" "keys_ok ks (l, r)" "fold edit ks (l, r) = (l', r')"
  shows "\<exists>s'. minishell_loop cmds (length ks) s = Some s' \<and> line_rep s' l' r' \<and>
    tty_step (length (concat (map key_bytes ks))) (keys_out ks (l, r)) s s'"
  using assms
proof (induction ks arbitrary: s l r)
  case Nil
  then show ?case by (simp add: tty_step_def)
next
  case (Cons k ks)
  obtain s1 l1 r1 where 1: "readline cmds s = Some s1" "edit k (l, r) = (l1, r1)" "line_rep s1 l1 r1"
    "tty_step (length (key_bytes k)) (key_out k (l, r)) s s1"
    using readline_key [of s l r k cmds] Cons.prems by (auto simp: typed_append)
  have "typed (concat (map key_bytes ks)) s1"
    using Cons.prems(2) typed_step [OF 1(4)] by (simp add: typed_append)
  then obtain s' where "minishell_loop cmds (length ks) s1 = Some s'" "line_rep s' l' r'"
    "tty_step (length (concat (map key_bytes ks))) (keys_out ks (l1, r1)) s1 s'"
    using Cons.IH [OF 1(3)] Cons.prems(3,4) 1(2) by auto
  then show ?case using 1 tty_step_trans by fastforce
qed

lemma minishell_loop_add:
  "minishell_loop cmds (m + n) s = do { s \<leftarrow> minishell_loop cmds m s; minishell_loop cmds n s }"
  by (induction m arbitrary: s) (auto split: bind_split)

text \<open>The key that finishes the line, with \<open>w\<close> typed.\<close>

lemma readline_return:
  assumes rep: "line_rep s l r" and "typed [13] s" "l @ r \<noteq> []"
  shows "if length (words_of (l @ r)) \<le> ARG_COUNT_MAX then
      \<exists>s1 argv. args_at s1 argv (words_of (l @ r)) \<and> length (buf_line s1) = BUF_LINE_LEN \<and> tty_step 1 TERM_CRLF s s1 \<and>
        readline cmds s = map_option (\<lambda>s'. tty_write TERM_PROMPT (s'\<lparr>sh_cur := 0, sh_eol := 0\<rparr>))
          (run_line cmds argv (hd (words_of (l @ r))) s1)
    else readline cmds s = None"
proof -
  let ?s = "tty_write TERM_CRLF (s\<lparr>sh_rd := Suc (sh_rd s)\<rparr>)"
  obtain q where q: "buf_line ?s = (l @ r) @ 0 # q" using rep assms(3) by (auto simp: line_rep_def neq_Nil_conv)
  have "0 \<notin> set (l @ r)" using rep by (auto simp: line_rep_def)
  note ex = exec_command_words [OF q this, of cmds]
  have "sh_eol s > 0" using rep assms(3) by (cases l) (auto simp: line_rep_def)
  then have "readline cmds s = map_option (\<lambda>s'. tty_write TERM_PROMPT (s'\<lparr>sh_cur := 0, sh_eol := 0\<rparr>)) (exec_command cmds ?s)"
    using assms(2) by (cases "exec_command cmds ?s")
      (simp_all add: readline_def readline_enter_def tty_read_def ASCII_CARRIAGE_RETURN_def)
  moreover have "length (buf_line s) = BUF_LINE_LEN" using rep by (simp add: line_rep_def)
  moreover have "tty_step 1 TERM_CRLF s (?s\<lparr>buf_line := l'\<rparr>)" for l' by (simp add: tty_step_def)
  ultimately show ?thesis using ex by (cases "length (words_of (l @ r)) \<le> ARG_COUNT_MAX") fastforce+
qed

lemma readline_insert_full:
  assumes rep: "line_rep s l r" and "length l + length r = 127"
  shows "readline_insert c s = None"
proof -
  have pos: "sh_cur s = int (length l)" "sh_eol s = 127" "length (buf_line s) = 128"
    using rep assms(2) by (auto simp: line_rep_def BUF_LINE_LEN_def)
  have "shift_right 127 (sh_cur s) (buf_line s) = None" if "sh_cur s < 127"
    using that pos by (subst shift_right.simps) (simp add: line_get_def line_set_def)
  then show ?thesis using pos by (auto simp: readline_insert_def line_set_def split: bind_split)
qed

section \<open>Properties\<close>

text \<open>
  Editing the command line refines an editor of the text before and after the cursor: a printable character is
  inserted at the cursor, backspace and delete remove the character before it, the arrows move it; exactly the
  bytes of the key are read, and the characters that redraw the line after the cursor are sent. The character
  that would be the 128th of the line is written past the end of the buffer.
\<close>

lemma readline_edits:
  assumes "line_rep s l r" "typed (key_bytes k) s" "\<And>c. k = Key_char c \<Longrightarrow> 32 \<le> c \<and> c \<le> 126"
  shows "if key_ok k (l, r) then
      \<exists>s' l' r'. readline cmds s = Some s' \<and> edit k (l, r) = (l', r') \<and> line_rep s' l' r' \<and>
        tty_step (length (key_bytes k)) (key_out k (l, r)) s s'
    else readline cmds s = None \<and> length l + length r = 127"
proof (cases "key_ok k (l, r)")
  case True
  then show ?thesis using readline_key [OF assms(1,2) True, of cmds] by auto
next
  case False
  then obtain c where c: "k = Key_char c" "length l + length r = 127"
    using assms(3) line_rep_length [OF assms(1)] by (cases k) auto
  then have "readline cmds s = readline_insert c (s\<lparr>sh_rd := Suc (sh_rd s)\<rparr>)"
    using assms by (auto simp: readline_def tty_read_def ascii_defs)
  then show ?thesis using False readline_insert_full [of "s\<lparr>sh_rd := Suc (sh_rd s)\<rparr>" l r c] assms(1) c by simp
qed

text \<open>
  C36. Typing a line and pressing return runs it: starting with an empty line, after the keys \<open>ks\<close> and a carriage
  return the shell calls the first command of the table whose name is the first word of the edited line, with
  the words as its arguments, or reports the word as unknown, and prompts again with an empty line. With more
  than eight words the array of arguments overflows.
\<close>

theorem minishell_runs_line:
  assumes "line_rep s [] []" "typed (concat (map key_bytes ks) @ [13]) s" "keys_ok ks ([], [])"
    and "fold edit ks ([], []) = (l, r)" "l @ r \<noteq> []" "ws = words_of (l @ r)"
  shows "if length ws \<le> 8 then
      \<exists>s1 argv. args_at s1 argv ws \<and> length (buf_line s1) = 128 \<and>
        tty_step (Suc (length (concat (map key_bytes ks)))) (keys_out ks ([], []) @ TERM_CRLF) s s1 \<and>
        minishell_loop cmds (Suc (length ks)) s =
          (case find (\<lambda>(n, f). n = hd ws) cmds of
             Some (n, f) \<Rightarrow> map_option (\<lambda>s'. tty_write TERM_PROMPT (s'\<lparr>sh_cur := 0, sh_eol := 0\<rparr>)) (f argv s1)
           | None \<Rightarrow> Some (tty_write (TERM_CMD_NOT_FOUND @ hd ws @ TERM_CRLF @ TERM_PROMPT) (s1\<lparr>sh_cur := 0, sh_eol := 0\<rparr>)))
    else minishell_loop cmds (Suc (length ks)) s = None"
proof -
  obtain s0 where s0: "minishell_loop cmds (length ks) s = Some s0" "line_rep s0 l r"
    "tty_step (length (concat (map key_bytes ks))) (keys_out ks ([], [])) s s0"
    using minishell_loop_keys [OF assms(1) _ assms(3,4)] assms(2) by (auto simp: typed_append)
  have "typed [13] s0" using assms(2) typed_step [OF s0(3)] by (simp add: typed_append)
  note ret = readline_return [OF s0(2) this assms(5), of cmds, folded assms(6)]
  have run: "minishell_loop cmds (Suc (length ks)) s = readline cmds s0"
    using minishell_loop_add [of cmds "length ks" 1 s] s0(1) by (simp split: bind_split)
  show ?thesis
  proof (cases "length ws \<le> 8")
    case True
    then obtain s1 argv where s1: "args_at s1 argv ws" "length (buf_line s1) = 128" "tty_step 1 TERM_CRLF s0 s1"
      "readline cmds s0 = map_option (\<lambda>s'. tty_write TERM_PROMPT (s'\<lparr>sh_cur := 0, sh_eol := 0\<rparr>)) (run_line cmds argv (hd ws) s1)"
      using ret by (auto simp: ARG_COUNT_MAX_def BUF_LINE_LEN_def)
    have "tty_write a (tty_write b s1\<lparr>sh_cur := 0, sh_eol := 0\<rparr>) = tty_write (b @ a) (s1\<lparr>sh_cur := 0, sh_eol := 0\<rparr>)" for a b
      by (simp add: tty_write_def)
    then show ?thesis using True s1(1,2,4) run tty_step_trans [OF s0(3) s1(3)]
      by (intro if_P [THEN iffD2, OF True] exI [of _ s1] exI [of _ argv]) (simp add: run_line_def split: option.split)
  next
    case False
    then show ?thesis using ret run by (simp add: ARG_COUNT_MAX_def)
  qed
qed

theorem minishell_runs_line_witness:
  "\<exists>s1. con_out (sh_con s1) = 120 # TERM_CRLF \<and>
    minishell_loop [] (Suc (length [Key_char 120]))
      (sh_boot (\<lambda>n. if n = 0 then 120 else 13) \<lparr>con_pad = 0, con_mem = \<lambda>_. 0, con_out = []\<rparr>) =
      Some (tty_write (TERM_CMD_NOT_FOUND @ [120] @ TERM_CRLF @ TERM_PROMPT) (s1\<lparr>sh_cur := 0, sh_eol := 0\<rparr>))"
proof -
  let ?s = "sh_boot (\<lambda>n. if n = 0 then 120 else 13) \<lparr>con_pad = 0, con_mem = \<lambda>_. 0, con_out = []\<rparr>"
  have "line_rep ?s [] []" "typed (concat (map key_bytes [Key_char 120]) @ [13]) ?s" "keys_ok [Key_char 120] ([], [])"
    "fold edit [Key_char 120] ([], []) = ([120], [])" "[120] @ [] \<noteq> []" "[[120]] = words_of ([120] @ [])"
    by (simp_all add: sh_boot_def line_rep_def words_of_last)
  from minishell_runs_line [OF this, of "[]"] show ?thesis
    by (simp add: tty_step_def sh_boot_def cur_back_def del: minishell_loop.simps) blast
qed

text \<open>Initially the line is empty.\<close>

lemma sh_boot_rep: "line_rep (tty_write TERM_PROMPT (sh_boot tty con)) [] []"
  by (simp add: line_rep_def sh_boot_def)

text \<open>\<^verbatim>\<open>echo\<close> prints its arguments separated by single spaces; without arguments it prints nothing, not even a newline.\<close>

fun spaced :: "u8 list list \<Rightarrow> u8 list" where
  "spaced [] = []"
| "spaced (w # ws) = w @ concat (map ((#) 32) ws)"

definition plain :: "u8 list \<Rightarrow> bool" where
  "plain w \<longleftrightarrow> 0 \<notin> set w \<and> 10 \<notin> set w \<and> length w < 128"

lemma printk_putchar_plain: "10 \<notin> set w \<Longrightarrow> concat (map printk_putchar w) = w"
  by (induction w) (auto simp: printk_putchar_def)

lemma echo_loop_words:
  assumes "list_all2 (\<lambda>j x. line_str j l = Some x) as ws" "list_all plain ws"
    and "fmt = concat (map item_fmt (pre @ [Str []]))" "pre = [] \<or> pre = [Lit 32]"
  shows "\<exists>con'. echo_loop fmt as l con = Some con' \<and>
    con_out con' = con_out con @ (if ws = [] then [] else concat (map item_out pre)) @ spaced ws"
  using assms
proof (induction as ws arbitrary: fmt pre con rule: list_all2_induct)
  case Nil
  then show ?case by simp
next
  case (Cons a as w ws)
  let ?its = "pre @ [Str w]"
  have w: "0 \<notin> set w" "10 \<notin> set w" "length w < 128" using Cons.prems(1) by (auto simp: plain_def)
  then have ok: "items_ok False ?its" "length (concat (map item_out ?its)) < 256" "10 \<notin> set (concat (map item_out ?its))"
    using Cons.prems(3) by (auto simp: chr_codes plain_num_def)
  have "fmt = concat (map item_fmt ?its)" "[Arg_str w] = concat (map item_args ?its)" using Cons.prems(2,3) by auto
  from printk_items [OF ok(1) refl ok(2) this, of con] obtain con1 where
    1: "printk fmt [Arg_str w] con = Some (of_nat (length (concat (map item_out ?its))), con1)"
      "con_out con1 = con_out con @ concat (map item_out ?its)"
    using printk_putchar_plain [OF ok(3)] by auto
  obtain con2 where 2: "echo_loop (map chr '' %s'') as l con1 = Some con2"
    "con_out con2 = con_out con1 @ (if ws = [] then [] else [32]) @ spaced ws"
    using Cons.IH [of "map chr '' %s''" "[Lit 32]" con1] Cons.prems(1) by (auto simp: chr_codes)
  have "con_out con2 = con_out con @ concat (map item_out pre) @ spaced (w # ws)" using 1(2) 2(2) by (cases ws) auto
  then show ?case using Cons.hyps(1) 1(1) 2(1) by simp
qed

lemma echo_prints:
  assumes "args_at s argv (w # ws)" "ws \<noteq> []" "list_all plain ws"
  shows "\<exists>s'. echo argv s = Some s' \<and> con_out (sh_con s') = con_out (sh_con s) @ spaced ws @ [13, 10]"
proof -
  obtain a as where a: "argv = a # as" "list_all2 (\<lambda>j x. line_str j (buf_line s) = Some x) as ws"
    using assms(1) by (auto simp: args_at_def list_all2_Cons2)
  obtain con where con: "echo_loop (map chr ''%s'') as (buf_line s) (sh_con s) = Some con"
    "con_out con = con_out (sh_con s) @ spaced ws"
    using echo_loop_words [OF a(2) assms(3), of "map chr ''%s''" "[]" "sh_con s"] by auto
  have "\<exists>con'. printk [10] [] con = Some (1, con') \<and> con_out con' = con_out con @ [13, 10]"
    using printk_items [of "[Lit 10]", OF _ refl _ refl refl, of con] by (simp add: chr_codes plain_num_def printk_putchar_def) blast
  moreover have "length argv \<noteq> 1" using a assms(2) by (auto simp: list_all2_Cons2)
  ultimately show ?thesis using con a(1) by (fastforce simp: echo_def)
qed

end
