(* ===== verification/Platform.thy ===== *)
theory Platform
  imports Timer
begin

text \<open>
  The boards: \<^verbatim>\<open>platform/f429disco\<close> and \<^verbatim>\<open>platform/stm32p103\<close>, and the configuration of the processor by \<^verbatim>\<open>v7m_init\<close> in
  \<^verbatim>\<open>kernel/main.c\<close>. These functions fill in tables and hand them to the vendor's libraries, HAL and CMSIS, which are not
  part of the repository: a call of such a library is recorded, in order, in a list of \<open>hw_call\<close>s, and the
  libraries' constants are named and not evaluated. An entry of the table of ports that is not set has null function
  pointers; calling one is a fault, the result \<open>None\<close>.

  The lemmas show that the clocks of a port are enabled before it is initialised, that the port that is set up is
  the one the kernel prints to, that the tick of the clock is a millisecond on both boards and fits the counter,
  and that the scheduler's interrupt never preempts another one.
\<close>

section \<open>The calls of the vendor's libraries\<close>

record gpio_init =
  gi_Pin :: string
  gi_Mode :: string
  gi_Pull :: string
  gi_Speed :: string
  gi_Alternate :: "string option"

record uart_handle =
  uh_Instance :: string
  uh_BaudRate :: u32
  uh_WordLength :: string
  uh_StopBits :: string
  uh_Parity :: string
  uh_HwFlowCtl :: string
  uh_Mode :: "string list"
  uh_OverSampling :: string

datatype hw_call =
    RCC_CLK_ENABLE string
  | HAL_GPIO_Init string gpio_init
  | HAL_UART_Init uart_handle
  | SysTick_Config u32
  | NVIC_SetPriority string u32
  | NVIC_EnableIRQ string
  | SCB_SHCSR_set "string list"
  | SCB_CCR_set string
  | DSB

type_synonym hw = "hw_call list"

section \<open>The serial ports\<close>

record stm32_uart_port =
  gpio_tx :: string
  gpio_rx :: string
  gpio_tx_init_info :: gpio_init
  gpio_rx_init_info :: gpio_init
  uart_init_info :: uart_handle
  gpio_tx_clk_enable :: hw_call
  gpio_rx_clk_enable :: hw_call
  uart_clk_enable :: hw_call

definition uart_port_setup :: "stm32_uart_port option \<Rightarrow> hw \<Rightarrow> hw option" where
  "uart_port_setup port hw = do {
     p \<leftarrow> port;
     Some (hw @ [gpio_tx_clk_enable p, gpio_rx_clk_enable p, uart_clk_enable p]) }"

definition uart_port_init :: "stm32_uart_port option \<Rightarrow> hw \<Rightarrow> hw option" where
  "uart_port_init port hw = do {
     p \<leftarrow> port;
     Some (hw @ [HAL_GPIO_Init (gpio_tx p) (gpio_tx_init_info p), HAL_GPIO_Init (gpio_rx p) (gpio_rx_init_info p),
       HAL_UART_Init (uart_init_info p)]) }"

text \<open>The end of \<^verbatim>\<open>uart_init\<close>: all ports of \<open>init_order\<close> are set up, then all are initialised.\<close>

definition uart_init_ports :: "(nat \<Rightarrow> stm32_uart_port option) \<Rightarrow> nat list \<Rightarrow> hw \<Rightarrow> hw option" where
  "uart_init_ports ports init_order hw = do {
     hw \<leftarrow> fold_opt (\<lambda>i. uart_port_setup (ports i)) init_order hw;
     fold_opt (\<lambda>i. uart_port_init (ports i)) init_order hw }"

definition uart_115200 :: "string \<Rightarrow> uart_handle" where
  "uart_115200 inst = \<lparr> uh_Instance = inst, uh_BaudRate = 115200, uh_WordLength = ''UART_WORDLENGTH_8B'',
     uh_StopBits = ''UART_STOPBITS_1'', uh_Parity = ''UART_PARITY_NONE'', uh_HwFlowCtl = ''UART_HWCONTROL_NONE'',
     uh_Mode = [''UART_MODE_TX_RX'', ''UART_IT_RXNE''], uh_OverSampling = ''UART_OVERSAMPLING_16'' \<rparr>"

definition f429disco_ports :: "nat \<Rightarrow> stm32_uart_port option" where
  "f429disco_ports = [0 \<mapsto> \<lparr> gpio_tx = ''GPIOA'', gpio_rx = ''GPIOA'',
     gpio_tx_init_info = \<lparr> gi_Pin = ''GPIO_PIN_9'', gi_Mode = ''GPIO_MODE_AF_PP'', gi_Pull = ''GPIO_NOPULL'',
       gi_Speed = ''GPIO_SPEED_FAST'', gi_Alternate = Some ''GPIO_AF7_USART1'' \<rparr>,
     gpio_rx_init_info = \<lparr> gi_Pin = ''GPIO_PIN_10'', gi_Mode = ''GPIO_MODE_AF_PP'', gi_Pull = ''GPIO_NOPULL'',
       gi_Speed = ''GPIO_SPEED_FAST'', gi_Alternate = Some ''GPIO_AF7_USART1'' \<rparr>,
     uart_init_info = uart_115200 ''USART1'',
     gpio_tx_clk_enable = RCC_CLK_ENABLE ''GPIOA'', gpio_rx_clk_enable = RCC_CLK_ENABLE ''GPIOA'',
     uart_clk_enable = RCC_CLK_ENABLE ''USART1'' \<rparr>]"

definition f429disco_uart_init :: "hw \<Rightarrow> hw option" where
  "f429disco_uart_init hw = uart_init_ports f429disco_ports [0] hw"

definition stm32p103_ports :: "nat \<Rightarrow> stm32_uart_port option" where
  "stm32p103_ports = [1 \<mapsto> \<lparr> gpio_tx = ''GPIOA'', gpio_rx = ''GPIOA'',
     gpio_tx_init_info = \<lparr> gi_Pin = ''GPIO_PIN_2'', gi_Mode = ''GPIO_MODE_AF_PP'', gi_Pull = ''GPIO_PULLUP'',
       gi_Speed = ''GPIO_SPEED_FREQ_HIGH'', gi_Alternate = None \<rparr>,
     gpio_rx_init_info = \<lparr> gi_Pin = ''GPIO_PIN_3'', gi_Mode = ''GPIO_MODE_INPUT'', gi_Pull = ''GPIO_PULLUP'',
       gi_Speed = ''GPIO_SPEED_FREQ_HIGH'', gi_Alternate = None \<rparr>,
     uart_init_info = uart_115200 ''USART2'',
     gpio_tx_clk_enable = RCC_CLK_ENABLE ''GPIOA'', gpio_rx_clk_enable = RCC_CLK_ENABLE ''GPIOA'',
     uart_clk_enable = RCC_CLK_ENABLE ''USART2'' \<rparr>]"

definition stm32p103_uart_init :: "hw \<Rightarrow> hw option" where
  "stm32p103_uart_init hw = uart_init_ports stm32p103_ports [1] hw"

definition f429disco_USARTx :: string where "f429disco_USARTx = ''USART1''"
definition stm32p103_USARTx :: string where "stm32p103_USARTx = ''USART2''"

section \<open>The clock and the processor\<close>

definition SYSTICK_FREQ_IN_HZ :: u32 where "SYSTICK_FREQ_IN_HZ = 1000"
definition f429disco_CPU_FREQ :: u32 where "f429disco_CPU_FREQ = 168000000"
definition stm32p103_CPU_FREQ :: u32 where "stm32p103_CPU_FREQ = 72000000"

definition f429disco_platform_init :: "hw \<times> tmstate \<Rightarrow> hw \<times> tmstate" where
  "f429disco_platform_init s =
     (fst s @ [SysTick_Config (f429disco_CPU_FREQ div SYSTICK_FREQ_IN_HZ)], config_timer_operations (Some Systick_tops) (snd s))"

definition stm32p103_platform_init :: "hw \<times> tmstate \<Rightarrow> hw \<times> tmstate" where
  "stm32p103_platform_init s =
     (fst s @ [SysTick_Config (stm32p103_CPU_FREQ div SYSTICK_FREQ_IN_HZ)], config_timer_operations (Some Systick_tops) (snd s))"

definition v7m_init :: "hw \<Rightarrow> hw" where
  "v7m_init hw = hw @ [
     SCB_SHCSR_set [''SCB_SHCSR_USGFAULTENA'', ''SCB_SHCSR_BUSFAULTENA'', ''SCB_SHCSR_MEMFAULTENA''],
     SCB_CCR_set ''SCB_CCR_STKALIGN'',
     NVIC_SetPriority ''MemoryManagement_IRQn'' 1,
     NVIC_SetPriority ''BusFault_IRQn'' 1,
     NVIC_SetPriority ''UsageFault_IRQn'' 1,
     NVIC_SetPriority ''SysTick_IRQn'' 3,
     NVIC_SetPriority ''SVCall_IRQn'' 0xF,
     NVIC_SetPriority ''PendSV_IRQn'' 0xF,
     DSB]"

text \<open>The interrupt of the serial port in \<^verbatim>\<open>stm32_serial_init\<close>.\<close>

definition uart_irq_enable :: "string \<Rightarrow> hw \<Rightarrow> hw" where
  "uart_irq_enable irqn hw = hw @ [NVIC_SetPriority irqn 0xE, NVIC_EnableIRQ irqn]"

section \<open>What the boards set up\<close>

text \<open>The instances and pin banks a list of calls uses, each with its clock enabled before.\<close>

fun clocked :: "string set \<Rightarrow> hw \<Rightarrow> bool" where
  "clocked on [] = True"
| "clocked on (RCC_CLK_ENABLE x # hw) = clocked (insert x on) hw"
| "clocked on (HAL_GPIO_Init g i # hw) = (g \<in> on \<and> clocked on hw)"
| "clocked on (HAL_UART_Init u # hw) = (uh_Instance u \<in> on \<and> clocked on hw)"
| "clocked on (_ # hw) = clocked on hw"

fun clocks :: "hw \<Rightarrow> string set" where
  "clocks [] = {}"
| "clocks (RCC_CLK_ENABLE x # hw) = insert x (clocks hw)"
| "clocks (_ # hw) = clocks hw"

definition port_ok :: "stm32_uart_port \<Rightarrow> bool" where
  "port_ok p \<longleftrightarrow> gpio_tx_clk_enable p = RCC_CLK_ENABLE (gpio_tx p) \<and> gpio_rx_clk_enable p = RCC_CLK_ENABLE (gpio_rx p)
     \<and> uart_clk_enable p = RCC_CLK_ENABLE (uh_Instance (uart_init_info p))"

lemma clocked_append: "clocked on (a @ b) \<longleftrightarrow> clocked on a \<and> clocked (on \<union> clocks a) b"
  by (induction on a rule: clocked.induct) auto

text \<open>A loop over the ports that appends the calls of each.\<close>

lemma fold_opt_calls:
  assumes "\<And>i hw. i \<in> set xs \<Longrightarrow> f i hw = Some (hw @ g i)"
  shows "fold_opt f xs hw = Some (hw @ concat (map g xs))"
  using assms by (induction xs arbitrary: hw) simp_all

definition setup_calls :: "stm32_uart_port \<Rightarrow> hw" where
  "setup_calls p = [gpio_tx_clk_enable p, gpio_rx_clk_enable p, uart_clk_enable p]"

definition init_calls :: "stm32_uart_port \<Rightarrow> hw" where
  "init_calls p = [HAL_GPIO_Init (gpio_tx p) (gpio_tx_init_info p), HAL_GPIO_Init (gpio_rx p) (gpio_rx_init_info p),
     HAL_UART_Init (uart_init_info p)]"

lemma clocks_append [simp]: "clocks (a @ b) = clocks a \<union> clocks b"
  by (induction a rule: clocks.induct) auto

lemma setup_calls_ok:
  assumes "port_ok p"
  shows "clocks (setup_calls p) = {gpio_tx p, gpio_rx p, uh_Instance (uart_init_info p)} \<and> clocked on (setup_calls p)"
  using assms by (simp add: setup_calls_def port_ok_def)

lemma clocks_concat: "clocks (concat hws) = (\<Union>hw\<in>set hws. clocks hw)"
  by (induction hws) simp_all

lemma clocked_setups:
  assumes "\<And>i. i \<in> set xs \<Longrightarrow> port_ok (p i)"
  shows "clocked on (concat (map (setup_calls \<circ> p) xs))"
  using assms by (induction xs arbitrary: on) (simp_all add: clocked_append setup_calls_ok)

lemma clocked_inits:
  assumes "\<And>i. i \<in> set xs \<Longrightarrow> {gpio_tx (p i), gpio_rx (p i), uh_Instance (uart_init_info (p i))} \<subseteq> on"
  shows "clocked on (concat (map (init_calls \<circ> p) xs))"
  using assms by (induction xs) (auto simp: init_calls_def)

text \<open>
  Whatever ports \<^verbatim>\<open>uart_init\<close> is given, each of them with the clocks of its own pins and unit: it sets up all of them,
  no unit is touched before its clock runs, and every port of the order is initialised.
\<close>

lemma uart_init_ports_ok:
  assumes "\<And>i. i \<in> set xs \<Longrightarrow> ports i = Some (p i) \<and> port_ok (p i)"
  shows "\<exists>calls. uart_init_ports ports xs hw = Some (hw @ calls) \<and> clocked {} calls
    \<and> (\<forall>i\<in>set xs. HAL_UART_Init (uart_init_info (p i)) \<in> set calls)"
proof -
  let ?s = "concat (map (setup_calls \<circ> p) xs)" and ?i = "concat (map (init_calls \<circ> p) xs)"
  have up: "fold_opt (\<lambda>i. uart_port_setup (ports i)) xs h = Some (h @ ?s)" for h
    by (rule fold_opt_calls) (simp add: assms uart_port_setup_def setup_calls_def)
  have "fold_opt (\<lambda>i. uart_port_init (ports i)) xs h = Some (h @ ?i)" for h
    by (rule fold_opt_calls) (simp add: assms uart_port_init_def init_calls_def)
  with up have "uart_init_ports ports xs hw = Some (hw @ (?s @ ?i))"
    by (simp add: uart_init_ports_def)
  moreover have "clocked {} ?s"
    using assms by (intro clocked_setups) blast
  moreover have "clocked ({} \<union> clocks ?s) ?i"
    using assms setup_calls_ok by (intro clocked_inits) (auto simp: clocks_concat)
  moreover have "HAL_UART_Init (uart_init_info (p i)) \<in> set ?i" if "i \<in> set xs" for i
    using that by (auto simp: init_calls_def)
  ultimately show ?thesis
    by (intro exI [of _ "?s @ ?i"]) (simp add: clocked_append del: map_map)
qed

lemma f429disco_uart_init_ok:
  "\<exists>calls. f429disco_uart_init hw = Some (hw @ calls) \<and> clocked {} calls \<and> HAL_UART_Init (uart_115200 f429disco_USARTx) \<in> set calls"
proof -
  obtain p where p: "f429disco_ports 0 = Some p" "port_ok p" "uart_init_info p = uart_115200 f429disco_USARTx"
    by (simp add: f429disco_ports_def port_ok_def uart_115200_def f429disco_USARTx_def)
  show ?thesis
    using uart_init_ports_ok [of "[0]" f429disco_ports "\<lambda>_. p" hw] p unfolding f429disco_uart_init_def by auto
qed

lemma stm32p103_uart_init_ok:
  "\<exists>calls. stm32p103_uart_init hw = Some (hw @ calls) \<and> clocked {} calls \<and> HAL_UART_Init (uart_115200 stm32p103_USARTx) \<in> set calls"
proof -
  obtain p where p: "stm32p103_ports 1 = Some p" "port_ok p" "uart_init_info p = uart_115200 stm32p103_USARTx"
    by (simp add: stm32p103_ports_def port_ok_def uart_115200_def stm32p103_USARTx_def)
  show ?thesis
    using uart_init_ports_ok [of "[1]" stm32p103_ports "\<lambda>_. p" hw] p unfolding stm32p103_uart_init_def by auto
qed

text \<open>Both clocks tick every millisecond, and the count fits the 24 bits of the counter.\<close>

lemma systick_reload:
  assumes "freq \<in> {f429disco_CPU_FREQ, stm32p103_CPU_FREQ}"
  shows "freq div SYSTICK_FREQ_IN_HZ < 2 ^ 24 \<and> (freq div SYSTICK_FREQ_IN_HZ) * 1000 = freq \<and> 0 < freq div SYSTICK_FREQ_IN_HZ"
  using assms by (auto simp: f429disco_CPU_FREQ_def stm32p103_CPU_FREQ_def SYSTICK_FREQ_IN_HZ_def)

text \<open>
  The priority of an interrupt is the one set last; a smaller number is more urgent. \<^verbatim>\<open>SysTick_Config\<close> is documented to set
  the priority of the clock, to the number \<open>lowest\<close>.
\<close>

fun irq_prio :: "u32 \<Rightarrow> string \<Rightarrow> hw \<Rightarrow> u32 option" where
  "irq_prio lowest irqn [] = None"
| "irq_prio lowest irqn (NVIC_SetPriority i p # hw) =
     (case irq_prio lowest irqn hw of Some q \<Rightarrow> Some q | None \<Rightarrow> if i = irqn then Some p else None)"
| "irq_prio lowest irqn (SysTick_Config n # hw) =
     (case irq_prio lowest irqn hw of Some q \<Rightarrow> Some q | None \<Rightarrow> if irqn = ''SysTick_IRQn'' then Some lowest else None)"
| "irq_prio lowest irqn (_ # hw) = irq_prio lowest irqn hw"

text \<open>
  After \<^verbatim>\<open>v7m_init\<close>, the initialisation of the board and that of the serial port, the scheduler's interrupt and the system
  calls have one priority, the least urgent, so that neither preempts the other, the clock, the serial port or a
  fault; the serial port and the faults may preempt both. The priority 3 that \<^verbatim>\<open>v7m_init\<close> gives to the clock does
  not last.
\<close>

lemma irq_priorities:
  assumes "irqn \<notin> {''MemoryManagement_IRQn'', ''BusFault_IRQn'', ''UsageFault_IRQn'', ''SysTick_IRQn'', ''SVCall_IRQn'', ''PendSV_IRQn''}"
    and "lowest \<le> 0xF"
    and hw': "hw' = uart_irq_enable irqn (fst (f429disco_platform_init (v7m_init [], tm)))"
  shows "irq_prio lowest ''PendSV_IRQn'' hw' = irq_prio lowest ''SVCall_IRQn'' hw'"
    and "irq_prio lowest i hw' = Some p \<Longrightarrow> p \<le> the (irq_prio lowest ''PendSV_IRQn'' hw')"
    and "irq_prio lowest i hw' = Some p \<Longrightarrow> i \<notin> {''PendSV_IRQn'', ''SVCall_IRQn'', ''SysTick_IRQn''} \<Longrightarrow>
      p < the (irq_prio lowest ''PendSV_IRQn'' hw')"
    and "irq_prio lowest ''SysTick_IRQn'' hw' = Some lowest"
  using assms(1,2) unfolding hw' by (auto simp: v7m_init_def f429disco_platform_init_def uart_irq_enable_def split: if_splits)

end
