(* ===== verification/Boot.thy ===== *)
theory Boot
  imports Files Slab Softirq Irq Cbuf Printk Platform
begin

text \<open>
  Starting the kernel: \<^verbatim>\<open>start_kernel\<close> in \<^verbatim>\<open>kernel/main.c\<close>, with the functions of the other theories on one state. The record
  \<open>machine\<close> holds the file system with the tasks, threads, pages and the heap below it, and beside it the slab
  caches, the deferred work, the interrupts, the timers, the serial port's buffer, the console and the calls of the vendor's
  libraries; what those share with the rest is copied into them for their step and back. The addresses of static objects are
  the record \<open>image\<close>, and the two functions a board provides are the record \<open>platform\<close>.

  The lemmas of this theory are about the file systems: the directories while they are filled, and the paths that lead to
  the device files.
\<close>

section \<open>The code\<close>

record image =
  syms :: fsyms
  root_entry0 :: addr
  root_entry1 :: addr
  proc_inos :: "addr list"
  mem_inos :: "addr list"
  mtd0_ino :: addr
  mtdram_dev :: addr
  mtdram_start :: addr
  mtdram_size :: u32
  tty_ino :: addr
  tty_buf :: "int \<Rightarrow> u8"
  heap_start :: addr
  heap_size :: u32
  early_stack_start :: addr
  early_stack_end :: addr
  cache_caches_addr :: addr
  idle_task :: addr
  main_task :: addr
  softirq_task :: addr
  do_idle_addr :: u32
  main_addr :: u32
  tasklet_action_addr :: u32
  softirqd_addr :: u32
  uart_isr_addr :: u32
  USARTx_IRQn :: u32
  USARTx_irq_name :: string
  sched_classes :: "sched_class list"
  text_sect :: "addr \<times> addr"
  rodata_sect :: "addr \<times> addr"
  data_sect :: "addr \<times> addr"
  bss_sect :: "addr \<times> addr"
  heap_sect :: "addr \<times> addr"
  pgmem_sect :: "addr \<times> addr"

record platform =
  plat_uart_init :: "hw \<Rightarrow> hw option"
  plat_init :: "hw \<times> tmstate \<Rightarrow> hw \<times> tmstate"

definition f429disco :: platform where
  "f429disco = \<lparr> plat_uart_init = f429disco_uart_init, plat_init = f429disco_platform_init \<rparr>"

definition stm32p103 :: platform where
  "stm32p103 = \<lparr> plat_uart_init = stm32p103_uart_init, plat_init = stm32p103_platform_init \<rparr>"

record 'w machine =
  m_fs :: fstate
  m_slab :: slab_state
  m_softirq :: "'w softirq"
  m_irq :: irq_state
  m_timer :: tmstate
  m_cbuf :: cbuf_info
  m_con :: console
  m_hw :: hw

definition set_tst :: "tstate \<Rightarrow> fstate \<Rightarrow> fstate" where
  "set_tst t st = st\<lparr>fps := (fps st)\<lparr>ts := t\<rparr>\<rparr>"

definition say :: "u8 list \<Rightarrow> varg list \<Rightarrow> 'w machine \<Rightarrow> 'w machine option" where
  "say fmt args m = do { (_, con) \<leftarrow> printk fmt args (m_con m); Some (m\<lparr>m_con := con\<rparr>) }"

text \<open>The line of one section: \<open>name\<close> is followed by the blanks or the tabulator of the source.\<close>

definition print_section :: "u8 list \<Rightarrow> addr \<times> addr \<Rightarrow> 'w machine \<Rightarrow> 'w machine option" where
  "print_section name sect m = say (name @ map chr ''= %08x--%08x'' @ [9] @ map chr ''%6d Bytes'' @ [10])
     [Arg_int (fst sect), Arg_int (snd sect), Arg_int (snd sect - fst sect)] m"

definition print_linker_sections :: "image \<Rightarrow> 'w machine \<Rightarrow> 'w machine option" where
  "print_linker_sections im m = do {
     m \<leftarrow> say (map chr ''Memory map:'' @ [10]) [] m;
     m \<leftarrow> print_section (map chr ''  .text'' @ [9] @ map chr ''  '') (text_sect im) m;
     m \<leftarrow> print_section (map chr ''  .rodata '') (rodata_sect im) m;
     m \<leftarrow> print_section (map chr ''  .data'' @ [9] @ map chr ''  '') (data_sect im) m;
     m \<leftarrow> print_section (map chr ''  .bss'' @ [9] @ map chr ''  '') (bss_sect im) m;
     m \<leftarrow> print_section (map chr ''  .heap'' @ [9] @ map chr ''  '') (heap_sect im) m;
     print_section (map chr ''  .pgmem  '') (pgmem_sect im) m }"

text \<open>\<^verbatim>\<open>show_page_bitmap\<close> of \<^verbatim>\<open>kernel/mm/page.c\<close>: the words of the four bitmaps.\<close>

definition show_bitmap_row :: "page_maps \<Rightarrow> nat \<Rightarrow> 'w machine \<Rightarrow> 'w machine option" where
  "show_bitmap_row B i m = do {
     m \<leftarrow> say (map chr ''    %d  '') [Arg_int (of_nat i)] m;
     m \<leftarrow> fold_opt (\<lambda>j. say (map chr ''%08x  '') [Arg_int (B i j)]) [0..<(page_bitmap_sz i + 31) div 32] m;
     say [10] [] m }"

definition show_page_bitmap :: "page_maps \<Rightarrow> 'w machine \<Rightarrow> 'w machine option" where
  "show_page_bitmap B m = do {
     m \<leftarrow> say (map chr ''Order  Bitmap'' @ [10]) [] m;
     fold_opt (show_bitmap_row B) [0..<4] m }"

text \<open>The processor, the interrupts and, in \<^verbatim>\<open>__printk_init\<close>, the port for the messages.\<close>

definition boot_early :: "platform \<Rightarrow> 'w machine \<Rightarrow> 'w machine option" where
  "boot_early pl m = do {
     hw \<leftarrow> plat_uart_init pl (v7m_init (m_hw m));
     Some (m\<lparr>m_hw := hw, m_irq := init_IRQ (early_irq_init (m_irq m))\<rparr>) }"

text \<open>The heap and the caches.\<close>

definition boot_memory :: "board \<Rightarrow> image \<Rightarrow> 'w machine \<Rightarrow> 'w machine option" where
  "boot_memory bd im m = do {
     let st = m_fs m;
     h \<leftarrow> kernel_heap_init (heap_start im) (heap_size im) (kheap (fps st));
     m \<leftarrow> print_linker_sections im m;
     m \<leftarrow> show_page_bitmap (pgs (ts (fps st))) m;
     sl \<leftarrow> kmem_cache_init (pgmem bd) (cache_caches_addr im) ((m_slab m)\<lparr>pages := pgs (ts (fps st))\<rparr>);
     Some (m\<lparr>m_fs := st\<lparr>fps := (fps st)\<lparr>kheap := h, ts := (ts (fps st))\<lparr>pgs := pages sl\<rparr>\<rparr>\<rparr>, m_slab := sl\<rparr>) }"

text \<open>A task with its first thread.\<close>

definition boot_task :: "board \<Rightarrow> addr \<Rightarrow> u32 \<Rightarrow> u32 \<Rightarrow> fstate \<Rightarrow> (addr option \<times> fstate) option" where
  "boot_task bd task start priv st = do {
     p \<leftarrow> task_init task (fps st);
     (t, s) \<leftarrow> thread_create bd start 0 priv 1024 task (ts p);
     Some (t, st\<lparr>fps := p\<lparr>ts := s\<rparr>\<rparr>) }"

definition boot_sched :: "image \<Rightarrow> fstate \<Rightarrow> fstate option" where
  "boot_sched im st = do {
     (_, k) \<leftarrow> sched_init (sched_classes im) (ks (ts (fps st)));
     let (_, k) = sched_select (sched_classes im) SCHED_CLASS_BITMAP k;
     Some (set_tst ((ts (fps st))\<lparr>ks := k\<rparr>) st) }"

text \<open>The file systems and the device files.\<close>

definition boot_files :: "image \<Rightarrow> fstate \<Rightarrow> fstate option" where
  "boot_files im st = do {
     st \<leftarrow> tmpfs_init (syms im) (root_entry0 im) (root_entry1 im) st;
     st \<leftarrow> proc_init (syms im) (proc_inos im) st;
     st \<leftarrow> memdev_init (syms im) (mem_inos im) st;
     mtdram_init (syms im) (mtd0_ino im) (mtdram_dev im) (mtdram_start im) (mtdram_size im) st }"

text \<open>
  \<^verbatim>\<open>stm32_serial_init\<close>: the port once more, the buffer, the device file and the interrupt. It is the only function in the
  section of hooks that \<^verbatim>\<open>serial_init\<close> calls.
\<close>

definition stm32_serial_init :: "platform \<Rightarrow> image \<Rightarrow> 'w machine \<Rightarrow> 'w machine option" where
  "stm32_serial_init pl im m = do {
     hw \<leftarrow> plat_uart_init pl (m_hw m);
     let st = init_tmpfs_inode (tty_ino im) (m_fs m);
     (_, st) \<leftarrow> vfs_link (dev_inode (syms im)) (tty_ino im) (map chr ''ttyS0'') st;
     (_, irq) \<leftarrow> request_irq (USARTx_IRQn im) (uart_isr_addr im) ((m_irq m)\<lparr>irq_heap := kheap (fps st)\<rparr>);
     Some (m\<lparr>m_hw := uart_irq_enable (USARTx_irq_name im) hw, m_cbuf := cbuf_init (tty_buf im) 16,
       m_fs := st\<lparr>fps := (fps st)\<lparr>kheap := irq_heap irq\<rparr>\<rparr>, m_irq := irq\<rparr>) }"

definition serial_init :: "('w machine \<Rightarrow> 'w machine option) list \<Rightarrow> 'w machine \<Rightarrow> 'w machine option" where
  "serial_init hooks m = fold_opt (\<lambda>init. init) hooks m"

text \<open>The part of \<^verbatim>\<open>start_kernel\<close> after the creation of the main thread.\<close>

definition boot_late :: "board \<Rightarrow> platform \<Rightarrow> image \<Rightarrow> 'w machine \<Rightarrow> 'w machine option" where
  "boot_late bd pl im m = do {
     m \<leftarrow> say (map chr ''Reclaim early stack'' @ [39] @ map chr ''s physical memory (%d Bytes, order=%d).'' @ [10])
       [Arg_int (early_stack_start im - early_stack_end im), Arg_int (word_of_int (size_to_page_order 2048))] m;
     let t = ts (fps (m_fs m));
     B \<leftarrow> free_pages (pgmem bd) (pgs t) (early_stack_end im) (order_of 2048);
     st \<leftarrow> boot_files im (set_tst (t\<lparr>pgs := B\<rparr>) (m_fs m));
     let (hw, tm) = plat_init pl (m_hw m, m_timer m);
     (_, sq) \<leftarrow> init_softirq bd (tasklet_action_addr im) (softirqd_addr im) (softirq_task im) ((m_softirq m)\<lparr>sps := fps st\<rparr>);
     m \<leftarrow> serial_init [stm32_serial_init pl im]
       (m\<lparr>m_fs := st\<lparr>fps := sps sq\<rparr>, m_softirq := sq, m_hw := hw, m_timer := tm\<rparr>);
     say (map chr ''Kernel bootstrap done.'' @ [10] @ map chr ''--'' @ [10]) [] m }"

text \<open>The structures that more than one part of the machine has are those of the file system's state.\<close>

definition set_idle :: "addr \<Rightarrow> fstate \<Rightarrow> fstate" where
  "set_idle t st = set_tst ((ts (fps st))\<lparr>ks := (ks (ts (fps st)))\<lparr>thread_idle := t\<rparr>\<rparr>) st"

definition start_kernel :: "board \<Rightarrow> platform \<Rightarrow> image \<Rightarrow> 'w machine \<Rightarrow> (addr option \<times> 'w machine) option" where
  "start_kernel bd pl im m = do {
     m \<leftarrow> boot_early pl m;
     m \<leftarrow> boot_memory bd im m;
     st \<leftarrow> boot_sched im (m_fs m);
     (idle, st) \<leftarrow> boot_task bd (idle_task im) (do_idle_addr im) THREAD_PRIV_SUPERVISOR st;
     (case idle of
        None \<Rightarrow> do {
          m \<leftarrow> say (map chr ''[!] Could not create system idle thread.'' @ [10]) [] (m\<lparr>m_fs := set_idle 0 st\<rparr>);
          Some (None, m) }
      | Some idle \<Rightarrow> do {
          m \<leftarrow> say (map chr ''Created idle_thread at <%p>'' @ [10]) [Arg_int idle] (m\<lparr>m_fs := set_idle idle st\<rparr>);
          (thread_main, st) \<leftarrow> boot_task bd (main_task im) (main_addr im) THREAD_PRIV_USER (m_fs m);
          (case thread_main of
             None \<Rightarrow> do {
               m \<leftarrow> say (map chr ''[!] Could not create user main thread.'' @ [10]) [] (m\<lparr>m_fs := st\<rparr>);
               Some (None, m) }
           | Some thread_main \<Rightarrow> do {
               m \<leftarrow> say (map chr ''Created main_thread at <%p> with priority=%d'' @ [10])
                 [Arg_int thread_main, Arg_int (word_of_int (ti_priority (threads (ks (ts (fps st))) thread_main)))]
                 (m\<lparr>m_fs := st\<rparr>);
               m \<leftarrow> boot_late bd pl im m;
               Some (Some thread_main, m) }) }) }"

section \<open>Room on the heap\<close>

text \<open>While nothing has been freed the heap is one free block in front of the allocated ones.\<close>

lemma take_block_front:
  "request n + 12 < l \<Longrightarrow>
    take_block (request n) ((a, l, True) # bs) =
      Some (a + of_nat (l - request n), (a, l - request n, True) # (a + of_nat (l - request n), request n, False) # bs)"
  by simp

lemma malloc_room:
  assumes "malloc_rep s e h ((a, l, True) # bs)" "request n + 12 < l" "unat n \<le> 2 ^ 32 - 16"
  shows "\<exists>p h' bs'. malloc n h = Some (Some p, h') \<and> malloc_rep s e h' ((a, l - request n, True) # bs')"
  using malloc_rep_malloc [OF assms(1), of n] assms(2,3) request_bounds(2) [of n]
  unfolding request_unat [OF assms(3)] take_block_front [OF assms(2)] by auto

section \<open>The directories while the kernel starts\<close>

text \<open>The directories \<open>Ds\<close> have the entries \<open>E\<close>, and the first block of the heap is free and has \<open>l\<close> bytes.\<close>

definition booting :: "nat \<Rightarrow> nat \<Rightarrow> addr set \<Rightarrow> nat \<Rightarrow> (addr \<Rightarrow> (u8 list \<times> addr) list) \<Rightarrow> fstate \<Rightarrow> bool" where
  "booting s e Ds l E st \<longleftrightarrow> (\<exists>Q es live a bs. heap_ok s e (kheap (fps st), live) \<and>
     malloc_rep s e (kheap (fps st)) ((a, l, True) # bs) \<and> lists (flinks st) Q \<and>
     (\<forall>p. DirEnt p \<in> ring_nodes Q \<longrightarrow> p \<in> fst ` set live \<or> unat p < s \<or> e \<le> unat p) \<and>
     inj_on (\<lambda>d. i_private (inodes st d)) Ds \<and>
     (\<forall>d\<in>Ds. S_ISDIR (i_mode (inodes st d)) \<and> i_op (inodes st d) = Tmpfs_iops \<and>
        Q (DirHead (i_private (inodes st d))) = Some (map DirEnt (es d)) \<and> dir_entries st (es d) = E d))"

lemma bootingE:
  assumes "booting s e Ds l E st"
  obtains Q es live a bs where "heap_ok s e (kheap (fps st), live)" "malloc_rep s e (kheap (fps st)) ((a, l, True) # bs)"
    "lists (flinks st) Q" "\<And>p. DirEnt p \<in> ring_nodes Q \<Longrightarrow> p \<in> fst ` set live \<or> unat p < s \<or> e \<le> unat p"
    "inj_on (\<lambda>d. i_private (inodes st d)) Ds"
    "\<And>d. d \<in> Ds \<Longrightarrow> S_ISDIR (i_mode (inodes st d)) \<and> i_op (inodes st d) = Tmpfs_iops \<and>
       Q (DirHead (i_private (inodes st d))) = Some (map DirEnt (es d)) \<and> dir_entries st (es d) = E d"
  using assms unfolding booting_def
  by (elim exE conjE) (rule that, assumption, assumption, assumption, blast, assumption, erule (1) bspec)

lemma booting_lookup:
  assumes "booting s e Ds l E st" "d \<in> Ds"
  shows "vfs_lookup d n st = Some (map_option (\<lambda>i. (i, Tmpfs_dops)) (map_of (E d) n), st)"
proof -
  obtain Q es where "lists (flinks st) Q" "S_ISDIR (i_mode (inodes st d))" "i_op (inodes st d) = Tmpfs_iops"
    "Q (DirHead (i_private (inodes st d))) = Some (map DirEnt (es d))" "dir_entries st (es d) = E d"
    using assms by (auto simp: booting_def)
  then show ?thesis using tmpfs_lookup_rep [of st Q d "es d" n] by (simp add: vfs_lookup_def dir_rep_def)
qed

lemma booting_cong:
  assumes "booting s e Ds l E st" "kheap (fps st') = kheap (fps st)" "flinks st' = flinks st" "dirents st' = dirents st"
    and "\<And>d. i_private (inodes st' d) = i_private (inodes st d)" "\<And>d. i_mode (inodes st' d) = i_mode (inodes st d)"
    and op: "\<And>d. i_op (inodes st' d) = i_op (inodes st d) \<or> i_op (inodes st' d) = Tmpfs_iops"
  shows "booting s e Ds l E st'"
proof -
  have "i_op (inodes st' d) = Tmpfs_iops" if "i_op (inodes st d) = Tmpfs_iops" for d using op [of d] that by auto
  then show ?thesis using assms(1-6) unfolding booting_def dir_entries_def by simp blast
qed

lemma ring_nodes_append:
  assumes "DirEnt q \<in> ring_nodes (Q(DirHead h \<mapsto> map DirEnt (es @ [p])))" "Q (DirHead h) = Some (map DirEnt es)"
  shows "q = p \<or> DirEnt q \<in> ring_nodes Q"
proof -
  obtain hn xs where x: "(Q(DirHead h \<mapsto> map DirEnt (es @ [p]))) hn = Some xs" "DirEnt q \<in> set (hn # xs)"
    using assms(1) unfolding ring_nodes_iff by blast
  show ?thesis
  proof (cases "hn = DirHead h")
    case True
    then have "q \<in> set (es @ [p])" using x by auto
    then show ?thesis using assms(2) unfolding ring_nodes_iff by fastforce
  next
    case False
    then show ?thesis using x unfolding ring_nodes_iff by auto
  qed
qed

lemma request_dirlist: "request sizeof_dirlist = 56"
  by (simp add: request_def sizeof_dirlist_def)

lemma vfs_link_booting:
  assumes b: "booting s e Ds l E st" and d: "d \<in> Ds" and l: "68 < l" and name: "length name \<le> NAME_MAX"
  shows "\<exists>st'. vfs_link d ino name st = Some (0, st') \<and> booting s e Ds (l - 56) (E(d := E d @ [(name, ino)])) st' \<and> inodes st' = (inodes st)(d := (inodes st d)\<lparr>i_size := i_size (inodes st d) + 1\<rparr>)"
proof -
  from b obtain Q es live a bs where
    heap: "heap_ok s e (kheap (fps st), live)" "malloc_rep s e (kheap (fps st)) ((a, l, True) # bs)"
    and Q: "lists (flinks st) Q" "\<And>p. DirEnt p \<in> ring_nodes Q \<Longrightarrow> p \<in> fst ` set live \<or> unat p < s \<or> e \<le> unat p"
    and inj: "inj_on (\<lambda>d. i_private (inodes st d)) Ds"
    and D: "\<And>d. d \<in> Ds \<Longrightarrow> S_ISDIR (i_mode (inodes st d)) \<and> i_op (inodes st d) = Tmpfs_iops \<and>
        Q (DirHead (i_private (inodes st d))) = Some (map DirEnt (es d)) \<and> dir_entries st (es d) = E d"
    by (rule bootingE) blast
  let ?hn = "DirHead (i_private (inodes st d))"
  have Qd: "Q ?hn = Some (map DirEnt (es d))" using D [OF d] by blast
  obtain q h2 bs2 where room: "malloc sizeof_dirlist (kheap (fps st)) = Some (Some q, h2)"
    "malloc_rep s e h2 ((a, l - 56, True) # bs2)"
    using malloc_room [OF heap(2), of sizeof_dirlist] l unfolding request_dirlist by (auto simp: sizeof_dirlist_def)
  show ?thesis
  proof (cases rule: tmpfs_link_cases [OF Q(1) Qd heap(1) Q(2) name, of ino])
    case 2
    then show ?thesis using room(1) by simp
  next
    case (3 p h' l')
    let ?st = "st\<lparr>fps := (fps st)\<lparr>kheap := h'\<rparr>, dirents := (dirents st)(p := \<lparr>dl_inode = ino, dl_name = name\<rparr>),
      flinks := l', inodes := (inodes st)(d := (inodes st d)\<lparr>i_size := i_size (inodes st d) + 1\<rparr>)\<rparr>"
    let ?Q = "Q(?hn \<mapsto> map DirEnt (es d @ [p]))" and ?es = "es(d := es d @ [p])"
    have new: "p \<notin> set (es x)" if "x \<in> Ds" for x
      using 3(3) D [OF that] unfolding ring_nodes_iff by fastforce
    have kept: "dir_entries ?st (es x) = E x" if "x \<in> Ds" for x
    proof -
      have "dir_entries ?st (es x) = dir_entries st (es x)" using new [OF that] by (auto simp: dir_entries_def)
      then show ?thesis using D [OF that] by simp
    qed
    have "dir_entries ?st (?es x) = (E(d := E d @ [(name, ino)])) x" if "x \<in> Ds" for x
      using kept [OF that] by (auto simp: dir_entries_def)
    moreover have "?Q (DirHead (i_private (inodes ?st x))) = Some (map DirEnt (?es x))" if "x \<in> Ds" for x
      using D [OF that] inj_onD [OF inj _ that d] by auto
    moreover have "(\<lambda>d. i_private (inodes ?st d)) = (\<lambda>d. i_private (inodes st d))" by auto
    then have "inj_on (\<lambda>d. i_private (inodes ?st d)) Ds" using inj by (simp only:)
    moreover have "x \<in> fst ` set ((p, sizeof_dirlist) # live) \<or> unat x < s \<or> e \<le> unat x" if "DirEnt x \<in> ring_nodes ?Q" for x
      using ring_nodes_append [OF that Qd] Q(2) by auto
    moreover have "malloc_rep s e h' ((a, l - 56, True) # bs2)" using room 3(1) by simp
    ultimately have "booting s e Ds (l - 56) (E(d := E d @ [(name, ino)])) ?st"
      unfolding booting_def using 3(2,4) D
      by (intro exI [of _ ?Q] exI [of _ ?es] exI [of _ "(p, sizeof_dirlist) # live"] exI [of _ a] exI [of _ bs2]) simp
    then show ?thesis using 3(5) D [OF d] by (simp add: vfs_link_def)
  qed
qed

lemma link_all_booting:
  assumes "booting s e Ds l E st" "d \<in> Ds" "12 + 56 * length xs < l" "\<forall>x\<in>set xs. length (snd x) \<le> NAME_MAX"
  shows "\<exists>st'. link_all d xs st = Some st' \<and>
    booting s e Ds (l - 56 * length xs) (E(d := E d @ map (\<lambda>(i, n). (map chr n, i)) xs)) st'"
  using assms
proof (induction xs arbitrary: l E st)
  case Nil
  then show ?case by simp
next
  case (Cons x xs)
  obtain i n where x: "x = (i, n)" by (cases x)
  obtain st1 where 1: "vfs_link d i (map chr n) st = Some (0, st1)" "booting s e Ds (l - 56) (E(d := E d @ [(map chr n, i)])) st1"
    using vfs_link_booting [OF Cons.prems(1,2), of "map chr n" i] Cons.prems(3,4) x by auto
  have "12 + 56 * length xs < l - 56" "\<forall>x\<in>set xs. length (snd x) \<le> NAME_MAX" using Cons.prems(3,4) by auto
  from Cons.IH [OF 1(2) Cons.prems(2) this] obtain st' where st': "link_all d xs st1 = Some st'"
    "booting s e Ds (l - 56 - 56 * length xs) (E(d := E d @ [(map chr n, i)] @ map (\<lambda>(i, n). (map chr n, i)) xs)) st'"
    by (auto simp del: fun_upd_apply simp: fun_upd_same)
  then show ?case using 1(1) x by (intro exI [of _ st']) (simp add: diff_diff_add del: fun_upd_apply)
qed

text \<open>The root directory has the two static entries, and the others are empty.\<close>

definition boot_dirs :: "fsyms \<Rightarrow> addr set" where
  "boot_dirs sy = {root_inode sy, dev_inode sy, proc_inode sy}"

definition root_entries :: "fsyms \<Rightarrow> addr \<Rightarrow> (u8 list \<times> addr) list" where
  "root_entries sy d = (if d = root_inode sy then [(map chr ''dev'', dev_inode sy), (map chr ''proc'', proc_inode sy)] else [])"

definition dirs_static :: "fsyms \<Rightarrow> fstate \<Rightarrow> bool" where
  "dirs_static sy st \<longleftrightarrow> distinct [root_inode sy, dev_inode sy, proc_inode sy] \<and>
     inj_on (\<lambda>d. i_private (inodes st d)) (boot_dirs sy) \<and>
     (\<forall>d\<in>boot_dirs sy. S_ISDIR (i_mode (inodes st d)) \<and> i_op (inodes st d) = Tmpfs_iops)"

lemma ring_nodes_upd_notin: "n \<notin> ring_nodes Q \<Longrightarrow> n \<notin> set (hn # xs) \<Longrightarrow> n \<notin> ring_nodes (Q(hn \<mapsto> xs))"
  by (auto simp: ring_nodes_iff split: if_splits)

lemma ring_nodes_Map_empty: "n \<notin> ring_nodes Map.empty"
  by (simp add: ring_nodes_iff)

lemma tmpfs_init_lists:
  fixes h :: "fnode links"
  assumes "distinct [r, d, p]" "e0 \<noteq> e1"
  obtains l1 l2 l3 l4 l5 where "INIT_LIST_HEAD h (Node (DirHead r)) = Some l1"
    "list_add_tail l1 (Node (DirEnt e0)) (Node (DirHead r)) = Some l2" "list_add_tail l2 (Node (DirEnt e1)) (Node (DirHead r)) = Some l3"
    "INIT_LIST_HEAD l3 (Node (DirHead d)) = Some l4" "INIT_LIST_HEAD l4 (Node (DirHead p)) = Some l5"
    "lists l5 [DirHead r \<mapsto> [DirEnt e0, DirEnt e1], DirHead d \<mapsto> [], DirHead p \<mapsto> []]"
proof -
  note notin = ring_nodes_upd_notin ring_nodes_Map_empty
  have "lists h Map.empty" by (simp add: lists_def)
  from lists_INIT_LIST_HEAD [OF this, of "DirHead r"] obtain l1 where
    1: "INIT_LIST_HEAD h (Node (DirHead r)) = Some l1" "lists l1 [DirHead r \<mapsto> []]" by (auto simp: notin)
  from lists_list_add_tail [OF 1(2), of "DirHead r" "[]" "DirEnt e0"] obtain l2 where
    2: "list_add_tail l1 (Node (DirEnt e0)) (Node (DirHead r)) = Some l2" "lists l2 [DirHead r \<mapsto> [DirEnt e0]]"
    by (auto simp: notin)
  from lists_list_add_tail [OF 2(2), of "DirHead r" "[DirEnt e0]" "DirEnt e1"] obtain l3 where
    3: "list_add_tail l2 (Node (DirEnt e1)) (Node (DirHead r)) = Some l3" "lists l3 [DirHead r \<mapsto> [DirEnt e0, DirEnt e1]]"
    using assms(2) by (auto simp: notin)
  from lists_INIT_LIST_HEAD [OF 3(2), of "DirHead d"] obtain l4 where
    4: "INIT_LIST_HEAD l3 (Node (DirHead d)) = Some l4" "lists l4 [DirHead r \<mapsto> [DirEnt e0, DirEnt e1], DirHead d \<mapsto> []]"
    using assms(1) by (auto simp: notin)
  from lists_INIT_LIST_HEAD [OF 4(2), of "DirHead p"] obtain l5 where
    5: "INIT_LIST_HEAD l4 (Node (DirHead p)) = Some l5"
      "lists l5 [DirHead r \<mapsto> [DirEnt e0, DirEnt e1], DirHead d \<mapsto> [], DirHead p \<mapsto> []]"
    using assms(1) by (auto simp: notin)
  show ?thesis by (rule that [OF 1(1) 2(1) 3(1) 4(1) 5])
qed

lemma tmpfs_init_booting:
  assumes heap: "malloc_rep s e (kheap (fps st)) [(a, l, True)]" and dirs: "dirs_static sy st"
    and ents: "e0 \<noteq> e1" "unat e0 < s \<or> e \<le> unat e0" "unat e1 < s \<or> e \<le> unat e1"
  shows "\<exists>st'. tmpfs_init sy e0 e1 st = Some st' \<and> booting s e (boot_dirs sy) l (root_entries sy) st'"
proof -
  let ?p = "\<lambda>d. i_private (inodes st d)"
  let ?r = "?p (root_inode sy)" and ?d = "?p (dev_inode sy)" and ?c = "?p (proc_inode sy)"
  have ne: "root_inode sy \<noteq> dev_inode sy" "root_inode sy \<noteq> proc_inode sy" "dev_inode sy \<noteq> proc_inode sy"
    using dirs by (auto simp: dirs_static_def)
  have inj: "inj_on ?p (boot_dirs sy)" using dirs by (simp add: dirs_static_def)
  have "distinct [?r, ?d, ?c]" using ne inj_on_eq_iff [OF inj] by (simp add: boot_dirs_def)
  then obtain l1 l2 l3 l4 l5 where i: "INIT_LIST_HEAD (flinks st) (Node (DirHead ?r)) = Some l1"
    "list_add_tail l1 (Node (DirEnt e0)) (Node (DirHead ?r)) = Some l2" "list_add_tail l2 (Node (DirEnt e1)) (Node (DirHead ?r)) = Some l3"
    "INIT_LIST_HEAD l3 (Node (DirHead ?d)) = Some l4" "INIT_LIST_HEAD l4 (Node (DirHead ?c)) = Some l5"
    "lists l5 [DirHead ?r \<mapsto> [DirEnt e0, DirEnt e1], DirHead ?d \<mapsto> [], DirHead ?c \<mapsto> []]"
    using ents(1) by (rule tmpfs_init_lists)
  let ?Q = "[DirHead ?r \<mapsto> [DirEnt e0, DirEnt e1], DirHead ?d \<mapsto> [], DirHead ?c \<mapsto> []]"
  let ?es = "\<lambda>d. if d = root_inode sy then [e0, e1] else []"
  let ?st = "st\<lparr>dirents := (dirents st)(e0 := \<lparr>dl_inode = dev_inode sy, dl_name = map chr ''dev''\<rparr>,
     e1 := \<lparr>dl_inode = proc_inode sy, dl_name = map chr ''proc''\<rparr>), flinks := l5\<rparr>"
  have "tmpfs_init sy e0 e1 st = Some ?st" using i(1-5) by (simp add: tmpfs_init_def)
  moreover have "heap_ok s e (kheap (fps ?st), [])" using heap by (auto simp: heap_ok_def)
  moreover have "DirEnt p \<in> ring_nodes ?Q \<longrightarrow> p \<in> fst ` set [] \<or> unat p < s \<or> e \<le> unat p" for p
    using ents(2,3) by (auto simp: ring_nodes_iff split: if_splits)
  moreover have "?Q (DirHead (?p d)) = Some (map DirEnt (?es d))" if "d \<in> boot_dirs sy" for d
    using that \<open>distinct [?r, ?d, ?c]\<close> ne by (auto simp: boot_dirs_def)
  moreover have "dir_entries ?st (?es d) = root_entries sy d" for d
    using ents(1) by (simp add: dir_entries_def root_entries_def)
  ultimately have "booting s e (boot_dirs sy) l (root_entries sy) ?st"
    unfolding booting_def using heap i(6) inj dirs
    by (intro exI [of _ ?Q] exI [of _ ?es] exI [of _ "[]"] exI [of _ a]) (auto simp: dirs_static_def)
  then show ?thesis using \<open>tmpfs_init sy e0 e1 st = Some ?st\<close> by blast
qed

lemma init_tmpfs_inode_booting: "booting s e Ds l E st \<Longrightarrow> booting s e Ds l E (init_tmpfs_inode i st)"
  by (erule booting_cong) (auto simp: init_tmpfs_inode_def)

lemma mtdram_init_booting:
  assumes "booting s e (boot_dirs sy) l E st" "68 < l"
  shows "\<exists>st'. mtdram_init sy m dev start sz st = Some st' \<and>
    booting s e (boot_dirs sy) (l - 56) (E(dev_inode sy := E (dev_inode sy) @ [(map chr ''mtd0'', m)])) st'"
proof -
  let ?st = "init_tmpfs_inode m (st\<lparr>mtds := (mtds st)(dev := snd (mtdram_init_device (mtds st dev) start sz (map chr ''mtd0'')))\<rparr>)"
  have "booting s e (boot_dirs sy) l E ?st"
    by (rule init_tmpfs_inode_booting, rule booting_cong [OF assms(1)]) auto
  from vfs_link_booting [OF this, of "dev_inode sy" "map chr ''mtd0''" m] assms(2) show ?thesis
    by (auto simp: mtdram_init_def boot_dirs_def NAME_MAX_def simp del: fun_upd_apply)
qed

text \<open>The entries of the directories when all device files are linked.\<close>

definition named :: "addr list \<Rightarrow> string list \<Rightarrow> (u8 list \<times> addr) list" where
  "named is ns = map (\<lambda>(i, n). (map chr n, i)) (zip is ns)"

definition boot_entries :: "image \<Rightarrow> addr \<Rightarrow> (u8 list \<times> addr) list" where
  "boot_entries im = (root_entries (syms im))(
     proc_inode (syms im) := named (take 2 (proc_inos im)) proc_names,
     dev_inode (syms im) := named (take 4 (mem_inos im)) memdev_names @ [(map chr ''mtd0'', mtd0_ino im)])"

lemma boot_files_booting:
  assumes heap: "malloc_rep s e (kheap (fps st)) [(a, l, True)]" "1024 \<le> l" and dirs: "dirs_static (syms im) st"
    and ents: "root_entry0 im \<noteq> root_entry1 im" "unat (root_entry0 im) < s \<or> e \<le> unat (root_entry0 im)"
      "unat (root_entry1 im) < s \<or> e \<le> unat (root_entry1 im)"
  shows "\<exists>l' st'. boot_files im st = Some st' \<and> l \<le> l' + 392 \<and> booting s e (boot_dirs (syms im)) l' (boot_entries im) st'"
proof -
  let ?sy = "syms im" and ?p = "zip (take 2 (proc_inos im)) proc_names" and ?m = "zip (take 4 (mem_inos im)) memdev_names"
  have dom: "dev_inode ?sy \<in> boot_dirs ?sy" "proc_inode ?sy \<in> boot_dirs ?sy" by (simp_all add: boot_dirs_def)
  have ne: "root_inode ?sy \<noteq> dev_inode ?sy" "root_inode ?sy \<noteq> proc_inode ?sy" "dev_inode ?sy \<noteq> proc_inode ?sy"
    using dirs by (auto simp: dirs_static_def)
  have short: "\<forall>x\<in>set ?p. length (snd x) \<le> NAME_MAX" "\<forall>x\<in>set ?m. length (snd x) \<le> NAME_MAX"
    by (auto dest!: set_zip_rightD simp: proc_names_def memdev_names_def NAME_MAX_def)
  have "length ?p \<le> 2" "length ?m \<le> 4" by simp_all
  then have len: "12 + 56 * length ?p < l" "12 + 56 * length ?m < l - 56 * length ?p" "68 < l - 56 * length ?p - 56 * length ?m"
    using heap(2) by linarith+
  obtain st0 where 0: "tmpfs_init ?sy (root_entry0 im) (root_entry1 im) st = Some st0" "booting s e (boot_dirs ?sy) l (root_entries ?sy) st0"
    using tmpfs_init_booting [OF heap(1) dirs ents] by blast
  let ?E = "(root_entries ?sy)(proc_inode ?sy := named (take 2 (proc_inos im)) proc_names)"
  have "root_entries ?sy (proc_inode ?sy) = []" "?E (dev_inode ?sy) = []" using ne by (simp_all add: root_entries_def)
  note empty = this
  obtain st1 where 1: "proc_init ?sy (proc_inos im) st0 = Some st1" "booting s e (boot_dirs ?sy) (l - 56 * length ?p) ?E st1"
    using link_all_booting [OF 0(2) dom(2) len(1) short(1), unfolded empty(1)] unfolding proc_init_def named_def by auto
  obtain st2 where 2: "memdev_init ?sy (mem_inos im) st1 = Some st2"
    "booting s e (boot_dirs ?sy) (l - 56 * length ?p - 56 * length ?m) (?E(dev_inode ?sy := named (take 4 (mem_inos im)) memdev_names)) st2"
    using link_all_booting [OF 1(2) dom(1) len(2) short(2), unfolded empty(2)] unfolding memdev_init_def named_def by auto
  obtain st3 where 3: "mtdram_init ?sy (mtd0_ino im) (mtdram_dev im) (mtdram_start im) (mtdram_size im) st2 = Some st3"
    "booting s e (boot_dirs ?sy) (l - 56 * length ?p - 56 * length ?m - 56) (boot_entries im) st3"
    using mtdram_init_booting [OF 2(2), of "mtd0_ino im" "mtdram_dev im" "mtdram_start im" "mtdram_size im"] len(3)
    by (auto simp: boot_entries_def simp del: fun_upd_apply simp: fun_upd_same)
  have "l \<le> l - 56 * length ?p - 56 * length ?m - 56 + 392" using \<open>length ?p \<le> 2\<close> \<open>length ?m \<le> 4\<close> len by linarith
  moreover have "boot_files im st = Some st3" using 0(1) 1(1) 2(1) 3(1) by (simp add: boot_files_def)
  ultimately show ?thesis using 3(2) by blast
qed

text \<open>Of the tasks and threads, linking files changes nothing, and of the rest of their state only the heap.\<close>

definition only_heap :: "fstate \<Rightarrow> fstate \<Rightarrow> bool" where
  "only_heap st st' \<longleftrightarrow> (\<exists>h. fps st' = (fps st)\<lparr>kheap := h\<rparr>)"

lemma only_heap_refl: "fps st' = fps st \<Longrightarrow> only_heap st st'"
  unfolding only_heap_def by (rule exI [of _ "kheap (fps st)"]) simp

lemma only_heapI: "fps st' = (fps st)\<lparr>kheap := h\<rparr> \<Longrightarrow> only_heap st st'"
  by (auto simp: only_heap_def)

lemma only_heap_trans: "only_heap a b \<Longrightarrow> only_heap b c \<Longrightarrow> only_heap a c"
  by (auto simp: only_heap_def)

lemma vfs_link_only_heap:
  assumes "vfs_link d i n st = Some (r, st')"
  shows "only_heap st st'"
proof (cases "i_op (inodes st d)")
  case Tmpfs_iops
  then obtain p h where "malloc sizeof_dirlist (kheap (fps st)) = Some (p, h)" "fps st' = (fps st)\<lparr>kheap := h\<rparr>"
    using assms by (auto simp: vfs_link_def tmpfs_link_def fs_malloc_def Let_def bind_eq_Some_conv split: option.splits)
  then show ?thesis by (blast intro: only_heapI)
qed (use assms in \<open>simp add: vfs_link_def only_heap_refl\<close>)

lemma link_all_only_heap: "link_all d xs st = Some st' \<Longrightarrow> only_heap st st'"
proof (induction xs arbitrary: st)
  case (Cons x xs)
  obtain ino name where x: "x = (ino, name)" by (cases x)
  from Cons.prems x obtain r st1 where "vfs_link d ino (map chr name) st = Some (r, st1)" "link_all d xs st1 = Some st'"
    by (auto simp: bind_eq_Some_conv)
  then show ?case using only_heap_trans [OF vfs_link_only_heap Cons.IH] by blast
qed (simp add: only_heap_refl)

lemma mtdram_init_only_heap:
  assumes "mtdram_init sy m dev start sz st = Some st'"
  shows "only_heap st st'"
proof -
  let ?st = "init_tmpfs_inode m (st\<lparr>mtds := (mtds st)(dev := snd (mtdram_init_device (mtds st dev) start sz (map chr ''mtd0'')))\<rparr>)"
  obtain r where "vfs_link (dev_inode sy) m (map chr ''mtd0'') ?st = Some (r, st')"
    using assms by (auto simp: mtdram_init_def bind_eq_Some_conv)
  moreover have "only_heap st ?st" by (simp add: only_heap_refl init_tmpfs_inode_def)
  ultimately show ?thesis using vfs_link_only_heap only_heap_trans by blast
qed

lemma boot_files_only_heap:
  assumes "boot_files im st = Some st'"
  shows "only_heap st st'"
proof -
  from assms obtain s0 s1 s2 where s: "tmpfs_init (syms im) (root_entry0 im) (root_entry1 im) st = Some s0"
    "proc_init (syms im) (proc_inos im) s0 = Some s1" "memdev_init (syms im) (mem_inos im) s1 = Some s2"
    "mtdram_init (syms im) (mtd0_ino im) (mtdram_dev im) (mtdram_start im) (mtdram_size im) s2 = Some st'"
    by (auto simp: boot_files_def bind_eq_Some_conv)
  have "only_heap st s0" using s(1) by (auto simp: tmpfs_init_def bind_eq_Some_conv Let_def only_heap_refl)
  then show ?thesis
    using s(2-4) link_all_only_heap mtdram_init_only_heap only_heap_trans unfolding proc_init_def memdev_init_def by meson
qed

lemma boot_path:
  assumes b: "booting s e (boot_dirs sy) l E st" and d: "map_of (E (root_inode sy)) dn = Some d" "d \<in> boot_dirs sy"
    and n: "map_of (E d) n = Some i" "valid_name dn" "valid_name n"
  shows "inode_from_pathname sy (path_of [dn, n]) st = Some (Some i, st)"
proof -
  obtain p where p: "path_of [dn, n] = slash # p" "path_splits p 0 [dn, n]" using path_of_splits [of "[dn, n]"] n(2,3) by auto
  have "root_inode sy \<in> boot_dirs sy" by (simp add: boot_dirs_def)
  then show ?thesis
    using p(1) inode_walk_names [OF p(2)] booting_lookup [OF b, of "root_inode sy" dn] booting_lookup [OF b d(2), of n] d(1) n(1)
    by (simp add: inode_from_pathname_def)
qed

text \<open>The paths of the files in the two directories.\<close>

lemma boot_names:
  assumes b: "booting s e (boot_dirs (syms im)) l E st'" and E: "\<And>d n i. map_of (boot_entries im d) n = Some i \<Longrightarrow> map_of (E d) n = Some i"
    and dirs: "dirs_static (syms im) st" "length (proc_inos im) = 2" "length (mem_inos im) = 4"
  shows "\<forall>(n, i)\<in>set (zip [''version'', ''meminfo''] (proc_inos im)).
      inode_from_pathname (syms im) (map chr (''/proc/'' @ n)) st' = Some (Some i, st')"
    "\<forall>(n, i)\<in>set (zip [''mem'', ''null'', ''zero'', ''random'', ''mtd0''] (mem_inos im @ [mtd0_ino im])).
      inode_from_pathname (syms im) (map chr (''/dev/'' @ n)) st' = Some (Some i, st')"
proof -
  let ?sy = "syms im"
  have ne: "root_inode ?sy \<noteq> dev_inode ?sy" "root_inode ?sy \<noteq> proc_inode ?sy" "dev_inode ?sy \<noteq> proc_inode ?sy"
    using dirs(1) by (auto simp: dirs_static_def)
  then have root: "map_of (E (root_inode ?sy)) (map chr ''dev'') = Some (dev_inode ?sy)"
    "map_of (E (root_inode ?sy)) (map chr ''proc'') = Some (proc_inode ?sy)"
    by (auto intro!: E simp: boot_entries_def root_entries_def chr_def)
  have valid: "valid_name (map chr n)" if "n \<in> {''dev'', ''proc'', ''version'', ''meminfo'', ''mem'', ''null'', ''zero'', ''random'', ''mtd0''}" for n
    using that by (auto simp: valid_name_def NAME_MAX_def slash_def chr_def)
  have path: "path_of [map chr ''dev'', map chr n] = map chr (''/dev/'' @ n)" "path_of [map chr ''proc'', map chr n] = map chr (''/proc/'' @ n)" for n
    by (simp_all add: path_of_def slash_def)
  obtain p0 p1 where p: "proc_inos im = [p0, p1]" using dirs(2) by (auto simp: numeral_2_eq_2 length_Suc_conv)
  obtain m0 m1 m2 m3 where m: "mem_inos im = [m0, m1, m2, m3]" using dirs(3) by (auto simp: numeral_eq_Suc length_Suc_conv)
  have dom: "dev_inode ?sy \<in> boot_dirs ?sy" "proc_inode ?sy \<in> boot_dirs ?sy" by (simp_all add: boot_dirs_def)
  note walk = boot_path [OF b root(1) dom(1) _ valid valid, unfolded path] boot_path [OF b root(2) dom(2) _ valid valid, unfolded path]
  have proc: "map_of (E (proc_inode ?sy)) (map chr n) = Some i" if "(n, i) \<in> set (zip [''version'', ''meminfo''] (proc_inos im))" for n i
    using that ne p by (auto intro!: E simp: boot_entries_def named_def proc_names_def chr_def)
  have dev: "map_of (E (dev_inode ?sy)) (map chr n) = Some i"
    if "(n, i) \<in> set (zip [''mem'', ''null'', ''zero'', ''random'', ''mtd0''] (mem_inos im @ [mtd0_ino im]))" for n i
    using that ne m by (auto intro!: E simp: boot_entries_def named_def memdev_names_def chr_def)
  show "\<forall>(n, i)\<in>set (zip [''version'', ''meminfo''] (proc_inos im)).
      inode_from_pathname ?sy (map chr (''/proc/'' @ n)) st' = Some (Some i, st')"
    by (clarify, rule walk(2) [OF proc], assumption) (auto dest: set_zip_leftD)
  show "\<forall>(n, i)\<in>set (zip [''mem'', ''null'', ''zero'', ''random'', ''mtd0''] (mem_inos im @ [mtd0_ino im])).
      inode_from_pathname ?sy (map chr (''/dev/'' @ n)) st' = Some (Some i, st')"
    by (clarify, rule walk(1) [OF dev], assumption) (auto dest: set_zip_leftD)
qed

end
