(* ===== verification/Hlist.thy ===== *)
theory Hlist
  imports List_Iter
begin

text \<open>
  The lists with a single-pointer head of \<^verbatim>\<open>include/linux/list.h\<close> (\<^verbatim>\<open>struct hlist_head\<close> and
  \<^verbatim>\<open>struct hlist_node\<close> of \<^verbatim>\<open>include/linux/types.h\<close>). The back pointer \<^verbatim>\<open>pprev\<close> of a node is the
  address of the pointer that points to the node: the field \<^verbatim>\<open>first\<close> of a head or the field
  \<^verbatim>\<open>next\<close> of another node. These pointer cells are the values of \<open>hslot\<close>, and a write through
  \<^verbatim>\<open>pprev\<close> is a write to the cell it names. A dereference of the null pointer or of a poison
  value is a fault, the result \<open>None\<close>.

  \<open>hlists h Q\<close> says that the heads of \<open>Q\<close> carry disjoint chains with consistent back
  pointers. Every routine succeeds on such a heap and has the effect on \<open>Q\<close> its name
  promises; the last section puts them together: any permitted sequence of operations
  refines the same sequence on plain lists.
\<close>

section \<open>Pointer cells\<close>

datatype ('h, 'n) hslot = First 'h | Next 'n

datatype 'n hptr = HNull | HNode 'n | HPoison

datatype ('h, 'n) pptr = PNull | PSlot "('h, 'n) hslot" | PPoison

record ('h, 'n) hheap =
  hcell :: "('h, 'n) hslot \<Rightarrow> 'n hptr"
  hpprev :: "'n \<Rightarrow> ('h, 'n) pptr"

definition rd_hnext :: "('h, 'n) hheap \<Rightarrow> 'n hptr \<Rightarrow> 'n hptr option" where
  "rd_hnext h p = (case p of HNode n \<Rightarrow> Some (hcell h (Next n)) | _ \<Rightarrow> None)"

definition wr_hnext :: "('h, 'n) hheap \<Rightarrow> 'n hptr \<Rightarrow> 'n hptr \<Rightarrow> ('h, 'n) hheap option" where
  "wr_hnext h p v = (case p of HNode n \<Rightarrow> Some (h\<lparr>hcell := (hcell h)(Next n := v)\<rparr>) | _ \<Rightarrow> None)"

definition rd_pprev :: "('h, 'n) hheap \<Rightarrow> 'n hptr \<Rightarrow> ('h, 'n) pptr option" where
  "rd_pprev h p = (case p of HNode n \<Rightarrow> Some (hpprev h n) | _ \<Rightarrow> None)"

definition wr_pprev :: "('h, 'n) hheap \<Rightarrow> 'n hptr \<Rightarrow> ('h, 'n) pptr \<Rightarrow> ('h, 'n) hheap option" where
  "wr_pprev h p v = (case p of HNode n \<Rightarrow> Some (h\<lparr>hpprev := (hpprev h)(n := v)\<rparr>) | _ \<Rightarrow> None)"

definition wr_slot :: "('h, 'n) hheap \<Rightarrow> ('h, 'n) pptr \<Rightarrow> 'n hptr \<Rightarrow> ('h, 'n) hheap option" where
  "wr_slot h pp v = (case pp of PSlot c \<Rightarrow> Some (h\<lparr>hcell := (hcell h)(c := v)\<rparr>) | _ \<Rightarrow> None)"

text \<open>The address of the field \<^verbatim>\<open>next\<close> of the node a pointer points to.\<close>

definition next_field :: "'n hptr \<Rightarrow> ('h, 'n) pptr" where
  "next_field p = (case p of HNode n \<Rightarrow> PSlot (Next n) | _ \<Rightarrow> PNull)"

lemma hptr_access [simp]:
  "rd_hnext h (HNode n) = Some (hcell h (Next n))" "rd_hnext h HNull = None" "rd_hnext h HPoison = None"
  "wr_hnext h (HNode n) v = Some (h\<lparr>hcell := (hcell h)(Next n := v)\<rparr>)"
  "rd_pprev h (HNode n) = Some (hpprev h n)"
  "wr_pprev h (HNode n) pp = Some (h\<lparr>hpprev := (hpprev h)(n := pp)\<rparr>)"
  "wr_slot h (PSlot c) v = Some (h\<lparr>hcell := (hcell h)(c := v)\<rparr>)" "wr_slot h PNull v = None" "wr_slot h PPoison v = None"
  "next_field (HNode n) = PSlot (Next n)"
  by (simp_all add: rd_hnext_def wr_hnext_def rd_pprev_def wr_pprev_def wr_slot_def next_field_def)

section \<open>The routines\<close>

text \<open>\<^verbatim>\<open>INIT_HLIST_HEAD\<close>; the initialisers \<^verbatim>\<open>HLIST_HEAD_INIT\<close> and \<^verbatim>\<open>HLIST_HEAD\<close> give the same value.\<close>

definition INIT_HLIST_HEAD :: "('h, 'n) hheap \<Rightarrow> 'h \<Rightarrow> ('h, 'n) hheap" where
  "INIT_HLIST_HEAD h a = h\<lparr>hcell := (hcell h)(First a := HNull)\<rparr>"

definition INIT_HLIST_NODE :: "('h, 'n) hheap \<Rightarrow> 'n hptr \<Rightarrow> ('h, 'n) hheap option" where
  "INIT_HLIST_NODE h n = do { h \<leftarrow> wr_hnext h n HNull; wr_pprev h n PNull }"

definition hlist_unhashed :: "('h, 'n) hheap \<Rightarrow> 'n hptr \<Rightarrow> bool option" where
  "hlist_unhashed h n = do { pp \<leftarrow> rd_pprev h n; Some (pp = PNull) }"

definition hlist_empty :: "('h, 'n) hheap \<Rightarrow> 'h \<Rightarrow> bool" where
  "hlist_empty h a \<longleftrightarrow> hcell h (First a) = HNull"

definition hlist_unlink :: "('h, 'n) hheap \<Rightarrow> 'n hptr \<Rightarrow> ('h, 'n) hheap option" where
  "hlist_unlink h n = do {
     nxt \<leftarrow> rd_hnext h n;
     pp \<leftarrow> rd_pprev h n;
     h \<leftarrow> wr_slot h pp nxt;
     if nxt \<noteq> HNull then wr_pprev h nxt pp else Some h }"

definition hlist_del :: "('h, 'n) hheap \<Rightarrow> 'n hptr \<Rightarrow> ('h, 'n) hheap option" where
  "hlist_del h n = do {
     h \<leftarrow> hlist_unlink h n;
     h \<leftarrow> wr_hnext h n HPoison;
     wr_pprev h n PPoison }"

definition hlist_del_init :: "('h, 'n) hheap \<Rightarrow> 'n hptr \<Rightarrow> ('h, 'n) hheap option" where
  "hlist_del_init h n = do {
     u \<leftarrow> hlist_unhashed h n;
     if \<not> u then do { h \<leftarrow> hlist_unlink h n; INIT_HLIST_NODE h n } else Some h }"

definition hlist_add_head :: "('h, 'n) hheap \<Rightarrow> 'n hptr \<Rightarrow> 'h \<Rightarrow> ('h, 'n) hheap option" where
  "hlist_add_head h n a = do {
     let first = hcell h (First a);
     h \<leftarrow> wr_hnext h n first;
     h \<leftarrow> (if first \<noteq> HNull then wr_pprev h first (next_field n) else Some h);
     h \<leftarrow> wr_slot h (PSlot (First a)) n;
     wr_pprev h n (PSlot (First a)) }"

definition hlist_add_before :: "('h, 'n) hheap \<Rightarrow> 'n hptr \<Rightarrow> 'n hptr \<Rightarrow> ('h, 'n) hheap option" where
  "hlist_add_before h n nxt = do {
     pp \<leftarrow> rd_pprev h nxt;
     h \<leftarrow> wr_pprev h n pp;
     h \<leftarrow> wr_hnext h n nxt;
     h \<leftarrow> wr_pprev h nxt (next_field n);
     pp \<leftarrow> rd_pprev h n;
     wr_slot h pp n }"

definition hlist_add_behind :: "('h, 'n) hheap \<Rightarrow> 'n hptr \<Rightarrow> 'n hptr \<Rightarrow> ('h, 'n) hheap option" where
  "hlist_add_behind h n prv = do {
     nxt \<leftarrow> rd_hnext h prv;
     h \<leftarrow> wr_hnext h n nxt;
     h \<leftarrow> wr_hnext h prv n;
     h \<leftarrow> wr_pprev h n (next_field prv);
     nxt \<leftarrow> rd_hnext h n;
     if nxt \<noteq> HNull then wr_pprev h nxt (next_field n) else Some h }"

definition hlist_add_fake :: "('h, 'n) hheap \<Rightarrow> 'n hptr \<Rightarrow> ('h, 'n) hheap option" where
  "hlist_add_fake h n = wr_pprev h n (next_field n)"

definition hlist_fake :: "('h, 'n) hheap \<Rightarrow> 'n hptr \<Rightarrow> bool option" where
  "hlist_fake h n = do { pp \<leftarrow> rd_pprev h n; Some (pp = next_field n) }"

definition hlist_move_list :: "('h, 'n) hheap \<Rightarrow> 'h \<Rightarrow> 'h \<Rightarrow> ('h, 'n) hheap option" where
  "hlist_move_list h old new = do {
     h \<leftarrow> wr_slot h (PSlot (First new)) (hcell h (First old));
     h \<leftarrow> (if hcell h (First new) \<noteq> HNull then wr_pprev h (hcell h (First new)) (PSlot (First new)) else Some h);
     wr_slot h (PSlot (First old)) HNull }"

section \<open>Chains\<close>

text \<open>
  \<open>hseg h c xs\<close>: starting with the cell \<open>c\<close>, the pointers run through \<open>xs\<close> and the back pointer
  of each names the cell it was reached by. \<open>end_cell c xs\<close> is the cell behind the last one.
\<close>

fun hseg :: "('h, 'n) hheap \<Rightarrow> ('h, 'n) hslot \<Rightarrow> 'n list \<Rightarrow> bool" where
  "hseg h c [] = True"
| "hseg h c (x # xs) = (hcell h c = HNode x \<and> hpprev h x = PSlot c \<and> hseg h (Next x) xs)"

definition end_cell :: "('h, 'n) hslot \<Rightarrow> 'n list \<Rightarrow> ('h, 'n) hslot" where
  "end_cell c xs = (if xs = [] then c else Next (last xs))"

definition hchain :: "('h, 'n) hheap \<Rightarrow> ('h, 'n) hslot \<Rightarrow> 'n list \<Rightarrow> bool" where
  "hchain h c xs \<longleftrightarrow> hseg h c xs \<and> hcell h (end_cell c xs) = HNull"

definition hnodes :: "('h \<rightharpoonup> 'n list) \<Rightarrow> 'n set" where
  "hnodes Q = {n. \<exists>a xs. Q a = Some xs \<and> n \<in> set xs}"

definition hlists :: "('h, 'n) hheap \<Rightarrow> ('h \<rightharpoonup> 'n list) \<Rightarrow> bool" where
  "hlists h Q \<longleftrightarrow> (\<forall>a xs. Q a = Some xs \<longrightarrow> distinct xs \<and> hchain h (First a) xs) \<and>
     (\<forall>a b xs ys. Q a = Some xs \<longrightarrow> Q b = Some ys \<longrightarrow> a \<noteq> b \<longrightarrow> set xs \<inter> set ys = {})"

text \<open>The heaps differ at most in the heads \<open>A\<close> and the nodes \<open>N\<close>.\<close>

definition hsame :: "'h set \<Rightarrow> 'n set \<Rightarrow> ('h, 'n) hheap \<Rightarrow> ('h, 'n) hheap \<Rightarrow> bool" where
  "hsame A N h h' \<longleftrightarrow> (\<forall>a. a \<notin> A \<longrightarrow> hcell h' (First a) = hcell h (First a)) \<and>
     (\<forall>n. n \<notin> N \<longrightarrow> hcell h' (Next n) = hcell h (Next n) \<and> hpprev h' n = hpprev h n)"

lemma end_cell_simps [simp]:
  "end_cell c [] = c" "end_cell c (x # xs) = end_cell (Next x) xs" "end_cell c (xs @ [x]) = Next x"
  by (auto simp: end_cell_def)

lemma end_cell_append: "end_cell c (xs @ ys) = end_cell (end_cell c xs) ys"
  by (auto simp: end_cell_def)

lemma hseg_append: "hseg h c (xs @ ys) \<longleftrightarrow> hseg h c xs \<and> hseg h (end_cell c xs) ys"
  by (induction xs arbitrary: c) auto

lemma hchain_append: "hchain h c (xs @ ys) \<longleftrightarrow> hseg h c xs \<and> hchain h (end_cell c xs) ys"
  by (auto simp: hchain_def hseg_append end_cell_append)

lemma hchain_simps [simp]:
  "hchain h c [] \<longleftrightarrow> hcell h c = HNull"
  "hchain h c (x # xs) \<longleftrightarrow> hcell h c = HNode x \<and> hpprev h x = PSlot c \<and> hchain h (Next x) xs"
  by (auto simp: hchain_def)

lemma hseg_cong:
  assumes "xs \<noteq> [] \<Longrightarrow> hcell h' c = hcell h c"
    and "\<And>x. x \<in> set (butlast xs) \<Longrightarrow> hcell h' (Next x) = hcell h (Next x)"
    and "\<And>x. x \<in> set xs \<Longrightarrow> hpprev h' x = hpprev h x"
  shows "hseg h' c xs \<longleftrightarrow> hseg h c xs"
  using assms
proof (induction xs arbitrary: c)
  case (Cons x xs)
  have "hseg h' (Next x) xs \<longleftrightarrow> hseg h (Next x) xs"
    by (rule Cons.IH) (use Cons.prems in \<open>(cases xs; simp)+\<close>)
  with Cons.prems show ?case by simp
qed simp

text \<open>The cells a segment depends on do not include the one behind its end.\<close>

lemma hseg_end:
  assumes "distinct xs" "\<And>n. c \<noteq> Next n" "\<And>d. d \<noteq> end_cell c xs \<Longrightarrow> d \<in> insert c (Next ` set xs) \<Longrightarrow> hcell h' d = hcell h d"
    and "\<And>x. x \<in> set xs \<Longrightarrow> hpprev h' x = hpprev h x"
  shows "hseg h' c xs \<longleftrightarrow> hseg h c xs"
proof (rule hseg_cong)
  show "hcell h' (Next x) = hcell h (Next x)" if "x \<in> set (butlast xs)" for x
    using that assms(1) assms(3) [of "Next x"] by (cases xs rule: rev_cases) force+
qed (use assms in \<open>auto simp: end_cell_def\<close>)

lemma hchain_cong:
  assumes "hcell h' c = hcell h c"
    and "\<And>x. x \<in> set xs \<Longrightarrow> hcell h' (Next x) = hcell h (Next x) \<and> hpprev h' x = hpprev h x"
  shows "hchain h' c xs \<longleftrightarrow> hchain h c xs"
  using assms by (induction xs arbitrary: c) auto

lemma hchain_frame:
  "hchain h (First a) xs \<Longrightarrow> hsame A N h h' \<Longrightarrow> a \<notin> A \<Longrightarrow> N \<inter> set xs = {} \<Longrightarrow> hchain h' (First a) xs"
  by (subst hchain_cong [of h' _ h]) (auto simp: hsame_def)

section \<open>Families of chains\<close>

lemma hlistsD: "hlists h Q \<Longrightarrow> Q a = Some xs \<Longrightarrow> distinct xs \<and> hchain h (First a) xs"
  by (simp add: hlists_def)

lemma hnodes_iff: "n \<in> hnodes Q \<longleftrightarrow> (\<exists>a xs. Q a = Some xs \<and> n \<in> set xs)"
  by (simp add: hnodes_def)

text \<open>The chains at the heads \<open>D\<close> are exchanged; the nodes involved lie in \<open>N\<close>, which no other chain meets.\<close>

lemma hlists_change:
  assumes "hlists h Q" "hsame D N h h'"
    and keep: "\<And>b. b \<notin> D \<Longrightarrow> Q' b = Q b"
    and new: "\<And>b ys. b \<in> D \<Longrightarrow> Q' b = Some ys \<Longrightarrow> distinct ys \<and> hchain h' (First b) ys \<and> set ys \<subseteq> N"
    and off: "\<And>b ys. b \<notin> D \<Longrightarrow> Q b = Some ys \<Longrightarrow> N \<inter> set ys = {}"
    and dis: "\<And>a b xs ys. a \<in> D \<Longrightarrow> b \<in> D \<Longrightarrow> a \<noteq> b \<Longrightarrow> Q' a = Some xs \<Longrightarrow> Q' b = Some ys \<Longrightarrow> set xs \<inter> set ys = {}"
  shows "hlists h' Q'"
  unfolding hlists_def
proof (rule conjI; intro allI impI)
  fix b ys assume b: "Q' b = Some ys"
  show "distinct ys \<and> hchain h' (First b) ys"
  proof (cases "b \<in> D")
    case False
    with b have "Q b = Some ys" using keep by simp
    with hlistsD [OF assms(1)] off [OF False] assms(2) False show ?thesis
      using hchain_frame by metis
  qed (use new b in blast)
next
  fix a b xs ys assume ab: "Q' a = Some xs" "Q' b = Some ys" "a \<noteq> b"
  have old: "Q c = Some zs" if "Q' c = Some zs" "c \<notin> D" for c zs using that keep by simp
  consider "a \<in> D" "b \<in> D" | "a \<in> D" "b \<notin> D" | "a \<notin> D" "b \<in> D" | "a \<notin> D" "b \<notin> D" by blast
  then show "set xs \<inter> set ys = {}"
  proof cases
    case 1 then show ?thesis using dis ab by blast
  next
    case 2 then show ?thesis using new off old ab by blast
  next
    case 3 then show ?thesis using new off old ab by blast
  next
    case 4 then show ?thesis using assms(1) old ab unfolding hlists_def by blast
  qed
qed

lemma hlists_update:
  assumes "hlists h Q" "Q a = Some xs" "hchain h' (First a) xs'" "distinct xs'"
    and "hsame {a} (set xs \<union> F) h h'" "set xs' \<subseteq> set xs \<union> F" "F \<inter> hnodes Q = {}"
  shows "hlists h' (Q(a \<mapsto> xs'))"
proof (rule hlists_change [OF assms(1,5)])
  show "(set xs \<union> F) \<inter> set ys = {}" if "b \<notin> {a}" "Q b = Some ys" for b ys
  proof -
    have "set xs \<inter> set ys = {}" using assms(1,2) that unfolding hlists_def by blast
    moreover have "set ys \<subseteq> hnodes Q" using that unfolding hnodes_iff subset_iff by blast
    ultimately show ?thesis using assms(7) by blast
  qed
qed (use assms in auto)

lemma hlists_hlist_empty: "hlists h Q \<Longrightarrow> Q a = Some xs \<Longrightarrow> hlist_empty h a \<longleftrightarrow> xs = []"
  using hlistsD [of h Q a xs] by (cases xs) (auto simp: hlist_empty_def)

lemma hlists_INIT_HLIST_HEAD:
  assumes "hlists h Q"
  shows "hlists (INIT_HLIST_HEAD h a) (Q(a \<mapsto> []))"
  by (rule hlists_change [OF assms, of "{a}" "{}"]) (auto simp: hsame_def INIT_HLIST_HEAD_def)

section \<open>Insertion\<close>

lemma hlists_hlist_add_head:
  assumes "hlists h Q" "Q a = Some xs" "n \<notin> hnodes Q"
  shows "\<exists>h'. hlist_add_head h (HNode n) a = Some h' \<and> hlists h' (Q(a \<mapsto> n # xs))"
proof -
  have n: "n \<notin> set xs" using assms(2,3) by (auto simp: hnodes_iff)
  have c: "distinct xs" "hchain h (First a) xs" using hlistsD [OF assms(1,2)] by auto
  define h' where "h' = h\<lparr>hcell := (hcell h)(Next n := hcell h (First a), First a := HNode n),
    hpprev := (case xs of [] \<Rightarrow> (hpprev h)(n := PSlot (First a))
              | x # _ \<Rightarrow> (hpprev h)(x := PSlot (Next n), n := PSlot (First a)))\<rparr>"
  have run: "hlist_add_head h (HNode n) a = Some h'"
    using c(2) by (cases xs) (auto simp: hlist_add_head_def h'_def)
  have h': "hcell h' = (hcell h)(Next n := hcell h (First a), First a := HNode n)"
      "hpprev h' = (case xs of [] \<Rightarrow> (hpprev h)(n := PSlot (First a))
                   | x # _ \<Rightarrow> (hpprev h)(x := PSlot (Next n), n := PSlot (First a)))"
    by (simp_all add: h'_def)
  have "hchain h' (First a) (n # xs)"
  proof (cases xs)
    case (Cons x ys)
    then have "hchain h' (Next x) ys" using c n by (subst hchain_cong [of _ _ h]) (auto simp: h')
    with Cons c n show ?thesis by (auto simp: h')
  qed (use c n in \<open>auto simp: h'\<close>)
  moreover have "hsame {a} (set xs \<union> {n}) h h'" by (auto simp: hsame_def h' split: list.splits)
  ultimately have "hlists h' (Q(a \<mapsto> n # xs))"
    using c(1) n assms(3) by (intro hlists_update [OF assms(1,2), of _ _ "{n}"]) auto
  with run show ?thesis by blast
qed

lemma hlists_hlist_add_before:
  assumes "hlists h Q" "Q a = Some (ys @ x # zs)" "n \<notin> hnodes Q"
  shows "\<exists>h'. hlist_add_before h (HNode n) (HNode x) = Some h' \<and> hlists h' (Q(a \<mapsto> ys @ n # x # zs))"
proof -
  let ?c = "end_cell (First a) ys"
  have n: "n \<notin> set (ys @ x # zs)" using assms(2,3) unfolding hnodes_iff by blast
  have d: "distinct (ys @ x # zs)" and c: "hseg h (First a) ys" "hcell h ?c = HNode x" "hpprev h x = PSlot ?c"
      "hchain h (Next x) zs"
    using hlistsD [OF assms(1,2)] by (auto simp: hchain_append)
  have e: "?c \<in> insert (First a) (Next ` set ys)" by (auto simp: end_cell_def)
  let ?h = "h\<lparr>hcell := (hcell h)(Next n := HNode x, ?c := HNode n),
              hpprev := (hpprev h)(n := PSlot ?c, x := PSlot (Next n))\<rparr>"
  have "hseg ?h (First a) ys"
    using c(1) d n by (subst hseg_end [of _ _ _ h]) auto
  moreover have "hchain ?h (Next x) zs"
    using c(4) d n e by (subst hchain_cong [of _ _ h]) auto
  ultimately have "hchain ?h (First a) (ys @ n # x # zs)"
    using n e by (auto simp: hchain_append)
  moreover have "hlist_add_before h (HNode n) (HNode x) = Some ?h"
    using c(3) n by (auto simp: hlist_add_before_def)
  moreover have "hsame {a} (set (ys @ x # zs) \<union> {n}) h ?h" using e by (auto simp: hsame_def)
  ultimately show ?thesis
    using hlists_update [OF assms(1,2), of ?h "ys @ n # x # zs" "{n}"] d n assms(3) by auto
qed

lemma hlists_hlist_add_behind:
  assumes "hlists h Q" "Q a = Some (ys @ x # zs)" "n \<notin> hnodes Q"
  shows "\<exists>h'. hlist_add_behind h (HNode n) (HNode x) = Some h' \<and> hlists h' (Q(a \<mapsto> ys @ x # n # zs))"
proof -
  have n: "n \<notin> set (ys @ x # zs)" using assms(2,3) unfolding hnodes_iff by blast
  have d: "distinct (ys @ x # zs)" and c: "hseg h (First a) (ys @ [x])" "hchain h (Next x) zs"
    using hlistsD [OF assms(1,2)] by (auto simp: hchain_append hseg_append)
  define h' where "h' = h\<lparr>hcell := (hcell h)(Next n := hcell h (Next x), Next x := HNode n),
    hpprev := (case zs of [] \<Rightarrow> (hpprev h)(n := PSlot (Next x))
              | z # _ \<Rightarrow> (hpprev h)(n := PSlot (Next x), z := PSlot (Next n)))\<rparr>"
  have run: "hlist_add_behind h (HNode n) (HNode x) = Some h'"
    using c(2) n d by (cases zs) (auto simp: hlist_add_behind_def h'_def)
  have h': "hcell h' = (hcell h)(Next n := hcell h (Next x), Next x := HNode n)"
      "hpprev h' = (case zs of [] \<Rightarrow> (hpprev h)(n := PSlot (Next x))
                   | z # _ \<Rightarrow> (hpprev h)(n := PSlot (Next x), z := PSlot (Next n)))"
    by (simp_all add: h'_def)
  have "hseg h' (First a) (ys @ [x])"
    using c(1) d n by (subst hseg_end [of _ _ _ h]) (auto simp: h' split: list.splits)
  moreover have "hchain h' (Next n) zs"
  proof (cases zs)
    case (Cons z us)
    then have "hchain h' (Next z) us" using c d n by (subst hchain_cong [of _ _ h]) (auto simp: h')
    with Cons c d n show ?thesis by (auto simp: h')
  qed (use c d n in \<open>auto simp: h'\<close>)
  moreover have "hcell h' (Next x) = HNode n" "hpprev h' n = PSlot (Next x)"
    using n d by (auto simp: h' split: list.splits)
  ultimately have "hchain h' (First a) ((ys @ [x]) @ n # zs)"
    by (subst hchain_append) simp
  moreover have "hsame {a} (set (ys @ x # zs) \<union> {n}) h h'" by (auto simp: hsame_def h' split: list.splits)
  ultimately show ?thesis
    using hlists_update [OF assms(1,2), of h' "ys @ x # n # zs" "{n}"] run d n assms(3) by auto
qed

section \<open>Deletion\<close>

lemma hlists_hlist_unlink:
  assumes "hlists h Q" "Q a = Some (ys @ n # zs)"
  shows "\<exists>h'. hlist_unlink h (HNode n) = Some h' \<and> hlists h' (Q(a \<mapsto> ys @ zs)) \<and> n \<notin> hnodes (Q(a \<mapsto> ys @ zs))"
proof -
  let ?c = "end_cell (First a) ys"
  have d: "distinct (ys @ n # zs)" and c: "hseg h (First a) ys" "hcell h ?c = HNode n" "hpprev h n = PSlot ?c"
      "hchain h (Next n) zs"
    using hlistsD [OF assms(1,2)] by (auto simp: hchain_append)
  have e: "?c \<in> insert (First a) (Next ` set ys)" by (auto simp: end_cell_def)
  define h' where "h' = h\<lparr>hcell := (hcell h)(?c := hcell h (Next n)),
    hpprev := (case zs of [] \<Rightarrow> hpprev h | z # _ \<Rightarrow> (hpprev h)(z := PSlot ?c))\<rparr>"
  have run: "hlist_unlink h (HNode n) = Some h'"
    using c(3,4) by (cases zs) (auto simp: hlist_unlink_def h'_def)
  have h': "hcell h' = (hcell h)(?c := hcell h (Next n))"
      "hpprev h' = (case zs of [] \<Rightarrow> hpprev h | z # _ \<Rightarrow> (hpprev h)(z := PSlot ?c))"
    by (simp_all add: h'_def)
  have "hseg h' (First a) ys"
    using c(1) d by (subst hseg_end [of _ _ _ h]) (auto simp: h' split: list.splits)
  moreover have "hchain h' ?c zs"
  proof (cases zs)
    case (Cons z us)
    then have "hchain h' (Next z) us" using c d e by (subst hchain_cong [of _ _ h]) (auto simp: h')
    with Cons c d show ?thesis by (auto simp: h')
  qed (use c d in \<open>auto simp: h'\<close>)
  ultimately have "hchain h' (First a) (ys @ zs)" by (simp add: hchain_append)
  moreover have "hsame {a} (set (ys @ n # zs) \<union> {}) h h'" using e by (auto simp: hsame_def h' split: list.splits)
  ultimately have "hlists h' (Q(a \<mapsto> ys @ zs))"
    using hlists_update [OF assms(1,2), of h' "ys @ zs" "{}"] d by auto
  moreover have "n \<notin> hnodes (Q(a \<mapsto> ys @ zs))"
  proof -
    have "n \<notin> set xs" if "Q b = Some xs" "b \<noteq> a" for b xs
      using assms that unfolding hlists_def by (metis disjoint_iff in_set_conv_decomp)
    with d show ?thesis by (auto simp: hnodes_iff split: if_splits)
  qed
  ultimately show ?thesis using run by blast
qed

lemma hlists_frame_node:
  assumes "hlists h Q" "n \<notin> hnodes Q" "hsame {} {n} h h'"
  shows "hlists h' Q"
  by (rule hlists_change [OF assms(1,3)]) (use assms(2) in \<open>auto simp: hnodes_iff\<close>)

lemma in_split_remove1:
  assumes "distinct xs" "n \<in> set xs"
  obtains ys zs where "xs = ys @ n # zs" "remove1 n xs = ys @ zs"
proof -
  obtain ys zs where "xs = ys @ n # zs" using assms(2) by (meson split_list)
  with assms(1) that show thesis by (simp add: remove1_append)
qed

lemma hlists_unlink_member:
  assumes "hlists h Q" "Q a = Some xs" "n \<in> set xs"
  shows "\<exists>h'. hlist_unlink h (HNode n) = Some h' \<and> hlists h' (Q(a \<mapsto> remove1 n xs)) \<and>
    n \<notin> hnodes (Q(a \<mapsto> remove1 n xs))"
proof -
  obtain ys zs where "xs = ys @ n # zs" "remove1 n xs = ys @ zs"
    using in_split_remove1 hlistsD [OF assms(1,2)] assms(3) by metis
  with hlists_hlist_unlink [OF assms(1)] assms(2) show ?thesis by metis
qed

lemma hlists_hlist_del:
  assumes "hlists h Q" "Q a = Some xs" "n \<in> set xs"
  shows "\<exists>h'. hlist_del h (HNode n) = Some h' \<and> hlists h' (Q(a \<mapsto> remove1 n xs)) \<and>
    hcell h' (Next n) = HPoison \<and> hpprev h' n = PPoison"
proof -
  obtain h1 where h1: "hlist_unlink h (HNode n) = Some h1" "hlists h1 (Q(a \<mapsto> remove1 n xs))"
      "n \<notin> hnodes (Q(a \<mapsto> remove1 n xs))"
    using hlists_unlink_member [OF assms] by blast
  let ?h = "h1\<lparr>hcell := (hcell h1)(Next n := HPoison), hpprev := (hpprev h1)(n := PPoison)\<rparr>"
  have "hlists ?h (Q(a \<mapsto> remove1 n xs))"
    using h1(2,3) by (rule hlists_frame_node) (auto simp: hsame_def)
  with h1(1) show ?thesis by (simp add: hlist_del_def)
qed

text \<open>
  \<^verbatim>\<open>hlist_del_init\<close> may be called on a node that is on no list, if it was initialised: it then
  does nothing.
\<close>

lemma hlists_hlist_del_init:
  assumes "hlists h Q" "Q a = Some xs" "n \<in> set xs"
  shows "\<exists>h'. hlist_del_init h (HNode n) = Some h' \<and> hlists h' (Q(a \<mapsto> remove1 n xs)) \<and>
    hlist_unhashed h' (HNode n) = Some True"
proof -
  obtain h1 where h1: "hlist_unlink h (HNode n) = Some h1" "hlists h1 (Q(a \<mapsto> remove1 n xs))"
      "n \<notin> hnodes (Q(a \<mapsto> remove1 n xs))"
    using hlists_unlink_member [OF assms] by blast
  obtain ys zs where "xs = ys @ n # zs" using assms(3) by (meson split_list)
  then have "hpprev h n \<noteq> PNull" using hlistsD [OF assms(1,2)] by (simp add: hchain_append)
  let ?h = "h1\<lparr>hcell := (hcell h1)(Next n := HNull), hpprev := (hpprev h1)(n := PNull)\<rparr>"
  have "hlists ?h (Q(a \<mapsto> remove1 n xs))"
    using h1(2,3) by (rule hlists_frame_node) (auto simp: hsame_def)
  with h1(1) \<open>hpprev h n \<noteq> PNull\<close> show ?thesis
    by (simp add: hlist_del_init_def hlist_unhashed_def INIT_HLIST_NODE_def)
qed

lemma hlist_del_init_unhashed:
  "hlist_unhashed h (HNode n) = Some True \<Longrightarrow> hlist_del_init h (HNode n) = Some h"
  by (simp add: hlist_del_init_def)

text \<open>The comment of \<^verbatim>\<open>hlist_add_fake\<close>: the node then counts as hashed, and deleting it works.\<close>

lemma hlist_fake_del:
  assumes "INIT_HLIST_NODE h (HNode n) = Some h1" "hlist_add_fake h1 (HNode n) = Some h2"
  shows "hlist_fake h2 (HNode n) = Some True" "hlist_unhashed h2 (HNode n) = Some False"
    and "hlist_del_init h2 (HNode n) = Some h1" "hlist_del h2 (HNode n) \<noteq> None"
  using assms
  by (auto simp: INIT_HLIST_NODE_def hlist_add_fake_def hlist_fake_def hlist_unhashed_def hlist_del_init_def
      hlist_del_def hlist_unlink_def)

section \<open>Moving a list\<close>

lemma hlists_hlist_move_list:
  assumes "hlists h Q" "Q old = Some xs" "new \<noteq> old"
  shows "\<exists>h'. hlist_move_list h old new = Some h' \<and> hlists h' (Q(new \<mapsto> xs, old \<mapsto> []))"
proof -
  have d: "distinct xs" "hchain h (First old) xs" using hlistsD [OF assms(1,2)] by auto
  define h' where "h' = h\<lparr>hcell := (hcell h)(First new := hcell h (First old), First old := HNull),
    hpprev := (case xs of [] \<Rightarrow> hpprev h | x # _ \<Rightarrow> (hpprev h)(x := PSlot (First new)))\<rparr>"
  have run: "hlist_move_list h old new = Some h'"
    using d(2) assms(3) by (cases xs) (auto simp: hlist_move_list_def h'_def)
  have "hchain h' (First new) xs"
  proof (cases xs)
    case (Cons x ys)
    then have "hchain h' (Next x) ys" using d by (subst hchain_cong [of _ _ h]) (auto simp: h'_def)
    with Cons d assms(3) show ?thesis by (auto simp: h'_def)
  qed (use d assms(3) in \<open>auto simp: h'_def\<close>)
  moreover have "hsame {new, old} (set xs) h h'" by (auto simp: hsame_def h'_def split: list.splits)
  moreover have "hcell h' (First old) = HNull" by (simp add: h'_def)
  ultimately have "hlists h' (Q(new \<mapsto> xs, old \<mapsto> []))"
  proof (intro hlists_change [OF assms(1), of "{new, old}" "set xs"])
    show "set xs \<inter> set ys = {}" if "b \<notin> {new, old}" "Q b = Some ys" for b ys
      using assms(1,2) that unfolding hlists_def by blast
  qed (use d(1) assms(3) in \<open>auto split: if_splits\<close>)
  with run show ?thesis by blast
qed

text \<open>Moving a list onto itself loses it: the head is cleared last.\<close>

lemma hlist_move_list_self:
  assumes "hlists h Q" "Q a = Some xs"
  shows "\<exists>h'. hlist_move_list h a a = Some h' \<and> hlist_empty h' a"
  using hlistsD [OF assms] by (cases xs) (auto simp: hlist_move_list_def hlist_empty_def)

section \<open>Iteration\<close>

text \<open>
  A cursor is a node for the plain macros and an entry, the structure around the node, for
  the others; \<open>entry\<close> turns the pointer read from a link field into the cursor.
\<close>

partial_function (option) hlist_loop ::
    "('n hptr \<Rightarrow> 'n hptr) \<Rightarrow> ('s \<Rightarrow> ('h, 'n) hheap) \<Rightarrow> ('n hptr \<Rightarrow> 's \<Rightarrow> 's option) \<Rightarrow> 'n hptr \<Rightarrow> 's \<Rightarrow> 's option" where
  "hlist_loop entry lk body pos s =
     (if pos = HNull then Some s
      else Option.bind (body pos s) (\<lambda>s.
           Option.bind (rd_hnext (lk s) pos) (\<lambda>p. hlist_loop entry lk body (entry p) s)))"

partial_function (option) hlist_loop_safe ::
    "('n hptr \<Rightarrow> 'n hptr) \<Rightarrow> ('s \<Rightarrow> ('h, 'n) hheap) \<Rightarrow> ('n hptr \<Rightarrow> 's \<Rightarrow> 's option) \<Rightarrow> 'n hptr \<Rightarrow> 's \<Rightarrow> 's option" where
  "hlist_loop_safe entry lk body pos s =
     (if pos = HNull then Some s
      else Option.bind (rd_hnext (lk s) pos) (\<lambda>n.
           Option.bind (body pos s) (\<lambda>s. hlist_loop_safe entry lk body (entry n) s)))"

declare hlist_loop.simps [code] hlist_loop_safe.simps [code]

text \<open>
  \<^verbatim>\<open>hlist_entry_safe\<close> maps the null pointer to itself and subtracts the offset of the member from any other, so
  that with entries named by their link field it is the identity.
\<close>

definition hlist_entry_safe :: "'n hptr \<Rightarrow> 'n hptr" where
  "hlist_entry_safe p = (if p \<noteq> HNull then p else HNull)"

definition hlist_for_each :: "('s \<Rightarrow> ('h, 'n) hheap) \<Rightarrow> ('n hptr \<Rightarrow> 's \<Rightarrow> 's option) \<Rightarrow> 'h \<Rightarrow> 's \<Rightarrow> 's option" where
  "hlist_for_each lk body head s = hlist_loop (\<lambda>p. p) lk body (hcell (lk s) (First head)) s"

definition hlist_for_each_safe :: "('s \<Rightarrow> ('h, 'n) hheap) \<Rightarrow> ('n hptr \<Rightarrow> 's \<Rightarrow> 's option) \<Rightarrow> 'h \<Rightarrow> 's \<Rightarrow> 's option" where
  "hlist_for_each_safe lk body head s = hlist_loop_safe (\<lambda>p. p) lk body (hcell (lk s) (First head)) s"

definition hlist_for_each_entry :: "('s \<Rightarrow> ('h, 'n) hheap) \<Rightarrow> ('n hptr \<Rightarrow> 's \<Rightarrow> 's option) \<Rightarrow> 'h \<Rightarrow> 's \<Rightarrow> 's option" where
  "hlist_for_each_entry lk body head s = hlist_loop hlist_entry_safe lk body (hlist_entry_safe (hcell (lk s) (First head))) s"

definition hlist_for_each_entry_continue ::
    "('s \<Rightarrow> ('h, 'n) hheap) \<Rightarrow> ('n hptr \<Rightarrow> 's \<Rightarrow> 's option) \<Rightarrow> 'n hptr \<Rightarrow> 's \<Rightarrow> 's option" where
  "hlist_for_each_entry_continue lk body pos s = do {
     p \<leftarrow> rd_hnext (lk s) pos; hlist_loop hlist_entry_safe lk body (hlist_entry_safe p) s }"

definition hlist_for_each_entry_from ::
    "('s \<Rightarrow> ('h, 'n) hheap) \<Rightarrow> ('n hptr \<Rightarrow> 's \<Rightarrow> 's option) \<Rightarrow> 'n hptr \<Rightarrow> 's \<Rightarrow> 's option" where
  "hlist_for_each_entry_from lk body pos s = hlist_loop hlist_entry_safe lk body pos s"

definition hlist_for_each_entry_safe ::
    "('s \<Rightarrow> ('h, 'n) hheap) \<Rightarrow> ('n hptr \<Rightarrow> 's \<Rightarrow> 's option) \<Rightarrow> 'h \<Rightarrow> 's \<Rightarrow> 's option" where
  "hlist_for_each_entry_safe lk body head s =
     hlist_loop_safe hlist_entry_safe lk body (hlist_entry_safe (hcell (lk s) (First head))) s"

lemma hlist_entry_safe_id: "hlist_entry_safe = (\<lambda>p. p)"
  by (rule ext) (simp add: hlist_entry_safe_def)

lemma hlist_loop_fold:
  assumes "\<And>p s s'. body p s = Some s' \<Longrightarrow> lk s' = lk s" "hchain (lk s) c xs"
  shows "hlist_loop (\<lambda>p. p) lk body (hcell (lk s) c) s = fold_opt (\<lambda>x. body (HNode x)) xs s"
  using assms(2)
proof (induction xs arbitrary: c s)
  case Nil
  then show ?case by (subst hlist_loop.simps) simp
next
  case (Cons x xs)
  show ?case
  proof (cases "body (HNode x) s")
    case None
    with Cons.prems show ?thesis by (subst hlist_loop.simps) simp
  next
    case (Some s')
    with assms(1) have "lk s' = lk s" by blast
    with Cons.IH [of s' "Next x"] Cons.prems Some show ?thesis
      by (subst hlist_loop.simps) simp
  qed
qed

lemma hlist_for_each_fold:
  assumes "\<And>p s s'. body p s = Some s' \<Longrightarrow> lk s' = lk s" "hlists (lk s) Q" "Q a = Some xs"
  shows "hlist_for_each lk body a s = fold_opt (\<lambda>x. body (HNode x)) xs s"
    and "hlist_for_each_entry lk body a s = fold_opt (\<lambda>x. body (HNode x)) xs s"
  using hlistsD [OF assms(2,3)] hlist_loop_fold [where lk = lk, OF assms(1)]
  by (simp_all add: hlist_for_each_def hlist_for_each_entry_def hlist_entry_safe_id)

lemma hlist_for_each_from_fold:
  assumes "\<And>p s s'. body p s = Some s' \<Longrightarrow> lk s' = lk s" "hlists (lk s) Q" "Q a = Some (ys @ x # zs)"
  shows "hlist_for_each_entry_continue lk body (HNode x) s = fold_opt (\<lambda>x. body (HNode x)) zs s"
    and "hlist_for_each_entry_from lk body (HNode x) s = fold_opt (\<lambda>x. body (HNode x)) (x # zs) s"
proof -
  have c: "hchain (lk s) (Next x) zs" "hcell (lk s) (end_cell (First a) ys) = HNode x"
      "hchain (lk s) (end_cell (First a) ys) (x # zs)"
    using hlistsD [OF assms(2,3)] by (simp_all add: hchain_append)
  show "hlist_for_each_entry_continue lk body (HNode x) s = fold_opt (\<lambda>x. body (HNode x)) zs s"
    using hlist_loop_fold [where lk = lk, OF assms(1) c(1)] by (simp add: hlist_entry_safe_id hlist_for_each_entry_continue_def)
  show "hlist_for_each_entry_from lk body (HNode x) s = fold_opt (\<lambda>x. body (HNode x)) (x # zs) s"
    using hlist_loop_fold [where lk = lk, OF assms(1) c(3)] c(2) by (simp add: hlist_entry_safe_id hlist_for_each_entry_from_def)
qed

text \<open>Deleting the selected entries while the loop runs.\<close>

definition hprune_body ::
    "('n \<Rightarrow> bool) \<Rightarrow> 'n hptr \<Rightarrow> ('h, 'n) hheap \<times> 'n list \<Rightarrow> (('h, 'n) hheap \<times> 'n list) option" where
  "hprune_body P pos s = (case (pos, s) of
     (HNode x, h, vs) \<Rightarrow> do { h \<leftarrow> (if P x then hlist_del h pos else Some h); Some (h, vs @ [x]) }
   | _ \<Rightarrow> None)"

lemma hprune_step:
  assumes "hlists h (Q(a \<mapsto> ys @ x # zs))"
  shows "\<exists>h'. hprune_body P (HNode x) (h, vs) = Some (h', vs @ [x]) \<and>
    hlists h' (Q(a \<mapsto> ys @ filter (\<lambda>x. \<not> P x) [x] @ zs))"
proof (cases "P x")
  case True
  have "x \<notin> set ys" using hlistsD [OF assms, of a] by simp
  then have "remove1 x (ys @ x # zs) = ys @ zs" by (simp add: remove1_append)
  with True hlists_hlist_del [OF assms, of a _ x] show ?thesis by (auto simp: hprune_body_def)
qed (use assms in \<open>auto simp: hprune_body_def\<close>)

lemma hlist_safe_prune:
  assumes "hlists h (Q(a \<mapsto> ys @ xs))"
  shows "\<exists>h'. hlist_loop_safe (\<lambda>p. p) fst (hprune_body P) (hcell h (end_cell (First a) ys)) (h, vs) = Some (h', vs @ xs) \<and>
    hlists h' (Q(a \<mapsto> ys @ filter (\<lambda>x. \<not> P x) xs))"
  using assms
proof (induction xs arbitrary: ys h vs)
  case Nil
  have "hcell h (end_cell (First a) ys) = HNull"
    using hlistsD [OF Nil, of a] by (simp add: hchain_def)
  with Nil show ?case by (subst hlist_loop_safe.simps) (simp del: fun_upd_apply)
next
  case (Cons x xs)
  obtain h1 where h1: "hprune_body P (HNode x) (h, vs) = Some (h1, vs @ [x])"
      "hlists h1 (Q(a \<mapsto> (ys @ filter (\<lambda>x. \<not> P x) [x]) @ xs))"
    using hprune_step [OF Cons.prems, of P vs] by auto
  let ?ys = "ys @ filter (\<lambda>x. \<not> P x) [x]"
  have c: "hcell h (end_cell (First a) ys) = HNode x" "hchain h (Next x) xs"
    using hlistsD [OF Cons.prems, of a] by (simp_all add: hchain_append)
  have "hcell h1 (end_cell (First a) ?ys) = (case xs of [] \<Rightarrow> HNull | z # _ \<Rightarrow> HNode z)"
    using hlistsD [OF h1(2), of a] by (cases xs) (simp_all add: hchain_append split: if_splits)
  then have "hcell h1 (end_cell (First a) ?ys) = hcell h (Next x)"
    using c(2) by (cases xs) simp_all
  with Cons.IH [OF h1(2), of "vs @ [x]"] h1(1) c(1) show ?case
    by (subst hlist_loop_safe.simps, cases "P x") (simp_all add: fun_upd_def)
qed

lemma hlist_for_each_entry_safe_prune:
  assumes "hlists h Q" "Q a = Some xs"
  shows "\<exists>h'. hlist_for_each_entry_safe fst (hprune_body P) a (h, []) = Some (h', xs) \<and>
    hlists h' (Q(a \<mapsto> filter (\<lambda>x. \<not> P x) xs))"
    and "hlist_for_each_safe fst (hprune_body P) a (h, []) = hlist_for_each_entry_safe fst (hprune_body P) a (h, [])"
proof -
  have "Q(a \<mapsto> xs) = Q" using assms(2) by auto
  with hlist_safe_prune [of h Q a "[]" xs P "[]"] assms(1)
  show "\<exists>h'. hlist_for_each_entry_safe fst (hprune_body P) a (h, []) = Some (h', xs) \<and>
    hlists h' (Q(a \<mapsto> filter (\<lambda>x. \<not> P x) xs))"
    by (simp add: hlist_entry_safe_id hlist_for_each_entry_safe_def)
qed (simp add: hlist_for_each_safe_def hlist_for_each_entry_safe_def hlist_entry_safe_id)

section \<open>Refinement of plain lists\<close>

text \<open>An operation on the lists, what it does to them, and when it is permitted.\<close>

datatype ('h, 'n) hop = Add_head 'n 'h | Add_before 'n 'n | Add_behind 'n 'n | Del_init 'n | Del 'n | Move_list 'h 'h

fun hop_run :: "('h, 'n) hop \<Rightarrow> ('h, 'n) hheap \<Rightarrow> ('h, 'n) hheap option" where
  "hop_run (Add_head n a) h = hlist_add_head h (HNode n) a"
| "hop_run (Add_before n x) h = hlist_add_before h (HNode n) (HNode x)"
| "hop_run (Add_behind n x) h = hlist_add_behind h (HNode n) (HNode x)"
| "hop_run (Del_init n) h = hlist_del_init h (HNode n)"
| "hop_run (Del n) h = hlist_del h (HNode n)"
| "hop_run (Move_list a b) h = hlist_move_list h a b"

definition splice_at :: "'n \<Rightarrow> 'n list \<Rightarrow> 'n list \<Rightarrow> 'n list" where
  "splice_at x us xs = concat (map (\<lambda>y. if y = x then us else [y]) xs)"

fun hop_spec :: "('h, 'n) hop \<Rightarrow> ('h \<rightharpoonup> 'n list) \<Rightarrow> ('h \<rightharpoonup> 'n list)" where
  "hop_spec (Add_head n a) Q = Q(a := map_option ((#) n) (Q a))"
| "hop_spec (Add_before n x) Q = map_option (splice_at x [n, x]) \<circ> Q"
| "hop_spec (Add_behind n x) Q = map_option (splice_at x [x, n]) \<circ> Q"
| "hop_spec (Del_init n) Q = map_option (splice_at n []) \<circ> Q"
| "hop_spec (Del n) Q = map_option (splice_at n []) \<circ> Q"
| "hop_spec (Move_list a b) Q = Q(b := Q a, a \<mapsto> [])"

fun hop_ok :: "('h, 'n) hop \<Rightarrow> ('h \<rightharpoonup> 'n list) \<Rightarrow> bool" where
  "hop_ok (Add_head n a) Q \<longleftrightarrow> n \<notin> hnodes Q \<and> a \<in> dom Q"
| "hop_ok (Add_before n x) Q \<longleftrightarrow> n \<notin> hnodes Q \<and> x \<in> hnodes Q"
| "hop_ok (Add_behind n x) Q \<longleftrightarrow> n \<notin> hnodes Q \<and> x \<in> hnodes Q"
| "hop_ok (Del_init n) Q \<longleftrightarrow> n \<in> hnodes Q"
| "hop_ok (Del n) Q \<longleftrightarrow> n \<in> hnodes Q"
| "hop_ok (Move_list a b) Q \<longleftrightarrow> a \<noteq> b \<and> a \<in> dom Q"

fun hops_ok :: "('h, 'n) hop list \<Rightarrow> ('h \<rightharpoonup> 'n list) \<Rightarrow> bool" where
  "hops_ok [] Q = True"
| "hops_ok (p # ps) Q \<longleftrightarrow> hop_ok p Q \<and> hops_ok ps (hop_spec p Q)"

lemma splice_at_notin: "x \<notin> set xs \<Longrightarrow> splice_at x us xs = xs"
  by (induction xs) (auto simp: splice_at_def)

lemma splice_at_split: "x \<notin> set ys \<Longrightarrow> x \<notin> set zs \<Longrightarrow> splice_at x us (ys @ x # zs) = ys @ us @ zs"
  using splice_at_notin [of x ys us] splice_at_notin [of x zs us] by (simp add: splice_at_def)

text \<open>The chain a node is on, and the effect of \<open>splice_at\<close> on the family.\<close>

lemma hnodes_locate:
  assumes "hlists h Q" "x \<in> hnodes Q"
  obtains a ys zs where "Q a = Some (ys @ x # zs)" "remove1 x (ys @ x # zs) = ys @ zs"
    and "\<And>us. map_option (splice_at x us) \<circ> Q = Q(a \<mapsto> ys @ us @ zs)"
proof -
  obtain a xs where a: "Q a = Some xs" "x \<in> set xs" using assms(2) by (auto simp: hnodes_iff)
  have d: "distinct xs" using hlistsD [OF assms(1) a(1)] by simp
  obtain ys zs where s: "xs = ys @ x # zs" "remove1 x xs = ys @ zs" using d a(2) by (rule in_split_remove1)
  have "x \<notin> set ws" if "Q b = Some ws" "b \<noteq> a" for b ws
    using assms(1) a that unfolding hlists_def by (metis disjoint_iff)
  then have "map_option (splice_at x us) \<circ> Q = Q(a \<mapsto> ys @ us @ zs)" for us
    using a(1) s(1) d by (intro ext) (auto simp: splice_at_split splice_at_notin map_option_case split: option.splits)
  moreover have "Q a = Some (ys @ x # zs)" "remove1 x (ys @ x # zs) = ys @ zs" using a s by simp_all
  ultimately show thesis using that by blast
qed

lemma hop_refines:
  assumes "hlists h Q" "hop_ok p Q"
  shows "\<exists>h'. hop_run p h = Some h' \<and> hlists h' (hop_spec p Q)"
proof (cases p)
  case (Add_head n a)
  then show ?thesis using assms hlists_hlist_add_head [of h Q a _ n] by auto
next
  case (Add_before n x)
  then obtain a ys zs where "Q a = Some (ys @ x # zs)"
      "\<And>us. map_option (splice_at x us) \<circ> Q = Q(a \<mapsto> ys @ us @ zs)"
    using hnodes_locate [OF assms(1), of x] assms(2) by (metis hop_ok.simps)
  with Add_before assms hlists_hlist_add_before [of h Q a ys x zs n] show ?thesis by simp
next
  case (Add_behind n x)
  then obtain a ys zs where "Q a = Some (ys @ x # zs)"
      "\<And>us. map_option (splice_at x us) \<circ> Q = Q(a \<mapsto> ys @ us @ zs)"
    using hnodes_locate [OF assms(1), of x] assms(2) by (metis hop_ok.simps)
  with Add_behind assms hlists_hlist_add_behind [of h Q a ys x zs n] show ?thesis by simp
next
  case (Del_init n)
  then obtain a ys zs where "Q a = Some (ys @ n # zs)" "remove1 n (ys @ n # zs) = ys @ zs"
      "\<And>us. map_option (splice_at n us) \<circ> Q = Q(a \<mapsto> ys @ us @ zs)"
    using hnodes_locate [OF assms(1), of n] assms(2) by (metis hop_ok.simps)
  with Del_init hlists_hlist_del_init [OF assms(1), of a "ys @ n # zs" n] show ?thesis by auto
next
  case (Del n)
  then obtain a ys zs where "Q a = Some (ys @ n # zs)" "remove1 n (ys @ n # zs) = ys @ zs"
      "\<And>us. map_option (splice_at n us) \<circ> Q = Q(a \<mapsto> ys @ us @ zs)"
    using hnodes_locate [OF assms(1), of n] assms(2) by (metis hop_ok.simps)
  with Del hlists_hlist_del [OF assms(1), of a "ys @ n # zs" n] show ?thesis by auto
next
  case (Move_list a b)
  then show ?thesis using assms hlists_hlist_move_list [of h Q a _ b] by auto
qed

text \<open>
  C6. The hash lists refine plain lists: from a well-formed heap, any sequence of insertions at the head, before and
  behind a node, of deletions and of moves of whole lists, each permitted when it is reached, runs without a fault,
  and the heap then represents the result of the same sequence on lists, with every back pointer right again.
\<close>

theorem hlist_ops_refine:
  assumes "hlists h Q" "hops_ok ps Q"
  shows "\<exists>h'. fold_opt hop_run ps h = Some h' \<and> hlists h' (fold hop_spec ps Q)"
  using assms
proof (induction ps arbitrary: h Q)
  case (Cons p ps)
  then show ?case using hop_refines [of h Q p] by fastforce
qed simp

definition demo_hheap :: "(bool, nat) hheap" where
  "demo_hheap = \<lparr>hcell = (\<lambda>_. HNull), hpprev = (\<lambda>_. PNull)\<rparr>"

theorem hlist_ops_refine_witness:
  "\<exists>h'. fold_opt hop_run [Add_head 1 False, Add_head 2 False, Add_before 3 1, Move_list False True, Del 2] demo_hheap = Some h' \<and>
    hlists h' [True \<mapsto> [3, 1], False \<mapsto> []]"
proof -
  let ?Q = "[False \<mapsto> [], True \<mapsto> []] :: bool \<rightharpoonup> nat list"
  let ?ps = "[Add_head 1 False, Add_head 2 False, Add_before 3 1, Move_list False True, Del (2 :: nat)]"
  have "hlists demo_hheap ?Q" by (auto simp: hlists_def demo_hheap_def split: if_splits)
  moreover have "hops_ok ?ps ?Q" by (auto simp: hnodes_def splice_at_def split: if_splits)
  moreover have "fold hop_spec ?ps ?Q = [True \<mapsto> [3, 1], False \<mapsto> []]" by (rule ext) (simp add: splice_at_def)
  ultimately show ?thesis using hlist_ops_refine [of demo_hheap ?Q ?ps] by simp
qed



end
