(* ===== verification/Faults.thy ===== *)
theory Faults
  imports Printk
begin

text \<open>
  The fault handlers: \<^verbatim>\<open>arch/v7m-faults.c\<close> and \<^verbatim>\<open>kernel/faults.c\<close>. A handler prints a banner, the registers that the
  exception entry pushed (\<open>tregs\<close>, at the address \<open>sp\<close>) and those that the assembly entry saved (\<open>kregs\<close>), and
  halts the machine. The usage fault handler reads the configurable fault status register, whose value is the
  argument \<open>cfsr\<close>. The lemmas give the text that reaches the serial port and show that the machine is halted.
\<close>

section \<open>The code\<close>

record kregs =
  r4_r12 :: "nat \<Rightarrow> u32"
  kr_lr :: u32

record tregs =
  r0_r3_r12 :: "nat \<Rightarrow> u32"
  tr_lr :: u32
  tr_ret_addr :: u32
  tr_xpsr :: u32

record fault_state =
  f_con :: console
  f_halted :: bool

definition f_printk :: "u8 list \<Rightarrow> varg list \<Rightarrow> fault_state \<Rightarrow> fault_state option" where
  "f_printk fmt args st = do { (_, con) \<leftarrow> printk fmt args (f_con st); Some (st\<lparr>f_con := con\<rparr>) }"

definition platform_halt :: "fault_state \<Rightarrow> fault_state" where
  "platform_halt st = st\<lparr>f_halted := True\<rparr>"

definition fault_rule :: string where
  "fault_rule = ''-------------------------------------------------------------''"

definition fault_enter :: "u8 list \<Rightarrow> fault_state \<Rightarrow> fault_state option" where
  "fault_enter s st = do {
     st \<leftarrow> f_printk (10 # map chr fault_rule @ [10]) [] st;
     f_printk (map chr '' #%s'' @ [10, 10]) [Arg_str s] st }"

definition fault_exit :: "fault_state \<Rightarrow> fault_state option" where
  "fault_exit st = do {
     st \<leftarrow> f_printk (map chr fault_rule @ [10]) [] st;
     Some (platform_halt st) }"

definition dump_frame :: "kregs \<Rightarrow> addr \<Rightarrow> tregs \<Rightarrow> u32 \<Rightarrow> fault_state \<Rightarrow> fault_state option" where
  "dump_frame noscratch sp scratch exc_return st = do {
     st \<leftarrow> f_printk (map chr '' r0: %08x    r1: %08x    r2: %08x    r3: %08x'' @ [10])
       [Arg_int (r0_r3_r12 scratch 0), Arg_int (r0_r3_r12 scratch 1), Arg_int (r0_r3_r12 scratch 2),
        Arg_int (r0_r3_r12 scratch 3)] st;
     st \<leftarrow> f_printk (map chr '' r4: %08x    r5: %08x    r6: %08x    r7: %08x'' @ [10])
       [Arg_int (r4_r12 noscratch 0), Arg_int (r4_r12 noscratch 1), Arg_int (r4_r12 noscratch 2),
        Arg_int (r4_r12 noscratch 3)] st;
     st \<leftarrow> f_printk (map chr '' r8: %08x    r9: %08x   r10: %08x   r11: %08x'' @ [10])
       [Arg_int (r4_r12 noscratch 4), Arg_int (r4_r12 noscratch 5), Arg_int (r4_r12 noscratch 6),
        Arg_int (r4_r12 noscratch 7)] st;
     st \<leftarrow> f_printk (map chr ''r12: %08x    sp: %08x    lr: %08x    pc: %08x'' @ [10])
       [Arg_int (r0_r3_r12 scratch 4), Arg_int sp, Arg_int (tr_lr scratch), Arg_int (tr_ret_addr scratch)] st;
     f_printk (10 # map chr ''EXC_RETURN: %08x'' @ [10]) [Arg_int exc_return] st }"

definition UFSR_DIVBYZERO :: u32 where "UFSR_DIVBYZERO = push_bit 9 1"
definition UFSR_UNALIGNED :: u32 where "UFSR_UNALIGNED = push_bit 8 1"
definition UFSR_NOCP :: u32 where "UFSR_NOCP = push_bit 3 1"
definition UFSR_INVPC :: u32 where "UFSR_INVPC = push_bit 2 1"
definition UFSR_INVSTATE :: u32 where "UFSR_INVSTATE = push_bit 1 1"
definition UFSR_UNDEFINSTR :: u32 where "UFSR_UNDEFINSTR = 1"

definition ufsr_cause :: "u32 \<Rightarrow> string option" where
  "ufsr_cause ufsr =
     (if ufsr AND UFSR_DIVBYZERO \<noteq> 0 then Some ''DIVBYZERO''
      else if ufsr AND UFSR_UNALIGNED \<noteq> 0 then Some ''UNALIGNED''
      else if ufsr AND UFSR_NOCP \<noteq> 0 then Some ''NOCP''
      else if ufsr AND UFSR_INVPC \<noteq> 0 then Some ''INVPC''
      else if ufsr AND UFSR_INVSTATE \<noteq> 0 then Some ''INVSTATE''
      else if ufsr AND UFSR_UNDEFINSTR \<noteq> 0 then Some ''UNDEFINSTR''
      else None)"

definition usagefault :: "u32 \<Rightarrow> kregs \<Rightarrow> addr \<Rightarrow> tregs \<Rightarrow> u32 \<Rightarrow> fault_state \<Rightarrow> fault_state option" where
  "usagefault cfsr noscratch sp scratch exc_return st = do {
     let ufsr = drop_bit 16 cfsr;
     st \<leftarrow> fault_enter (map chr ''UsageFault'') st;
     st \<leftarrow> dump_frame noscratch sp scratch exc_return st;
     st \<leftarrow> (case ufsr_cause ufsr of
         Some cause \<Rightarrow> f_printk (map chr ''      ufsr: %08x  <%s>'' @ [10]) [Arg_int ufsr, Arg_str (map chr cause)] st
       | None \<Rightarrow> f_printk (map chr ''      ufsr: %08x'' @ [10]) [Arg_int ufsr] st);
     fault_exit st }"

definition busfault :: "kregs \<Rightarrow> addr \<Rightarrow> tregs \<Rightarrow> u32 \<Rightarrow> fault_state \<Rightarrow> fault_state option" where
  "busfault noscratch sp scratch exc_return st = do {
     st \<leftarrow> fault_enter (map chr ''BusFault'') st;
     st \<leftarrow> dump_frame noscratch sp scratch exc_return st;
     fault_exit st }"

definition memmanage :: "kregs \<Rightarrow> addr \<Rightarrow> tregs \<Rightarrow> u32 \<Rightarrow> fault_state \<Rightarrow> fault_state option" where
  "memmanage noscratch sp scratch exc_return st = do {
     st \<leftarrow> fault_enter (map chr ''MemManage'') st;
     st \<leftarrow> dump_frame noscratch sp scratch exc_return st;
     fault_exit st }"

definition hardfault :: "kregs \<Rightarrow> addr \<Rightarrow> tregs \<Rightarrow> u32 \<Rightarrow> fault_state \<Rightarrow> fault_state option" where
  "hardfault noscratch sp scratch exc_return st = do {
     st \<leftarrow> fault_enter (map chr ''HardFault'') st;
     st \<leftarrow> dump_frame noscratch sp scratch exc_return st;
     fault_exit st }"

section \<open>What is printed\<close>

text \<open>The text \<open>out\<close> reaches the port, with a carriage return before each newline; nothing else changes but the buffer.\<close>

definition prints :: "u8 list \<Rightarrow> fault_state \<Rightarrow> fault_state \<Rightarrow> bool" where
  "prints out st st' \<longleftrightarrow> con_out (f_con st') = con_out (f_con st) @ concat (map printk_putchar out) \<and> f_halted st' = f_halted st"

lemma prints_trans: "prints o1 st s \<Longrightarrow> prints o2 s s' \<Longrightarrow> prints (o1 @ o2) st s'"
  by (simp add: prints_def)

definition lits :: "string \<Rightarrow> item list" where
  "lits s = map (\<lambda>c. Lit (chr c)) s"

lemma lits_items [simp]:
  "concat (map item_fmt (lits s)) = map chr s" "concat (map item_args (lits s)) = []" "concat (map item_out (lits s)) = map chr s"
  by (induction s) (auto simp: lits_def)

lemma items_ok_lits: "\<forall>c\<in>set s. chr c \<noteq> 0 \<and> chr c \<noteq> 37 \<Longrightarrow> items_ok p (lits s @ its) \<longleftrightarrow> items_ok p its"
  by (induction s) (auto simp: lits_def plain_num_def wide_num_def chr_codes)

lemma f_printk_items:
  assumes "items_ok False its" "out = concat (map item_out its)" "length out < 256"
    and "fmt = concat (map item_fmt its)" "args = concat (map item_args its)"
  shows "\<exists>st'. f_printk fmt args st = Some st' \<and> prints out st st'"
  using printk_items [OF assms, of "f_con st"] by (auto simp: f_printk_def prints_def)

definition hex8 :: "u32 \<Rightarrow> u8 list" where
  "hex8 v = pad_left 48 8 (num_str 16 (sint v))"

lemma hex8_length [simp]: "length (hex8 v) = 8"
  using num_str_hex_length [of v] by (simp add: hex8_def)

text \<open>One line of the dump: four names and four registers.\<close>

definition reg_line :: "string \<Rightarrow> string \<Rightarrow> string \<Rightarrow> string \<Rightarrow> u32 \<Rightarrow> u32 \<Rightarrow> u32 \<Rightarrow> u32 \<Rightarrow> u8 list" where
  "reg_line n1 n2 n3 n4 a b c d =
     map chr n1 @ hex8 a @ map chr n2 @ hex8 b @ map chr n3 @ hex8 c @ map chr n4 @ hex8 d @ [10]"

lemma reg_line_prints:
  assumes "fmt = map chr (n1 @ ''%08x'' @ n2 @ ''%08x'' @ n3 @ ''%08x'' @ n4 @ ''%08x'') @ [10]"
    and "\<forall>ch\<in>set (n1 @ n2 @ n3 @ n4). chr ch \<noteq> 0 \<and> chr ch \<noteq> 37" "length (n1 @ n2 @ n3 @ n4) \<le> 60"
  shows "\<exists>st'. f_printk fmt [Arg_int a, Arg_int b, Arg_int c, Arg_int d] st = Some st' \<and>
    prints (reg_line n1 n2 n3 n4 a b c d) st st'"
proof (rule f_printk_items)
  let ?its = "lits n1 @ Zhex a # lits n2 @ Zhex b # lits n3 @ Zhex c # lits n4 @ [Zhex d, Lit 10]"
  show "items_ok False ?its" using assms(2) by (simp add: items_ok_lits plain_num_def chr_codes)
  show "reg_line n1 n2 n3 n4 a b c d = concat (map item_out ?its)" by (simp add: reg_line_def hex8_def)
  show "length (reg_line n1 n2 n3 n4 a b c d) < 256" using assms(3) by (simp add: reg_line_def)
  show "fmt = concat (map item_fmt ?its)" by (simp add: assms(1))
qed simp

definition frame_text :: "kregs \<Rightarrow> addr \<Rightarrow> tregs \<Rightarrow> u32 \<Rightarrow> u8 list" where
  "frame_text ns sp sc exc_return =
     reg_line '' r0: '' ''    r1: '' ''    r2: '' ''    r3: ''
       (r0_r3_r12 sc 0) (r0_r3_r12 sc 1) (r0_r3_r12 sc 2) (r0_r3_r12 sc 3) @
     reg_line '' r4: '' ''    r5: '' ''    r6: '' ''    r7: '' (r4_r12 ns 0) (r4_r12 ns 1) (r4_r12 ns 2) (r4_r12 ns 3) @
     reg_line '' r8: '' ''    r9: '' ''   r10: '' ''   r11: '' (r4_r12 ns 4) (r4_r12 ns 5) (r4_r12 ns 6) (r4_r12 ns 7) @
     reg_line ''r12: '' ''    sp: '' ''    lr: '' ''    pc: '' (r0_r3_r12 sc 4) sp (tr_lr sc) (tr_ret_addr sc) @
     10 # map chr ''EXC_RETURN: '' @ hex8 exc_return @ [10]"

text \<open>Chaining the parts of a report.\<close>

lemma prints_bind:
  assumes "\<exists>s. f st = Some s \<and> prints o1 st s" "\<And>s. \<exists>s'. g s = Some s' \<and> prints o2 s s'"
  shows "\<exists>s'. Option.bind (f st) g = Some s' \<and> prints (o1 @ o2) st s'"
proof -
  obtain s where s: "f st = Some s" "prints o1 st s" using assms(1) by blast
  obtain s' where s': "g s = Some s'" "prints o2 s s'" using assms(2) by blast
  from prints_trans [OF s(2) s'(2)] s(1) s'(1) show ?thesis by simp
qed

lemma dump_frame_prints:
  "\<exists>st'. dump_frame ns sp sc exc_return st = Some st' \<and> prints (frame_text ns sp sc exc_return) st st'"
  unfolding dump_frame_def frame_text_def
proof (intro prints_bind)
  show "\<exists>s. f_printk (10 # map chr ''EXC_RETURN: %08x'' @ [10]) [Arg_int exc_return] st = Some s \<and>
      prints (10 # map chr ''EXC_RETURN: '' @ hex8 exc_return @ [10]) st s" for st
  proof (rule f_printk_items)
    let ?its = "Lit 10 # lits ''EXC_RETURN: '' @ [Zhex exc_return, Lit 10]"
    show "items_ok False ?its" by (simp add: items_ok_lits plain_num_def wide_num_def chr_def)
    show "10 # map chr ''EXC_RETURN: '' @ hex8 exc_return @ [10] = concat (map item_out ?its)" by (simp add: hex8_def)
    show "10 # map chr ''EXC_RETURN: %08x'' @ [10] = concat (map item_fmt ?its)" by simp
  qed simp_all
qed (rule reg_line_prints; simp add: chr_def)+

definition banner :: "u8 list \<Rightarrow> u8 list" where
  "banner name = 10 # map chr fault_rule @ [10] @ map chr '' #'' @ name @ [10, 10]"

lemma fault_rule_ok: "\<forall>c\<in>set fault_rule. chr c \<noteq> 0 \<and> chr c \<noteq> 37" "length fault_rule = 61"
  by (simp_all add: fault_rule_def chr_def)

lemma fault_enter_prints:
  assumes "0 \<notin> set name" "length name < 200"
  shows "\<exists>st'. fault_enter name st = Some st' \<and> prints (banner name) st st'"
proof -
  have "\<exists>s. f_printk (10 # map chr fault_rule @ [10]) [] st = Some s \<and> prints (10 # map chr fault_rule @ [10]) st s" for st
  proof (rule f_printk_items)
    show "items_ok False (Lit 10 # lits fault_rule @ [Lit 10])"
      using fault_rule_ok(1) by (simp add: items_ok_lits plain_num_def wide_num_def chr_codes)
  qed (simp_all add: fault_rule_ok(2))
  moreover have "\<exists>s. f_printk (map chr '' #%s'' @ [10, 10]) [Arg_str name] st = Some s \<and>
      prints (map chr '' #'' @ name @ [10, 10]) st s" for st
  proof (rule f_printk_items)
    show "items_ok False (lits '' #'' @ [Str name, Lit 10, Lit 10])"
      using assms(1) by (simp add: items_ok_lits plain_num_def wide_num_def chr_def)
  qed (use assms(2) in simp_all)
  ultimately have "\<exists>st'. fault_enter name st = Some st' \<and>
      prints ((10 # map chr fault_rule @ [10]) @ (map chr '' #'' @ name @ [10, 10])) st st'"
    unfolding fault_enter_def by (rule prints_bind)
  then show ?thesis by (simp add: banner_def)
qed

text \<open>The end of a report: the rule, and the machine stops.\<close>

definition reports :: "u8 list \<Rightarrow> fault_state \<Rightarrow> fault_state \<Rightarrow> bool" where
  "reports out st st' \<longleftrightarrow>
     con_out (f_con st') = con_out (f_con st) @ concat (map printk_putchar (out @ map chr fault_rule @ [10])) \<and> f_halted st'"

lemma fault_exit_reports:
  assumes "\<exists>s. f st = Some s \<and> prints out st s"
  shows "\<exists>st'. Option.bind (f st) fault_exit = Some st' \<and> reports out st st'"
proof -
  have "\<exists>s. f_printk (map chr fault_rule @ [10]) [] st = Some s \<and> prints (map chr fault_rule @ [10]) st s" for st
  proof (rule f_printk_items)
    show "items_ok False (lits fault_rule @ [Lit 10])"
      using fault_rule_ok(1) by (simp add: items_ok_lits plain_num_def wide_num_def chr_codes)
  qed (simp_all add: fault_rule_ok(2))
  from prints_bind [of f, OF assms this] show ?thesis
    by (auto simp: fault_exit_def platform_halt_def prints_def reports_def Option.bind_eq_Some_conv)
qed

lemma fault_handlers_report:
  "\<exists>st'. busfault ns sp sc er st = Some st' \<and> reports (banner (map chr ''BusFault'') @ frame_text ns sp sc er) st st'"
  "\<exists>st'. memmanage ns sp sc er st = Some st' \<and> reports (banner (map chr ''MemManage'') @ frame_text ns sp sc er) st st'"
  "\<exists>st'. hardfault ns sp sc er st = Some st' \<and> reports (banner (map chr ''HardFault'') @ frame_text ns sp sc er) st st'"
proof -
  have *: "\<exists>st'. Option.bind (fault_enter name st) (\<lambda>st. Option.bind (dump_frame ns sp sc er st) fault_exit) = Some st' \<and>
      reports (banner name @ frame_text ns sp sc er) st st'" if "0 \<notin> set name" "length name < 200" for name
  proof -
    have "\<exists>s. Option.bind (fault_enter name st) (dump_frame ns sp sc er) = Some s \<and>
        prints (banner name @ frame_text ns sp sc er) st s"
      by (rule prints_bind [OF fault_enter_prints [OF that] dump_frame_prints])
    from fault_exit_reports [of "\<lambda>st. Option.bind (fault_enter name st) (dump_frame ns sp sc er)", OF this]
    show ?thesis by simp
  qed
  show "\<exists>st'. busfault ns sp sc er st = Some st' \<and> reports (banner (map chr ''BusFault'') @ frame_text ns sp sc er) st st'"
    unfolding busfault_def by (rule *) (simp_all add: chr_def)
  show "\<exists>st'. memmanage ns sp sc er st = Some st' \<and> reports (banner (map chr ''MemManage'') @ frame_text ns sp sc er) st st'"
    unfolding memmanage_def by (rule *) (simp_all add: chr_def)
  show "\<exists>st'. hardfault ns sp sc er st = Some st' \<and> reports (banner (map chr ''HardFault'') @ frame_text ns sp sc er) st st'"
    unfolding hardfault_def by (rule *) (simp_all add: chr_def)
qed

section \<open>The cause of a usage fault\<close>

lemma ufsr_cause_None:
  "ufsr_cause ufsr = None \<longleftrightarrow> (\<forall>i\<in>{0, 1, 2, 3, 8, 9}. \<not> bit ufsr i)"
proof -
  have b: "ufsr AND push_bit i 1 = 0 \<longleftrightarrow> \<not> bit ufsr i" for i
    using bit_iff_and_push_bit_not_eq_0 [of ufsr i] by simp
  show ?thesis
    using b [of 0] b [of 1] b [of 2] b [of 3] b [of 8] b [of 9]
    by (simp add: ufsr_cause_def UFSR_DIVBYZERO_def UFSR_UNALIGNED_def UFSR_NOCP_def UFSR_INVPC_def
        UFSR_INVSTATE_def UFSR_UNDEFINSTR_def)
qed

lemma ufsr_cause_name: "ufsr_cause ufsr = Some cause \<Longrightarrow> 0 \<notin> set (map chr cause) \<and> length cause \<le> 10"
  by (auto simp: ufsr_cause_def chr_def split: if_splits)

definition ufsr_text :: "u32 \<Rightarrow> u8 list" where
  "ufsr_text ufsr = map chr ''      ufsr: '' @ hex8 ufsr @
     (case ufsr_cause ufsr of Some cause \<Rightarrow> map chr ''  <'' @ map chr cause @ [62] | None \<Rightarrow> []) @ [10]"

lemma ufsr_prints:
  "\<exists>s. (case ufsr_cause ufsr of
       Some cause \<Rightarrow> f_printk (map chr ''      ufsr: %08x  <%s>'' @ [10]) [Arg_int ufsr, Arg_str (map chr cause)] st
     | None \<Rightarrow> f_printk (map chr ''      ufsr: %08x'' @ [10]) [Arg_int ufsr] st) = Some s \<and> prints (ufsr_text ufsr) st s"
proof (cases "ufsr_cause ufsr")
  case None
  have "\<exists>s. f_printk (map chr ''      ufsr: %08x'' @ [10]) [Arg_int ufsr] st = Some s \<and>
      prints (map chr ''      ufsr: '' @ hex8 ufsr @ [10]) st s"
  proof (rule f_printk_items)
    let ?its = "lits ''      ufsr: '' @ [Zhex ufsr, Lit 10]"
    show "items_ok False ?its" by (simp add: items_ok_lits plain_num_def wide_num_def chr_def)
    show "map chr ''      ufsr: '' @ hex8 ufsr @ [10] = concat (map item_out ?its)" by (simp add: hex8_def)
  qed simp_all
  with None show ?thesis by (simp add: ufsr_text_def)
next
  case (Some cause)
  note c = ufsr_cause_name [OF Some]
  have "\<exists>s. f_printk (map chr ''      ufsr: %08x  <%s>'' @ [10]) [Arg_int ufsr, Arg_str (map chr cause)] st = Some s \<and>
      prints (map chr ''      ufsr: '' @ hex8 ufsr @ map chr ''  <'' @ map chr cause @ [62] @ [10]) st s"
  proof (rule f_printk_items)
    let ?its = "lits ''      ufsr: '' @ Zhex ufsr # lits ''  <'' @ [Str (map chr cause), Lit 62, Lit 10]"
    show "items_ok False ?its" using c by (simp add: items_ok_lits plain_num_def wide_num_def chr_def)
    show "map chr ''      ufsr: '' @ hex8 ufsr @ map chr ''  <'' @ map chr cause @ [62] @ [10] = concat (map item_out ?its)"
      by (simp add: hex8_def)
    show "map chr ''      ufsr: %08x  <%s>'' @ [10] = concat (map item_fmt ?its)" by (simp add: chr_def)
  qed (use c in simp_all)
  with Some show ?thesis by (simp add: ufsr_text_def)
qed

text \<open>
  A usage fault is reported completely: whatever the registers hold, the handler returns from every message,
  the port receives the banner, the sixteen registers and the exception return value with eight hexadecimal
  digits each, the fault status with the name of its cause (the highest of the six bits the code knows, none if
  no such bit is set), and the closing rule, and the machine is halted.
\<close>

lemma usagefault_reports:
  "\<exists>st'. usagefault cfsr ns sp sc er st = Some st' \<and> f_halted st' \<and>
    con_out (f_con st') = con_out (f_con st) @ concat (map printk_putchar
      (banner (map chr ''UsageFault'') @ frame_text ns sp sc er @ ufsr_text (drop_bit 16 cfsr) @ map chr fault_rule @ [10]))"
proof -
  let ?e = "fault_enter (map chr ''UsageFault'')"
  let ?u = "\<lambda>st. case ufsr_cause (drop_bit 16 cfsr) of
       Some cause \<Rightarrow> f_printk (map chr ''      ufsr: %08x  <%s>'' @ [10]) [Arg_int (drop_bit 16 cfsr), Arg_str (map chr cause)] st
     | None \<Rightarrow> f_printk (map chr ''      ufsr: %08x'' @ [10]) [Arg_int (drop_bit 16 cfsr)] st"
  have "\<exists>s. ?e st = Some s \<and> prints (banner (map chr ''UsageFault'')) st s"
    by (rule fault_enter_prints) (simp_all add: chr_def)
  then have d: "\<exists>s. Option.bind (?e st) (dump_frame ns sp sc er) = Some s \<and>
      prints (banner (map chr ''UsageFault'') @ frame_text ns sp sc er) st s"
    by (rule prints_bind) (rule dump_frame_prints)
  have "\<exists>s. Option.bind (Option.bind (?e st) (dump_frame ns sp sc er)) ?u = Some s \<and>
      prints ((banner (map chr ''UsageFault'') @ frame_text ns sp sc er) @ ufsr_text (drop_bit 16 cfsr)) st s"
    by (rule prints_bind [of "\<lambda>st. Option.bind (?e st) (dump_frame ns sp sc er)", OF d]) (rule ufsr_prints)
  from fault_exit_reports [of "\<lambda>st. Option.bind (Option.bind (?e st) (dump_frame ns sp sc er)) ?u", OF this]
  show ?thesis by (auto simp: usagefault_def reports_def Let_def)
qed

end
