(* ===== verification/Commands.thy ===== *)
theory Commands
  imports Files Printk Faults List_Iter
begin

text \<open>
  The commands of the shell beside \<^verbatim>\<open>echo\<close>: \<^verbatim>\<open>user/cat.c\<close>, \<^verbatim>\<open>user/ls.c\<close>, \<^verbatim>\<open>user/exit.c\<close> and \<^verbatim>\<open>user/halt.c\<close>, and
  \<^verbatim>\<open>print_version\<close> of \<^verbatim>\<open>kernel/main.c\<close>, which prints a file the same way. Their system calls are the functions of
  \<^verbatim>\<open>Vfs\<close>, on the state of the file system; what they print goes to the console. \<open>buf\<close> is the address of the local
  array the characters are read into. A loop that never ends has the result \<open>None\<close>.

  Reading a file to its end prints exactly its contents, listing a directory prints one line per entry in the order
  of the directory, and a file that can be read forever makes \<^verbatim>\<open>cat\<close> run forever.
\<close>

section \<open>The code\<close>

text \<open>\<^verbatim>\<open>while (read(fd, &buf, 1)) printk("%s", buf);\<close>\<close>

partial_function (option) copy_out :: "fsyms \<Rightarrow> int \<Rightarrow> addr \<Rightarrow> fstate \<times> console \<Rightarrow> (fstate \<times> console) option" where
  "copy_out sy fd buf s =
     Option.bind (sys_read sy fd buf 1 (fst s)) (\<lambda>r.
       if fst r = 0 then Some (snd r, snd s)
       else Option.bind (cstr (fmem (snd r)) buf) (\<lambda>str.
            Option.bind (printk (map chr ''%s'') [Arg_str str] (snd s)) (\<lambda>c.
            copy_out sy fd buf (snd r, snd c))))"

declare copy_out.simps [code]

fun cat_files :: "fsyms \<Rightarrow> addr \<Rightarrow> u8 list \<Rightarrow> u8 list list \<Rightarrow> int \<Rightarrow> fstate \<times> console \<Rightarrow> (int \<times> fstate \<times> console) option" where
  "cat_files sy buf argv1 [] retval s = Some (retval, s)"
| "cat_files sy buf argv1 (name # names) retval s = do {
     (fd, st) \<leftarrow> sys_open sy name 0 (fst s);
     (retval, con) \<leftarrow> (if fd < 0 then do {
         (_, con) \<leftarrow> printk (map chr ''cat: %s: No such file or directory'' @ [10]) [Arg_str argv1] (snd s);
         Some (1, con) }
       else Some (retval, snd s));
     (st, con) \<leftarrow> copy_out sy fd buf (st, con);
     (_, st) \<leftarrow> sys_close sy fd st;
     cat_files sy buf argv1 names retval (st, con) }"

definition cat :: "fsyms \<Rightarrow> addr \<Rightarrow> u8 list list \<Rightarrow> fstate \<times> console \<Rightarrow> (int \<times> fstate \<times> console) option" where
  "cat sy buf argv s =
     (let s = ((fst s)\<lparr>fmem := store_bytes buf [0, 0] (fmem (fst s))\<rparr>, snd s)
      in cat_files sy buf (argv ! 1) (drop 1 argv) 0 s)"

definition print_version :: "fsyms \<Rightarrow> addr \<Rightarrow> fstate \<times> console \<Rightarrow> (fstate \<times> console) option" where
  "print_version sy buf s = do {
     let st = (fst s)\<lparr>fmem := store_bytes buf [0, 0] (fmem (fst s))\<rparr>;
     (fd, st) \<leftarrow> sys_open sy (map chr ''/proc/version'') 0 st;
     (st, con) \<leftarrow> copy_out sy fd buf (st, snd s);
     (_, st) \<leftarrow> sys_close sy fd st;
     (_, con) \<leftarrow> printk [10] [] con;
     Some (st, con) }"

text \<open>The \<^verbatim>\<open>do\<close> loop of \<^verbatim>\<open>ls\<close>.\<close>

partial_function (option) ls_loop :: "int \<Rightarrow> fstate \<times> console \<Rightarrow> (fstate \<times> console) option" where
  "ls_loop dir s =
     Option.bind (sys_readdir_r dir (fst s)) (\<lambda>r.
       case fst (snd r) of
         None \<Rightarrow> Some (snd (snd r), snd s)
       | Some e \<Rightarrow> Option.bind (printk (map chr ''% 6d %s'' @ [10]) [Arg_int (fst e), Arg_str (snd e)] (snd s)) (\<lambda>c.
           ls_loop dir (snd (snd r), snd c)))"

declare ls_loop.simps [code]

definition ls :: "fsyms \<Rightarrow> u8 list list \<Rightarrow> fstate \<times> console \<Rightarrow> (int \<times> fstate \<times> console) option" where
  "ls sy argv s = do {
     (dir, st) \<leftarrow> sys_open sy (if length argv = 1 then map chr ''/'' else argv ! 1) O_DIRECTORY (fst s);
     (st, con) \<leftarrow> ls_loop dir (st, snd s);
     (_, st) \<leftarrow> sys_close sy dir st;
     Some (0, st, con) }"

text \<open>\<^verbatim>\<open>exit\<close> and \<^verbatim>\<open>halt\<close> stop the machine.\<close>

definition exit_cmd :: "fault_state \<Rightarrow> int \<times> fault_state" where
  "exit_cmd st = (0, platform_halt st)"

definition halt_cmd :: "fault_state \<Rightarrow> int \<times> fault_state" where
  "halt_cmd st = (0, platform_halt st)"

section \<open>Printing a file\<close>

text \<open>
  The contract of a file that delivers its contents byte by byte: \<open>at st xs\<close> says that the open file has still the
  bytes \<open>xs\<close> to deliver, into a buffer that is terminated behind its first byte.
\<close>

locale byte_file =
  fixes rd :: "'s \<Rightarrow> (int \<times> 's) option"
    and mem_of :: "'s \<Rightarrow> bytes"
    and buf :: addr
    and at :: "'s \<Rightarrow> u8 list \<Rightarrow> bool"
  assumes rd_byte: "at st (x # xs) \<Longrightarrow> \<exists>st'. rd st = Some (1, st') \<and> at st' xs \<and> mem_of st' buf = x \<and> mem_of st' (buf + 1) = 0"
    and rd_end: "at st [] \<Longrightarrow> \<exists>st'. rd st = Some (0, st') \<and> at st' []"
begin

lemma rd_string:
  assumes "at st (x # xs)" "x \<noteq> 0"
  shows "\<exists>st'. rd st = Some (1, st') \<and> at st' xs \<and> cstr (mem_of st') buf = Some [x]"
proof -
  obtain st' where st': "rd st = Some (1, st')" "at st' xs" "mem_of st' buf = x" "mem_of st' (buf + 1) = 0"
    using rd_byte [OF assms(1)] by blast
  have "bytes_at (mem_of st') buf ([x] @ [0])" using st'(3,4) by simp
  then have "cstr (mem_of st') buf = Some [x]" by (rule cstr_str) (use assms(2) in simp)
  with st' show ?thesis by blast
qed

end

text \<open>What reading leaves alone: the dentries, the tasks and the heap, and the file a descriptor stands for.\<close>

definition same_open :: "fstate \<Rightarrow> fstate \<Rightarrow> bool" where
  "same_open st0 st \<longleftrightarrow> dentries st = dentries st0 \<and> fps st = fps st0 \<and> inodes st = inodes st0 \<and>
     (\<forall>t n. f_dentry (files st t n) = f_dentry (files st0 t n))"

lemma same_open_refl [simp]: "same_open st st"
  by (simp add: same_open_def)

lemma same_open_set_f_pos: "same_open st0 st \<Longrightarrow> same_open st0 (set_f_pos t n v st)"
  "same_open st0 st \<Longrightarrow> same_open st0 (st\<lparr>fmem := m\<rparr>)"
  by (auto simp: same_open_def set_f_pos_def)

lemma same_open_close:
  assumes "same_open st0 st" "chain_ok sy s e live st0 ds (f_dentry (files st0 (fs_task st0) fd))" "fd < FILE_MAX"
  shows "\<exists>st'. sys_close sy (int fd) st = Some (0, st') \<and> heap_ok s e (kheap (fps st'), live) \<and>
    (\<forall>j. fd_used st' j \<longleftrightarrow> j \<noteq> fd \<and> fd_used st0 j)"
proof -
  have u: "fd_used st j = fd_used st0 j" for j
    using assms(1) by (simp add: same_open_def fs_task_def fd_used_def fs_filemap_def)
  have "chain_ok sy s e live st ds (f_dentry (files st (fs_task st) fd))"
    using assms(1,2) chain_ok_cong [of st st0] by (simp add: same_open_def fs_task_def)
  from sys_close_chain [OF this assms(3)] show ?thesis unfolding u .
qed

text \<open>The file \<^verbatim>\<open>/proc/version\<close>.\<close>

definition version_at :: "fsyms \<Rightarrow> nat \<Rightarrow> addr \<Rightarrow> fstate \<Rightarrow> fstate \<Rightarrow> u8 list \<Rightarrow> bool" where
  "version_at sy fd buf st0 st xs \<longleftrightarrow> fd < FILE_MAX \<and> same_open st0 st \<and> (\<exists>k. f_pos (files st (fs_task st) fd) = int k \<and> f_op (files st (fs_task st) fd) = Some Version_fops \<and>
     version_len sy = int (k + length xs) \<and> k + length xs < 2 ^ 31 \<and> unat (version_ptr sy) + k + length xs < 2 ^ 32 \<and>
     bytes_at (fmem st) (version_ptr sy + of_nat k) xs \<and> fmem st (buf + 1) = 0 \<and>
     buf \<notin> region (version_ptr sy + of_nat k) (length xs))"

lemma strncpy_one: "strncpy_bytes dst src 1 m = m(dst := m src)"
  by (simp add: strncpy_bytes_def load_bytes_def)

lemma strncpy_none: "strncpy_bytes dst src 0 m = m"
  by (simp add: strncpy_bytes_def load_bytes_def)

lemma sint_int_small: "k < 2 ^ 31 \<Longrightarrow> sint (word_of_int (int k) :: u32) = int k"
  by (simp add: signed_of_nat signed_take_bit_int_eq_self)

text \<open>One call of \<^verbatim>\<open>read\<close> for one byte.\<close>

lemma sys_read_version:
  assumes fd: "fd < FILE_MAX" and f: "f_pos (files st (fs_task st) fd) = int k" "f_op (files st (fs_task st) fd) = Some Version_fops"
    and len: "version_len sy = int (k + n)" "k + n < 2 ^ 31"
  shows "sys_read sy (int fd) buf 1 st =
    Some (if n = 0 then 0 else 1, set_f_pos (fs_task st) fd (int (k + min 1 n))
      (if n = 0 then st else st\<lparr>fmem := (fmem st)(buf := fmem st (version_ptr sy + of_nat k))\<rparr>))"
proof -
  let ?c = "word_of_int (version_len sy - int k) :: u32"
  have c: "?c = of_nat n" using len(1) by simp
  have n: "unat (of_nat n :: u32) = n" using len(2) by (intro unat_of_nat_small) simp
  have m: "min 1 ?c = (if n = 0 then 0 else 1)"
    unfolding c using n by (auto simp: min_def word_le_nat_alt)
  have fdf: "fd_to_file (int fd) = Some fd" using fd by (simp add: fd_to_file_def)
  have k1: "sint (word_of_int (int k) + (1 :: u32)) = int k + 1" if "n \<noteq> 0"
  proof -
    have "word_of_int (int k) + (1 :: u32) = word_of_int (int (k + 1))" by simp
    then show ?thesis using sint_int_small [of "k + 1"] len(2) that by (simp only:)
  qed
  have t: "fs_task (st\<lparr>fmem := v\<rparr>) = fs_task st" for v by (simp add: fs_task_def current_task_info_def)
  have "read_version sy buf 1 (int k) st =
      (if n = 0 then 0 else 1, if n = 0 then st else st\<lparr>fmem := (fmem st)(buf := fmem st (version_ptr sy + of_nat k))\<rparr>)"
    unfolding read_version_def Let_def m using strncpy_one strncpy_none by simp
  then show ?thesis
    using f fdf k1 sint_int_small [of k] len(2) t by (cases "n = 0") (simp_all add: sys_read_def fop_read_def add.commute)
qed

lemma set_f_pos_simps [simp]:
  "fmem (set_f_pos t n v st) = fmem st" "fs_task (set_f_pos t n v st) = fs_task st"
  "f_pos (files (set_f_pos t n v st) t n) = v" "f_op (files (set_f_pos t n v st) t n) = f_op (files st t n)"
  by (simp_all add: set_f_pos_def fs_task_def current_task_info_def)

lemma version_rd_byte:
  assumes "version_at sy fd buf st0 st (x # xs)"
  shows "\<exists>st'. sys_read sy (int fd) buf 1 st = Some (1, st') \<and> version_at sy fd buf st0 st' xs \<and> fmem st' buf = x \<and> fmem st' (buf + 1) = 0"
proof -
  obtain k where k: "f_pos (files st (fs_task st) fd) = int k" "f_op (files st (fs_task st) fd) = Some Version_fops"
      "version_len sy = int (k + length (x # xs))" "k + length (x # xs) < 2 ^ 31"
      "unat (version_ptr sy) + k + length (x # xs) < 2 ^ 32" "bytes_at (fmem st) (version_ptr sy + of_nat k) (x # xs)"
      "fmem st (buf + 1) = 0" "buf \<notin> region (version_ptr sy + of_nat k) (length (x # xs))"
    and fd: "fd < FILE_MAX" "same_open st0 st"
    using assms unfolding version_at_def by blast
  define st' where "st' = set_f_pos (fs_task st) fd (int (k + 1)) (st\<lparr>fmem := (fmem st)(buf := x)\<rparr>)"
  have x: "fmem st (version_ptr sy + of_nat k) = x" "bytes_at (fmem st) (version_ptr sy + of_nat (k + 1)) xs"
    using k(6) by (simp_all add: ac_simps)
  have run: "sys_read sy (int fd) buf 1 st = Some (1, st')"
    using sys_read_version [OF fd(1) k(1-4), of buf] x(1) by (simp add: st'_def)
  have r: "region (version_ptr sy + of_nat (k + 1)) (length xs) \<subseteq> region (version_ptr sy + of_nat k) (length (x # xs))"
    by (auto simp: region_def ac_simps intro!: image_eqI [where x = "Suc _"])
  then have b: "buf \<notin> region (version_ptr sy + of_nat (k + 1)) (length xs)" using k(8) by blast
  have "bytes_at ((fmem st)(buf := x)) (version_ptr sy + of_nat (k + 1)) xs"
    by (rule bytes_at_same [OF _ x(2), of "{buf}"]) (use b in \<open>auto simp: same_outside_def\<close>)
  moreover have t: "fs_task st' = fs_task st" by (simp add: st'_def fs_task_def current_task_info_def set_f_pos_def)
  have f: "f_pos (files st' (fs_task st) fd) = int (k + 1)" "f_op (files st' (fs_task st) fd) = Some Version_fops"
    using k(2) by (simp_all add: st'_def set_f_pos_def)
  moreover have "fmem st' = (fmem st)(buf := x)" by (simp add: st'_def)
  moreover have so: "same_open st0 st'" unfolding st'_def by (intro same_open_set_f_pos fd(2))
  ultimately have "version_at sy fd buf st0 st' xs"
    unfolding version_at_def using k(3,4,5,7) b t fd(1) so
    by (intro conjI exI [of _ "k + 1"]) simp_all
  with run \<open>fmem st' = (fmem st)(buf := x)\<close> k(7) show ?thesis by auto
qed

lemma version_rd_end:
  assumes "version_at sy fd buf st0 st []"
  shows "\<exists>st'. sys_read sy (int fd) buf 1 st = Some (0, st') \<and> version_at sy fd buf st0 st' []"
proof -
  obtain k where k: "f_pos (files st (fs_task st) fd) = int k" "f_op (files st (fs_task st) fd) = Some Version_fops"
      "version_len sy = int (k + 0)" "k + 0 < 2 ^ 31" "unat (version_ptr sy) + k < 2 ^ 32" "fmem st (buf + 1) = 0"
    and fd: "fd < FILE_MAX" "same_open st0 st"
    using assms by (auto simp: version_at_def)
  let ?st = "set_f_pos (fs_task st) fd (int k) st"
  have "sys_read sy (int fd) buf 1 st = Some (0, ?st)"
    using sys_read_version [OF fd(1) k(1-4), of buf] by simp
  moreover have "version_at sy fd buf st0 ?st []"
    unfolding version_at_def using k fd same_open_set_f_pos(1) by (intro conjI exI [of _ k]) (simp_all add: region_def)
  ultimately show ?thesis by blast
qed

text \<open>A file of the model that keeps the contract is printed to its end.\<close>

locale readable_file = byte_file "\<lambda>st. sys_read sy fd buf 1 st" fmem buf at
  for sy :: fsyms and fd :: int and buf :: addr and at :: "fstate \<Rightarrow> u8 list \<Rightarrow> bool"
begin

lemma copy_out_prints:
  assumes "at st xs" "0 \<notin> set xs"
  shows "\<exists>st' con'. copy_out sy fd buf (st, con) = Some (st', con') \<and> at st' [] \<and>
    con_out con' = con_out con @ concat (map printk_putchar xs)"
  using assms
proof (induction xs arbitrary: st con)
  case Nil
  then obtain st' where "sys_read sy fd buf 1 st = Some (0, st')" "at st' []" using rd_end by blast
  then show ?case by (subst copy_out.simps) simp
next
  case (Cons x xs)
  then obtain st1 where st1: "sys_read sy fd buf 1 st = Some (1, st1)" "at st1 xs" "cstr (fmem st1) buf = Some [x]"
    using rd_string [OF Cons.prems(1)] by auto
  obtain con1 where con1: "printk (map chr ''%s'') [Arg_str [x]] con = Some (1, con1)"
      "con_out con1 = con_out con @ printk_putchar x"
    using printk_items [of "[Str [x]]" "[x]" "map chr ''%s''" "[Arg_str [x]]" con] Cons.prems(2)
    by (auto simp: plain_num_def)
  obtain st' con' where "copy_out sy fd buf (st1, con1) = Some (st', con')" "at st' []"
      "con_out con' = con_out con1 @ concat (map printk_putchar xs)"
    using Cons.IH [OF st1(2), of con1] Cons.prems(2) by auto
  with st1 con1 show ?case by (subst copy_out.simps) simp
qed

end

interpretation version_file: readable_file sy "int fd" buf "version_at sy fd buf st0" for sy fd buf st0
  by unfold_locales (auto intro: version_rd_byte version_rd_end)

section \<open>Endless files\<close>

text \<open>\<^verbatim>\<open>/dev/zero\<close> delivers a byte at every read, so \<^verbatim>\<open>cat\<close> of it never returns.\<close>

lemma copy_out_zero_diverges:
  assumes "fd < FILE_MAX" "f_op (files st (fs_task st) fd) = Some Zero_fops"
  shows "copy_out sy (int fd) buf (st, con) = None"
proof -
  let ?I = "\<lambda>sy' d b s (r :: fstate \<times> console). d = int fd \<longrightarrow> f_op (files (fst s) (fs_task (fst s)) fd) \<noteq> Some Zero_fops"
  have "?I sy (int fd) buf (st, con) r" if "copy_out sy (int fd) buf (st, con) = Some r" for r
  proof (rule copy_out.raw_induct [where P = ?I, OF _ that])
    fix loop :: "fsyms \<Rightarrow> int \<Rightarrow> addr \<Rightarrow> fstate \<times> console \<Rightarrow> (fstate \<times> console) option" and sy' d b s r
    assume IH: "\<And>sy d b s r. loop sy d b s = Some r \<Longrightarrow> ?I sy d b s r"
      and run: "Option.bind (sys_read sy' d b 1 (fst s)) (\<lambda>r.
        if fst r = 0 then Some (snd r, snd s)
        else Option.bind (cstr (fmem (snd r)) b) (\<lambda>str.
             Option.bind (printk (map chr ''%s'') [Arg_str str] (snd s)) (\<lambda>c. loop sy' d b (snd r, snd c)))) = Some r"
    show "?I sy' d b s r"
    proof (intro impI notI)
      assume d: "d = int fd" "f_op (files (fst s) (fs_task (fst s)) fd) = Some Zero_fops"
      have n: "fd_to_file (int fd) = Some fd" using assms(1) by (simp add: fd_to_file_def)
      obtain st' where st': "sys_read sy' d b 1 (fst s) = Some (1, st')" "f_op (files st' (fs_task st') fd) = Some Zero_fops"
        using d n by (auto simp: sys_read_def fop_read_def read_zero_def set_f_pos_def fs_task_def current_task_info_def Let_def)
      with run obtain c where "loop sy' d b (st', snd c) = Some r"
        by (auto simp: bind_eq_Some_conv)
      from IH [OF this] d(1) st'(2) show False by simp
    qed
  qed
  with assms(2) show ?thesis by (cases "copy_out sy (int fd) buf (st, con)") auto
qed

section \<open>The version of the kernel\<close>

lemma store_two: "store_bytes buf [0, 0] m = m(buf := 0, buf + 1 := 0)"
  by simp


definition demo_proc :: "heap \<Rightarrow> fstate" where
  "demo_proc h = (demo_fstate h)\<lparr>
     flinks := (let next = (\<lambda>n. case n of DirHead a \<Rightarrow> if a = 0x41 then DirEnt 0x60 else DirEnt 0x64
                             | DirEnt e \<Rightarrow> if e = 0x60 then DirHead 0x41 else DirHead 0x81)
                in \<lparr>lnext = (\<lambda>n. Node (next n)), lprev = (\<lambda>n. Node (next n))\<rparr>),
     dirents := (\<lambda>e. if e = 0x60 then \<lparr>dl_inode = 0x80, dl_name = map chr ''proc''\<rparr>
                     else \<lparr>dl_inode = 0xc0, dl_name = map chr ''version''\<rparr>),
     inodes := (\<lambda>a. (tmpfs_inodes 0 (a + 1))\<lparr>i_fop := Some (if a = 0xc0 then Version_fops else Tmpfs_fops)\<rparr>),
     fmem := (\<lambda>a. if a = 0x2000 then 118 else if a = 0x2001 then 49 else 0)\<rparr>"

lemma demo_proc_rep:
  "dir_rep (demo_proc h) [DirHead 0x41 \<mapsto> [DirEnt 0x60], DirHead 0x81 \<mapsto> [DirEnt 0x64]] 0x40 [0x60]"
  "dir_rep (demo_proc h) [DirHead 0x41 \<mapsto> [DirEnt 0x60], DirHead 0x81 \<mapsto> [DirEnt 0x64]] 0x80 [0x64]"
proof -
  have "lists (flinks (demo_proc h)) [DirHead 0x41 \<mapsto> [DirEnt 0x60], DirHead 0x81 \<mapsto> [DirEnt 0x64]]"
    by (auto simp: demo_proc_def lists_def ring_def Let_def split: if_splits)
  then show "dir_rep (demo_proc h) [DirHead 0x41 \<mapsto> [DirEnt 0x60], DirHead 0x81 \<mapsto> [DirEnt 0x64]] 0x40 [0x60]"
    "dir_rep (demo_proc h) [DirHead 0x41 \<mapsto> [DirEnt 0x60], DirHead 0x81 \<mapsto> [DirEnt 0x64]] 0x80 [0x64]"
    by (simp_all add: dir_rep_def demo_proc_def tmpfs_inodes_def)
qed


section \<open>Listing a directory\<close>

lemma dir_walk_prev_chain:
  assumes "linked h (map DirEnt es @ [DirHead a])"
  shows "dir_walk h (Node (DirHead a)) i pos (Node (gap_next (DirHead a) (map DirEnt es))) =
    Some (if i \<le> pos \<and> pos < i + int (length es) then Some (es ! nat (pos - i)) else None)"
  using assms
proof (induction es arbitrary: i)
  case Nil
  then show ?case by (subst dir_walk.simps) (simp add: gap_next_def)
next
  case (Cons e es)
  have c: "lnext h (DirEnt e) = Node (gap_next (DirHead a) (map DirEnt es))" "linked h (map DirEnt es @ [DirHead a])"
    using Cons.prems linked_chain [of h "map DirEnt (e # es)" "DirHead a"] by (cases es; auto)+
  have "nat (pos - i) = Suc (nat (pos - (i + 1)))" if "i < pos" using that by simp
  with c Cons.IH [OF c(2), of "i + 1"] show ?case
    by (subst dir_walk.simps) (auto simp: gap_next_def)
qed

text \<open>What the calls of \<^verbatim>\<open>readdir_r\<close> on an open directory deliver.\<close>

definition dir_listing :: "fdesc \<Rightarrow> fstate \<Rightarrow> addr list \<Rightarrow> (u32 \<times> u8 list) list" where
  "dir_listing fl st es = dir_emit_dot fl st # dir_emit_dotdot fl st #
     map (\<lambda>e. (i_ino (inodes st (dl_inode (dirents st e))), dl_name (dirents st e))) es"

definition dir_open :: "nat \<Rightarrow> addr list \<Rightarrow> nat \<Rightarrow> fstate \<Rightarrow> bool" where
  "dir_open fd es k st \<longleftrightarrow> fd < FILE_MAX \<and> (let fl = files st (fs_task st) fd; dir = d_inode (dentries st (f_dentry fl)) in
     f_pos fl = int k \<and> f_op fl = Some Tmpfs_fops \<and> i_size (inodes st dir) = int (length es) \<and>
     (\<exists>Q. dir_rep st Q dir es) \<and> list_all (\<lambda>e. length (snd e) < NAME_MAX) (dir_listing fl st es))"

lemma readdir_entry:
  assumes "dir_open fd es k st" "k < length es + 2"
  shows "sys_readdir_r (int fd) st =
    Some (0, Some (dir_listing (files st (fs_task st) fd) st es ! k), set_f_pos (fs_task st) fd (int k + 1) st)"
proof -
  let ?fl = "files st (fs_task st) fd"
  let ?dir = "d_inode (dentries st (f_dentry ?fl))"
  let ?h = "DirHead (i_private (inodes st ?dir))" and ?e = "dir_listing ?fl st es ! k"
  obtain Q where o: "fd < FILE_MAX" "f_pos ?fl = int k" "f_op ?fl = Some Tmpfs_fops"
      "i_size (inodes st ?dir) = int (length es)" "dir_rep st Q ?dir es" "list_all (\<lambda>e. length (snd e) < NAME_MAX) (dir_listing ?fl st es)"
    using assms(1) by (auto simp: dir_open_def Let_def)
  have r: "ring (flinks st) ?h (map DirEnt es)" using o(5) by (auto simp: dir_rep_def listsD)
  have w: "dir_walk (flinks st) (Node ?h) 2 (int k) (Node (gap_next ?h (map DirEnt es))) = Some (Some (es ! (k - 2)))"
    if "2 \<le> k"
  proof -
    have "linked (flinks st) (map DirEnt es @ [?h])"
      using r linked_concat [of "[?h]" "map DirEnt es @ [?h]" "flinks st"] by (simp add: ring_def)
    then show ?thesis using that assms(2) by (simp add: dir_walk_prev_chain nat_diff_distrib)
  qed
  have "tmpfs_iterate (fs_task st) fd st = Some (0, Some ?e, set_f_pos (fs_task st) fd (int k + 1) st)"
  proof -
    have "k = 0 \<or> k = 1 \<or> (\<exists>j. k = j + 2)" by presburger
    then consider "k = 0" | "k = 1" | j where "k = j + 2" by blast
    then show ?thesis
    proof cases
      case 3
      then show ?thesis
        using o(2,4) w ring_chain(3) [OF r] assms(2)
        by (simp add: tmpfs_iterate_def Let_def dir_listing_def dir_emit_def)
    qed (use o(2,4) in \<open>simp_all add: tmpfs_iterate_def Let_def dir_listing_def\<close>)
  qed
  moreover have "length (snd ?e) < NAME_MAX"
    using o(6) assms(2) by (simp add: list_all_length dir_listing_def)
  moreover have "fd_to_file (int fd) = Some fd" using o(1) by (simp add: fd_to_file_def)
  ultimately show ?thesis
    using o(3) by (simp add: sys_readdir_r_def vfs_iterate_def fillonedir_def)
qed

lemma readdir_end:
  assumes "dir_open fd es (length es + 2) st"
  shows "sys_readdir_r (int fd) st = Some (0, None, st)"
proof -
  have "fd_to_file (int fd) = Some fd" using assms by (simp add: dir_open_def fd_to_file_def)
  then show ?thesis
    using assms by (simp add: dir_open_def Let_def sys_readdir_r_def vfs_iterate_def tmpfs_iterate_def)
qed

lemma dir_open_step:
  assumes "dir_open fd es k st"
  defines "st' \<equiv> set_f_pos (fs_task st) fd (int k + 1) st"
  shows "dir_open fd es (k + 1) st'" "dir_listing (files st' (fs_task st') fd) st' es = dir_listing (files st (fs_task st) fd) st es"
    and "same_open st st'"
  using assms(1) unfolding st'_def
  by (auto simp: dir_open_def dir_listing_def dir_emit_dot_def dir_emit_dotdot_def set_f_pos_def fs_task_def
      current_task_info_def dir_rep_def same_open_def Let_def)

definition ls_line :: "u32 \<times> u8 list \<Rightarrow> u8 list" where
  "ls_line e = pad_left 32 6 (num_str 10 (sint (fst e))) @ 32 # snd e @ [10]"

definition ls_ok :: "u32 \<times> u8 list \<Rightarrow> bool" where
  "ls_ok e \<longleftrightarrow> unat (fst e) < 10 ^ 6 \<and> 0 \<notin> set (snd e) \<and> length (snd e) < NAME_MAX"

lemma num_str_dec_length: "n < 10 ^ 6 \<Longrightarrow> length (num_str 10 (int n)) \<le> 6"
  using digits_length [of 10 n 6] by (simp add: num_str_def magnitude_def)

lemma ls_line_printk:
  assumes "ls_ok e"
  shows "\<exists>r con'. printk (map chr ''% 6d %s'' @ [10]) [Arg_int (fst e), Arg_str (snd e)] con = Some (r, con') \<and>
    con_out con' = con_out con @ concat (map printk_putchar (ls_line e))"
proof -
  let ?its = "[Bdec 6 (fst e), Lit 32, Str (snd e), Lit 10]"
  have e: "unat (fst e) < 10 ^ 6" "0 \<notin> set (snd e)" "length (snd e) < 32" using assms by (simp_all add: ls_ok_def NAME_MAX_def)
  have s: "sint (fst e) = int (unat (fst e))"
    using e(1) sint_int_small [of "unat (fst e)"] by simp
  have len: "length (num_str 10 (sint (fst e))) \<le> 6"
    unfolding s by (rule num_str_dec_length) (rule e(1))
  have out: "concat (map item_out ?its) = ls_line e" by (simp add: ls_line_def)
  have ok: "items_ok False ?its" using e(2) len by (simp add: plain_num_def wide_num_def chr_codes)
  have short: "length (ls_line e) < 256" using len e(3) by (simp add: ls_line_def)
  have fmt: "map chr ''% 6d %s'' @ [10] = concat (map item_fmt ?its)" by (simp add: chr_def)
  have args: "[Arg_int (fst e), Arg_str (snd e)] = concat (map item_args ?its)" by simp
  show ?thesis using printk_items [OF ok out [symmetric] short fmt args, of con] by blast
qed

lemma ls_loop_lists:
  assumes "dir_open fd es k st" "k \<le> length es + 2" "list_all ls_ok (dir_listing (files st (fs_task st) fd) st es)"
  shows "\<exists>st' con'. ls_loop (int fd) (st, con) = Some (st', con') \<and> same_open st st' \<and>
    con_out con' = con_out con @ concat (map printk_putchar (concat (map ls_line (drop k (dir_listing (files st (fs_task st) fd) st es)))))"
  using assms
proof (induction "length es + 2 - k" arbitrary: k st con)
  case 0
  then have "k = length es + 2" by simp
  with 0 readdir_end [of fd es st] show ?case
    by (subst ls_loop.simps) (simp add: dir_listing_def)
next
  case (Suc n)
  let ?L = "dir_listing (files st (fs_task st) fd) st es"
  let ?st = "set_f_pos (fs_task st) fd (int k + 1) st"
  have k: "k < length es + 2" "k < length ?L" using Suc.hyps(2) by (simp_all add: dir_listing_def)
  note step = dir_open_step [OF Suc.prems(1)]
  have n: "n = length es + 2 - (k + 1)" using Suc.hyps(2) by simp
  have "ls_ok (?L ! k)" using Suc.prems(3) k(2) by (simp add: list_all_length)
  then obtain r con1 where c: "printk (map chr ''% 6d %s'' @ [10]) [Arg_int (fst (?L ! k)), Arg_str (snd (?L ! k))] con = Some (r, con1)"
      "con_out con1 = con_out con @ concat (map printk_putchar (ls_line (?L ! k)))"
    using ls_line_printk by blast
  obtain st' con' where s': "ls_loop (int fd) (?st, con1) = Some (st', con')" "same_open ?st st'"
      "con_out con' = con_out con1 @ concat (map printk_putchar (concat (map ls_line (drop (k + 1) ?L))))"
    using Suc.hyps(1) [OF n step(1), of con1, unfolded step(2)] Suc.prems(3) k(1) by auto
  have "drop k ?L = ?L ! k # drop (k + 1) ?L" using k(2) by (simp add: Cons_nth_drop_Suc)
  moreover have "same_open st st'" using step(3) s'(2) by (simp add: same_open_def)
  moreover have "ls_loop (int fd) (st, con) = Some (st', con')"
    using readdir_entry [OF Suc.prems(1) k(1)] c(1) s'(1) by (subst ls_loop.simps) simp
  ultimately show ?case using c(2) s'(3) by simp
qed


definition demo_ls :: "heap \<Rightarrow> fstate" where
  "demo_ls h = (demo_proc h)\<lparr>inodes := (\<lambda>a. (tmpfs_inodes 0 (a + 1))\<lparr>i_size := 1\<rparr>)\<rparr>"


end
