(* ===== verification/Syscall.thy ===== *)
theory Syscall
  imports Files Printk
begin

text \<open>
  System calls from the program's side: the table that \<^verbatim>\<open>scripts/gen-syscalls.py\<close> generates, the entry
  \<^verbatim>\<open>arch/v7m-svcall.S\<close>, the functions \<^verbatim>\<open>do_syscall0\<close> to \<^verbatim>\<open>do_syscall6\<close> of \<^verbatim>\<open>libc/piko/syscalls.S\<close>, and the library functions that
  call them (\<^verbatim>\<open>libc/pthread.c\<close>, \<^verbatim>\<open>filesystem.c\<close>, \<^verbatim>\<open>fcntl.c\<close>, \<^verbatim>\<open>signal.c\<close>, \<^verbatim>\<open>time.c\<close>, \<^verbatim>\<open>unistd.c\<close>, \<^verbatim>\<open>piko/mman.c\<close>, \<^verbatim>\<open>piko/stubs.c\<close>).

  Arguments are passed as the procedure call standard of the processor says: the first four words in registers, the
  others on the stack. The exception entry pushes a frame of eight words, aligned to eight bytes, and notes in bit 9 of
  the pushed status register whether it left a gap. The kernel's functions are a function \<open>sys\<close> from names: a
  function is given the four registers and the words that the entry copied to the kernel stack, and reads as many of
  them as it has parameters. A call that blocks is, for its caller, one that returns later, so the interleaving
  with other threads is not part of this theory.

  The main lemma shows that each library function calls the kernel function of its name with its own arguments, and
  returns the result.
\<close>

section \<open>The table of system calls\<close>

type_synonym 's ksys = "u32 list \<Rightarrow> 's \<Rightarrow> (u32 \<times> 's) option"
type_synonym 's kvect = "nat \<Rightarrow> 's ksys option"

definition syscall_names :: "string list" where
  "syscall_names = [''pthread_exit'', ''pthread_self'', ''pthread_yield'', ''pthread_create'', ''pthread_join'',
     ''pthread_detach'', ''pthread_mutex_lock'', ''pthread_mutex_unlock'', ''pthread_cond_signal'', ''pthread_cond_wait'',
     ''timer_create'', ''timer_settime'', ''timer_gettime'', ''msleep'', ''sysconf'', ''sigaction'', ''kill'', ''open'',
     ''close'', ''read'', ''write'', ''lseek'', ''stat'', ''mount'', ''readdir_r'', ''getpid'', ''mmap'', ''munmap'']"

text \<open>\<^verbatim>\<open>#define SYS_NAME index\<close>\<close>

definition SYS :: "string \<Rightarrow> u32" where
  "SYS name = of_nat (length (takeWhile (\<lambda>x. x \<noteq> name) syscall_names))"

definition SYS_MAX :: nat where "SYS_MAX = 48"

text \<open>An entry that is not set is a null pointer; what lies behind the table is not a function.\<close>

definition syscall_vect :: "(string \<Rightarrow> 's ksys) \<Rightarrow> 's kvect" where
  "syscall_vect sys ix = (if ix < length syscall_names then Some (sys (syscall_names ! ix)) else None)"

definition syscall_register :: "u32 \<Rightarrow> 's ksys \<Rightarrow> 's kvect \<Rightarrow> int \<times> 's kvect" where
  "syscall_register ix fn vect = (if unat ix \<ge> SYS_MAX then (- 1, vect) else (0, vect(unat ix \<mapsto> fn)))"

section \<open>Entering the kernel\<close>

record ucpu =
  gpr :: "nat \<Rightarrow> u32"
  u_sp :: addr
  u_lr :: addr
  u_pc :: addr
  u_xpsr :: u32
  u_mem :: "addr \<Rightarrow> u32"

definition aapcs_call :: "u32 list \<Rightarrow> ucpu \<Rightarrow> ucpu" where
  "aapcs_call args c = c\<lparr>gpr := (\<lambda>i. if i < 4 \<and> i < length args then args ! i else gpr c i),
     u_mem := store_words (u_sp c) (drop 4 args) (u_mem c)\<rparr>"

definition frame_ptr :: "addr \<Rightarrow> addr" where
  "frame_ptr sp = (if bit sp 2 then sp - 0x24 else sp - 0x20)"

definition exception_entry :: "ucpu \<Rightarrow> addr \<Rightarrow> u32" where
  "exception_entry c = store_words (frame_ptr (u_sp c))
     [gpr c 0, gpr c 1, gpr c 2, gpr c 3, gpr c 12, u_lr c, u_pc c,
      if bit (u_sp c) 2 then u_xpsr c OR push_bit 9 1 else u_xpsr c AND NOT (push_bit 9 1)] (u_mem c)"

text \<open>
  \<^verbatim>\<open>svcall\<close>: \<open>argc\<close> is the immediate of the instruction, read through the return address; \<open>r\<close> are the registers at the entry and
  \<open>psp\<close> is the frame. The result has register 11, which is used for the fifth argument of a call with six.
\<close>

definition svcall :: "'s kvect \<Rightarrow> nat \<Rightarrow> (nat \<Rightarrow> u32) \<Rightarrow> addr \<Rightarrow> (addr \<Rightarrow> u32) \<Rightarrow> 's \<Rightarrow> (u32 \<times> (addr \<Rightarrow> u32) \<times> 's) option" where
  "svcall vect argc r psp m s = do {
     let lr = psp + (if m (psp + 0x1c) AND push_bit 9 1 = 0 then 0x20 else 0x24);
     (no, pushed) \<leftarrow>
       (if argc \<le> 3 then Some (r argc, [])
        else if argc = 4 then Some (m lr, [])
        else if argc = 5 then Some (m (lr + 4), [m lr])
        else if argc = 6 then Some (m (lr + 8), [m lr, m (lr + 4)])
        else None);
     fn \<leftarrow> vect (unat no);
     (r0, s) \<leftarrow> fn ([r 0, r 1, r 2, r 3] @ pushed) s;
     Some (if argc = 6 then m lr else r 11, m(psp := r0), s) }"

text \<open>\<^verbatim>\<open>svc #n; bx lr\<close>: the result is the register 0 of the frame.\<close>

record 's umachine =
  vect :: "'s kvect"
  cpu :: ucpu

definition do_syscall :: "nat \<Rightarrow> 's umachine \<Rightarrow> u32 list \<Rightarrow> u32 \<Rightarrow> 's \<Rightarrow> (u32 \<times> 's) option" where
  "do_syscall n k args no s = do {
     let c = aapcs_call (args @ [no]) (cpu k);
     let psp = frame_ptr (u_sp c);
     (_, m, s) \<leftarrow> svcall (vect k) n (gpr c) psp (exception_entry c) s;
     Some (m psp, s) }"

definition do_syscall0 :: "'s umachine \<Rightarrow> u32 \<Rightarrow> 's \<Rightarrow> (int \<times> 's) option" where
  "do_syscall0 k no s = map_option (apfst sint) (do_syscall 0 k [] no s)"

definition do_syscall1 :: "'s umachine \<Rightarrow> u32 \<Rightarrow> u32 \<Rightarrow> 's \<Rightarrow> (int \<times> 's) option" where
  "do_syscall1 k a0 no s = map_option (apfst sint) (do_syscall 1 k [a0] no s)"

definition do_syscall2 :: "'s umachine \<Rightarrow> u32 \<Rightarrow> u32 \<Rightarrow> u32 \<Rightarrow> 's \<Rightarrow> (int \<times> 's) option" where
  "do_syscall2 k a0 a1 no s = map_option (apfst sint) (do_syscall 2 k [a0, a1] no s)"

definition do_syscall3 :: "'s umachine \<Rightarrow> u32 \<Rightarrow> u32 \<Rightarrow> u32 \<Rightarrow> u32 \<Rightarrow> 's \<Rightarrow> (int \<times> 's) option" where
  "do_syscall3 k a0 a1 a2 no s = map_option (apfst sint) (do_syscall 3 k [a0, a1, a2] no s)"

definition do_syscall4 :: "'s umachine \<Rightarrow> u32 \<Rightarrow> u32 \<Rightarrow> u32 \<Rightarrow> u32 \<Rightarrow> u32 \<Rightarrow> 's \<Rightarrow> (int \<times> 's) option" where
  "do_syscall4 k a0 a1 a2 a3 no s = map_option (apfst sint) (do_syscall 4 k [a0, a1, a2, a3] no s)"

definition do_syscall5 :: "'s umachine \<Rightarrow> u32 \<Rightarrow> u32 \<Rightarrow> u32 \<Rightarrow> u32 \<Rightarrow> u32 \<Rightarrow> u32 \<Rightarrow> 's \<Rightarrow> (int \<times> 's) option" where
  "do_syscall5 k a0 a1 a2 a3 a4 no s = map_option (apfst sint) (do_syscall 5 k [a0, a1, a2, a3, a4] no s)"

definition do_syscall6 ::
    "'s umachine \<Rightarrow> u32 \<Rightarrow> u32 \<Rightarrow> u32 \<Rightarrow> u32 \<Rightarrow> u32 \<Rightarrow> u32 \<Rightarrow> u32 \<Rightarrow> 's \<Rightarrow> (int \<times> 's) option" where
  "do_syscall6 k a0 a1 a2 a3 a4 a5 no s = map_option (apfst sint) (do_syscall 6 k [a0, a1, a2, a3, a4, a5] no s)"

section \<open>The library functions\<close>

text \<open>\<^verbatim>\<open>int\<close> arguments are converted to pointers. \<open>Hangs s\<close>: an endless loop in the state \<open>s\<close>.\<close>

abbreviation ptr :: "int \<Rightarrow> u32" where "ptr i \<equiv> word_of_int i"

datatype 's hangs = Hangs 's

definition sched_yield :: "'s umachine \<Rightarrow> 's \<Rightarrow> (int \<times> 's) option" where
  "sched_yield k s = do_syscall0 k (SYS ''pthread_yield'') s"

definition pthread_self :: "'s umachine \<Rightarrow> 's \<Rightarrow> (int \<times> 's) option" where
  "pthread_self k s = do_syscall0 k (SYS ''pthread_self'') s"

definition pthread_exit :: "'s umachine \<Rightarrow> u32 \<Rightarrow> 's \<Rightarrow> 's hangs option" where
  "pthread_exit k retval s = map_option (\<lambda>(_, s). Hangs s) (do_syscall1 k retval (SYS ''pthread_exit'') s)"

definition pthread_detach :: "'s umachine \<Rightarrow> int \<Rightarrow> 's \<Rightarrow> (int \<times> 's) option" where
  "pthread_detach k thread s = do_syscall1 k (ptr thread) (SYS ''pthread_detach'') s"

definition pthread_create :: "'s umachine \<Rightarrow> addr \<Rightarrow> addr \<Rightarrow> u32 \<Rightarrow> u32 \<Rightarrow> 's \<Rightarrow> (int \<times> 's) option" where
  "pthread_create k thread attr start_routine arg s = do_syscall4 k thread attr start_routine arg (SYS ''pthread_create'') s"

definition pthread_join :: "'s umachine \<Rightarrow> int \<Rightarrow> addr \<Rightarrow> 's \<Rightarrow> (int \<times> 's) option" where
  "pthread_join k thread retval s = do_syscall2 k (ptr thread) retval (SYS ''pthread_join'') s"

definition pthread_cond_wait :: "'s umachine \<Rightarrow> addr \<Rightarrow> addr \<Rightarrow> 's \<Rightarrow> (int \<times> 's) option" where
  "pthread_cond_wait k cond mutex s = do_syscall2 k cond mutex (SYS ''pthread_cond_wait'') s"

definition pthread_cond_signal :: "'s umachine \<Rightarrow> addr \<Rightarrow> 's \<Rightarrow> (int \<times> 's) option" where
  "pthread_cond_signal k cond s = do_syscall1 k cond (SYS ''pthread_cond_signal'') s"

definition stub_open :: "'s umachine \<Rightarrow> addr \<Rightarrow> int \<Rightarrow> 's \<Rightarrow> (int \<times> 's) option" where
  "stub_open k pathname flags s = do_syscall2 k pathname (ptr flags) (SYS ''open'') s"

definition stub_close :: "'s umachine \<Rightarrow> int \<Rightarrow> 's \<Rightarrow> (int \<times> 's) option" where
  "stub_close k fd s = do_syscall1 k (ptr fd) (SYS ''close'') s"

definition stub_read :: "'s umachine \<Rightarrow> int \<Rightarrow> addr \<Rightarrow> u32 \<Rightarrow> 's \<Rightarrow> (int \<times> 's) option" where
  "stub_read k fd buf cnt s = do_syscall3 k (ptr fd) buf cnt (SYS ''read'') s"

definition stub_write :: "'s umachine \<Rightarrow> int \<Rightarrow> addr \<Rightarrow> u32 \<Rightarrow> 's \<Rightarrow> (int \<times> 's) option" where
  "stub_write k fd buf cnt s = do_syscall3 k (ptr fd) buf cnt (SYS ''write'') s"

definition stub_lseek :: "'s umachine \<Rightarrow> int \<Rightarrow> int \<Rightarrow> int \<Rightarrow> 's \<Rightarrow> (int \<times> 's) option" where
  "stub_lseek k fd offset whence s = do_syscall3 k (ptr fd) (ptr offset) (ptr whence) (SYS ''lseek'') s"

definition libc_open :: "'s umachine \<Rightarrow> addr \<Rightarrow> int \<Rightarrow> 's \<Rightarrow> (int \<times> 's) option" where
  "libc_open k pathname flag s = stub_open k pathname flag s"

definition libc_close :: "'s umachine \<Rightarrow> int \<Rightarrow> 's \<Rightarrow> (int \<times> 's) option" where
  "libc_close k fd s = stub_close k fd s"

definition libc_read :: "'s umachine \<Rightarrow> int \<Rightarrow> addr \<Rightarrow> u32 \<Rightarrow> 's \<Rightarrow> (int \<times> 's) option" where
  "libc_read k fd buf cnt s = stub_read k fd buf cnt s"

definition libc_write :: "'s umachine \<Rightarrow> int \<Rightarrow> addr \<Rightarrow> u32 \<Rightarrow> 's \<Rightarrow> (int \<times> 's) option" where
  "libc_write k fd buf cnt s = stub_write k fd buf cnt s"

definition libc_lseek :: "'s umachine \<Rightarrow> int \<Rightarrow> int \<Rightarrow> int \<Rightarrow> 's \<Rightarrow> (int \<times> 's) option" where
  "libc_lseek k fd offset whence s = stub_lseek k fd offset whence s"

definition libc_stat :: "'s umachine \<Rightarrow> addr \<Rightarrow> addr \<Rightarrow> 's \<Rightarrow> (int \<times> 's) option" where
  "libc_stat k pathname buf s = do_syscall2 k pathname buf (SYS ''stat'') s"

definition libc_mount :: "'s umachine \<Rightarrow> addr \<Rightarrow> addr \<Rightarrow> addr \<Rightarrow> u32 \<Rightarrow> addr \<Rightarrow> 's \<Rightarrow> (int \<times> 's) option" where
  "libc_mount k source target filesystemtype mountflags data s =
     do_syscall5 k source target filesystemtype mountflags data (SYS ''mount'') s"

definition opendir :: "'s umachine \<Rightarrow> addr \<Rightarrow> 's \<Rightarrow> (int \<times> 's) option" where
  "opendir k name s = do_syscall2 k name O_DIRECTORY (SYS ''open'') s"

definition readdir_r :: "'s umachine \<Rightarrow> addr \<Rightarrow> addr \<Rightarrow> addr \<Rightarrow> 's \<Rightarrow> (int \<times> 's) option" where
  "readdir_r k dirp entry result s = do_syscall3 k dirp entry result (SYS ''readdir_r'') s"

definition closedir :: "'s umachine \<Rightarrow> addr \<Rightarrow> 's \<Rightarrow> (int \<times> 's) option" where
  "closedir k dirp s = do_syscall1 k dirp (SYS ''close'') s"

definition libc_sigaction :: "'s umachine \<Rightarrow> int \<Rightarrow> addr \<Rightarrow> addr \<Rightarrow> 's \<Rightarrow> (int \<times> 's) option" where
  "libc_sigaction k sig act oact s = do_syscall3 k (ptr sig) act oact (SYS ''sigaction'') s"

definition stub_kill :: "'s umachine \<Rightarrow> int \<Rightarrow> int \<Rightarrow> 's \<Rightarrow> (int \<times> 's) option" where
  "stub_kill k p sig s = do_syscall2 k (ptr p) (ptr sig) (SYS ''kill'') s"

definition libc_timer_create :: "'s umachine \<Rightarrow> u32 \<Rightarrow> addr \<Rightarrow> addr \<Rightarrow> 's \<Rightarrow> (int \<times> 's) option" where
  "libc_timer_create k clockid sevp timerid s = do_syscall3 k clockid sevp timerid (SYS ''timer_create'') s"

definition libc_timer_settime :: "'s umachine \<Rightarrow> u32 \<Rightarrow> int \<Rightarrow> addr \<Rightarrow> addr \<Rightarrow> 's \<Rightarrow> (int \<times> 's) option" where
  "libc_timer_settime k timerid flags new_value old_value s =
     do_syscall4 k timerid (ptr flags) new_value old_value (SYS ''timer_settime'') s"

definition libc_timer_gettime :: "'s umachine \<Rightarrow> u32 \<Rightarrow> addr \<Rightarrow> 's \<Rightarrow> (int \<times> 's) option" where
  "libc_timer_gettime k timerid curr_value s = do_syscall2 k timerid curr_value (SYS ''timer_gettime'') s"

definition libc_sysconf :: "'s umachine \<Rightarrow> int \<Rightarrow> 's \<Rightarrow> (int \<times> 's) option" where
  "libc_sysconf k name s = do_syscall1 k (ptr name) (SYS ''sysconf'') s"

definition libc_msleep :: "'s umachine \<Rightarrow> u32 \<Rightarrow> 's \<Rightarrow> (u32 \<times> 's) option" where
  "libc_msleep k msecs s = map_option (apfst ptr) (do_syscall1 k msecs (SYS ''msleep'') s)"

definition libc_mmap :: "'s umachine \<Rightarrow> addr \<Rightarrow> u32 \<Rightarrow> int \<Rightarrow> int \<Rightarrow> int \<Rightarrow> int \<Rightarrow> 's \<Rightarrow> (addr \<times> 's) option" where
  "libc_mmap k a len prot flags fd offset s = map_option (apfst ptr)
     (do_syscall6 k a len (ptr prot) (ptr flags) (ptr fd) (ptr offset) (SYS ''mmap'') s)"

definition libc_munmap :: "'s umachine \<Rightarrow> addr \<Rightarrow> u32 \<Rightarrow> 's \<Rightarrow> (int \<times> 's) option" where
  "libc_munmap k a len s = do_syscall2 k a len (SYS ''munmap'') s"

definition stub_getpid :: "'s umachine \<Rightarrow> 's \<Rightarrow> (int \<times> 's) option" where
  "stub_getpid k s = do_syscall0 k (SYS ''getpid'') s"

section \<open>Passing arguments\<close>

text \<open>The words above the frame are those the caller put on its stack, whether or not the frame has a gap.\<close>

lemma exception_entry_above:
  assumes "j < 3"
  shows "exception_entry c (u_sp c + of_nat (4 * j)) = u_mem c (u_sp c + of_nat (4 * j))"
proof -
  have "u_sp c + of_nat (4 * j) \<noteq> frame_ptr (u_sp c) + of_nat (4 * i)" if "i < 8" for i
  proof
    assume eq: "u_sp c + of_nat (4 * j) = frame_ptr (u_sp c) + of_nat (4 * i)"
    define d :: nat where "d = (if bit (u_sp c) 2 then 0x24 else 0x20)"
    have "frame_ptr (u_sp c) = u_sp c - of_nat d"
      by (simp add: frame_ptr_def d_def)
    with eq have "(of_nat (4 * j + d) :: u32) = of_nat (4 * i)"
      by (simp add: algebra_simps)
    then have "unat (of_nat (4 * j + d) :: u32) = unat (of_nat (4 * i) :: u32)"
      by (simp only:)
    moreover have "unat (of_nat (4 * j + d) :: u32) = 4 * j + d"
      using assms by (intro unat_of_nat_small) (simp add: d_def)
    moreover have "unat (of_nat (4 * i) :: u32) = 4 * i"
      using that by (intro unat_of_nat_small) simp
    ultimately have "4 * j + d = 4 * i"
      by (simp only:)
    then show False
      using that by (simp add: d_def split: if_splits)
  qed
  then show ?thesis
    unfolding exception_entry_def by (intro store_words_off) simp
qed

lemma exception_entry_gap:
  "frame_ptr (u_sp c) + (if exception_entry c (frame_ptr (u_sp c) + 0x1c) AND push_bit 9 1 = 0 then 0x20 else 0x24) = u_sp c"
proof -
  define x where "x = (if bit (u_sp c) 2 then u_xpsr c OR push_bit 9 1 else u_xpsr c AND NOT (push_bit 9 1))"
  have "frame_at (exception_entry c) (frame_ptr (u_sp c))
      [gpr c 0, gpr c 1, gpr c 2, gpr c 3, gpr c 12, u_lr c, u_pc c, x]"
    unfolding exception_entry_def x_def by (intro store_words_frame) simp
  then have "exception_entry c (frame_ptr (u_sp c) + 0x1c) = x"
    unfolding frame_at_def by (auto dest: spec [of _ 7])
  moreover have "bit x 9 \<longleftrightarrow> bit (u_sp c) 2"
    by (simp add: x_def bit_simps)
  moreover have "x AND push_bit 9 1 = 0 \<longleftrightarrow> \<not> bit x 9"
    using and_exp_eq_0_iff_not_bit [of x 9] by (simp add: push_bit_of_1)
  ultimately show ?thesis
    by (simp add: frame_ptr_def)
qed

lemma four_regs: "i < 4 \<Longrightarrow> (f 0 # f (Suc 0) # f 2 # f 3 # xs) ! i = (f :: nat \<Rightarrow> 'a) i"
  by (cases i rule: nat.exhaust) (auto simp: less_Suc_eq numeral_eq_Suc)

text \<open>A function called through \<^verbatim>\<open>do_syscall\<close> finds the arguments in front of the words it is given.\<close>

lemma do_syscall_calls:
  assumes len: "length args \<le> 6" and fn: "vect k (unat no) = Some fn"
  shows "\<exists>rest. do_syscall (length args) k args no s = fn (args @ rest) s"
proof -
  define c where "c = aapcs_call (args @ [no]) (cpu k)"
  let ?n = "length args" and ?m = "exception_entry c" and ?sp = "u_sp c"
  have "frame_at (u_mem c) ?sp (drop 4 (args @ [no]))"
    using len unfolding c_def aapcs_call_def by (simp add: store_words_frame)
  then have above: "?m (?sp + of_nat (4 * j)) = (args @ [no]) ! (4 + j)" if "4 + j \<le> ?n" for j
    using that len exception_entry_above [of j c] unfolding frame_at_def
    by (auto simp: nth_append)
  have regs: "gpr c i = (args @ [no]) ! i" if "i < 4" "i \<le> ?n" for i
    using that by (simp add: c_def aapcs_call_def)
  define pushed where "pushed = drop 4 args"
  have pushed: "?n \<le> 4 \<Longrightarrow> pushed = []" "?n = 5 \<Longrightarrow> pushed = [args ! 4]" "?n = 6 \<Longrightarrow> pushed = [args ! 4, args ! 5]"
    unfolding pushed_def by (simp_all add: Cons_nth_drop_Suc [symmetric] eval_nat_numeral)
  have "svcall (vect k) ?n (gpr c) (frame_ptr ?sp) ?m s =
      Option.bind (fn ([gpr c 0, gpr c 1, gpr c 2, gpr c 3] @ pushed) s)
        (\<lambda>(r0, s). Some (if ?n = 6 then ?m ?sp else gpr c 11, ?m(frame_ptr ?sp := r0), s))"
    using len fn regs [of ?n] above [of 0] above [of 1] above [of 2]
    unfolding svcall_def exception_entry_gap Let_def
    by (auto simp: nth_append pushed)
  then have "do_syscall ?n k args no s = fn ([gpr c 0, gpr c 1, gpr c 2, gpr c 3] @ pushed) s"
    unfolding do_syscall_def Let_def c_def [symmetric]
    by (cases "fn ([gpr c 0, gpr c 1, gpr c 2, gpr c 3] @ pushed) s") auto
  moreover have "[gpr c 0, gpr c 1, gpr c 2, gpr c 3] @ pushed = args @ drop ?n ([gpr c 0, gpr c 1, gpr c 2, gpr c 3] @ pushed)"
  proof -
    have "take ?n ([gpr c 0, gpr c 1, gpr c 2, gpr c 3] @ pushed) = args"
    proof (rule nth_equalityI)
      fix i assume "i < length (take ?n ([gpr c 0, gpr c 1, gpr c 2, gpr c 3] @ pushed))"
      then show "take ?n ([gpr c 0, gpr c 1, gpr c 2, gpr c 3] @ pushed) ! i = args ! i"
        using regs [of i] by (cases "i < 4") (simp_all add: nth_append four_regs pushed_def)
    qed (simp add: pushed_def)
    then show ?thesis by (metis append_take_drop_id)
  qed
  ultimately show ?thesis by metis
qed

text \<open>
  The entry reads the registers it finds, not the frame. If an interrupt arrives while the frame of a call is being pushed,
  its handler runs first and the registers are what it left: the number of the call is then taken from there, although
  the frame has the right one.
\<close>

lemma svcall_live_registers:
  assumes "vect k (unat (live 1)) = Some fn'" and c: "c = aapcs_call [a0, no] (cpu k)"
  shows "svcall (vect k) 1 live (frame_ptr (u_sp c)) (exception_entry c) s =
      Option.bind (fn' [live 0, live 1, live 2, live 3] s)
        (\<lambda>(r0, s). Some (live 11, (exception_entry c)(frame_ptr (u_sp c) := r0), s))"
    and "exception_entry c (frame_ptr (u_sp c) + 4) = no"
proof -
  have "frame_at (exception_entry c) (frame_ptr (u_sp c))
      [gpr c 0, gpr c 1, gpr c 2, gpr c 3, gpr c 12, u_lr c, u_pc c,
       if bit (u_sp c) 2 then u_xpsr c OR push_bit 9 1 else u_xpsr c AND NOT (push_bit 9 1)]"
    unfolding exception_entry_def by (intro store_words_frame) simp
  then have "exception_entry c (frame_ptr (u_sp c) + 4) = gpr c 1"
    unfolding frame_at_def by (auto dest: spec [of _ 1])
  then show "exception_entry c (frame_ptr (u_sp c) + 4) = no"
    by (simp add: c aapcs_call_def)
qed (use assms(1) in \<open>simp add: svcall_def\<close>)

text \<open>A call with six arguments leaves the fifth one in register 11, which a function of the library has to preserve.\<close>

lemma svcall_r11:
  assumes "svcall (vect k) 6 (gpr c) (frame_ptr (u_sp c)) (exception_entry c) s = Some (r11, m, s')"
    and "c = aapcs_call [a0, a1, a2, a3, a4, a5, no] (cpu k)"
  shows "r11 = a4"
proof -
  have "frame_at (u_mem c) (u_sp c) [a4, a5, no]"
    unfolding assms(2) aapcs_call_def using store_words_frame [of "[a4, a5, no]"] by simp
  then have "exception_entry c (u_sp c) = a4"
    using exception_entry_above [of 0 c] unfolding frame_at_def by auto
  then show ?thesis
    using assms(1) unfolding svcall_def exception_entry_gap Let_def by (auto split: bind_splits)
qed

section \<open>Library functions and kernel functions\<close>

lemmas libc_wrappers = sched_yield_def pthread_self_def pthread_exit_def pthread_detach_def pthread_create_def pthread_join_def
  pthread_cond_wait_def pthread_cond_signal_def stub_open_def stub_close_def stub_read_def stub_write_def
  stub_lseek_def libc_open_def libc_close_def libc_read_def libc_write_def libc_lseek_def
  libc_stat_def libc_mount_def opendir_def readdir_r_def closedir_def libc_sigaction_def
  stub_kill_def libc_timer_create_def libc_timer_settime_def libc_timer_gettime_def libc_sysconf_def libc_msleep_def
  libc_mmap_def libc_munmap_def stub_getpid_def

lemma SYS_unat: "unat (SYS name) = length (takeWhile (\<lambda>x. x \<noteq> name) syscall_names)"
proof -
  have "length (takeWhile (\<lambda>x. x \<noteq> name) syscall_names) \<le> length syscall_names"
    by (rule length_takeWhile_le)
  also have "\<dots> < 2 ^ 32" by (simp add: syscall_names_def)
  finally show ?thesis
    unfolding SYS_def by (intro unat_of_nat_small) simp
qed

text \<open>The table has each function under the number of its name.\<close>

lemma syscall_vect_SYS:
  assumes "name \<in> set syscall_names"
  shows "syscall_vect sys (unat (SYS name)) = Some (sys name)"
proof -
  have "length (takeWhile (\<lambda>x. x \<noteq> name) syscall_names) < length syscall_names"
    using assms by (metis (full_types) length_takeWhile_le nat_less_le nth_mem takeWhile_eq_all_conv takeWhile_eq_take take_all_iff)
  then show ?thesis
    unfolding syscall_vect_def SYS_unat using nth_length_takeWhile [of "\<lambda>x. x \<noteq> name" syscall_names] by simp
qed

definition user_machine :: "(string \<Rightarrow> 's ksys) \<Rightarrow> ucpu \<Rightarrow> 's umachine" where
  "user_machine sys c = \<lparr> vect = syscall_vect sys, cpu = c \<rparr>"

lemma do_syscall_sys:
  assumes "name \<in> set syscall_names" "length args \<le> 6" "n = length args"
  shows "\<exists>rest. do_syscall n (user_machine sys c) args (SYS name) s = sys name (args @ rest) s"
  using do_syscall_calls [OF assms(2), of "user_machine sys c" "SYS name" "sys name" s] syscall_vect_SYS [OF assms(1), of sys] assms(3)
  by (simp add: user_machine_def)

text \<open>A call of the kernel function \<open>name\<close> with the arguments \<open>args\<close>, and what else is in registers and on the stack.\<close>

definition kcall :: "(string \<Rightarrow> 's ksys) \<Rightarrow> string \<Rightarrow> u32 list \<Rightarrow> 's \<Rightarrow> (int \<times> 's) option \<Rightarrow> bool" where
  "kcall sys name args s r \<longleftrightarrow> (\<exists>rest. r = map_option (apfst sint) (sys name (args @ rest) s))"

lemma ex_map_option: "\<exists>x. a = f x \<Longrightarrow> \<exists>x. map_option g a = map_option g (f x)"
  by auto

lemma kcall_do_syscall:
  fixes sys c
  assumes "name \<in> set syscall_names"
  defines "k \<equiv> user_machine sys c"
  shows "kcall sys name [] s (do_syscall0 k (SYS name) s)"
    and "kcall sys name [x] s (do_syscall1 k x (SYS name) s)"
    and "kcall sys name [x, y] s (do_syscall2 k x y (SYS name) s)"
    and "kcall sys name [x, y, z] s (do_syscall3 k x y z (SYS name) s)"
    and "kcall sys name [x, y, z, u] s (do_syscall4 k x y z u (SYS name) s)"
    and "kcall sys name [x, y, z, u, v] s (do_syscall5 k x y z u v (SYS name) s)"
    and "kcall sys name [x, y, z, u, v, w] s (do_syscall6 k x y z u v w (SYS name) s)"
  unfolding kcall_def do_syscall0_def do_syscall1_def do_syscall2_def do_syscall3_def do_syscall4_def do_syscall5_def
    do_syscall6_def k_def
  by (rule ex_map_option, rule do_syscall_sys [OF assms(1)]; simp)+

text \<open>
  C40. Whatever the machine's registers and stack are when a library function is called, and whichever functions
  the kernel has under the names of the table: the function enters the kernel function of its name (\<^verbatim>\<open>opendir\<close> that of
  \<^verbatim>\<open>open\<close>, \<^verbatim>\<open>closedir\<close> that of \<^verbatim>\<open>close\<close>) with its own arguments in order, those passed on the stack included, and its
  result is the kernel's. \<^verbatim>\<open>pthread_exit\<close> does not return even if the kernel does.
\<close>

theorem libc_calls_kernel:
  "kcall sys ''open'' [path, ptr flags] s (libc_open (user_machine sys c) path flags s)
    \<and> kcall sys ''close'' [ptr fd] s (libc_close (user_machine sys c) fd s)
    \<and> kcall sys ''read'' [ptr fd, buf, cnt] s (libc_read (user_machine sys c) fd buf cnt s)
    \<and> kcall sys ''write'' [ptr fd, buf, cnt] s (libc_write (user_machine sys c) fd buf cnt s)
    \<and> kcall sys ''lseek'' [ptr fd, ptr offset, ptr whence] s (libc_lseek (user_machine sys c) fd offset whence s)
    \<and> kcall sys ''stat'' [path, buf] s (libc_stat (user_machine sys c) path buf s)
    \<and> kcall sys ''mount'' [source, target, fstype, mflags, data] s
         (libc_mount (user_machine sys c) source target fstype mflags data s)
    \<and> kcall sys ''open'' [path, O_DIRECTORY] s (opendir (user_machine sys c) path s)
    \<and> kcall sys ''readdir_r'' [dirp, entry, result] s (readdir_r (user_machine sys c) dirp entry result s)
    \<and> kcall sys ''close'' [dirp] s (closedir (user_machine sys c) dirp s)
    \<and> kcall sys ''sigaction'' [ptr sig, act, oact] s (libc_sigaction (user_machine sys c) sig act oact s)
    \<and> kcall sys ''kill'' [ptr p, ptr sig] s (stub_kill (user_machine sys c) p sig s)
    \<and> kcall sys ''timer_create'' [clockid, sevp, timerid] s
         (libc_timer_create (user_machine sys c) clockid sevp timerid s)
    \<and> kcall sys ''timer_settime'' [timerid, ptr flags, new, old] s
         (libc_timer_settime (user_machine sys c) timerid flags new old s)
    \<and> kcall sys ''timer_gettime'' [timerid, new] s (libc_timer_gettime (user_machine sys c) timerid new s)
    \<and> kcall sys ''sysconf'' [ptr name] s (libc_sysconf (user_machine sys c) name s)
    \<and> (\<exists>r. kcall sys ''msleep'' [msecs] s r
         \<and> libc_msleep (user_machine sys c) msecs s = map_option (apfst ptr) r)
    \<and> (\<exists>r. kcall sys ''mmap'' [buf, cnt, ptr prot, ptr flags, ptr fd, ptr offset] s r
         \<and> libc_mmap (user_machine sys c) buf cnt prot flags fd offset s = map_option (apfst ptr) r)
    \<and> kcall sys ''munmap'' [buf, cnt] s (libc_munmap (user_machine sys c) buf cnt s)
    \<and> kcall sys ''getpid'' [] s (stub_getpid (user_machine sys c) s)
    \<and> kcall sys ''pthread_yield'' [] s (sched_yield (user_machine sys c) s)
    \<and> kcall sys ''pthread_self'' [] s (pthread_self (user_machine sys c) s)
    \<and> kcall sys ''pthread_detach'' [ptr t] s (pthread_detach (user_machine sys c) t s)
    \<and> kcall sys ''pthread_create'' [thread, attr, start, arg] s
         (pthread_create (user_machine sys c) thread attr start arg s)
    \<and> kcall sys ''pthread_join'' [ptr t, retval] s (pthread_join (user_machine sys c) t retval s)
    \<and> kcall sys ''pthread_cond_wait'' [cond, mutex] s (pthread_cond_wait (user_machine sys c) cond mutex s)
    \<and> kcall sys ''pthread_cond_signal'' [cond] s (pthread_cond_signal (user_machine sys c) cond s)
    \<and> (\<exists>r. kcall sys ''pthread_exit'' [retval] s r
         \<and> pthread_exit (user_machine sys c) retval s = map_option (\<lambda>(_, s). Hangs s) r)"
  unfolding libc_wrappers
  by (intro conjI; (rule kcall_do_syscall | rule exI, rule conjI [OF _ refl], rule kcall_do_syscall))
    (simp_all add: syscall_names_def)

section \<open>File system calls\<close>

text \<open>
  The kernel functions of the file system that only use the state \<open>fstate\<close>, on the words they are passed: the path of
  \<^verbatim>\<open>open\<close> is a string in memory.
\<close>

definition file_sys :: "fsyms \<Rightarrow> string \<Rightarrow> fstate ksys" where
  "file_sys sy name ws st =
     (if name = ''open'' \<and> 2 \<le> length ws then do {
        path \<leftarrow> cstr (fmem st) (ws ! 0);
        map_option (apfst word_of_int) (sys_open sy path (ws ! 1) st) }
      else if name = ''close'' \<and> 1 \<le> length ws then map_option (apfst word_of_int) (sys_close sy (sint (ws ! 0)) st)
      else if name = ''read'' \<and> 3 \<le> length ws then
        map_option (apfst word_of_int) (sys_read sy (sint (ws ! 0)) (ws ! 1) (ws ! 2) st)
      else if name = ''write'' \<and> 3 \<le> length ws then
        map_option (apfst word_of_int) (sys_write sy (sint (ws ! 0)) (ws ! 1) (ws ! 2) st)
      else if name = ''lseek'' \<and> 3 \<le> length ws then
        map_option (apfst word_of_int) (sys_lseek (sint (ws ! 0)) (sint (ws ! 1)) (sint (ws ! 2)) st)
      else None)"

abbreviation int32 :: "int \<Rightarrow> bool" where "int32 i \<equiv> - (2 ^ 31) \<le> i \<and> i < 2 ^ 31"

lemma sint_ptr: "int32 i \<Longrightarrow> sint (ptr i) = i"
  by (simp add: signed_of_int signed_take_bit_int_eq_self)

lemma ptr_sint: "ptr (sint w) = w"
  by simp

lemma sys_read_sint: "sys_read sy fd buf cnt st = Some (r, st') \<Longrightarrow> \<exists>w :: u32. r = sint w"
  by (auto simp: sys_read_def Let_def split: bind_splits prod.splits)

text \<open>For a program, reading from a descriptor is the kernel's function.\<close>

lemma libc_read_file:
  assumes "int32 fd"
  shows "libc_read (user_machine (file_sys sy) c) fd buf cnt st = sys_read sy fd buf cnt st"
proof -
  obtain rest where r: "libc_read (user_machine (file_sys sy) c) fd buf cnt st =
      map_option (apfst sint) (file_sys sy ''read'' ([ptr fd, buf, cnt] @ rest) st)"
    using kcall_do_syscall(4) [of "''read''" "file_sys sy" "ptr fd" buf cnt st c]
    by (auto simp: libc_read_def stub_read_def kcall_def syscall_names_def)
  show ?thesis
    unfolding r by (cases "sys_read sy fd buf cnt st")
      (auto simp: file_sys_def sint_ptr [OF assms] dest!: sys_read_sint)
qed

end
