(* ===== verification/Libc.thy ===== *)
theory Libc
  imports Syscall Sync Faults
begin

text \<open>
  The rest of the C library for programs: attributes and initialisers of \<^verbatim>\<open>libc/pthread.c\<close>, the lock operations of
  \<^verbatim>\<open>libc/v7m-pthread.S\<close>, which enter the kernel only for a mutex that is held or waited for, \<^verbatim>\<open>makecontext\<close> of \<^verbatim>\<open>libc/ucontext.c\<close>,
  the functions of \<^verbatim>\<open>libc/piko/stubs.c\<close> that print a message and loop, and the system call \<^verbatim>\<open>sys_sysconf\<close> of
  \<^verbatim>\<open>kernel/config.c\<close>.

  A null pointer to an attribute is \<open>None\<close>. The lock operations use a pair of exclusive load and store; a store that
  fails because of an interrupt repeats the pair, so their result is that of an attempt that is not interrupted, which
  is what is modelled. The lemmas show that they agree with the system calls they avoid.
\<close>

section \<open>Attributes and initialisers\<close>

record pthread_attr = stacksize :: u32

definition pthread_attr_setstacksize :: "pthread_attr option \<Rightarrow> u32 \<Rightarrow> int \<times> pthread_attr option" where
  "pthread_attr_setstacksize attr sz =
     (case attr of None \<Rightarrow> (- 1, None) | Some a \<Rightarrow> (0, Some (a\<lparr>stacksize := sz\<rparr>)))"

text \<open>The second component is what is stored through the pointer.\<close>

definition pthread_attr_getstacksize :: "pthread_attr option \<Rightarrow> int \<times> u32 option" where
  "pthread_attr_getstacksize attr = (case attr of None \<Rightarrow> (- 1, None) | Some a \<Rightarrow> (0, Some (stacksize a)))"

definition pthread_attr_default :: pthread_attr where
  "pthread_attr_default = \<lparr> stacksize = 1024 \<rparr>"

definition pthread_attr_init :: "pthread_attr option \<Rightarrow> int \<times> pthread_attr option" where
  "pthread_attr_init attr = (case attr of None \<Rightarrow> (- 1, None) | Some _ \<Rightarrow> (0, Some pthread_attr_default))"

definition pthread_mutex_init :: "addr \<Rightarrow> (addr \<Rightarrow> int) \<Rightarrow> int \<times> (addr \<Rightarrow> int)" where
  "pthread_mutex_init mutex vals = (0, vals(mutex := - 1))"

definition pthread_cond_init :: "addr \<Rightarrow> 's \<Rightarrow> int \<times> 's" where
  "pthread_cond_init cond s = (0, s)"

lemma attr_round_trip:
  assumes "pthread_attr_setstacksize (Some a) sz = (r, a')"
  shows "r = 0 \<and> pthread_attr_getstacksize a' = (0, Some sz)"
  using assms by (auto simp: pthread_attr_setstacksize_def pthread_attr_getstacksize_def)

lemma attr_init_value: "pthread_attr_getstacksize (snd (pthread_attr_init (Some a))) = (0, Some 1024)"
  by (simp add: pthread_attr_init_def pthread_attr_getstacksize_def pthread_attr_default_def)

section \<open>Locks\<close>

definition pthread_mutex_lock :: "addr \<Rightarrow> kstate \<Rightarrow> (outcome \<times> kstate) option" where
  "pthread_mutex_lock m st =
     (if mutex_val st m = - 1 then Some (Returned 0, st\<lparr>mutex_val := (mutex_val st)(m := 0)\<rparr>)
      else sys_pthread_mutex_lock m st)"

definition pthread_mutex_trylock :: "addr \<Rightarrow> kstate \<Rightarrow> int \<times> kstate" where
  "pthread_mutex_trylock m st =
     (if mutex_val st m = - 1 then (0, st\<lparr>mutex_val := (mutex_val st)(m := 0)\<rparr>) else (- 1, st))"

definition pthread_mutex_unlock :: "addr \<Rightarrow> kstate \<Rightarrow> (outcome \<times> kstate) option" where
  "pthread_mutex_unlock m st =
     (if mutex_val st m = 0 then Some (Returned 0, st\<lparr>mutex_val := (mutex_val st)(m := - 1)\<rparr>)
      else sys_pthread_mutex_unlock m st)"

text \<open>A lock that is not entered through the kernel has the effect of the system call.\<close>

lemma pthread_mutex_lock_eq: "pthread_mutex_lock m st = sys_pthread_mutex_lock m st"
  by (simp add: pthread_mutex_lock_def sys_pthread_mutex_lock_def add_val_def)

lemma pthread_mutex_unlock_eq:
  assumes "ti_state (threads st (cur st)) \<noteq> THREAD_STATE_BLOCKED"
  shows "pthread_mutex_unlock m st = sys_pthread_mutex_unlock m st"
  using assms by (simp add: pthread_mutex_unlock_def sys_pthread_mutex_unlock_def mutex_unlock_wake_def add_val_def)

text \<open>
  Over a mutex that was initialised, an attempt succeeds once, the next one fails without an effect, and after an unlock
  the mutex is as it was initialised.
\<close>

lemma trylock_round_trip:
  assumes "snd (pthread_mutex_init m vals) = mutex_val st"
  shows "\<exists>st'. pthread_mutex_trylock m st = (0, st') \<and> pthread_mutex_trylock m st' = (- 1, st')
    \<and> pthread_mutex_unlock m st' = Some (Returned 0, st)"
proof -
  have v: "mutex_val st m = - 1"
    using assms by (metis fun_upd_same pthread_mutex_init_def snd_conv)
  then have "(mutex_val st)(m := - 1) = mutex_val st"
    by (metis fun_upd_triv)
  with v show ?thesis
    by (simp add: pthread_mutex_trylock_def pthread_mutex_unlock_def)
qed

section \<open>Contexts\<close>

record mcontext =
  mc_sp :: u32
  mc_lr :: u32
  gprs :: "u32 list"
  mc_pc :: u32

record ucontext =
  uc_link :: addr
  ss_sp :: addr
  uc_mcontext :: mcontext

text \<open>
  The loop over the variable arguments. An argument that was not passed is a fault, and so is an index outside the
  thirteen registers.
\<close>

fun set_gprs :: "nat \<Rightarrow> int \<Rightarrow> u32 list \<Rightarrow> u32 list \<Rightarrow> u32 list option" where
  "set_gprs i argc args regs =
     (if int i < argc \<and> i < 4 then
        (case args of [] \<Rightarrow> None
         | a # as \<Rightarrow> if i < length regs then set_gprs (Suc i) argc as (regs[i := a]) else None)
      else Some regs)"

declare set_gprs.simps [simp del]

definition makecontext ::
    "addr \<Rightarrow> addr \<Rightarrow> u32 \<Rightarrow> int \<Rightarrow> u32 list \<Rightarrow> ucontext \<times> (addr \<Rightarrow> u32) \<Rightarrow> (ucontext \<times> (addr \<Rightarrow> u32)) option" where
  "makecontext return_from_makecontext ucp func argc args s = do {
     let (uc, m) = s;
     regs \<leftarrow> (if argc \<noteq> 0 then set_gprs 0 argc args (gprs (uc_mcontext uc)) else Some (gprs (uc_mcontext uc)));
     let sp = ss_sp uc - 4;
     let m = m(sp := ucp);
     Some (uc\<lparr>ss_sp := sp, uc_mcontext := \<lparr> mc_sp = sp, mc_lr = return_from_makecontext, gprs = regs, mc_pc = func OR 1 \<rparr>\<rparr>, m) }"

lemma set_gprs_eq:
  assumes "length regs = 13" "i \<le> 4" "nat argc - i \<le> length args"
  shows "\<exists>regs'. set_gprs i argc args regs = Some regs' \<and> length regs' = 13
    \<and> (\<forall>j<13. regs' ! j = (if i \<le> j \<and> j < 4 \<and> int j < argc then args ! (j - i) else regs ! j))"
  using assms
proof (induction i argc args regs rule: set_gprs.induct)
  case (1 i argc args regs)
  show ?case
  proof (cases "int i < argc \<and> i < 4")
    case True
    then obtain a as where args: "args = a # as"
      using "1.prems"(3) by (cases args) auto
    have "\<exists>regs'. set_gprs (Suc i) argc as (regs[i := a]) = Some regs' \<and> length regs' = 13
      \<and> (\<forall>j<13. regs' ! j = (if Suc i \<le> j \<and> j < 4 \<and> int j < argc then as ! (j - Suc i) else regs[i := a] ! j))"
      using "1.prems" True args by (intro "1.IH") auto
    then obtain regs' where r: "set_gprs (Suc i) argc as (regs[i := a]) = Some regs'" "length regs' = 13"
      and e: "\<And>j. j < 13 \<Longrightarrow> regs' ! j = (if Suc i \<le> j \<and> j < 4 \<and> int j < argc then as ! (j - Suc i) else regs[i := a] ! j)"
      by blast
    have "regs' ! j = (if i \<le> j \<and> j < 4 \<and> int j < argc then args ! (j - i) else regs ! j)" if "j < 13" for j
      using e [OF that] True args "1.prems"(1) that by (cases "j = i") (auto simp: nth_Cons' split: if_splits)
    with r True args "1.prems" show ?thesis
      by (subst set_gprs.simps) simp
  qed (use "1.prems" in \<open>auto simp: set_gprs.simps [of i]\<close>)
qed

text \<open>
  The context that \<^verbatim>\<open>makecontext\<close> leaves starts the function in Thumb mode with the first four arguments in the registers,
  on a stack whose top is the address of the context, and returns to \<^verbatim>\<open>return_from_makecontext\<close>. Arguments after the fourth are
  not passed at all.
\<close>

lemma makecontext_starts:
  assumes "length (gprs (uc_mcontext uc)) = 13" "0 \<le> argc" "nat argc \<le> length args"
  shows "\<exists>uc' m'. makecontext rfm ucp func argc args (uc, m) = Some (uc', m')
    \<and> m' (ss_sp uc') = ucp \<and> ss_sp uc' + 4 = ss_sp uc \<and> mc_sp (uc_mcontext uc') = ss_sp uc'
    \<and> mc_lr (uc_mcontext uc') = rfm \<and> bit (mc_pc (uc_mcontext uc')) 0 \<and> mc_pc (uc_mcontext uc') AND NOT 1 = func AND NOT 1
    \<and> take (min 4 (nat argc)) (gprs (uc_mcontext uc')) = take (min 4 (nat argc)) args
    \<and> drop (min 4 (nat argc)) (gprs (uc_mcontext uc')) = drop (min 4 (nat argc)) (gprs (uc_mcontext uc))
    \<and> (\<forall>a. a \<noteq> ss_sp uc' \<longrightarrow> m' a = m a)"
proof -
  let ?k = "min 4 (nat argc)" and ?R = "gprs (uc_mcontext uc)"
  obtain regs where r: "set_gprs 0 argc args ?R = Some regs" "length regs = 13"
    and e: "\<And>j. j < 13 \<Longrightarrow> regs ! j = (if j < 4 \<and> int j < argc then args ! j else ?R ! j)"
    using set_gprs_eq [of ?R 0 argc args] assms by auto
  have "take ?k regs = take ?k args" "drop ?k regs = drop ?k ?R"
    using e r(2) assms by (auto intro!: nth_equalityI)
  moreover have pc: "(func OR 1) AND (- 2) = func AND (- 2)"
    by (auto intro!: bit_word_eqI simp: bit_simps)
  moreover have "argc = 0 \<Longrightarrow> regs = ?R"
    using r(1) by (simp add: set_gprs.simps)
  ultimately show ?thesis
    using r(1) by (auto simp: makecontext_def Let_def bit_simps pc)
qed

section \<open>Configuration values\<close>

text \<open>\<open>sc_clk_tck\<close> is \<^verbatim>\<open>_SC_CLK_TCK\<close> of the C library's header.\<close>

definition sys_params :: "(string \<times> int) list" where
  "sys_params = [(''pagesize'', 2048), (''clock_tick'', 0)]"

definition sys_sysconf :: "int \<Rightarrow> int \<Rightarrow> int" where
  "sys_sysconf sc_clk_tck name =
     (if name = 0 then snd (sys_params ! 0) else if name = sc_clk_tck then snd (sys_params ! 1) else - 1)"

text \<open>The page size is that of the largest pages of the page allocator.\<close>

lemma sysconf_pagesize:
  "size_to_page_order sz = int ord \<Longrightarrow> 2 ^ page_shift ord \<le> sys_sysconf tck 0" "2 ^ page_shift 3 = sys_sysconf tck 0"
  by (auto simp: sys_sysconf_def sys_params_def size_to_page_order_def page_shift_eq split: if_splits)

section \<open>Functions that are not implemented\<close>

definition HANGS_ON :: "string \<Rightarrow> console \<Rightarrow> console hangs option" where
  "HANGS_ON func con = do {
     (_, con) \<leftarrow> printk (map chr ''error: Newlib needs %s'') [Arg_str (map chr func)] con;
     Some (Hangs con) }"

definition stub_isatty :: "int \<Rightarrow> console \<Rightarrow> console hangs option" where
  "stub_isatty fd con = HANGS_ON ''_isatty'' con"

definition stub_fstat :: "console \<Rightarrow> console hangs option" where
  "stub_fstat con = HANGS_ON ''_fstat'' con"

definition stub_sbrk :: "int \<Rightarrow> console \<Rightarrow> console hangs option" where
  "stub_sbrk incr con = HANGS_ON ''_sbrk'' con"

definition stub_exit :: "int \<Rightarrow> console \<Rightarrow> console hangs option" where
  "stub_exit status con = HANGS_ON ''_exit'' con"

definition stub_times :: "console \<Rightarrow> console hangs option" where
  "stub_times con = HANGS_ON ''_times'' con"

definition stub_fini :: "console \<Rightarrow> console hangs option" where
  "stub_fini con = HANGS_ON ''_fini'' con"

text \<open>Each of them prints its name and does not return.\<close>

lemma putchar_line: "10 \<notin> set s \<Longrightarrow> concat (map printk_putchar s) = s"
  by (induction s) (auto simp: printk_putchar_def)

lemma HANGS_ON_prints:
  assumes "\<forall>c\<in>set func. chr c \<noteq> 0 \<and> chr c \<noteq> 10" "length func < 200"
  shows "\<exists>con'. HANGS_ON func con = Some (Hangs con') \<and> con_out con' = con_out con @ map chr (''error: Newlib needs '' @ func)"
proof -
  let ?its = "lits ''error: Newlib needs '' @ [Str (map chr func)]" and ?out = "map chr (''error: Newlib needs '' @ func)"
  have ok: "items_ok False ?its"
    using assms(1) by (auto simp: items_ok_lits plain_num_def chr_def)
  have out: "?out = concat (map item_out ?its)"
    by simp
  have len: "length ?out < 256" using assms(2) by simp
  have line: "concat (map printk_putchar ?out) = ?out"
    using assms(1) by (intro putchar_line) (auto simp: chr_def)
  have "map chr ''error: Newlib needs %s'' = concat (map item_fmt ?its)"
    by simp
  from printk_items [OF ok out len this refl, of con] line show ?thesis
    by (auto simp: HANGS_ON_def)
qed

end
