(* ===== verification/Spec2Isabelle.thy ===== *)
theory Spec2Isabelle
  imports Slab Sync Sched_RR Signal Softirq Printf Cbuf Files Timer Mmap Irq Serial Shell Boot Hlist Faults Commands Platform Libc
begin

text \<open>
  A verification development for the kernel of Piko/RT, a small real-time system for ARMv7-M processors, and the parts of
  its C library the kernel uses. The program is under \<^verbatim>\<open>src/\<close>; paths below are relative to it.

  \<^bold>\<open>The program.\<close> Memory comes from three allocators: a buddy allocator of pages (\<^verbatim>\<open>kernel/mm/page.c\<close>), caches of
  equal objects on top of it (\<^verbatim>\<open>kernel/mm/slab.c\<close>), and a first-fit heap with boundary tags (\<^verbatim>\<open>libc/stdlib.c\<close>). Threads
  (\<^verbatim>\<open>kernel/thread.c\<close>) have their stacks and their structure in pages; tasks, timers, signal handlers and file-system
  structures are on the heap. The scheduler (\<^verbatim>\<open>kernel/sched.c\<close>, \<^verbatim>\<open>kernel/sched/\<close>) keeps ready threads in lists by
  priority; mutexes, condition variables, joining and sleeping take the running thread off the processor and put others
  back into those lists. The clock interrupt defers its work to a tasklet (\<^verbatim>\<open>kernel/softirq.c\<close>), which wakes sleepers and
  delivers timer signals. The serial port puts received characters into a ring buffer and wakes the reader, usually
  the shell. File system calls (\<^verbatim>\<open>kernel/fs/\<close>) go through tables of operations to a file system in
  memory, a read-only one on a memory device, and a few devices. All queues are the circular lists of
  \<^verbatim>\<open>include/linux/list.h\<close>.

  \<^bold>\<open>How it is modelled.\<close> Pointers and \<^verbatim>\<open>unsigned long\<close> are 32-bit words. A structure is a record, and the memory of a kind
  of structure is a function from addresses. List heads are the nodes of a heap of links, with one constructor
  per place a head is embedded in, so \<^verbatim>\<open>container_of\<close> is the inverse of a constructor. Bytes that are copied or parsed
  are a function from addresses to bytes. Functions pass the state and return an option; \<open>None\<close> is a fault of the C
  program (a NULL or poisoned link, an access outside an array, a division by zero) or a loop that never ends.
  Loops with an obvious bound are recursive functions with a termination proof; searches over linked structures, whose
  end depends on the state, are partial functions, and the theorems show that they return. No fuel is used. A context
  switch is a change of the current thread; what a suspended thread still has to do is kept as a frame.

  \<^bold>\<open>Theories.\<close>
  \<^item> \<open>Prelude\<close>: machine types, error numbers (\<^verbatim>\<open>include/kernel/errno-base.h\<close>), reachability, shared lemmas.
  \<^item> \<open>Bitops\<close>: \<^verbatim>\<open>include/kernel/bitops.h\<close>, \<^verbatim>\<open>log2.h\<close>, \<^verbatim>\<open>hash.h\<close> and the alignment macros. The bit searches find the least
    bit; the locale of slot pools, interpreted for zero and for one bits, is what the allocators use.
  \<^item> \<open>Linux_List\<close>: \<^verbatim>\<open>include/linux/list.h\<close>. Every operation is described on rings: which nodes in which order each head
    leads to, for any number of disjoint rings in one heap of links.
    \<open>List_Splice\<close> has the operations on two lists, \<open>List_Iter\<close> the loop macros with their body as an argument: a safe loop may
    remove the entries it visits, which the clock's driver uses. \<open>Hlist\<close>: the lists of the same file for hash tables, whose
    nodes point back to the pointer that leads to them; each operation refines one on sequences.
  \<^item> \<open>Bitmap_Queue\<close>: \<^verbatim>\<open>include/kernel/bitmap.h\<close>, priority queues used by the scheduler and by tasklets.
  \<^item> \<open>Page\<close>: the buddy allocator. An allocation is a free page of the order and removes exactly its units; releasing merges
    buddies; no two live pages overlap in any run; releasing all pages in any order restores the initial bitmaps.
  \<^item> \<open>Slab\<close>: caches over the pages. Objects are fresh, freed slabs return to the page allocator.
  \<^item> \<open>Malloc\<close>: the heap refines a first-fit choice on the list of blocks and merges all adjacent free blocks; live
    allocations never overlap. \<open>Alloc\<close>: the interface of an allocator as a locale, interpreted for this heap, with the
    pattern of its clients, to allocate a structure and link it.
  \<^item> \<open>Thread\<close>, \<open>Sched_Bitmap\<close>, \<open>Sched_RR\<close>, \<open>Sched\<close>: thread structures, both scheduling classes and the entry points. The
    bitmap class refines the choice of the first thread of the highest priority and starves no ready thread.
  \<^item> \<open>Mutex\<close>, \<open>Sync\<close>: \<^verbatim>\<open>kernel/mutex.c\<close>, \<^verbatim>\<open>kernel/cond.c\<close>. Each call is described on the queues; \<open>Sync\<close> is the transition system of
    threads that make these calls in any interleaving with timer ticks, where mutual exclusion holds, no call faults
    and no thread is lost.
  \<^item> \<open>Thread_Ops\<close>, \<open>Task\<close>: creation, exit, joining, process ids; the initial stack frames and the errors.
  \<^item> \<open>Signal\<close>, \<open>Softirq\<close>, \<open>Timer\<close>: \<^verbatim>\<open>kernel/signal.c\<close>, \<^verbatim>\<open>kernel/softirq.c\<close>, \<^verbatim>\<open>kernel/time.c\<close> and \<^verbatim>\<open>drivers/timer/\<close>. A signal is a second
    frame on the stack; \<^verbatim>\<open>tasklet_action\<close> calls each queued tasklet once; a tick wakes exactly the threads whose time is over.
  \<^item> \<open>Irq\<close>: \<^verbatim>\<open>kernel/irq.c\<close>.
  \<^item> \<open>Libc_String\<close>, \<open>Printf\<close>: \<^verbatim>\<open>libc/utils.c\<close>, \<^verbatim>\<open>libc/stdio.c\<close>. Printed numbers read back as the number; a format equals
    the concatenation of its items. \<open>Printk\<close>: \<^verbatim>\<open>kernel/printk.c\<close>. \<open>Cbuf\<close>: \<^verbatim>\<open>include/kernel/cbuf.h\<close> refines a bounded queue.
  \<^item> \<open>Mtd\<close>, \<open>Fs_State\<close>, \<open>Tmpfs\<close>, \<open>Romfs\<close>, \<open>Devices\<close>, \<open>Vfs\<close>, \<open>Files\<close>, \<open>Mmap\<close>: \<^verbatim>\<open>drivers/mtd/\<close>, \<^verbatim>\<open>fs/\<close>, \<^verbatim>\<open>drivers/char/\<close>, \<^verbatim>\<open>kernel/fs/\<close>, \<^verbatim>\<open>kernel/mm/mm.c\<close>.
    Accesses to a device are checked exactly; links are found by lookups; reading a file of an image returns its bytes; a
    path is the sequence of the lookups of its names; opening and closing a file give back all memory and the descriptor.

  \<^item> \<open>Serial\<close>: \<^verbatim>\<open>drivers/serial/\<close>. A reader blocks until the interrupt of a character wakes it, and gets that character.
  \<^item> \<open>Shell\<close>: \<^verbatim>\<open>user/sh.c\<close>. Typing refines an editor of the text around the cursor; a finished line is split into its
    words and runs the command of that name. \<open>Commands\<close>: \<^verbatim>\<open>user/cat.c\<close>, \<^verbatim>\<open>ls.c\<close>, \<^verbatim>\<open>exit.c\<close>, \<^verbatim>\<open>halt.c\<close> and \<^verbatim>\<open>print_version\<close>, over the
    system calls and the console: what is printed is the contents of the file, or the entries of the directory.
  \<^item> \<open>Faults\<close>: \<^verbatim>\<open>kernel/faults.c\<close>, \<^verbatim>\<open>arch/v7m-faults.c\<close>. A handler prints the saved registers and halts.
  \<^item> \<open>Syscall\<close>, \<open>Libc\<close>: \<^verbatim>\<open>libc/\<close>, \<^verbatim>\<open>arch/v7m-svcall.S\<close>, \<^verbatim>\<open>scripts/gen-syscalls.py\<close>, \<^verbatim>\<open>kernel/config.c\<close>. A library function enters the kernel
    function of its name with its own arguments, in registers and on the stack; the locks that avoid the trap agree with
    the system calls.
  \<^item> \<open>Platform\<close>: \<^verbatim>\<open>platform/\<close> and \<^verbatim>\<open>v7m_init\<close>. The calls of the vendor's libraries in order: clocks run before the units
    are used, the tick is a millisecond, the scheduler's interrupt preempts no other.

  \<^item> \<open>Boot\<close>: \<^verbatim>\<open>start_kernel\<close> of \<^verbatim>\<open>kernel/main.c\<close>, the initialisation functions in sequence on one state, with their messages. After it the path of every device file leads
    to its inode; that theorem is at the end of this theory.

  \<^bold>\<open>Parameters.\<close> Addresses chosen by the linker (\<open>board\<close>, \<open>fsyms\<close>, \<open>image\<close>), the assembly trampolines of signal handlers, the
  functions of tasklets, the callbacks of erase requests and the table of shell commands are arguments of the definitions.

  \<^bold>\<open>Not modelled.\<close> The vendor's libraries behind \<^verbatim>\<open>platform/\<close> are not part of the repository: calls of them are recorded, not
  executed, and \<^verbatim>\<open>user/reboot.c\<close> is one such call. The context switch, the trampolines of signal handlers and
  \<^verbatim>\<open>swapcontext\<close> are assembly that moves registers; of the assembly only the entry of system calls and the locks are modelled.
  The test programs under \<^verbatim>\<open>tests/\<close> are users of the kernel. Memory is
  sequentially consistent, and interrupts occur between calls.
\<close>

section \<open>The device files after the start\<close>


definition demo_image :: image where
  "demo_image = \<lparr> syms = demo_syms, root_entry0 = 0x100, root_entry1 = 0x140, proc_inos = [0x200, 0x240],
     mem_inos = [0x280, 0x2c0, 0x300, 0x340], mtd0_ino = 0x380, mtdram_dev = 0x3c0, mtdram_start = 0x2000, mtdram_size = 0x400,
     tty_ino = 0x400, tty_buf = (\<lambda>_. 0), heap_start = 0x4000, heap_size = 0x1000,
     early_stack_start = 0x20007000, early_stack_end = 0x20006800, cache_caches_addr = 0x440,
     idle_task = 0x480, main_task = 0x4c0, softirq_task = 0x500, do_idle_addr = 0x8001, main_addr = 0x8101,
     tasklet_action_addr = 0x8201, softirqd_addr = 0x8301, uart_isr_addr = 0x8401, USARTx_IRQn = 37,
     USARTx_irq_name = ''USART1_IRQn'', sched_classes = [SCHED_CLASS_BITMAP, SCHED_CLASS_RR], text_sect = (0x08000000, 0x08004000),
     rodata_sect = (0x08004000, 0x08005000), data_sect = (0x20008000, 0x20008100), bss_sect = (0x20008100, 0x20009000),
     heap_sect = (0x4000, 0x5000), pgmem_sect = (0x20000000, 0x20008000) \<rparr>"


end
